(* ===== verification/Prelude.thy ===== *)
theory Prelude
  imports Main "HOL-Library.Word" "HOL-Library.Monad_Syntax"
begin

unbundle bit_operations_syntax

section \<open>Machine words, pointers and the C heap\<close>

text \<open>
  What all components share: the integer and pointer types of the target (an ATmega2560:
  \<open>int\<close>, \<open>unsigned int\<close>, \<open>size_t\<close> and every pointer have 16 bits), typed heaps with
  undefined behaviour as \<open>None\<close>, the C library's \<open>malloc\<close> and \<open>free\<close>, signed arithmetic
  whose overflow is undefined, and the generic lemmas on these.

  Addresses are block identities as in the C abstract machine: \<open>malloc\<close> never returns the
  address of an earlier block, and a read or write through \<open>NULL\<close>, through a freed or a
  never allocated address is undefined behaviour. A computation of type \<open>'a option\<close>
  returns \<open>None\<close> exactly when the C code would run into undefined behaviour (or would not
  return, in the loops defined by \<^theory_text>\<open>partial_function\<close>).
\<close>

type_synonym u8 = "8 word"
type_synonym u16 = "16 word"
type_synonym addr = "16 word"
type_synonym 'a heap = "addr \<rightharpoonup> 'a"

abbreviation NULL :: addr where
  "NULL \<equiv> 0"

named_theorems heap_simps "evaluation of heap reads and writes"

subsection \<open>Evaluation order\<close>

text \<open>
  The continuation of a bind is simplified only after its first argument has become
  \<open>Some\<close>: without this a recursive loop body would be unfolded under the binder.
\<close>

lemma option_bind_weak_cong [cong]:
  "m = m' \<Longrightarrow> Option.bind m f = Option.bind m' f"
  by simp

lemma bind_SomeE:
  assumes "Option.bind m f = Some y"
  obtains x where "m = Some x" and "f x = Some y"
  using assms by (cases m) auto

lemma bind_Some2E:
  assumes "Option.bind m (\<lambda>(a, b). f a b) = Some y"
  obtains a b where "m = Some (a, b)" and "f a b = Some y"
  using assms by (cases m) auto

lemma bind_Some3E:
  assumes "Option.bind m (\<lambda>(a, b, c). f a b c) = Some y"
  obtains a b c where "m = Some (a, b, c)" and "f a b c = Some y"
  using assms by (cases m) auto

lemma bind_Some4E:
  assumes "Option.bind m (\<lambda>(a, b, c, d). f a b c d) = Some y"
  obtains a b c d where "m = Some (a, b, c, d)" and "f a b c d = Some y"
  using assms by (cases m) auto

lemma case_SomeE:
  assumes "(case x of (a, b) \<Rightarrow> f a b) = Some y"
  obtains a b where "x = (a, b)" and "f a b = Some y"
  using assms by (cases x) auto

lemmas bind_SomeEs = bind_Some4E bind_Some3E bind_Some2E bind_SomeE

subsection \<open>Typed heaps\<close>

definition rd :: "'a heap \<Rightarrow> addr \<Rightarrow> 'a option" where
  "rd h p = (if p = NULL then None else h p)"

definition wr :: "'a heap \<Rightarrow> addr \<Rightarrow> ('a \<Rightarrow> 'a) \<Rightarrow> 'a heap option" where
  "wr h p f = (case rd h p of None \<Rightarrow> None | Some v \<Rightarrow> Some (h(p \<mapsto> f v)))"

definition free :: "'a heap \<Rightarrow> addr \<Rightarrow> 'a heap option" where
  "free h p = (if p = NULL then Some h
     else case h p of None \<Rightarrow> None | Some _ \<Rightarrow> Some (h(p := None)))"

lemma rd_NULL [simp]: "rd h NULL = None"
  by (simp add: rd_def)

lemma rd_Some_iff: "rd h p = Some v \<longleftrightarrow> p \<noteq> NULL \<and> h p = Some v"
  by (simp add: rd_def)

lemma rd_SomeI [heap_simps]: "p \<noteq> NULL \<Longrightarrow> h p = Some v \<Longrightarrow> rd h p = Some v"
  by (simp add: rd_def)

lemma rd_upd [heap_simps]:
  "rd (h(p \<mapsto> v)) q = (if q = p \<and> p \<noteq> NULL then Some v else rd h q)"
  by (simp add: rd_def)

lemma rd_del [heap_simps]:
  "rd (h(p := None)) q = (if q = p then None else rd h q)"
  by (simp add: rd_def)

lemma wr_Some_iff:
  "wr h p f = Some h' \<longleftrightarrow> (\<exists>v. rd h p = Some v \<and> h' = h(p \<mapsto> f v))"
  by (auto simp: wr_def split: option.splits)

lemma wr_Some [heap_simps]: "rd h p = Some v \<Longrightarrow> wr h p f = Some (h(p \<mapsto> f v))"
  by (simp add: wr_def)

lemma wr_None_iff: "wr h p f = None \<longleftrightarrow> rd h p = None"
  by (auto simp: wr_def split: option.splits)

lemma wr_NULL [simp]: "wr h NULL f = None"
  by (simp add: wr_def)

lemma free_NULL [simp]: "free h NULL = Some h"
  by (simp add: free_def)

lemma free_Some [heap_simps]:
  "rd h p = Some v \<Longrightarrow> free h p = Some (h(p := None))"
  by (simp add: free_def rd_Some_iff)

subsection \<open>The C library's allocator\<close>

text \<open>
  \<open>brk\<close> counts the allocation requests so far, \<open>oom n\<close> says that the \<open>n\<close>-th request finds
  no memory: \<open>malloc\<close> then returns \<open>NULL\<close>, as it does once the 16-bit address space is
  used up. Nothing is assumed about \<open>oom\<close>, so every pattern of failing requests is covered.
\<close>

record allocator =
  brk :: nat
  oom :: "nat \<Rightarrow> bool"

definition malloc :: "allocator \<Rightarrow> addr \<times> allocator" where
  "malloc al = (let n = Suc (brk al); al' = al\<lparr>brk := n\<rparr>
     in (if oom al n \<or> n \<ge> 2 ^ 16 then NULL else word_of_nat n, al'))"

definition fresh_above :: "allocator \<Rightarrow> 'a heap \<Rightarrow> bool" where
  "fresh_above al h \<longleftrightarrow> (\<forall>a \<in> dom h. unat a \<le> brk al)"

lemma unat_malloc:
  assumes "malloc al = (p, al')" and "p \<noteq> NULL"
  shows "unat p = Suc (brk al)"
proof -
  from assms have "Suc (brk al) < 2 ^ 16" and "p = word_of_nat (Suc (brk al))"
    by (auto simp: malloc_def Let_def split: if_splits)
  then show ?thesis by (simp add: unat_of_nat del: of_nat_Suc)
qed

lemma malloc_brk: "malloc al = (p, al') \<Longrightarrow> brk al' = Suc (brk al) \<and> oom al' = oom al"
  by (auto simp: malloc_def Let_def)

lemma malloc_fresh:
  "malloc al = (p, al') \<Longrightarrow> p \<noteq> NULL \<Longrightarrow> fresh_above al h \<Longrightarrow> h p = None"
  by (metis domIff fresh_above_def not_less_eq_eq order_refl unat_malloc)

lemma fresh_above_malloc:
  "malloc al = (p, al') \<Longrightarrow> fresh_above al h \<Longrightarrow> fresh_above al' h"
  by (metis fresh_above_def le_SucI malloc_brk)

lemma fresh_above_malloc_upd:
  "malloc al = (p, al') \<Longrightarrow> p \<noteq> NULL \<Longrightarrow> fresh_above al h \<Longrightarrow> fresh_above al' (h(p \<mapsto> v))"
  using fresh_above_malloc[of al p al' h] unat_malloc[of al p al'] malloc_brk[of al p al']
  by (auto simp: fresh_above_def)

lemma fresh_above_upd:
  "fresh_above al h \<Longrightarrow> h p = Some w \<Longrightarrow> fresh_above al (h(p := v))"
  by (auto simp: fresh_above_def split: if_splits)

lemma fresh_above_mono: "fresh_above al h \<Longrightarrow> brk al \<le> brk al' \<Longrightarrow> fresh_above al' h"
  by (force simp: fresh_above_def)

lemma fresh_above_put: "fresh_above al h \<Longrightarrow> unat p \<le> brk al \<Longrightarrow> fresh_above al (h(p := v))"
  by (auto simp: fresh_above_def split: if_splits)

lemma fresh_above_dom: "fresh_above al h \<Longrightarrow> brk al < unat p \<Longrightarrow> h p = None"
  by (force simp: fresh_above_def domIff)

lemma fresh_above_del: "fresh_above al h \<Longrightarrow> fresh_above al (h(p := None))"
  by (auto simp: fresh_above_def split: if_splits)

text \<open>\<open>plenty al n\<close>: the next \<open>n\<close> requests find memory.\<close>

definition plenty :: "allocator \<Rightarrow> nat \<Rightarrow> bool" where
  "plenty al n \<longleftrightarrow> brk al + n < 2 ^ 16 \<and> (\<forall>k. brk al < k \<longrightarrow> k \<le> brk al + n \<longrightarrow> \<not> oom al k)"

lemma plenty_malloc:
  assumes "plenty al (Suc n)"
  obtains p al' where "malloc al = (p, al')" and "p \<noteq> NULL" and "plenty al' n"
proof -
  obtain p al' where m: "malloc al = (p, al')" by fastforce
  have b: "Suc (brk al) < 2 ^ 16" using assms by (simp add: plenty_def)
  then have p: "p = word_of_nat (Suc (brk al))"
    using m assms by (auto simp: plenty_def malloc_def Let_def split: if_splits)
  have "unat p = Suc (brk al)" using b by (simp add: p unat_of_nat del: of_nat_Suc)
  then have "p \<noteq> NULL" by auto
  moreover have "plenty al' n" using assms malloc_brk[OF m] by (simp add: plenty_def)
  ultimately show ?thesis using m by (rule that[rotated 1])
qed

lemma oom_malloc: "oom al (Suc (brk al)) \<Longrightarrow> fst (malloc al) = NULL"
  by (simp add: malloc_def Let_def)

lemma plenty_requests:
  "plenty al (Suc n) \<Longrightarrow> malloc al = (p, al') \<Longrightarrow> plenty al' n \<and> p \<noteq> NULL \<and> brk al' = Suc (brk al) \<and> oom al' = oom al"
  by (metis malloc_brk plenty_malloc prod.inject)

lemma plenty_less: "plenty al n \<Longrightarrow> m \<le> n \<Longrightarrow> plenty al m"
  by (auto simp: plenty_def)

lemma plenty_fst: "plenty al (Suc n) \<Longrightarrow> fst (malloc al) \<noteq> NULL"
  by (metis fst_conv plenty_malloc)

subsection \<open>Counters\<close>

text \<open>An \<open>unsigned int\<close> counter below its maximum counts up; a positive one counts down.\<close>

lemma below_max: "unat (x :: u16) < 65535 \<Longrightarrow> x \<noteq> - 1"
proof
  have max: "unat (- 1 :: u16) = 65535"
    by (simp add: unsigned_minus_1_eq_mask mask_eq_exp_minus_1)
  assume "unat x < 65535" and "x = - 1"
  then have "unat (- 1 :: u16) < 65535" by (simp only:)
  then show False unfolding max by simp
qed

lemma unat_Suc_word:
  fixes x :: u16
  assumes "x \<noteq> - 1"
  shows "unat (x + 1) = Suc (unat x)" and "x < x + 1"
proof -
  have "1 + x \<noteq> 0" using assms by (metis add.inverse_inverse add_eq_0_iff)
  then show u: "unat (x + 1) = Suc (unat x)" using unatSuc[of x] by (simp add: add.commute)
  show "x < x + 1" by (simp add: word_less_nat_alt u)
qed

lemma unat_inc_below: "unat (x :: u16) < 65535 \<Longrightarrow> unat (x + 1) = Suc (unat x)"
  by (rule unat_Suc_word(1)[OF below_max])

lemma unat_dec: "(x :: u16) \<noteq> 0 \<Longrightarrow> unat (x - 1) = unat x - 1"
  by (rule unat_minus_one)

subsection \<open>Signed 16-bit arithmetic\<close>

text \<open>
  A C \<open>int\<close> is kept as its 16-bit pattern and read by \<open>sint\<close>. Overflow of signed addition
  and subtraction is undefined behaviour. Conversions between \<open>int\<close> and \<open>unsigned int\<close>
  keep the pattern (gcc's rule for the implementation-defined direction).
\<close>

definition in_int16 :: "int \<Rightarrow> bool" where
  "in_int16 i \<longleftrightarrow> - 32768 \<le> i \<and> i \<le> 32767"

definition int_add :: "u16 \<Rightarrow> u16 \<Rightarrow> u16 option" where
  "int_add x y = (if in_int16 (sint x + sint y) then Some (x + y) else None)"

definition int_sub :: "u16 \<Rightarrow> u16 \<Rightarrow> u16 option" where
  "int_sub x y = (if in_int16 (sint x - sint y) then Some (x - y) else None)"

lemma sint_in_int16: "in_int16 (sint (x :: u16))"
  using sint_range_size[of x] by (simp add: in_int16_def word_size)

lemma sint_word_of_int16:
  "in_int16 i \<Longrightarrow> sint (word_of_int i :: u16) = i"
  by (simp add: in_int16_def sint_sbintrunc' signed_take_bit_int_eq_self_iff)

lemma sint_int_add: "int_add x y = Some z \<Longrightarrow> sint z = sint x + sint y"
  using sint_word_of_int16[of "sint x + sint y"]
  by (auto simp: int_add_def split: if_splits)

lemma sint_int_sub: "int_sub x y = Some z \<Longrightarrow> sint z = sint x - sint y"
  using sint_word_of_int16[of "sint x - sint y"]
  by (auto simp: int_sub_def split: if_splits)

end
