(* ===== verification/Chain.thy ===== *)
theory Chain
  imports Prelude
begin

text \<open>
  Linked structures in a typed heap. The pointer lists (\<open>PtrList.c\<close>) and the queues
  (\<open>Queue.c\<close>) are chains of nodes linked by one field; \<open>chain nx vl\<close> reads such a chain through the field \<open>nx\<close> and collects
  each node's address with its \<open>vl\<close>. \<open>walk\<close> is the same reading as a computation.
  \<open>for_list\<close> is the C loop \<open>for(i = &list; i; i = i->next)\<close> whose body does not touch the
  links.
\<close>

section \<open>Chains\<close>

primrec chain ::
  "('c \<Rightarrow> addr) \<Rightarrow> ('c \<Rightarrow> 'v) \<Rightarrow> 'c heap \<Rightarrow> addr \<Rightarrow> (addr \<times> 'v) list \<Rightarrow> addr \<Rightarrow> bool" where
  "chain nx vl h a [] b \<longleftrightarrow> a = b"
| "chain nx vl h a (x # xs) b \<longleftrightarrow> a = fst x \<and> a \<noteq> NULL \<and>
     (\<exists>c. h a = Some c \<and> vl c = snd x \<and> chain nx vl h (nx c) xs b)"

partial_function (option) walk ::
  "('c \<Rightarrow> addr) \<Rightarrow> ('c \<Rightarrow> 'v) \<Rightarrow> 'c heap \<Rightarrow> addr \<Rightarrow> (addr \<times> 'v) list option" where
  "walk nx vl h a =
     (if a = NULL then Some []
      else do {
        c \<leftarrow> rd h a;
        xs \<leftarrow> walk nx vl h (nx c);
        Some ((a, vl c) # xs)
      })"

lemma chain_append:
  "chain nx vl h a (xs @ ys) b \<longleftrightarrow> (\<exists>c. chain nx vl h a xs c \<and> chain nx vl h c ys b)"
  by (induction xs arbitrary: a) auto

lemma walk_of_chain: "chain nx vl h a xs NULL \<Longrightarrow> walk nx vl h a = Some xs"
proof (induction xs arbitrary: a)
  case Nil
  then show ?case by (simp add: walk.simps)
next
  case (Cons x xs)
  then obtain c where "a = fst x" "a \<noteq> NULL" "h a = Some c" "vl c = snd x"
    "chain nx vl h (nx c) xs NULL" by auto
  with Cons.IH[of "nx c"] show ?case
    by (subst walk.simps) (simp add: heap_simps)
qed

lemma chain_of_walk: "walk nx vl h a = Some xs \<Longrightarrow> chain nx vl h a xs NULL"
proof (induction xs arbitrary: a)
  case Nil
  then show ?case by (subst (asm) walk.simps) (auto split: if_splits elim!: bind_SomeE)
next
  case (Cons x xs)
  from Cons.prems have "a \<noteq> NULL" by (auto simp: walk.simps)
  with Cons.prems obtain c where "h a = Some c" "walk nx vl h (nx c) = Some xs" "x = (a, vl c)"
    by (subst (asm) walk.simps) (auto simp: rd_def elim!: bind_SomeE)
  with Cons.IH[of "nx c"] \<open>a \<noteq> NULL\<close> show ?case by simp
qed

lemma walk_iff_chain: "walk nx vl h a = Some xs \<longleftrightarrow> chain nx vl h a xs NULL"
  by (blast intro: walk_of_chain chain_of_walk)

text \<open>A chain that ends in \<open>NULL\<close> is determined by its start, so it cannot visit a node twice.\<close>

lemma chain_unique: "chain nx vl h a xs NULL \<Longrightarrow> chain nx vl h a ys NULL \<Longrightarrow> xs = ys"
  by (metis walk_of_chain option.inject)

lemma chain_distinct: "chain nx vl h a xs NULL \<Longrightarrow> distinct (map fst xs)"
proof (induction xs arbitrary: a)
  case Nil
  then show ?case by simp
next
  case (Cons x xs)
  then obtain c where x: "a = fst x" and c: "h a = Some c" "chain nx vl h (nx c) xs NULL"
    by auto
  have "fst x \<notin> fst ` set xs"
  proof
    assume "fst x \<in> fst ` set xs"
    then obtain y where "y \<in> set xs" and y: "fst y = a" by (auto simp: x)
    then obtain ys zs where xs: "xs = ys @ y # zs" by (meson split_list)
    with c have "chain nx vl h a (y # zs) NULL" by (auto simp: chain_append y)
    with c have "chain nx vl h (nx c) zs NULL" by auto
    from chain_unique[OF this c(2)] xs have "zs = ys @ y # zs" by simp
    then have "length zs = length (ys @ y # zs)" by (rule arg_cong)
    then show False by simp
  qed
  with Cons.IH[OF c(2)] show ?case by simp
qed

lemma chain_frame:
  "chain nx vl h a xs b \<Longrightarrow> (\<And>n. n \<in> fst ` set xs \<Longrightarrow> h' n = h n) \<Longrightarrow> chain nx vl h' a xs b"
  by (induction xs arbitrary: a) auto

lemma chain_in_heap:
  "chain nx vl h a xs b \<Longrightarrow> n \<in> fst ` set xs \<Longrightarrow> n \<noteq> NULL \<and> h n \<noteq> None"
  by (induction xs arbitrary: a) auto

lemma chain_upd [simp]:
  "n \<notin> fst ` set xs \<Longrightarrow> chain nx vl (h(n := c)) a xs b = chain nx vl h a xs b"
  by (induction xs arbitrary: a) auto

lemma chain_NULL [simp]: "chain nx vl h NULL xs NULL \<longleftrightarrow> xs = []"
  by (cases xs) auto

lemma chain_split_node:
  assumes "chain nx vl h a xs NULL" and "n \<in> fst ` set xs"
  obtains ys p zs where "xs = ys @ (n, p) # zs"
  using assms(2) by (metis imageE prod.collapse split_list)

text \<open>There are only \<open>2 ^ 16 - 1\<close> non-null addresses, so a 16-bit counter can count a chain.\<close>

lemma chain_length:
  assumes "chain nx vl h a xs NULL"
  shows "length xs < 2 ^ 16"
proof -
  have "length xs = card (fst ` set xs)"
    using chain_distinct[OF assms] by (metis distinct_card length_map set_map)
  also have "\<dots> \<le> card (UNIV - {NULL :: addr})"
    using chain_in_heap[OF assms] by (intro card_mono) auto
  also have "\<dots> < 2 ^ 16" by (simp add: card_word)
  finally show ?thesis .
qed

section \<open>Loops over a chain\<close>

primrec foldM :: "('a \<Rightarrow> 's \<Rightarrow> 's option) \<Rightarrow> 'a list \<Rightarrow> 's \<Rightarrow> 's option" where
  "foldM f [] s = Some s"
| "foldM f (x # xs) s = Option.bind (f x s) (foldM f xs)"

partial_function (option) for_list ::
  "('c \<Rightarrow> addr) \<Rightarrow> ('c \<Rightarrow> 'v) \<Rightarrow> 'c heap \<Rightarrow> addr \<Rightarrow> ('v \<Rightarrow> 's \<Rightarrow> 's option) \<Rightarrow> 's \<Rightarrow> 's option" where
  "for_list nx vl h i body s =
     (if i = NULL then Some s
      else do {
        c \<leftarrow> rd h i;
        s' \<leftarrow> body (vl c) s;
        for_list nx vl h (nx c) body s'
      })"

lemma for_list_chain:
  "chain nx vl h i xs NULL \<Longrightarrow> for_list nx vl h i body s = foldM body (map snd xs) s"
proof (induction xs arbitrary: i s)
  case Nil
  then show ?case by (simp add: for_list.simps)
next
  case (Cons x xs)
  then obtain c where c: "i = fst x" "i \<noteq> NULL" "h i = Some c" "vl c = snd x"
    "chain nx vl h (nx c) xs NULL" by auto
  show ?case
    by (subst for_list.simps)
      (use c Cons.IH[OF c(5)] in \<open>cases "body (snd x) s"; simp add: rd_def\<close>)
qed

lemma foldM_append: "foldM f (xs @ ys) s = Option.bind (foldM f xs s) (foldM f ys)"
proof (induction xs arbitrary: s)
  case (Cons x xs)
  then show ?case by (cases "f x s") simp_all
qed simp

lemma foldM_invariant:
  assumes "\<And>x s s'. x \<in> set xs \<Longrightarrow> P s \<Longrightarrow> f x s = Some s' \<Longrightarrow> P s'"
  shows "P s \<Longrightarrow> foldM f xs s = Some s' \<Longrightarrow> P s'"
  using assms by (induction xs arbitrary: s) (auto elim!: bind_SomeE)

end
