(* ===== verification/PtrList.thy ===== *)
theory PtrList
  imports Chain
begin

text \<open>
  The singly linked pointer lists of \<open>others/PtrList.c\<close>. A list is named by the address of
  its head node, which is a static variable (\<open>&ProcessList\<close>, \<open>&EventList\<close>, ...); the other
  nodes are allocated. All lists live in one heap of nodes. The definitions follow the C
  functions on this heap; \<open>entries\<close> reads a list back as (node, pointer) pairs, and the
  lemmas show that the operations refine appending, finding and removing on that list and
  leave every other list of the heap alone.
\<close>

section \<open>The code\<close>

record PtrList =
  pl_ptr :: addr
  pl_next :: addr

definition ptrlist_cnext :: "PtrList heap \<Rightarrow> addr \<Rightarrow> addr \<Rightarrow> addr option" where
  "ptrlist_cnext h head current = do {
     c \<leftarrow> rd h current;
     Some (if pl_next c = NULL then head else pl_next c)
   }"

partial_function (option) findtail_loop :: "PtrList heap \<Rightarrow> addr \<Rightarrow> addr option" where
  "findtail_loop h head = do {
     c \<leftarrow> rd h head;
     if pl_next c \<noteq> NULL then findtail_loop h (pl_next c) else Some head
   }"

definition ptrlist_findtail :: "PtrList heap \<Rightarrow> addr \<Rightarrow> addr option" where
  "ptrlist_findtail h head = (if head = NULL then Some NULL else findtail_loop h head)"

text \<open>The result of \<open>malloc\<close> is not checked: a failed request is written through.\<close>

definition ptrlist_add ::
  "allocator \<Rightarrow> PtrList heap \<Rightarrow> addr \<Rightarrow> addr \<Rightarrow> (addr \<times> allocator \<times> PtrList heap) option" where
  "ptrlist_add al h head p = do {
     hd \<leftarrow> rd h head;
     if pl_ptr hd = NULL \<and> pl_next hd = NULL
     then Some (head, al, h(head \<mapsto> hd\<lparr>pl_ptr := p\<rparr>))
     else do {
       let (e, al') = malloc al;
       h1 \<leftarrow> (if e = NULL then None else Some (h(e \<mapsto> \<lparr>pl_ptr = p, pl_next = NULL\<rparr>)));
       t \<leftarrow> ptrlist_findtail h1 head;
       h2 \<leftarrow> wr h1 t (\<lambda>c. c\<lparr>pl_next := e\<rparr>);
       Some (e, al', h2)
     }
   }"

partial_function (option) ptrlist_find :: "PtrList heap \<Rightarrow> addr \<Rightarrow> addr \<Rightarrow> addr option" where
  "ptrlist_find h head p =
     (if head = NULL then Some NULL
      else do {
        c \<leftarrow> rd h head;
        if pl_ptr c \<noteq> p then ptrlist_find h (pl_next c) p else Some head
      })"

partial_function (option) pred_loop :: "PtrList heap \<Rightarrow> addr \<Rightarrow> addr \<Rightarrow> addr option" where
  "pred_loop h head to_remove =
     (if head = NULL then Some NULL
      else do {
        c \<leftarrow> rd h head;
        if pl_next c \<noteq> to_remove then pred_loop h (pl_next c) to_remove else Some head
      })"

definition ptrlist_remove :: "PtrList heap \<Rightarrow> addr \<Rightarrow> addr \<Rightarrow> (int \<times> PtrList heap) option" where
  "ptrlist_remove h head to_remove =
     (if head = to_remove then do {
        c \<leftarrow> rd h head;
        let temp = pl_next c;
        if temp = NULL then Some (1, h(head \<mapsto> \<lparr>pl_ptr = NULL, pl_next = NULL\<rparr>))
        else do {
          t \<leftarrow> rd h temp;
          h' \<leftarrow> free (h(head \<mapsto> \<lparr>pl_ptr = pl_ptr t, pl_next = pl_next t\<rparr>)) temp;
          Some (1, h')
        }
      } else do {
        pre \<leftarrow> pred_loop h head to_remove;
        if pre = NULL then Some (0, h)
        else do {
          r \<leftarrow> rd h to_remove;
          h1 \<leftarrow> wr h pre (\<lambda>c. c\<lparr>pl_next := pl_next r\<rparr>);
          h2 \<leftarrow> free h1 to_remove;
          Some (1, h2)
        }
      })"

text \<open>The loop condition is \<open>!i\<close>, as in the source.\<close>

partial_function (option) destroy_loop :: "PtrList heap \<Rightarrow> addr \<Rightarrow> PtrList heap option" where
  "destroy_loop h i =
     (if i = NULL then do {
        h' \<leftarrow> free h i;
        c \<leftarrow> rd h' i;
        destroy_loop h' (pl_next c)
      } else Some h)"

definition ptrlist_destroy :: "PtrList heap \<Rightarrow> addr \<Rightarrow> PtrList heap option" where
  "ptrlist_destroy h head = do {
     c \<leftarrow> rd h head;
     let i = pl_next c;
     destroy_loop (h(head \<mapsto> \<lparr>pl_ptr = NULL, pl_next = NULL\<rparr>)) i
   }"

section \<open>Reading a list back\<close>

text \<open>The nodes from \<open>a\<close> to \<open>b\<close> with the pointers they hold.\<close>

abbreviation seg :: "PtrList heap \<Rightarrow> addr \<Rightarrow> (addr \<times> addr) list \<Rightarrow> addr \<Rightarrow> bool" where
  "seg \<equiv> chain pl_next pl_ptr"

definition entries :: "PtrList heap \<Rightarrow> addr \<Rightarrow> (addr \<times> addr) list" where
  "entries h L = (case walk pl_next pl_ptr h L of None \<Rightarrow> [] | Some xs \<Rightarrow> xs)"

definition contents :: "PtrList heap \<Rightarrow> addr \<Rightarrow> addr list" where
  "contents h L = filter (\<lambda>p. p \<noteq> NULL) (map snd (entries h L))"

section \<open>The loops on a list segment\<close>

lemma cnext_seg:
  assumes "seg h L (ys @ (n, p) # zs) NULL"
  shows "ptrlist_cnext h L n = Some (case zs of [] \<Rightarrow> L | z # _ \<Rightarrow> fst z)"
  using assms by (cases zs) (auto simp: ptrlist_cnext_def chain_append rd_def)

lemma findtail_seg: "seg h a (xs @ [x]) NULL \<Longrightarrow> findtail_loop h a = Some (fst x)"
proof (induction xs arbitrary: a)
  case Nil
  then show ?case by (subst findtail_loop.simps) (auto simp: rd_def)
next
  case (Cons y ys)
  then obtain c where c: "a \<noteq> NULL" "h a = Some c" "seg h (pl_next c) (ys @ [x]) NULL" by auto
  then have "pl_next c \<noteq> NULL" by (cases ys) auto
  with c Cons.IH[of "pl_next c"] show ?case by (subst findtail_loop.simps) (simp add: rd_def)
qed

lemma find_seg:
  assumes "seg h a (ys @ (n, p) # zs) NULL" and "p \<notin> snd ` set ys"
  shows "ptrlist_find h a p = Some n"
  using assms
proof (induction ys arbitrary: a)
  case Nil
  then show ?case by (subst ptrlist_find.simps) (auto simp: rd_def)
next
  case (Cons y ys)
  then show ?case by (subst ptrlist_find.simps) (auto simp: rd_def)
qed

lemma find_seg_none:
  "seg h a xs NULL \<Longrightarrow> p \<notin> snd ` set xs \<Longrightarrow> ptrlist_find h a p = Some NULL"
proof (induction xs arbitrary: a)
  case Nil
  then show ?case by (subst ptrlist_find.simps) simp
next
  case (Cons y ys)
  then show ?case by (subst ptrlist_find.simps) (auto simp: rd_def)
qed

lemma seg_next_node:
  assumes "seg h a (ys @ x # y # zs) NULL"
  shows "\<exists>c. h (fst x) = Some c \<and> pl_next c = fst y \<and> pl_ptr c = snd x \<and> seg h (fst y) (y # zs) NULL"
  using assms by (auto simp: chain_append)

lemma pred_seg: "seg h a (ys @ x # y # zs) NULL \<Longrightarrow> pred_loop h a (fst y) = Some (fst x)"
proof (induction ys arbitrary: a)
  case Nil
  then show ?case by (subst pred_loop.simps) (auto simp: rd_def)
next
  case (Cons z ys)
  then obtain c where c: "a \<noteq> NULL" "h a = Some c" "seg h (pl_next c) (ys @ x # y # zs) NULL"
    by auto
  from chain_distinct[OF c(3)] c(3) have "pl_next c \<noteq> fst y" by (cases ys) auto
  with c Cons.IH[of "pl_next c"] show ?case by (subst pred_loop.simps) (simp add: rd_def)
qed

lemma pred_seg_none:
  "seg h a xs NULL \<Longrightarrow> r \<notin> fst ` set xs \<Longrightarrow> r \<noteq> NULL \<Longrightarrow> pred_loop h a r = Some NULL"
proof (induction xs arbitrary: a)
  case Nil
  then show ?case by (subst pred_loop.simps) simp
next
  case (Cons y ys)
  then obtain c where c: "a \<noteq> NULL" "h a = Some c" "seg h (pl_next c) ys NULL" by auto
  with Cons.prems have "pl_next c \<noteq> r" by (cases ys) auto
  with c Cons show ?case by (subst pred_loop.simps) (auto simp: rd_def)
qed

lemma pred_seg_NULL: "seg h a (xs @ [x]) NULL \<Longrightarrow> pred_loop h a NULL = Some (fst x)"
proof (induction xs arbitrary: a)
  case Nil
  then show ?case by (subst pred_loop.simps) (auto simp: rd_def)
next
  case (Cons y ys)
  then obtain c where c: "a \<noteq> NULL" "h a = Some c" "seg h (pl_next c) (ys @ [x]) NULL" by auto
  then have "pl_next c \<noteq> NULL" by (cases ys) auto
  with c Cons.IH[of "pl_next c"] show ?case by (subst pred_loop.simps) (simp add: rd_def)
qed

section \<open>Well-formed list heaps\<close>

text \<open>
  An empty list is a head node with two null fields; in any other list no pointer is null.
  The lists named by the heads \<open>H\<close> share no node.
\<close>

definition wf_entries :: "addr \<Rightarrow> (addr \<times> addr) list \<Rightarrow> bool" where
  "wf_entries L xs \<longleftrightarrow> xs \<noteq> [] \<and> fst (hd xs) = L \<and> NULL \<notin> snd ` set (tl xs) \<and>
     (snd (hd xs) = NULL \<longrightarrow> tl xs = [])"

definition lists_wf :: "addr set \<Rightarrow> PtrList heap \<Rightarrow> bool" where
  "lists_wf H h \<longleftrightarrow>
     (\<forall>L \<in> H. seg h L (entries h L) NULL \<and> wf_entries L (entries h L)) \<and>
     (\<forall>L \<in> H. \<forall>L' \<in> H. L \<noteq> L' \<longrightarrow>
        fst ` set (entries h L) \<inter> fst ` set (entries h L') = {})"

lemma entries_of_seg: "seg h L xs NULL \<Longrightarrow> entries h L = xs"
  by (simp add: entries_def walk_of_chain)

lemma wf_entries_Cons:
  "wf_entries L xs \<longleftrightarrow> (\<exists>q ys. xs = (L, q) # ys \<and> NULL \<notin> snd ` set ys \<and> (q = NULL \<longrightarrow> ys = []))"
  by (cases xs) (auto simp: wf_entries_def)

lemma lists_wf_seg: "lists_wf H h \<Longrightarrow> L \<in> H \<Longrightarrow> seg h L (entries h L) NULL"
  by (simp add: lists_wf_def)

lemma lists_wf_entries: "lists_wf H h \<Longrightarrow> L \<in> H \<Longrightarrow> wf_entries L (entries h L)"
  by (simp add: lists_wf_def)

lemma lists_wf_disjoint:
  "lists_wf H h \<Longrightarrow> L \<in> H \<Longrightarrow> L' \<in> H \<Longrightarrow> L \<noteq> L' \<Longrightarrow>
   n \<in> fst ` set (entries h L) \<Longrightarrow> n \<notin> fst ` set (entries h L')"
  unfolding lists_wf_def by (drule conjunct2) (drule bspec, assumption, drule bspec, assumption, simp add: disjoint_iff)

lemma lists_wfI:
  assumes "\<And>L. L \<in> H \<Longrightarrow> seg h L (entries h L) NULL"
    and "\<And>L. L \<in> H \<Longrightarrow> wf_entries L (entries h L)"
    and "\<And>L L' n. L \<in> H \<Longrightarrow> L' \<in> H \<Longrightarrow> L \<noteq> L' \<Longrightarrow>
      n \<in> fst ` set (entries h L) \<Longrightarrow> n \<notin> fst ` set (entries h L')"
  shows "lists_wf H h"
  unfolding lists_wf_def disjoint_iff using assms by blast

lemma lists_wf_change:
  assumes wf: "lists_wf H h" and L: "L \<in> H"
    and seg: "seg h' L xs NULL" and wfx: "wf_entries L xs"
    and frame: "\<And>n. n \<notin> fst ` set (entries h L) \<Longrightarrow> n \<notin> fst ` set xs \<Longrightarrow> h' n = h n"
    and new: "\<And>n. n \<in> fst ` set xs \<Longrightarrow> n \<in> fst ` set (entries h L) \<or> h n = None"
  shows "lists_wf H h'" and "entries h' L = xs"
    and "\<And>L'. L' \<in> H \<Longrightarrow> L' \<noteq> L \<Longrightarrow> entries h' L' = entries h L'"
proof -
  have disj: "n \<notin> fst ` set (entries h L) \<and> n \<notin> fst ` set xs"
    if M: "M \<in> H" "M \<noteq> L" "n \<in> fst ` set (entries h M)" for M n
  proof -
    have "n \<notin> fst ` set (entries h L)" using lists_wf_disjoint[OF wf M(1) L M(2,3)] .
    with new[of n] chain_in_heap[OF lists_wf_seg[OF wf M(1)] M(3)] show ?thesis by auto
  qed
  have other: "seg h' M (entries h M) NULL" if "M \<in> H" "M \<noteq> L" for M
    using chain_frame[OF lists_wf_seg[OF wf that(1)]] disj[OF that] frame by simp
  show eqL: "entries h' L = xs" using seg by (rule entries_of_seg)
  show eqM: "entries h' L' = entries h L'" if "L' \<in> H" "L' \<noteq> L" for L'
    using other[OF that] by (rule entries_of_seg)
  show "lists_wf H h'"
  proof (rule lists_wfI)
    fix M assume "M \<in> H"
    then show "seg h' M (entries h' M) NULL"
      using seg eqL eqM other by (cases "M = L") auto
    from \<open>M \<in> H\<close> show "wf_entries M (entries h' M)"
      using wfx eqL eqM lists_wf_entries[OF wf] by (cases "M = L") auto
  next
    fix M N n assume M: "M \<in> H" "N \<in> H" "M \<noteq> N" "n \<in> fst ` set (entries h' M)"
    consider "M = L" | "N = L" | "M \<noteq> L" "N \<noteq> L" by blast
    then show "n \<notin> fst ` set (entries h' N)"
    proof cases
      case 1
      then show ?thesis using M disj[of N n] eqL eqM[of N] by auto
    next
      case 2
      then show ?thesis using M disj[of M n] eqL eqM[of M] by auto
    next
      case 3
      then show ?thesis using M eqM lists_wf_disjoint[OF wf M(1-3), of n] by simp
    qed
  qed
qed

section \<open>Refinement: appending\<close>

definition add_entry :: "(addr \<times> addr) list \<Rightarrow> addr \<Rightarrow> addr \<Rightarrow> (addr \<times> addr) list" where
  "add_entry xs e p = (if snd (hd xs) = NULL then [(fst (hd xs), p)] else xs @ [(e, p)])"

lemma contents_Nil_iff:
  assumes "lists_wf H h" and "L \<in> H"
  shows "contents h L = [] \<longleftrightarrow> entries h L = [(L, NULL)]"
    and "contents h L \<noteq> [] \<longleftrightarrow> map snd (entries h L) = contents h L"
proof -
  obtain q ys where xs: "entries h L = (L, q) # ys" "NULL \<notin> snd ` set ys" "q = NULL \<longrightarrow> ys = []"
    using lists_wf_entries[OF assms] by (auto simp: wf_entries_Cons)
  then have "filter (\<lambda>p. p \<noteq> NULL) (map snd ys) = map snd ys"
    by (auto simp: filter_id_conv)
  with xs show "contents h L = [] \<longleftrightarrow> entries h L = [(L, NULL)]"
    and "contents h L \<noteq> [] \<longleftrightarrow> map snd (entries h L) = contents h L"
    by (auto simp: contents_def)
qed

lemma contents_not_NULL: "p \<in> set (contents h L) \<Longrightarrow> p \<noteq> NULL"
  by (auto simp: contents_def)

lemma contents_add_entry:
  "wf_entries L xs \<Longrightarrow> p \<noteq> NULL \<Longrightarrow>
   filter (\<lambda>p. p \<noteq> NULL) (map snd (add_entry xs e p)) =
   filter (\<lambda>p. p \<noteq> NULL) (map snd xs) @ [p]"
  by (auto simp: wf_entries_Cons add_entry_def)

lemma wf_add_entry:
  "wf_entries L xs \<Longrightarrow> p \<noteq> NULL \<Longrightarrow> wf_entries L (add_entry xs e p)"
  by (auto simp: wf_entries_Cons add_entry_def)

text \<open>Appending to a non-empty list: the new node is linked behind the tail.\<close>

lemma ptrlist_add_seg:
  assumes seg: "seg h L xs NULL" and ne: "xs \<noteq> []" "snd (hd xs) \<noteq> NULL"
    and m: "malloc al = (e, al')" "e \<noteq> NULL" and fr: "h e = None"
  shows "\<exists>h'. ptrlist_add al h L p = Some (e, al', h') \<and> seg h' L (xs @ [(e, p)]) NULL \<and>
    h' e = Some \<lparr>pl_ptr = p, pl_next = NULL\<rparr> \<and>
    (\<forall>n. n \<noteq> e \<longrightarrow> n \<noteq> fst (last xs) \<longrightarrow> h' n = h n)"
proof -
  obtain ys x where xs: "xs = ys @ [x]" using ne(1) by (meson rev_exhaust)
  have e: "e \<notin> fst ` set xs" using chain_in_heap[OF seg] fr by blast
  define h1 where "h1 = h(e \<mapsto> \<lparr>pl_ptr = p, pl_next = NULL\<rparr>)"
  have s1: "seg h1 L xs NULL" using seg e by (simp add: h1_def)
  then obtain c where c: "h1 (fst x) = Some c" "fst x \<noteq> NULL" "pl_ptr c = snd x" "pl_next c = NULL"
    by (auto simp: xs chain_append)
  define h2 where "h2 = h1(fst x \<mapsto> c\<lparr>pl_next := e\<rparr>)"
  have x: "fst x \<notin> fst ` set ys" using chain_distinct[OF seg] by (simp add: xs)
  obtain d where d: "seg h1 L ys d" "seg h1 d [x] NULL" using s1 xs by (auto simp: chain_append)
  have "seg h2 L ys d" using d(1) x by (simp add: h2_def)
  moreover have "seg h2 d ([x] @ [(e, p)]) NULL"
    using d(2) c m(2) e xs by (auto simp: h2_def h1_def)
  ultimately have s2: "seg h2 L (xs @ [(e, p)]) NULL"
    using chain_append[of pl_next pl_ptr h2 L ys "[x, (e, p)]" NULL] xs by auto
  obtain hd0 where hd0: "rd h L = Some hd0" "pl_ptr hd0 \<noteq> NULL"
    using seg ne by (cases xs) (auto simp: rd_def)
  have "L \<noteq> NULL" using hd0(1) by auto
  have "ptrlist_findtail h1 L = Some (fst x)"
    using findtail_seg[of h1 L ys x] s1 xs \<open>L \<noteq> NULL\<close> by (simp add: ptrlist_findtail_def)
  moreover have "wr h1 (fst x) (\<lambda>c. c\<lparr>pl_next := e\<rparr>) = Some h2"
    using c by (simp add: wr_def rd_def h2_def)
  ultimately have "ptrlist_add al h L p = Some (e, al', h2)"
    using hd0 m by (simp add: ptrlist_add_def h1_def)
  then show ?thesis using s2 xs e by (auto simp: h2_def h1_def)
qed

lemma ptrlist_add_empty:
  assumes "seg h L [(L, NULL)] NULL"
  shows "ptrlist_add al h L p = Some (L, al, h(L \<mapsto> \<lparr>pl_ptr = p, pl_next = NULL\<rparr>))"
  using assms by (auto simp: ptrlist_add_def rd_def intro!: arg_cong[where f = "fun_upd h L"])

lemma ptrlist_add_None_iff:
  assumes wf: "lists_wf H h" and L: "L \<in> H" and fr: "fresh_above al h"
  shows "ptrlist_add al h L p = None \<longleftrightarrow> contents h L \<noteq> [] \<and> fst (malloc al) = NULL"
proof (cases "contents h L = []")
  case True
  then have "entries h L = [(L, NULL)]" using contents_Nil_iff[OF wf L] by simp
  with lists_wf_seg[OF wf L] True show ?thesis by (simp add: ptrlist_add_empty)
next
  case False
  have xs: "entries h L \<noteq> []" "snd (hd (entries h L)) \<noteq> NULL"
    using lists_wf_entries[OF wf L] False contents_Nil_iff(1)[OF wf L]
    by (auto simp: wf_entries_Cons)
  obtain e al' where m: "malloc al = (e, al')" by fastforce
  show ?thesis
  proof (cases "e = NULL")
    case True
    with m False show ?thesis
      using lists_wf_seg[OF wf L] xs
      by (cases "entries h L") (auto simp: ptrlist_add_def rd_def)
  next
    case False
    then show ?thesis
      using ptrlist_add_seg[OF lists_wf_seg[OF wf L] xs m False malloc_fresh[OF m False fr], of p] m
      by auto
  qed
qed

lemma fresh_above_link:
  assumes "malloc al = (e, al')" "e \<noteq> NULL" "fresh_above al h" "h q \<noteq> None"
    and "\<And>n. n \<noteq> e \<Longrightarrow> n \<noteq> q \<Longrightarrow> h' n = h n"
  shows "fresh_above al' h'"
  unfolding fresh_above_def
proof
  fix a assume "a \<in> dom h'"
  then have "a \<in> dom h \<or> a = e" using assms(4,5) by (metis domIff)
  moreover have "a \<in> dom h \<Longrightarrow> unat a \<le> brk al" using assms(3) by (simp add: fresh_above_def)
  ultimately show "unat a \<le> brk al'"
    using unat_malloc[OF assms(1,2)] malloc_brk[OF assms(1)] by (elim disjE) simp_all
qed

text \<open>What an addition does to the heap: the list is extended, no node outside of it changes.\<close>

lemma ptrlist_add_heap:
  assumes wf: "lists_wf H h" and L: "L \<in> H" and fr: "fresh_above al h" and add: "ptrlist_add al h L p = Some (e, al', h')"
  defines "xs \<equiv> entries h L" and "ys \<equiv> add_entry (entries h L) e p"
  shows "seg h' L ys NULL \<and> (\<forall>n. n \<notin> fst ` set xs \<longrightarrow> n \<notin> fst ` set ys \<longrightarrow> h' n = h n) \<and>
    (\<forall>n. n \<in> fst ` set ys \<longrightarrow> n \<in> fst ` set xs \<or> h n = None) \<and> fresh_above al' h' \<and> brk al \<le> brk al'"
proof (cases "snd (hd xs) = NULL")
  case True
  note seg = lists_wf_seg[OF wf L, folded xs_def] and wfe = lists_wf_entries[OF wf L, folded xs_def]
  from True wfe have xs: "xs = [(L, NULL)]" by (auto simp: wf_entries_Cons)
  with seg add have h': "h' = h(L \<mapsto> \<lparr>pl_ptr = p, pl_next = NULL\<rparr>)" "al' = al" "e = L"
    by (auto simp: ptrlist_add_empty simp del: chain.simps)
  with seg xs fr show ?thesis
    by (auto simp: add_entry_def ys_def simp flip: xs_def intro: fresh_above_upd)
next
  case False
  note seg = lists_wf_seg[OF wf L, folded xs_def] and wfe = lists_wf_entries[OF wf L, folded xs_def]
  obtain c where "rd h L = Some c" "pl_ptr c \<noteq> NULL" using seg wfe False by (auto simp: wf_entries_Cons rd_def)
  with add have m: "malloc al = (e, al')" "e \<noteq> NULL"
    by (cases "malloc al"; auto simp: ptrlist_add_def elim!: bind_SomeE split: if_splits)+
  have ne: "xs \<noteq> []" using wfe by (auto simp: wf_entries_Cons)
  from ptrlist_add_seg[OF seg ne False m malloc_fresh[OF m fr], of p] add
  have h': "seg h' L (xs @ [(e, p)]) NULL" "h' e = Some \<lparr>pl_ptr = p, pl_next = NULL\<rparr>"
    "\<And>n. n \<noteq> e \<Longrightarrow> n \<noteq> fst (last xs) \<Longrightarrow> h' n = h n" by auto
  have last: "fst (last xs) \<in> fst ` set xs" using ne by simp
  have "h (fst (last xs)) \<noteq> None" using chain_in_heap[OF seg last] by simp
  from fresh_above_link[OF m fr this h'(3)] h' False last malloc_fresh[OF m fr] malloc_brk[OF m(1)] show ?thesis
    by (auto simp: add_entry_def ys_def simp flip: xs_def)
qed

lemma ptrlist_add_spec:
  assumes wf: "lists_wf H h" and L: "L \<in> H" and p: "p \<noteq> NULL" and fr: "fresh_above al h"
    and add: "ptrlist_add al h L p = Some (e, al', h')"
  shows "lists_wf H h'" and "fresh_above al' h'"
    and "entries h' L = add_entry (entries h L) e p"
    and "contents h' L = contents h L @ [p]"
    and "\<And>L'. L' \<in> H \<Longrightarrow> L' \<noteq> L \<Longrightarrow> entries h' L' = entries h L'"
    and "brk al \<le> brk al'"
proof -
  let ?xs = "entries h L" and ?ys = "add_entry (entries h L) e p"
  have s': "seg h' L ?ys NULL"
    and f': "\<And>n. n \<notin> fst ` set ?xs \<Longrightarrow> n \<notin> fst ` set ?ys \<Longrightarrow> h' n = h n"
    and n': "\<And>n. n \<in> fst ` set ?ys \<Longrightarrow> n \<in> fst ` set ?xs \<or> h n = None"
    and "fresh_above al' h'" and "brk al \<le> brk al'"
    using ptrlist_add_heap[OF wf L fr add] by simp_all
  then show "fresh_above al' h'" and "brk al \<le> brk al'" by simp_all
  note R = lists_wf_change[OF wf L s' wf_add_entry[OF lists_wf_entries[OF wf L] p] f' n']
  show "lists_wf H h'" by (rule R(1))
  show E: "entries h' L = ?ys" by (rule R(2))
  show "entries h' L' = entries h L'" if "L' \<in> H" "L' \<noteq> L" for L'
    by (rule R(3)) (use that in simp_all)
  show "contents h' L = contents h L @ [p]"
    using contents_add_entry[OF lists_wf_entries[OF wf L] p, of e] by (simp add: contents_def E)
qed

section \<open>Refinement: removing\<close>

text \<open>
  Removing the head node keeps it and copies the second node into it, so that the node that
  disappears is the second one; any other node disappears itself.
\<close>

fun drop_entry :: "(addr \<times> addr) list \<Rightarrow> addr \<Rightarrow> (addr \<times> addr) list" where
  "drop_entry [] r = []"
| "drop_entry [(n, q)] r = (if n = r then [(n, NULL)] else [(n, q)])"
| "drop_entry ((n, q) # (m, q') # ys) r =
     (if n = r then (n, q') # ys else (n, q) # filter (\<lambda>x. fst x \<noteq> r) ((m, q') # ys))"

lemma drop_entry_tail:
  assumes "distinct (map fst (x # ys @ (r, p) # zs))"
  shows "drop_entry (x # ys @ (r, p) # zs) r = x # ys @ zs"
proof -
  have r: "fst x \<noteq> r" "r \<notin> fst ` set ys" "r \<notin> fst ` set zs" using assms by auto
  then have "filter (\<lambda>x. fst x \<noteq> r) ys = ys" "filter (\<lambda>x. fst x \<noteq> r) zs = zs"
    by (auto simp: filter_id_conv)
  with r(1) show ?thesis by (cases x; cases ys) (auto simp: list.case_eq_if)
qed

lemma seg_two: "seg h a (x # y # zs) b \<Longrightarrow> \<exists>c d. a = fst x \<and> a \<noteq> NULL \<and> h a = Some c \<and>
   pl_ptr c = snd x \<and> pl_next c = fst y \<and> fst y \<noteq> NULL \<and> h (fst y) = Some d \<and>
   pl_ptr d = snd y \<and> seg h (pl_next d) zs b"
  by auto

lemma ptrlist_remove_seg:
  assumes seg: "seg h L xs NULL" and r: "r \<in> fst ` set xs"
  shows "\<exists>h'. ptrlist_remove h L r = Some (1, h') \<and> seg h' L (drop_entry xs r) NULL \<and>
    (\<forall>n. n \<notin> fst ` set xs \<longrightarrow> h' n = h n) \<and> (\<forall>n. h n = None \<longrightarrow> h' n = None) \<and>
    (r \<noteq> L \<longrightarrow> h' r = None)"
proof (cases "r = L")
  case True
  show ?thesis
  proof (cases "\<exists>q. xs = [(L, q)]")
    case one: True
    then show ?thesis using seg \<open>r = L\<close>
      by (auto simp: ptrlist_remove_def rd_def)
  next
    case False
    with seg r True obtain q m q' ys where xs: "xs = (L, q) # (m, q') # ys"
      by (cases xs; cases "tl xs") auto
    from seg[unfolded xs, THEN seg_two] obtain c d where cd: "L \<noteq> NULL" "h L = Some c"
      "pl_next c = m" "m \<noteq> NULL" "h m = Some d" "pl_ptr d = q'" "seg h (pl_next d) ys NULL"
      by auto
    have dist: "L \<noteq> m" "L \<notin> fst ` set ys" "m \<notin> fst ` set ys"
      using chain_distinct[OF seg] by (auto simp: xs)
    define h' where "h' = h(L \<mapsto> \<lparr>pl_ptr = pl_ptr d, pl_next = pl_next d\<rparr>, m := None)"
    have "ptrlist_remove h L r = Some (1, h')"
      using cd dist by (simp add: True ptrlist_remove_def rd_def free_def h'_def fun_upd_twist)
    moreover have "seg h' L (drop_entry xs r) NULL"
      using cd dist True by (simp add: xs h'_def)
    ultimately show ?thesis using xs True cd by (auto simp: h'_def)
  qed
next
  case False
  from chain_split_node[OF seg r] obtain as p zs where "xs = as @ (r, p) # zs" .
  with seg False obtain ys x where xs: "xs = ys @ x # (r, p) # zs"
    by (cases as rule: rev_cases) auto
  have dist: "distinct (map fst xs)" by (rule chain_distinct[OF seg])
  from seg obtain b c d where b: "seg h L ys b" "b = fst x" and c: "h (fst x) = Some c"
    "pl_next c = r" "pl_ptr c = snd x" "fst x \<noteq> NULL" and d: "h r = Some d" "r \<noteq> NULL"
    "seg h (pl_next d) zs NULL" by (auto simp: xs chain_append)
  define h' where "h' = h(fst x \<mapsto> c\<lparr>pl_next := pl_next d\<rparr>, r := None)"
  have "pred_loop h L r = Some (fst x)" using pred_seg[of h L ys x "(r, p)" zs] seg xs by simp
  moreover have "fst x \<noteq> r" using dist by (auto simp: xs)
  ultimately have "ptrlist_remove h L r = Some (1, h')"
    using False c d by (simp add: ptrlist_remove_def rd_def wr_def free_def h'_def)
  moreover have "seg h' L (ys @ x # zs) NULL"
  proof -
    have "seg h' L ys b" using b(1) dist by (simp add: h'_def xs)
    moreover have "seg h' b (x # zs) NULL" using b(2) c d dist by (auto simp: h'_def xs)
    ultimately show ?thesis by (auto simp: chain_append)
  qed
  moreover have "drop_entry xs r = ys @ x # zs"
    using drop_entry_tail[of x "[]" r p zs] dist
    by (cases ys) (auto simp: xs drop_entry_tail[of _ "_ @ [x]" r p zs, simplified])
  ultimately show ?thesis using xs c d by (auto simp: h'_def)
qed

lemma wf_drop_entry: "wf_entries L xs \<Longrightarrow> wf_entries L (drop_entry xs r)"
  by (cases "(xs, r)" rule: drop_entry.cases) (auto simp: wf_entries_def)

lemma set_drop_entry: "fst ` set (drop_entry xs r) \<subseteq> fst ` set xs"
  by (cases "(xs, r)" rule: drop_entry.cases) auto

lemma ptrlist_remove_spec:
  assumes wf: "lists_wf H h" and L: "L \<in> H" and r: "r \<in> fst ` set (entries h L)"
  obtains h' where "ptrlist_remove h L r = Some (1, h')" and "lists_wf H h'"
    and "entries h' L = drop_entry (entries h L) r"
    and "\<And>L'. L' \<in> H \<Longrightarrow> L' \<noteq> L \<Longrightarrow> entries h' L' = entries h L'"
    and "\<And>al. fresh_above al h \<Longrightarrow> fresh_above al h'"
    and "r \<noteq> L \<Longrightarrow> h' r = None"
proof -
  let ?xs = "entries h L"
  obtain h' where h': "ptrlist_remove h L r = Some (1, h')" "seg h' L (drop_entry ?xs r) NULL"
    "\<And>n. n \<notin> fst ` set ?xs \<Longrightarrow> h' n = h n" "\<And>n. h n = None \<Longrightarrow> h' n = None"
    "r \<noteq> L \<Longrightarrow> h' r = None"
    using ptrlist_remove_seg[OF lists_wf_seg[OF wf L] r] by blast
  have new: "n \<in> fst ` set ?xs \<or> h n = None" if "n \<in> fst ` set (drop_entry ?xs r)" for n
    using that set_drop_entry[of ?xs r] by blast
  note R = lists_wf_change[OF wf L h'(2) wf_drop_entry[OF lists_wf_entries[OF wf L]]]
  have fa: "fresh_above al h'" if "fresh_above al h" for al
    using that h'(4) unfolding fresh_above_def by (metis domIff)
  show ?thesis
  proof (rule that[OF h'(1) _ _ _ fa h'(5)])
    show "lists_wf H h'" by (rule R(1)) (use h'(3) new in simp_all)
    show "entries h' L = drop_entry ?xs r" by (rule R(2)) (use h'(3) new in simp_all)
    show "entries h' L' = entries h L'" if "L' \<in> H" "L' \<noteq> L" for L'
      by (rule R(3)) (use that h'(3) new in simp_all)
  qed
qed

text \<open>The node of a pointer, and the pointer list after its removal.\<close>

lemma entries_split:
  assumes "p \<in> set (contents h L)"
  obtains ys n zs where "entries h L = ys @ (n, p) # zs" and "p \<notin> snd ` set ys"
proof -
  from assms have "p \<in> set (map snd (entries h L))" by (auto simp: contents_def)
  then obtain as bs where *: "map snd (entries h L) = as @ p # bs" "p \<notin> set as"
    by (meson split_list_first)
  then obtain ys zs where "entries h L = ys @ zs" "map snd ys = as" "map snd zs = p # bs"
    by (auto simp: map_eq_append_conv)
  with *(2) that show ?thesis by (cases zs) auto
qed

lemma contents_drop_entry:
  assumes wf: "wf_entries L (ys @ (n, p) # zs)" and p: "p \<noteq> NULL" "p \<notin> snd ` set ys"
    and d: "distinct (map fst (ys @ (n, p) # zs))"
  shows "filter (\<lambda>p. p \<noteq> NULL) (map snd (drop_entry (ys @ (n, p) # zs) n)) =
    remove1 p (filter (\<lambda>p. p \<noteq> NULL) (map snd (ys @ (n, p) # zs)))"
proof (cases ys)
  case Nil
  then show ?thesis using wf p by (cases zs) (auto simp: wf_entries_def)
next
  case (Cons y ys')
  have "filter (\<lambda>p. p \<noteq> NULL) (map snd (y # ys')) = map snd (y # ys')"
    using wf p by (auto simp: Cons wf_entries_def filter_id_conv)
  with drop_entry_tail[of y ys' n p zs] d Cons p show ?thesis
    by (auto simp: remove1_append)
qed

lemma ptrlist_find_spec:
  assumes wf: "lists_wf H h" and L: "L \<in> H" and p: "p \<noteq> NULL"
  shows "p \<notin> set (contents h L) \<Longrightarrow> ptrlist_find h L p = Some NULL"
    and "p \<in> set (contents h L) \<Longrightarrow>
      \<exists>n. ptrlist_find h L p = Some n \<and> n \<noteq> NULL \<and> (n, p) \<in> set (entries h L)"
proof -
  note seg = lists_wf_seg[OF wf L]
  show "ptrlist_find h L p = Some NULL" if "p \<notin> set (contents h L)"
    using that p by (intro find_seg_none[OF seg]) (auto simp: contents_def)
  show "\<exists>n. ptrlist_find h L p = Some n \<and> n \<noteq> NULL \<and> (n, p) \<in> set (entries h L)"
    if pin: "p \<in> set (contents h L)"
  proof -
    obtain ys n zs where xs: "entries h L = ys @ (n, p) # zs" "p \<notin> snd ` set ys"
      using entries_split[OF pin] .
    with seg have "ptrlist_find h L p = Some n" by (intro find_seg) auto
    moreover have "n \<noteq> NULL" using chain_in_heap[OF seg, of n] xs by auto
    ultimately show ?thesis using xs by auto
  qed
qed

lemma ptrlist_find_remove:
  assumes wf: "lists_wf H h" and L: "L \<in> H" and p: "p \<in> set (contents h L)"
  obtains n h' where "ptrlist_find h L p = Some n" and "n \<noteq> NULL"
    and "ptrlist_remove h L n = Some (1, h')" and "lists_wf H h'"
    and "contents h' L = remove1 p (contents h L)"
    and "entries h' L = drop_entry (entries h L) n"
    and "\<And>L'. L' \<in> H \<Longrightarrow> L' \<noteq> L \<Longrightarrow> entries h' L' = entries h L'"
    and "\<And>al. fresh_above al h \<Longrightarrow> fresh_above al h'"
    and "n \<noteq> L \<Longrightarrow> h' n = None" and "(n, p) \<in> set (entries h L)"
proof -
  note seg = lists_wf_seg[OF wf L]
  have p0: "p \<noteq> NULL" using p by (auto simp: contents_def)
  obtain ys n zs where xs: "entries h L = ys @ (n, p) # zs" "p \<notin> snd ` set ys"
    using entries_split[OF p] .
  have find: "ptrlist_find h L p = Some n" using seg xs by (intro find_seg) auto
  have n: "n \<in> fst ` set (entries h L)" "n \<noteq> NULL"
    using chain_in_heap[OF seg, of n] xs by auto
  obtain h' where h': "ptrlist_remove h L n = Some (1, h')" "lists_wf H h'"
    "entries h' L = drop_entry (entries h L) n"
    "\<And>L'. L' \<in> H \<Longrightarrow> L' \<noteq> L \<Longrightarrow> entries h' L' = entries h L'"
    "\<And>al. fresh_above al h \<Longrightarrow> fresh_above al h'" "n \<noteq> L \<Longrightarrow> h' n = None"
    using ptrlist_remove_spec[OF wf L n(1)] by blast
  have "contents h' L = remove1 p (contents h L)"
    using contents_drop_entry[of L ys n p zs] lists_wf_entries[OF wf L] p0 xs chain_distinct[OF seg]
    by (simp add: contents_def h'(3))
  from that[OF find n(2) h'(1,2) this h'(3-6)] show ?thesis using xs by simp
qed

section \<open>Calls outside the contract\<close>

lemma ptrlist_remove_missing:
  assumes "seg h L xs NULL" and "r \<notin> fst ` set xs" and "r \<noteq> NULL" and "xs \<noteq> []"
  shows "ptrlist_remove h L r = Some (0, h)"
  using assms pred_seg_none[OF assms(1,2,3)]
  by (cases xs) (auto simp: ptrlist_remove_def)

lemma ptrlist_remove_NULL:
  assumes "seg h L xs NULL" and "xs \<noteq> []"
  shows "ptrlist_remove h L NULL = None"
proof -
  obtain ys x where xs: "xs = ys @ [x]" using assms(2) by (meson rev_exhaust)
  have "L \<noteq> NULL" using assms by (cases xs) auto
  moreover have "fst x \<noteq> NULL" using chain_in_heap[OF assms(1)] xs by auto
  ultimately show ?thesis
    using pred_seg_NULL[of h L ys x] assms(1) by (simp add: ptrlist_remove_def xs)
qed

text \<open>Whatever the removed node, the other lists keep their nodes.\<close>

lemma ptrlist_remove_frame:
  assumes wf: "lists_wf H h" and L: "L \<in> H" and r: "ptrlist_remove h L n = Some (r, h')"
    and M: "M \<in> H" "M \<noteq> L"
  shows "entries h' M = entries h M"
proof -
  note seg = lists_wf_seg[OF wf L]
  have ne: "entries h L \<noteq> []" using lists_wf_entries[OF wf L] by (auto simp: wf_entries_Cons)
  consider "n = NULL" | "n \<in> fst ` set (entries h L)" | "n \<noteq> NULL" "n \<notin> fst ` set (entries h L)" by blast
  then show ?thesis
  proof cases
    case 1
    with ptrlist_remove_NULL[OF seg ne] r show ?thesis by simp
  next
    case 2
    obtain h1 where "ptrlist_remove h L n = Some (1, h1)"
      "\<And>L'. L' \<in> H \<Longrightarrow> L' \<noteq> L \<Longrightarrow> entries h1 L' = entries h L'"
      by (rule ptrlist_remove_spec[OF wf L 2]) (rule that)
    with r M show ?thesis by simp
  next
    case 3
    with ptrlist_remove_missing[OF seg _ _ ne, of n] r show ?thesis by simp
  qed
qed

lemma ptrlist_add_alloc:
  "ptrlist_add al h L p = Some (e, al', h') \<Longrightarrow> al' = al \<or> al' = snd (malloc al)"
  by (auto simp: ptrlist_add_def elim!: bind_SomeE split: if_splits prod.splits)

lemma ptrlist_add_requests:
  assumes wf: "lists_wf H h" and L: "L \<in> H" and add: "ptrlist_add al h L p = Some (e, al', h')"
  shows "al' = (if contents h L = [] then al else snd (malloc al))"
proof (cases "contents h L = []")
  case True
  then have "entries h L = [(L, NULL)]" using contents_Nil_iff[OF wf L] by simp
  with lists_wf_seg[OF wf L] True add show ?thesis by (simp add: ptrlist_add_empty)
next
  case False
  then have "entries h L \<noteq> []" "snd (hd (entries h L)) \<noteq> NULL"
    using lists_wf_entries[OF wf L] contents_Nil_iff(1)[OF wf L] by (auto simp: wf_entries_Cons)
  then obtain c where "rd h L = Some c" "pl_ptr c \<noteq> NULL"
    using lists_wf_seg[OF wf L] by (cases "entries h L") (auto simp: rd_def)
  with add False show ?thesis by (auto simp: ptrlist_add_def elim!: bind_SomeE split: prod.splits)
qed

lemma ptrlist_add_plenty:
  assumes "lists_wf H h" "L \<in> H" "fresh_above al h" "plenty al (Suc n)"
  obtains e al' h' where "ptrlist_add al h L p = Some (e, al', h')" and "plenty al' n"
proof -
  obtain q al1 where m: "malloc al = (q, al1)" "q \<noteq> NULL" "plenty al1 n" by (rule plenty_malloc[OF assms(4)])
  then have "ptrlist_add al h L p \<noteq> None" using ptrlist_add_None_iff[OF assms(1-3)] by simp
  then obtain e al' h' where a: "ptrlist_add al h L p = Some (e, al', h')" by auto
  have "plenty al n" using plenty_less[OF assms(4)] by simp
  with ptrlist_add_alloc[OF a] m have "plenty al' n" by auto
  with a show ?thesis by (rule that)
qed

section \<open>The interface\<close>

text \<open>
  What the kernel modules rely on: a family of pointer lists in one state, where adding
  appends to one list, deleting removes the first occurrence, and the other lists stay.
\<close>

locale pointer_lists =
  fixes heads :: "addr set"
    and wf :: "'s \<Rightarrow> bool"
    and elems :: "'s \<Rightarrow> addr \<Rightarrow> addr list"
    and add :: "addr \<Rightarrow> addr \<Rightarrow> 's \<Rightarrow> 's option"
    and del :: "addr \<Rightarrow> addr \<Rightarrow> 's \<Rightarrow> 's option"
  assumes add_wf: "wf s \<Longrightarrow> L \<in> heads \<Longrightarrow> p \<noteq> NULL \<Longrightarrow> add L p s = Some s' \<Longrightarrow> wf s'"
    and add_elems: "wf s \<Longrightarrow> L \<in> heads \<Longrightarrow> p \<noteq> NULL \<Longrightarrow> add L p s = Some s' \<Longrightarrow> M \<in> heads \<Longrightarrow>
      elems s' M = (if M = L then elems s L @ [p] else elems s M)"
    and del_some: "wf s \<Longrightarrow> L \<in> heads \<Longrightarrow> p \<in> set (elems s L) \<Longrightarrow> \<exists>s'. del L p s = Some s' \<and> wf s'"
    and del_elems: "wf s \<Longrightarrow> L \<in> heads \<Longrightarrow> p \<in> set (elems s L) \<Longrightarrow> del L p s = Some s' \<Longrightarrow>
      M \<in> heads \<Longrightarrow> elems s' M = (if M = L then remove1 p (elems s L) else elems s M)"
begin

lemma add_all:
  "wf s \<Longrightarrow> L \<in> heads \<Longrightarrow> NULL \<notin> set ps \<Longrightarrow> foldM (add L) ps s = Some s' \<Longrightarrow>
   wf s' \<and> (\<forall>M \<in> heads. elems s' M = (if M = L then elems s L @ ps else elems s M))"
proof (induction ps arbitrary: s)
  case Nil
  then show ?case by simp
next
  case (Cons p ps)
  then obtain s1 where s1: "add L p s = Some s1" "foldM (add L) ps s1 = Some s'"
    by (auto elim: bind_SomeE)
  from Cons.prems have p: "p \<noteq> NULL" "NULL \<notin> set ps" by auto
  from Cons.IH[OF add_wf[OF Cons.prems(1,2) p(1) s1(1)] Cons.prems(2) p(2) s1(2)]
    add_elems[OF Cons.prems(1,2) p(1) s1(1)] Cons.prems(2)
  show ?case by auto
qed

lemma add_del:
  assumes "wf s" "L \<in> heads" "p \<noteq> NULL" "p \<notin> set (elems s L)" "add L p s = Some s1"
  shows "\<exists>s2. del L p s1 = Some s2 \<and> wf s2 \<and> (\<forall>M \<in> heads. elems s2 M = elems s M)"
proof -
  note e = add_elems[OF assms(1-3,5)] and w = add_wf[OF assms(1-3,5)]
  have p: "p \<in> set (elems s1 L)" using e[OF assms(2)] by simp
  then obtain s2 where s2: "del L p s1 = Some s2" "wf s2" using del_some[OF w assms(2)] by blast
  have "elems s2 M = elems s M" if "M \<in> heads" for M
    using del_elems[OF w assms(2) p s2(1) that] e[OF that] e[OF assms(2)] assms(4)
    by (auto simp: remove1_append)
  with s2 show ?thesis by blast
qed

lemma del_distinct:
  assumes "wf s" "L \<in> heads" "distinct (elems s L)" "p \<in> set (elems s L)" "del L p s = Some s'"
  shows "set (elems s' L) = set (elems s L) - {p} \<and> distinct (elems s' L) \<and>
    Suc (length (elems s' L)) = length (elems s L)"
proof -
  have e: "elems s' L = remove1 p (elems s L)" using del_elems[OF assms(1,2,4,5,2)] by simp
  have "elems s L \<noteq> []" using assms(4) by auto
  then show ?thesis using assms(3,4) by (simp add: e length_remove1)
qed

end

text \<open>The two idioms in which the kernel uses a list, on an allocator and a node heap.\<close>

definition list_add :: "addr \<Rightarrow> addr \<Rightarrow> allocator \<times> PtrList heap \<Rightarrow> (allocator \<times> PtrList heap) option" where
  "list_add L p s = do {
     (e, al, h) \<leftarrow> ptrlist_add (fst s) (snd s) L p;
     Some (al, h)
   }"

definition list_del :: "addr \<Rightarrow> addr \<Rightarrow> allocator \<times> PtrList heap \<Rightarrow> (allocator \<times> PtrList heap) option" where
  "list_del L p s = do {
     n \<leftarrow> ptrlist_find (snd s) L p;
     (r, h) \<leftarrow> ptrlist_remove (snd s) L n;
     Some (fst s, h)
   }"

interpretation pl: pointer_lists H "\<lambda>s. lists_wf H (snd s) \<and> fresh_above (fst s) (snd s)"
  "\<lambda>s. contents (snd s)" list_add list_del for H
proof unfold_locales
  fix s L p s' M
  assume wf: "lists_wf H (snd s) \<and> fresh_above (fst s) (snd s)" and L: "L \<in> H" and p: "p \<noteq> NULL"
    and "list_add L p s = Some s'"
  then obtain e where add: "ptrlist_add (fst s) (snd s) L p = Some (e, fst s', snd s')"
    by (auto simp: list_add_def elim!: bind_SomeE)
  note S = ptrlist_add_spec[OF conjunct1[OF wf] L p conjunct2[OF wf] add]
  show "lists_wf H (snd s') \<and> fresh_above (fst s') (snd s')" using S(1,2) by simp
  show "contents (snd s') M = (if M = L then contents (snd s) L @ [p] else contents (snd s) M)"
    if "M \<in> H" using S(4) S(5)[OF that] by (auto simp: contents_def)
next
  fix s L p
  assume wf: "lists_wf H (snd s) \<and> fresh_above (fst s) (snd s)" and L: "L \<in> H"
    and p: "p \<in> set (contents (snd s) L)"
  obtain n h' where h': "ptrlist_find (snd s) L p = Some n" "ptrlist_remove (snd s) L n = Some (1, h')"
    "lists_wf H h'" "contents h' L = remove1 p (contents (snd s) L)"
    "\<And>M. M \<in> H \<Longrightarrow> M \<noteq> L \<Longrightarrow> entries h' M = entries (snd s) M"
    "\<And>al. fresh_above al (snd s) \<Longrightarrow> fresh_above al h'"
    by (rule ptrlist_find_remove[OF conjunct1[OF wf] L p]) (rule that)
  then have d: "list_del L p s = Some (fst s, h')" by (simp add: list_del_def)
  have "fresh_above (fst s) h'" using wf by (intro h'(6)) simp
  with d h'(3) show "\<exists>s'. list_del L p s = Some s' \<and>
      (lists_wf H (snd s') \<and> fresh_above (fst s') (snd s'))"
    by simp
  show "contents (snd s') M = (if M = L then remove1 p (contents (snd s) L) else contents (snd s) M)"
    if "list_del L p s = Some s'" "M \<in> H" for s' M
    using that d h'(4) h'(5)[of M] by (auto simp: contents_def)
qed

section \<open>Properties\<close>

text \<open>A concrete heap for the witnesses: list 1 holds the pointers 10 and 11, list 2 is empty.\<close>

definition ex_nodes :: "PtrList heap" where
  "ex_nodes = [1 \<mapsto> \<lparr>pl_ptr = 10, pl_next = 7\<rparr>, 7 \<mapsto> \<lparr>pl_ptr = 11, pl_next = NULL\<rparr>,
     2 \<mapsto> \<lparr>pl_ptr = NULL, pl_next = NULL\<rparr>]"

definition ex_alloc :: allocator where
  "ex_alloc = \<lparr>brk = 100, oom = \<lambda>n. n = 103\<rparr>"

lemma ex_nodes_entries: "entries ex_nodes 1 = [(1, 10), (7, 11)]" "entries ex_nodes 2 = [(2, NULL)]"
  by (rule entries_of_seg; simp add: ex_nodes_def)+

lemma ex_nodes_contents: "contents ex_nodes 1 = [10, 11]" "contents ex_nodes 2 = []"
  by (simp_all add: contents_def ex_nodes_entries)

lemma ex_nodes_wf: "lists_wf {1, 2} ex_nodes" and ex_nodes_fresh: "fresh_above ex_alloc ex_nodes"
proof -
  show "lists_wf {1, 2} ex_nodes"
  proof (rule lists_wfI)
    fix L :: addr assume "L \<in> {1, 2}"
    then consider "L = 1" | "L = 2" by blast
    then show "seg ex_nodes L (entries ex_nodes L) NULL" and "wf_entries L (entries ex_nodes L)"
      by (cases; simp add: ex_nodes_entries; simp add: ex_nodes_def wf_entries_def)+
  qed (auto simp: ex_nodes_entries)
  show "fresh_above ex_alloc ex_nodes"
    by (auto simp: fresh_above_def ex_nodes_def ex_alloc_def split: if_splits)
qed

text \<open>C25: \<open>ptrlist_add\<close> implements appending to a list: on any family of well-formed disjoint
  lists it appends the pointer to the list it is given, leaves the contents of every other list
  as they were and keeps the family well formed; and it writes through a null pointer (has no
  result) exactly when it needs a new node, the list not being empty, and \<open>malloc\<close> fails.\<close>

theorem ptrlist_add_appends:
  assumes "lists_wf H h" "L \<in> H" "fresh_above al h" "p \<noteq> NULL"
  shows "(ptrlist_add al h L p = None \<longleftrightarrow> contents h L \<noteq> [] \<and> fst (malloc al) = NULL) \<and>
    (\<forall>e al' h'. ptrlist_add al h L p = Some (e, al', h') \<longrightarrow>
       lists_wf H h' \<and> fresh_above al' h' \<and> contents h' L = contents h L @ [p] \<and>
       (\<forall>M \<in> H. M \<noteq> L \<longrightarrow> contents h' M = contents h M))"
proof (intro conjI allI impI)
  fix e al' h' assume "ptrlist_add al h L p = Some (e, al', h')"
  note S = ptrlist_add_spec[OF assms(1,2,4,3) this]
  show "lists_wf H h'" "fresh_above al' h'" "contents h' L = contents h L @ [p]" by (rule S)+
  show "\<forall>M \<in> H. M \<noteq> L \<longrightarrow> contents h' M = contents h M" using S(5) by (simp add: contents_def)
qed (rule ptrlist_add_None_iff[OF assms(1,2,3)])

theorem ptrlist_add_appends_witness:
  "\<exists>e al' h'. ptrlist_add ex_alloc ex_nodes 1 12 = Some (e, al', h') \<and>
     contents h' 1 = [10, 11, 12] \<and> contents h' 2 = []"
proof -
  note A = ptrlist_add_appends[OF ex_nodes_wf _ ex_nodes_fresh, of 1 12, simplified]
  have "fst (malloc ex_alloc) \<noteq> NULL" by (simp add: malloc_def ex_alloc_def Let_def)
  with A obtain r where "ptrlist_add ex_alloc ex_nodes 1 12 = Some r"
    by (cases "ptrlist_add ex_alloc ex_nodes 1 12") auto
  with A show ?thesis by (cases r) (simp add: ex_nodes_contents)
qed

text \<open>C26: Looking a pointer up and removing the node found implements the removal of its first
  occurrence: on a well-formed family, \<open>ptrlist_find\<close> on a pointer of the list returns a node
  that \<open>ptrlist_remove\<close> then unlinks with result 1, the other lists keep their contents and
  the family stays well formed; on any other pointer \<open>ptrlist_find\<close> returns \<open>NULL\<close>.\<close>

theorem ptrlist_find_remove_correct:
  assumes "lists_wf H h" "L \<in> H" "p \<noteq> NULL"
  shows "if p \<in> set (contents h L)
    then (\<exists>n h'. ptrlist_find h L p = Some n \<and> n \<noteq> NULL \<and> ptrlist_remove h L n = Some (1, h') \<and>
            lists_wf H h' \<and> contents h' L = remove1 p (contents h L) \<and>
            (\<forall>M \<in> H. M \<noteq> L \<longrightarrow> contents h' M = contents h M))
    else ptrlist_find h L p = Some NULL"
proof (cases "p \<in> set (contents h L)")
  case True
  obtain n h' where R: "ptrlist_find h L p = Some n" "n \<noteq> NULL" "ptrlist_remove h L n = Some (1, h')"
    "lists_wf H h'" "contents h' L = remove1 p (contents h L)"
    "\<And>M. M \<in> H \<Longrightarrow> M \<noteq> L \<Longrightarrow> entries h' M = entries h M"
    by (rule ptrlist_find_remove[OF assms(1,2) True]) (rule that)
  then have "\<forall>M \<in> H. M \<noteq> L \<longrightarrow> contents h' M = contents h M" by (simp add: contents_def)
  with True R show ?thesis by auto
qed (simp add: ptrlist_find_spec(1)[OF assms])

theorem ptrlist_find_remove_correct_witness:
  "\<exists>n h'. ptrlist_find ex_nodes 1 10 = Some n \<and> ptrlist_remove ex_nodes 1 n = Some (1, h') \<and>
     contents h' 1 = [11] \<and> contents h' 2 = []"
  using ptrlist_find_remove_correct[OF ex_nodes_wf, of 1 10] by (auto simp: ex_nodes_contents)

text \<open>Adding a pointer that is not in the list and then finding and removing it restores
  the contents of every list of the family.\<close>

theorem ptrlist_add_remove_roundtrip:
  assumes "lists_wf H h" "L \<in> H" "fresh_above al h" "p \<noteq> NULL" "p \<notin> set (contents h L)"
    and "ptrlist_add al h L p = Some (e, al', h1)"
  shows "\<exists>n h2. ptrlist_find h1 L p = Some n \<and> ptrlist_remove h1 L n = Some (1, h2) \<and>
    lists_wf H h2 \<and> (\<forall>M \<in> H. contents h2 M = contents h M)"
proof -
  have "list_add L p (al, h) = Some (al', h1)" using assms(6) by (simp add: list_add_def)
  from pl.add_del[OF _ assms(2,4) _ this] assms
  obtain s2 where s2: "list_del L p (al', h1) = Some s2" "lists_wf H (snd s2)"
    "\<forall>M \<in> H. contents (snd s2) M = contents h M" by auto
  from s2(1) obtain n r h2 where n: "ptrlist_find h1 L p = Some n"
    "ptrlist_remove h1 L n = Some (r, h2)" "s2 = (al', h2)"
    by (auto simp: list_del_def elim!: bind_SomeE)
  have "p \<in> set (contents h1 L)" using ptrlist_add_spec(4)[OF assms(1,2,4,3,6)] by simp
  then have "r = 1"
    using ptrlist_find_remove[OF ptrlist_add_spec(1)[OF assms(1,2,4,3,6)] assms(2)] n by force
  with s2 n show ?thesis by auto
qed

theorem ptrlist_add_remove_roundtrip_witness:
  "\<exists>e al' h1 n h2. ptrlist_add ex_alloc ex_nodes 1 12 = Some (e, al', h1) \<and>
     ptrlist_find h1 1 12 = Some n \<and> ptrlist_remove h1 1 n = Some (1, h2) \<and> contents h2 1 = [10, 11]"
proof -
  have "fst (malloc ex_alloc) \<noteq> NULL" by (simp add: malloc_def ex_alloc_def Let_def)
  then have "ptrlist_add ex_alloc ex_nodes 1 12 \<noteq> None"
    using ptrlist_add_None_iff[OF ex_nodes_wf _ ex_nodes_fresh, of 1 12] by simp
  then obtain e al' h1 where a: "ptrlist_add ex_alloc ex_nodes 1 12 = Some (e, al', h1)" by auto
  from ptrlist_add_remove_roundtrip[OF ex_nodes_wf _ ex_nodes_fresh _ _ a] a
  show ?thesis by (fastforce simp: ex_nodes_contents)
qed

text \<open>\<open>ptrlist_destroy\<close> does not free the list: the loop test is negated, so on a list of
  at least two nodes every node but the head stays allocated with its contents, unreachable from
  the emptied head, and on a list of one node the loop dereferences a null pointer.\<close>

theorem ptrlist_destroy_leaks:
  assumes "seg h L ((L, q) # ys) NULL"
  shows "ptrlist_destroy h L = (if ys = [] then None
    else Some (h(L \<mapsto> \<lparr>pl_ptr = NULL, pl_next = NULL\<rparr>)))"
proof (cases ys)
  case Nil
  with assms show ?thesis
    by (auto simp: ptrlist_destroy_def rd_def destroy_loop.simps)
next
  case (Cons y zs)
  with assms show ?thesis
    by (auto simp: ptrlist_destroy_def rd_def destroy_loop.simps)
qed

theorem ptrlist_destroy_leaks_witness:
  "\<exists>h'. ptrlist_destroy ex_nodes 1 = Some h' \<and> h' 7 \<noteq> None \<and> ptrlist_destroy ex_nodes 2 = None"
  using ptrlist_destroy_leaks[of ex_nodes 1 10 "[(7, 11)]"]
    ptrlist_destroy_leaks[of ex_nodes 2 NULL "[]"]
  by (simp add: ex_nodes_def)

end
