(* ===== verification/Queue.thy ===== *)
theory Queue
  imports Chain
begin

text \<open>
  The queues of \<open>others/Queue.c\<close>. A \<open>Queue\<close> is a small structure embedded by value in the
  kernel object that owns it; its elements are allocated and live in one heap shared by all
  queues. An element holds a union of an \<open>unsigned int\<close> and a pointer, both of 16 bits:
  one word. \<open>qitems\<close> reads a queue back as a list, and the lemmas show that the operations
  refine a FIFO list on the queue they are given and leave the other queues alone.
\<close>

section \<open>The code\<close>

record QElement =
  qe_val :: u16
  qe_next :: addr

record Queue =
  q_head :: addr
  q_tail :: addr
  q_count :: u16
  is_ptr_queue :: bool

text \<open>Both write out the static \<open>new_queue\<close>, whose only field left open is the type that they set.\<close>

definition new_int_queue :: Queue where
  "new_int_queue = \<lparr>q_head = NULL, q_tail = NULL, q_count = 0, is_ptr_queue = False\<rparr>"

definition new_ptr_queue :: Queue where
  "new_ptr_queue = \<lparr>q_head = NULL, q_tail = NULL, q_count = 0, is_ptr_queue = True\<rparr>"

definition get_queue_type :: "Queue \<Rightarrow> int" where
  "get_queue_type q = (if is_ptr_queue q then 1 else 0)"

definition enqueue :: "QElement heap \<Rightarrow> Queue \<Rightarrow> addr \<Rightarrow> (QElement heap \<times> Queue) option" where
  "enqueue h q qe = do {
     (h', q') \<leftarrow>
       (if q_head q = NULL then Some (h, q\<lparr>q_head := qe\<rparr>)
        else do { h1 \<leftarrow> wr h (q_tail q) (\<lambda>c. c\<lparr>qe_next := qe\<rparr>); Some (h1, q) });
     Some (h', q'\<lparr>q_tail := qe, q_count := q_count q' + 1\<rparr>)
   }"

text \<open>\<open>malloc\<close> of a new element, filled before it is linked; its result is not checked.\<close>

definition new_element :: "allocator \<Rightarrow> QElement heap \<Rightarrow> u16 \<Rightarrow> (addr \<times> allocator \<times> QElement heap) option" where
  "new_element al h v = (let (qe, al') = malloc al in
     if qe = NULL then None else Some (qe, al', h(qe \<mapsto> \<lparr>qe_val = v, qe_next = NULL\<rparr>)))"

text \<open>The common second half of the two enqueue functions.\<close>

definition enqueue_new ::
  "allocator \<Rightarrow> QElement heap \<Rightarrow> Queue \<Rightarrow> u16 \<Rightarrow> (int \<times> allocator \<times> QElement heap \<times> Queue) option" where
  "enqueue_new al h q v = do {
     (qe, al', h1) \<leftarrow> new_element al h v;
     (h2, q') \<leftarrow> enqueue h1 q qe;
     Some (1, al', h2, q')
   }"

definition enqueue_int ::
  "allocator \<Rightarrow> QElement heap \<Rightarrow> Queue \<Rightarrow> u16 \<Rightarrow> (int \<times> allocator \<times> QElement heap \<times> Queue) option" where
  "enqueue_int al h q p =
     (if is_ptr_queue q then Some (0, al, h, q) else enqueue_new al h q p)"

definition enqueue_ptr ::
  "allocator \<Rightarrow> QElement heap \<Rightarrow> Queue \<Rightarrow> addr \<Rightarrow> (int \<times> allocator \<times> QElement heap \<times> Queue) option" where
  "enqueue_ptr al h q p =
     (if \<not> is_ptr_queue q then Some (0, al, h, q) else enqueue_new al h q p)"

definition dequeue :: "QElement heap \<Rightarrow> Queue \<Rightarrow> (addr \<times> Queue) option" where
  "dequeue h q =
     (if q_head q = NULL \<or> q_count q = 0 then Some (NULL, q)
      else do {
        c \<leftarrow> rd h (q_head q);
        let q' = q\<lparr>q_head := qe_next c, q_count := q_count q - 1\<rparr>;
        Some (q_head q, if q_head q' = NULL then q'\<lparr>q_tail := NULL, q_count := 0\<rparr> else q')
      })"

definition dequeue_int :: "QElement heap \<Rightarrow> Queue \<Rightarrow> (u16 \<times> QElement heap \<times> Queue) option" where
  "dequeue_int h q = do {
     (qe, q') \<leftarrow> dequeue h q;
     if qe = NULL then Some (0, h, q')
     else do {
       c \<leftarrow> rd h qe;
       h' \<leftarrow> free h qe;
       Some (qe_val c, h', q')
     }
   }"

definition dequeue_ptr :: "QElement heap \<Rightarrow> Queue \<Rightarrow> (addr \<times> QElement heap \<times> Queue) option" where
  "dequeue_ptr h q = do {
     (qe, q') \<leftarrow> dequeue h q;
     if qe = NULL then Some (NULL, h, q')
     else do {
       c \<leftarrow> rd h qe;
       h' \<leftarrow> free h qe;
       Some (qe_val c, h', q')
     }
   }"

definition queue_peek :: "Queue \<Rightarrow> addr" where
  "queue_peek q = q_head q"

definition queue_peek_int :: "QElement heap \<Rightarrow> Queue \<Rightarrow> u16 option" where
  "queue_peek_int h q =
     (if queue_peek q = NULL \<or> q_count q = 0 then Some 0
      else do { c \<leftarrow> rd h (queue_peek q); Some (qe_val c) })"

definition queue_peek_ptr :: "QElement heap \<Rightarrow> Queue \<Rightarrow> addr option" where
  "queue_peek_ptr h q =
     (if queue_peek q = NULL \<or> q_count q = 0 then Some NULL
      else do { c \<leftarrow> rd h (queue_peek q); Some (qe_val c) })"

text \<open>\<open>free_queue\<close> only pops the elements: the result of \<open>dequeue\<close> is dropped, not passed to \<open>free\<close>. The
  result has the heap of the elements as the loop leaves it.\<close>

partial_function (option) free_queue :: "QElement heap \<Rightarrow> Queue \<Rightarrow> (QElement heap \<times> Queue) option" where
  "free_queue h q =
     (if q_head q = NULL then Some (h, q)
      else do {
        (qe, q') \<leftarrow> dequeue h q;
        free_queue h q'
      })"

section \<open>Queues as lists\<close>

abbreviation qseg :: "QElement heap \<Rightarrow> addr \<Rightarrow> (addr \<times> u16) list \<Rightarrow> addr \<Rightarrow> bool" where
  "qseg \<equiv> chain qe_next qe_val"

definition qnodes :: "QElement heap \<Rightarrow> Queue \<Rightarrow> (addr \<times> u16) list" where
  "qnodes h q = (case walk qe_next qe_val h (q_head q) of None \<Rightarrow> [] | Some xs \<Rightarrow> xs)"

definition qitems :: "QElement heap \<Rightarrow> Queue \<Rightarrow> u16 list" where
  "qitems h q = map snd (qnodes h q)"

definition queue_rep :: "QElement heap \<Rightarrow> Queue \<Rightarrow> (addr \<times> u16) list \<Rightarrow> bool" where
  "queue_rep h q xs \<longleftrightarrow> qseg h (q_head q) xs NULL \<and> q_count q = word_of_nat (length xs) \<and>
     q_tail q = (if xs = [] then NULL else fst (last xs))"

lemma qnodes_rep: "queue_rep h q xs \<Longrightarrow> qnodes h q = xs"
  by (auto simp: queue_rep_def qnodes_def walk_of_chain)

lemma qitems_rep: "queue_rep h q xs \<Longrightarrow> qitems h q = map snd xs"
  by (simp add: qitems_def qnodes_rep)

lemma queue_rep_length: "queue_rep h q xs \<Longrightarrow> length xs < 2 ^ 16"
  unfolding queue_rep_def by (elim conjE) (rule chain_length)

lemma queue_rep_count: "queue_rep h q xs \<Longrightarrow> unat (q_count q) = length xs"
  using queue_rep_length[of h q xs] by (simp add: queue_rep_def unat_of_nat)

lemma queue_rep_empty_iff:
  assumes "queue_rep h q xs"
  shows "q_head q = NULL \<longleftrightarrow> xs = []" and "q_count q = 0 \<longleftrightarrow> xs = []"
    and "0 < q_count q \<longleftrightarrow> xs \<noteq> []"
proof -
  show "q_head q = NULL \<longleftrightarrow> xs = []" using assms by (cases xs) (auto simp: queue_rep_def)
  show c: "q_count q = 0 \<longleftrightarrow> xs = []" using queue_rep_count[OF assms] by (metis length_0_conv unat_0_iff)
  show "0 < q_count q \<longleftrightarrow> xs \<noteq> []" using c by (simp add: word_gt_0)
qed

lemma queue_rep_frame:
  "queue_rep h q xs \<Longrightarrow> (\<And>n. n \<in> fst ` set xs \<Longrightarrow> h' n = h n) \<Longrightarrow> queue_rep h' q xs"
  by (auto simp: queue_rep_def intro: chain_frame)

lemma queue_rep_new [simp]: "queue_rep h new_ptr_queue []" "queue_rep h new_int_queue []"
  by (simp_all add: queue_rep_def new_ptr_queue_def new_int_queue_def)

subsection \<open>Enqueue\<close>

lemma new_element_iff:
  "new_element al h v = Some (qe, al', h') \<longleftrightarrow>
   malloc al = (qe, al') \<and> qe \<noteq> NULL \<and> h' = h(qe \<mapsto> \<lparr>qe_val = v, qe_next = NULL\<rparr>)"
  by (auto simp: new_element_def Let_def split: prod.splits if_splits)

lemma new_element_None_iff: "new_element al h v = None \<longleftrightarrow> fst (malloc al) = NULL"
  by (auto simp: new_element_def Let_def split: prod.splits)

lemma enqueue_rep:
  assumes rep: "queue_rep h q xs" and e: "e \<notin> fst ` set xs" "e \<noteq> NULL"
  shows "\<exists>h2 q'. enqueue (h(e \<mapsto> \<lparr>qe_val = v, qe_next = NULL\<rparr>)) q e = Some (h2, q') \<and>
    queue_rep h2 q' (xs @ [(e, v)]) \<and> is_ptr_queue q' = is_ptr_queue q \<and>
    (\<forall>n. n \<noteq> e \<longrightarrow> n \<notin> fst ` set xs \<longrightarrow> h2 n = h n) \<and> (\<forall>n. n \<noteq> e \<longrightarrow> (h2 n = None) = (h n = None))"
proof -
  define h1 where "h1 = h(e \<mapsto> \<lparr>qe_val = v, qe_next = NULL\<rparr>)"
  have s1: "qseg h1 (q_head q) xs NULL" using rep e by (simp add: queue_rep_def h1_def)
  show ?thesis
  proof (cases xs rule: rev_cases)
    case Nil
    then have "enqueue h1 q e = Some (h1, q\<lparr>q_head := e, q_tail := e, q_count := 1\<rparr>)"
      using rep by (simp add: enqueue_def queue_rep_def)
    then show ?thesis using Nil e by (auto simp: queue_rep_def h1_def)
  next
    case (snoc ys x)
    then obtain c where c: "h1 (fst x) = Some c" "fst x \<noteq> NULL" "qe_val c = snd x" "qe_next c = NULL"
      using s1 by (auto simp: chain_append)
    define h2 where "h2 = h1(fst x \<mapsto> c\<lparr>qe_next := e\<rparr>)"
    define q' where "q' = q\<lparr>q_tail := e, q_count := q_count q + 1\<rparr>"
    have hd: "q_head q \<noteq> NULL" "q_tail q = fst x"
      using rep snoc queue_rep_empty_iff(1)[OF rep] by (simp_all add: queue_rep_def)
    then have "enqueue h1 q e = Some (h2, q')"
      using c by (simp add: enqueue_def wr_def rd_def h2_def q'_def)
    moreover have "qseg h2 (q_head q) (xs @ [(e, v)]) NULL"
    proof -
      have d: "fst x \<notin> fst ` set ys" using chain_distinct[OF s1] snoc by simp
      obtain b where b: "qseg h1 (q_head q) ys b" "b = fst x"
        using s1 snoc by (auto simp: chain_append)
      then have "qseg h2 (q_head q) ys b" using d by (simp add: h2_def)
      moreover have "qseg h2 b [x, (e, v)] NULL"
        using b(2) c e snoc by (auto simp: h2_def h1_def)
      ultimately show ?thesis
        using chain_append[of qe_next qe_val h2 "q_head q" ys "[x, (e, v)]" NULL] snoc by auto
    qed
    ultimately show ?thesis
      using rep snoc c e by (auto simp: queue_rep_def q'_def h2_def h1_def)
  qed
qed

lemma enqueue_new_ex:
  assumes rep: "queue_rep h q xs" and fr: "fresh_above al h"
    and m: "malloc al = (e, al1)" and ne: "e \<noteq> NULL"
  shows "\<exists>h2 q2. enqueue_new al h q v = Some (1, al1, h2, q2) \<and>
      queue_rep h2 q2 (xs @ [(e, v)]) \<and> is_ptr_queue q2 = is_ptr_queue q \<and> h e = None \<and>
      (\<forall>n. n \<noteq> e \<longrightarrow> n \<notin> fst ` set xs \<longrightarrow> h2 n = h n) \<and> fresh_above al1 h2"
proof -
  have he: "h e = None" by (rule malloc_fresh[OF m ne fr])
  have "e \<notin> fst ` set xs"
  proof
    assume "e \<in> fst ` set xs"
    with rep chain_in_heap[of qe_next qe_val h "q_head q" xs NULL e] he
    show False by (simp add: queue_rep_def)
  qed
  from enqueue_rep[OF rep this ne, of v] obtain h2 q2 where
    en: "enqueue (h(e \<mapsto> \<lparr>qe_val = v, qe_next = NULL\<rparr>)) q e = Some (h2, q2)"
      "queue_rep h2 q2 (xs @ [(e, v)])" "is_ptr_queue q2 = is_ptr_queue q"
      "\<forall>n. n \<noteq> e \<longrightarrow> n \<notin> fst ` set xs \<longrightarrow> h2 n = h n"
      "\<forall>n. n \<noteq> e \<longrightarrow> (h2 n = None) = (h n = None)" by blast
  have "fresh_above al1 h2"
    unfolding fresh_above_def
  proof
    fix a assume "a \<in> dom h2"
    then have "a = e \<or> a \<in> dom h" using en(5) by (auto simp: domIff)
    then have "unat a = Suc (brk al) \<or> unat a \<le> brk al"
      using fr unat_malloc[OF m ne] by (auto simp: fresh_above_def)
    then show "unat a \<le> brk al1" using malloc_brk[OF m] by auto
  qed
  with en he m ne show ?thesis by (simp add: enqueue_new_def new_element_def)
qed

lemma enqueue_new_None_iff:
  assumes "queue_rep h q xs" and "fresh_above al h"
  shows "enqueue_new al h q v = None \<longleftrightarrow> fst (malloc al) = NULL"
proof (cases "malloc al")
  case (Pair e al1)
  then show ?thesis
    using enqueue_new_ex[OF assms Pair, of v]
    by (cases "e = NULL") (auto simp: enqueue_new_def new_element_def)
qed

lemma enqueue_new_spec:
  assumes rep: "queue_rep h q xs" and fr: "fresh_above al h"
    and en: "enqueue_new al h q v = Some (r, al', h', q')"
  obtains e where "r = 1" "queue_rep h' q' (xs @ [(e, v)])" "h e = None" "e \<noteq> NULL"
    "\<And>n. n \<noteq> e \<Longrightarrow> n \<notin> fst ` set xs \<Longrightarrow> h' n = h n" "is_ptr_queue q' = is_ptr_queue q"
    "fresh_above al' h'" "malloc al = (e, al')"
proof -
  obtain e al1 where m: "malloc al = (e, al1)" by fastforce
  have ne: "e \<noteq> NULL" using en enqueue_new_None_iff[OF rep fr, of v] m by auto
  show ?thesis using enqueue_new_ex[OF rep fr m ne, of v] en m ne by (auto intro: that)
qed

subsection \<open>Dequeue and peek\<close>

lemma dequeue_empty: "queue_rep h q [] \<Longrightarrow> dequeue h q = Some (NULL, q)"
  by (simp add: dequeue_def queue_rep_def)

lemma dequeue_Cons:
  assumes rep: "queue_rep h q ((n, v) # xs)"
  shows "\<exists>q' c. dequeue h q = Some (n, q') \<and> queue_rep h q' xs \<and> n \<noteq> NULL \<and> h n = Some c \<and>
    qe_val c = v \<and> n \<notin> fst ` set xs \<and> is_ptr_queue q' = is_ptr_queue q"
proof -
  obtain c where c: "q_head q = n" "n \<noteq> NULL" "h n = Some c" "qe_val c = v"
    "qseg h (qe_next c) xs NULL"
    using rep by (auto simp: queue_rep_def)
  have d: "n \<notin> fst ` set xs"
    using rep[unfolded queue_rep_def, THEN conjunct1, THEN chain_distinct] by simp
  have ct: "q_count q \<noteq> 0" using queue_rep_empty_iff(2)[OF rep] by simp
  have "q_count q - 1 = word_of_nat (length xs)" using rep by (simp add: queue_rep_def)
  moreover have "qe_next c = NULL \<longleftrightarrow> xs = []" using c(5) by (cases xs) auto
  ultimately show ?thesis using c d ct rep
    by (auto simp: dequeue_def rd_def queue_rep_def Let_def)
qed

text \<open>\<open>dequeue_int\<close> and \<open>dequeue_ptr\<close> read the same word of the element.\<close>

lemma dequeue_ptr_int: "dequeue_ptr h q = dequeue_int h q"
  by (simp add: dequeue_ptr_def dequeue_int_def)

lemma dequeue_int_empty: "queue_rep h q [] \<Longrightarrow> dequeue_int h q = Some (0, h, q)"
  by (simp add: dequeue_int_def dequeue_empty)

lemma dequeue_int_Cons:
  assumes rep: "queue_rep h q ((n, v) # xs)"
  obtains q' where "dequeue_int h q = Some (v, h(n := None), q')"
    and "queue_rep (h(n := None)) q' xs" and "is_ptr_queue q' = is_ptr_queue q"
proof -
  obtain q' c where q': "dequeue h q = Some (n, q')" "queue_rep h q' xs" "n \<noteq> NULL" "h n = Some c"
    "qe_val c = v" "n \<notin> fst ` set xs" "is_ptr_queue q' = is_ptr_queue q"
    using dequeue_Cons[OF rep] by blast
  then have "dequeue_int h q = Some (v, h(n := None), q')"
    by (simp add: dequeue_int_def rd_def free_def)
  moreover have "queue_rep (h(n := None)) q' xs" using q'(2,6) by (simp add: queue_rep_def)
  ultimately show ?thesis using that q'(7) by blast
qed

lemma queue_peek_int_rep:
  assumes "queue_rep h q xs"
  shows "queue_peek_int h q = Some (case xs of [] \<Rightarrow> 0 | x # _ \<Rightarrow> snd x)"
    and "queue_peek_ptr h q = Some (case xs of [] \<Rightarrow> NULL | x # _ \<Rightarrow> snd x)"
  using assms queue_rep_empty_iff[OF assms]
  by (cases xs; auto simp: queue_peek_int_def queue_peek_ptr_def queue_peek_def queue_rep_def rd_def)+

lemma free_queue_rep:
  "queue_rep h q xs \<Longrightarrow> \<exists>q'. free_queue h q = Some (h, q') \<and> queue_rep h q' [] \<and>
     is_ptr_queue q' = is_ptr_queue q"
proof (induction xs arbitrary: q)
  case Nil
  then show ?case by (subst free_queue.simps) (simp add: queue_rep_empty_iff(1)[OF Nil])
next
  case (Cons x xs)
  obtain n v where x: "x = (n, v)" by fastforce
  from Cons.prems obtain q' where q': "dequeue h q = Some (n, q')" "queue_rep h q' xs"
    "is_ptr_queue q' = is_ptr_queue q"
    using dequeue_Cons[of h q n v xs] by (auto simp: x)
  have "q_head q \<noteq> NULL" using queue_rep_empty_iff(1)[OF Cons.prems] by simp
  with Cons.IH[OF q'(2)] q' show ?case by (subst free_queue.simps) simp
qed

section \<open>A family of queues in one heap\<close>

text \<open>
  The queues of a state, by key: each is well formed and no two share an element.
\<close>

definition queues_wf :: "QElement heap \<Rightarrow> ('k \<rightharpoonup> Queue) \<Rightarrow> bool" where
  "queues_wf h F \<longleftrightarrow>
     (\<forall>k q. F k = Some q \<longrightarrow> queue_rep h q (qnodes h q)) \<and>
     (\<forall>k k' q q'. F k = Some q \<longrightarrow> F k' = Some q' \<longrightarrow> k \<noteq> k' \<longrightarrow>
        fst ` set (qnodes h q) \<inter> fst ` set (qnodes h q') = {})"

lemma queues_wf_rep: "queues_wf h F \<Longrightarrow> F k = Some q \<Longrightarrow> queue_rep h q (qnodes h q)"
  by (simp add: queues_wf_def)

lemma queues_wf_disjoint:
  assumes "queues_wf h F" "F k = Some q" "F k' = Some q'" "k \<noteq> k'" "n \<in> fst ` set (qnodes h q)"
  shows "n \<notin> fst ` set (qnodes h q')"
  using assms(1)[unfolded queues_wf_def, THEN conjunct2, rule_format, OF assms(2-4)] assms(5)
  by (simp add: disjoint_iff)

lemma queues_wfI:
  assumes "\<And>k q. F k = Some q \<Longrightarrow> queue_rep h q (qnodes h q)"
    and "\<And>k k' q q' n. F k = Some q \<Longrightarrow> F k' = Some q' \<Longrightarrow> k \<noteq> k' \<Longrightarrow>
      n \<in> fst ` set (qnodes h q) \<Longrightarrow> n \<notin> fst ` set (qnodes h q')"
  shows "queues_wf h F"
  unfolding queues_wf_def disjoint_iff using assms by simp

text \<open>One queue changes: the analogue of \<open>lists_wf_change\<close>.\<close>

lemma queues_wf_change:
  assumes wf: "queues_wf h F" and old: "F k = Some q \<or> F k = None \<and> os = []"
    and os: "F k = Some q \<Longrightarrow> os = qnodes h q"
    and rep: "queue_rep h' q' xs"
    and frame: "\<And>n. n \<notin> fst ` set os \<Longrightarrow> n \<notin> fst ` set xs \<Longrightarrow> h' n = h n"
    and new: "\<And>n. n \<in> fst ` set xs \<Longrightarrow> n \<in> fst ` set os \<or> h n = None"
  shows "queues_wf h' (F(k \<mapsto> q'))"
    and "\<And>k' p. k' \<noteq> k \<Longrightarrow> F k' = Some p \<Longrightarrow> qnodes h' p = qnodes h p"
proof -
  have disj: "n \<notin> fst ` set os \<and> n \<notin> fst ` set xs"
    if M: "k' \<noteq> k" "F k' = Some p" "n \<in> fst ` set (qnodes h p)" for k' p n
  proof -
    have o: "n \<notin> fst ` set os"
    proof (cases "F k = Some q")
      case True
      then show ?thesis using queues_wf_disjoint[OF wf M(2) True M(1) M(3)] os by simp
    next
      case False
      then show ?thesis using old by simp
    qed
    have "h n \<noteq> None"
      using chain_in_heap[of qe_next qe_val h "q_head p" "qnodes h p" NULL n] M(3)
        queues_wf_rep[OF wf M(2)] by (simp add: queue_rep_def)
    with o new[of n] show ?thesis by auto
  qed
  have other: "queue_rep h' p (qnodes h p)" if "k' \<noteq> k" "F k' = Some p" for k' p
    using queue_rep_frame[OF queues_wf_rep[OF wf that(2)]] disj[OF that] frame by simp
  show eq: "qnodes h' p = qnodes h p" if "k' \<noteq> k" "F k' = Some p" for k' p
    using other[OF that] by (rule qnodes_rep)
  have eq': "qnodes h' q' = xs" using rep by (rule qnodes_rep)
  show "queues_wf h' (F(k \<mapsto> q'))"
  proof (rule queues_wfI)
    fix k' p assume "(F(k \<mapsto> q')) k' = Some p"
    then show "queue_rep h' p (qnodes h' p)"
      using rep eq' other[of k' p] eq[of k' p] by (cases "k' = k") auto
  next
    fix k1 k2 p1 p2 n
    assume A: "(F(k \<mapsto> q')) k1 = Some p1" "(F(k \<mapsto> q')) k2 = Some p2" "k1 \<noteq> k2"
      "n \<in> fst ` set (qnodes h' p1)"
    consider "k1 = k" | "k2 = k" | "k1 \<noteq> k" "k2 \<noteq> k" by blast
    then show "n \<notin> fst ` set (qnodes h' p2)"
    proof cases
      case 1
      then show ?thesis using A eq' eq[of k2 p2] disj[of k2 p2 n] by auto
    next
      case 2
      then show ?thesis using A eq' eq[of k1 p1] disj[of k1 p1 n] by auto
    next
      case 3
      then show ?thesis
        using A eq[of k1 p1] eq[of k2 p2] queues_wf_disjoint[OF wf _ _ A(3), of p1 p2 n] by auto
    qed
  qed
qed

section \<open>The interface\<close>

text \<open>
  What the synchronisation objects rely on: keyed FIFO queues in one state. \<open>keys\<close> are all
  queues of the state, \<open>mine\<close> those the operations accept (the pointer queues for
  \<open>enqueue_ptr\<close>, the integer queues for \<open>enqueue_int\<close>).
\<close>

primrec deq_n :: "('s \<Rightarrow> ('v \<times> 's) option) \<Rightarrow> nat \<Rightarrow> 's \<Rightarrow> ('v list \<times> 's) option" where
  "deq_n d 0 s = Some ([], s)"
| "deq_n d (Suc n) s = do {
     (v, s1) \<leftarrow> d s;
     (vs, s2) \<leftarrow> deq_n d n s1;
     Some (v # vs, s2)
   }"

locale fifo_family =
  fixes wf :: "'s \<Rightarrow> bool"
    and keys :: "'s \<Rightarrow> 'k set"
    and mine :: "'s \<Rightarrow> 'k set"
    and items :: "'s \<Rightarrow> 'k \<Rightarrow> u16 list"
    and enq :: "'k \<Rightarrow> u16 \<Rightarrow> 's \<Rightarrow> 's option"
    and deq :: "'k \<Rightarrow> 's \<Rightarrow> (u16 \<times> 's) option"
  assumes mine_keys: "mine s \<subseteq> keys s"
    and enq_wf: "wf s \<Longrightarrow> k \<in> mine s \<Longrightarrow> enq k v s = Some s' \<Longrightarrow>
      wf s' \<and> keys s' = keys s \<and> mine s' = mine s"
    and enq_items: "wf s \<Longrightarrow> k \<in> mine s \<Longrightarrow> enq k v s = Some s' \<Longrightarrow> k' \<in> keys s \<Longrightarrow>
      items s' k' = (if k' = k then items s k @ [v] else items s k')"
    and deq_empty: "wf s \<Longrightarrow> k \<in> mine s \<Longrightarrow> items s k = [] \<Longrightarrow> deq k s = Some (0, s)"
    and deq_wf: "wf s \<Longrightarrow> k \<in> mine s \<Longrightarrow> items s k = v # vs \<Longrightarrow>
      \<exists>s'. deq k s = Some (v, s') \<and> wf s' \<and> keys s' = keys s \<and> mine s' = mine s \<and>
        (\<forall>k' \<in> keys s. items s' k' = (if k' = k then vs else items s k'))"
begin

lemma enq_all:
  "wf s \<Longrightarrow> k \<in> mine s \<Longrightarrow> foldM (enq k) vs s = Some s' \<Longrightarrow>
   wf s' \<and> keys s' = keys s \<and> mine s' = mine s \<and>
   (\<forall>k' \<in> keys s. items s' k' = (if k' = k then items s k @ vs else items s k'))"
proof (induction vs arbitrary: s)
  case Nil
  then show ?case by simp
next
  case (Cons v vs)
  then obtain s1 where s1: "enq k v s = Some s1" "foldM (enq k) vs s1 = Some s'"
    by (auto elim: bind_SomeE)
  have w: "wf s1" "keys s1 = keys s" "mine s1 = mine s"
    using enq_wf[OF Cons.prems(1,2) s1(1)] by simp_all
  have k: "k \<in> keys s" using Cons.prems(2) mine_keys by blast
  from Cons.IH[OF w(1) _ s1(2)] w Cons.prems(2) k enq_items[OF Cons.prems(1,2) s1(1)]
  show ?case by simp
qed

lemma drain:
  "wf s \<Longrightarrow> k \<in> mine s \<Longrightarrow> items s k = vs \<Longrightarrow>
   \<exists>s'. deq_n (deq k) (length vs) s = Some (vs, s') \<and> wf s' \<and> keys s' = keys s \<and>
     (\<forall>k' \<in> keys s. items s' k' = (if k' = k then [] else items s k'))"
proof (induction vs arbitrary: s)
  case Nil
  then show ?case by simp
next
  case (Cons v vs)
  obtain s1 where s1: "deq k s = Some (v, s1)" "wf s1" "keys s1 = keys s" "mine s1 = mine s"
    "\<forall>k' \<in> keys s. items s1 k' = (if k' = k then vs else items s k')"
    using deq_wf[OF Cons.prems] by blast
  have k: "k \<in> keys s" using Cons.prems(2) mine_keys by blast
  obtain s2 where s2: "deq_n (deq k) (length vs) s1 = Some (vs, s2)" "wf s2" "keys s2 = keys s1"
    "\<forall>k' \<in> keys s1. items s2 k' = (if k' = k then [] else items s1 k')"
    using Cons.IH[OF s1(2)] s1(4,5) k Cons.prems(2) by auto
  with s1 show ?case by auto
qed

lemma fifo:
  assumes "wf s" "k \<in> mine s" "foldM (enq k) vs s = Some s1"
  shows "\<exists>s2. deq_n (deq k) (length (items s k @ vs)) s1 = Some (items s k @ vs, s2) \<and>
    wf s2 \<and> (\<forall>k' \<in> keys s. items s2 k' = (if k' = k then [] else items s k'))"
proof -
  note e = enq_all[OF assms]
  have k: "k \<in> keys s" using assms(2) mine_keys by blast
  from drain[of s1 k "items s k @ vs"] e k assms(2) show ?thesis by auto
qed

end

subsection \<open>Interpretation on the queue operations\<close>

type_synonym 'k qstate = "allocator \<times> QElement heap \<times> ('k \<rightharpoonup> Queue)"

definition qs_keys :: "'k qstate \<Rightarrow> 'k set" where
  "qs_keys s = dom (snd (snd s))"

definition qs_mine :: "bool \<Rightarrow> 'k qstate \<Rightarrow> 'k set" where
  "qs_mine ty s = {k. \<exists>q. snd (snd s) k = Some q \<and> is_ptr_queue q = ty}"

definition qs_items :: "'k qstate \<Rightarrow> 'k \<Rightarrow> u16 list" where
  "qs_items s k = (case snd (snd s) k of None \<Rightarrow> [] | Some q \<Rightarrow> qitems (fst (snd s)) q)"

definition qs_wf :: "'k qstate \<Rightarrow> bool" where
  "qs_wf s \<longleftrightarrow> queues_wf (fst (snd s)) (snd (snd s)) \<and> fresh_above (fst s) (fst (snd s))"

definition qs_enq ::
  "(allocator \<Rightarrow> QElement heap \<Rightarrow> Queue \<Rightarrow> u16 \<Rightarrow> (int \<times> allocator \<times> QElement heap \<times> Queue) option) \<Rightarrow>
   'k \<Rightarrow> u16 \<Rightarrow> 'k qstate \<Rightarrow> 'k qstate option" where
  "qs_enq enq k v s = do {
     q \<leftarrow> snd (snd s) k;
     (r, al, h, q') \<leftarrow> enq (fst s) (fst (snd s)) q v;
     Some (al, h, (snd (snd s))(k \<mapsto> q'))
   }"

definition qs_deq ::
  "(QElement heap \<Rightarrow> Queue \<Rightarrow> (u16 \<times> QElement heap \<times> Queue) option) \<Rightarrow>
   'k \<Rightarrow> 'k qstate \<Rightarrow> (u16 \<times> 'k qstate) option" where
  "qs_deq deq k s = do {
     q \<leftarrow> snd (snd s) k;
     (v, h, q') \<leftarrow> deq (fst (snd s)) q;
     Some (v, fst s, h, (snd (snd s))(k \<mapsto> q'))
   }"

lemma qs_enq_spec:
  assumes wf: "qs_wf s" and k: "snd (snd s) k = Some q"
    and en: "enqueue_new (fst s) (fst (snd s)) q v = Some (r, al, h', q')"
    and s': "s' = (al, h', (snd (snd s))(k \<mapsto> q'))"
  shows "qs_wf s'" and "qs_keys s' = qs_keys s" and "qs_mine ty s' = qs_mine ty s"
    and "k' \<in> qs_keys s \<Longrightarrow> qs_items s' k' = (if k' = k then qs_items s k @ [v] else qs_items s k')"
proof -
  let ?h = "fst (snd s)" and ?F = "snd (snd s)"
  have W: "queues_wf ?h ?F" "fresh_above (fst s) ?h" using wf by (simp_all add: qs_wf_def)
  have rep: "queue_rep ?h q (qnodes ?h q)" by (rule queues_wf_rep[OF W(1) k])
  obtain e where e: "queue_rep h' q' (qnodes ?h q @ [(e, v)])" "?h e = None" "e \<noteq> NULL"
    "\<And>n. n \<noteq> e \<Longrightarrow> n \<notin> fst ` set (qnodes ?h q) \<Longrightarrow> h' n = ?h n" "is_ptr_queue q' = is_ptr_queue q"
    "fresh_above al h'"
    by (rule enqueue_new_spec[OF rep W(2) en]) (rule that)
  have "queues_wf h' (?F(k \<mapsto> q'))"
    by (rule queues_wf_change(1)[OF W(1) disjI1[OF k] refl e(1)]) (use e in auto)
  with e(6) show "qs_wf s'" by (simp add: qs_wf_def s')
  show "qs_keys s' = qs_keys s" using k by (auto simp: qs_keys_def s')
  show "qs_mine ty s' = qs_mine ty s" using k e(5) by (auto simp: qs_mine_def s')
  assume k': "k' \<in> qs_keys s"
  show "qs_items s' k' = (if k' = k then qs_items s k @ [v] else qs_items s k')"
  proof (cases "k' = k")
    case True
    then show ?thesis using k qitems_rep[OF e(1)] by (simp add: qs_items_def s' qitems_def)
  next
    case False
    then obtain p where p: "?F k' = Some p" using k' by (auto simp: qs_keys_def)
    have "qnodes h' p = qnodes ?h p"
      by (rule queues_wf_change(2)[OF W(1) disjI1[OF k] refl e(1)]) (use e False p in auto)
    with False p show ?thesis by (simp add: qs_items_def s' qitems_def)
  qed
qed

lemma qs_deq_spec:
  assumes wf: "qs_wf s" and k: "snd (snd s) k = Some q" and it: "qs_items s k = v # vs"
  shows "\<exists>s'. qs_deq dequeue_int k s = Some (v, s') \<and> qs_wf s' \<and> qs_keys s' = qs_keys s \<and>
    (\<forall>ty. qs_mine ty s' = qs_mine ty s) \<and>
    (\<forall>k' \<in> qs_keys s. qs_items s' k' = (if k' = k then vs else qs_items s k'))"
proof -
  let ?h = "fst (snd s)" and ?F = "snd (snd s)"
  have W: "queues_wf ?h ?F" "fresh_above (fst s) ?h" using wf by (simp_all add: qs_wf_def)
  have rep: "queue_rep ?h q (qnodes ?h q)" by (rule queues_wf_rep[OF W(1) k])
  obtain n xs where xs: "qnodes ?h q = (n, v) # xs" "map snd xs = vs"
    using it k by (auto simp: qs_items_def qitems_def map_eq_Cons_conv)
  define h' where "h' = ?h(n := None)"
  obtain q' where q': "dequeue_int ?h q = Some (v, h', q')" "queue_rep h' q' xs"
    "is_ptr_queue q' = is_ptr_queue q"
    unfolding h'_def by (rule dequeue_int_Cons[of ?h q n v xs]) (use rep xs that in simp_all)
  define s' where "s' = (fst s, h', ?F(k \<mapsto> q'))"
  have d: "qs_deq dequeue_int k s = Some (v, s')" using k q' by (simp add: qs_deq_def s'_def)
  have fr: "h' m = ?h m" if "m \<notin> fst ` set (qnodes ?h q)" for m
    using that by (auto simp: h'_def xs)
  have "queues_wf h' (?F(k \<mapsto> q'))"
    by (rule queues_wf_change(1)[OF W(1) disjI1[OF k] refl q'(2)]) (use fr xs in auto)
  then have "qs_wf s'" using fresh_above_del[OF W(2), of n] by (simp add: qs_wf_def s'_def h'_def)
  moreover have "qs_keys s' = qs_keys s" using k by (auto simp: qs_keys_def s'_def)
  moreover have "qs_mine ty s' = qs_mine ty s" for ty using k q'(3) by (auto simp: qs_mine_def s'_def)
  moreover have "qs_items s' k' = (if k' = k then vs else qs_items s k')" if k': "k' \<in> qs_keys s" for k'
  proof (cases "k' = k")
    case True
    then show ?thesis using qitems_rep[OF q'(2)] xs by (simp add: qs_items_def s'_def)
  next
    case False
    then obtain p where p: "?F k' = Some p" using k' by (auto simp: qs_keys_def)
    have "qnodes h' p = qnodes ?h p"
      by (rule queues_wf_change(2)[OF W(1) disjI1[OF k] refl q'(2)]) (use fr xs False p in auto)
    with False p show ?thesis by (simp add: qs_items_def s'_def qitems_def)
  qed
  ultimately show ?thesis using d by blast
qed

lemma qs_deq_empty:
  assumes wf: "qs_wf s" and k: "snd (snd s) k = Some q" and it: "qs_items s k = []"
  shows "qs_deq dequeue_int k s = Some (0, s)"
proof -
  have "queue_rep (fst (snd s)) q []"
    using queues_wf_rep[of "fst (snd s)" "snd (snd s)" k q] wf k it
    by (simp add: qs_wf_def qs_items_def qitems_def)
  then have "dequeue_int (fst (snd s)) q = Some (0, fst (snd s), q)" by (rule dequeue_int_empty)
  with k show ?thesis by (simp add: qs_deq_def fun_upd_idem)
qed

lemma qs_enq_typed:
  assumes "k \<in> qs_mine ty s" "qs_enq (if ty then enqueue_ptr else enqueue_int) k v s = Some s'"
  obtains q r al h q' where "snd (snd s) k = Some q"
    "enqueue_new (fst s) (fst (snd s)) q v = Some (r, al, h, q')" "s' = (al, h, (snd (snd s))(k \<mapsto> q'))"
  using assms
  by (cases ty) (auto simp: qs_mine_def qs_enq_def enqueue_ptr_def enqueue_int_def elim!: bind_SomeE)

lemma fifo_family_queues:
  "fifo_family qs_wf qs_keys (qs_mine ty) qs_items
     (qs_enq (if ty then enqueue_ptr else enqueue_int)) (qs_deq dequeue_int)"
proof
  fix s :: "'k qstate" and k v s' k' vs
  show "qs_mine ty s \<subseteq> qs_keys s" by (auto simp: qs_mine_def qs_keys_def)
  {
    assume wf: "qs_wf s" and k: "k \<in> qs_mine ty s"
      and en: "qs_enq (if ty then enqueue_ptr else enqueue_int) k v s = Some s'"
    from qs_enq_typed[OF k en] obtain q r al h q' where q: "snd (snd s) k = Some q"
      "enqueue_new (fst s) (fst (snd s)) q v = Some (r, al, h, q')"
      "s' = (al, h, (snd (snd s))(k \<mapsto> q'))" .
    note S = qs_enq_spec[OF wf q]
    show "qs_wf s' \<and> qs_keys s' = qs_keys s \<and> qs_mine ty s' = qs_mine ty s" using S(1-3) by blast
    show "qs_items s' k' = (if k' = k then qs_items s k @ [v] else qs_items s k')"
      if "k' \<in> qs_keys s" using S(4)[OF that] .
  }
  assume wf: "qs_wf s" and k: "k \<in> qs_mine ty s"
  then obtain q where q: "snd (snd s) k = Some q" by (auto simp: qs_mine_def)
  show "qs_deq dequeue_int k s = Some (0, s)" if "qs_items s k = []"
    by (rule qs_deq_empty[OF wf q that])
  show "\<exists>s'. qs_deq dequeue_int k s = Some (v, s') \<and> qs_wf s' \<and> qs_keys s' = qs_keys s \<and>
      qs_mine ty s' = qs_mine ty s \<and>
      (\<forall>k' \<in> qs_keys s. qs_items s' k' = (if k' = k then vs else qs_items s k'))"
    if "qs_items s k = v # vs"
    using qs_deq_spec[OF wf q that] by blast
qed

lemma dequeue_ptr_eq: "dequeue_ptr = dequeue_int"
  by (simp add: fun_eq_iff dequeue_ptr_int)

interpretation ptrq: fifo_family qs_wf qs_keys "qs_mine True" qs_items "qs_enq enqueue_ptr"
  "qs_deq dequeue_ptr"
  using fifo_family_queues[of True] by (simp add: dequeue_ptr_eq)

interpretation intq: fifo_family qs_wf qs_keys "qs_mine False" qs_items "qs_enq enqueue_int"
  "qs_deq dequeue_int"
  using fifo_family_queues[of False] by simp

section \<open>Properties\<close>

text \<open>C27: The pointer queues are first-in first-out and do not interfere: after any sequence of
  successful \<open>enqueue_ptr\<close> calls on one queue of a well-formed family, as many \<open>dequeue_ptr\<close>
  calls as it then has elements all succeed and return the old elements followed by the enqueued
  ones, in order, leave it empty, and leave the elements of every other queue as they were.\<close>

theorem ptr_queue_fifo:
  assumes "qs_wf s" "snd (snd s) k = Some q" "is_ptr_queue q"
    and "foldM (qs_enq enqueue_ptr k) vs s = Some s1"
  shows "\<exists>s2. deq_n (qs_deq dequeue_ptr k) (length (qs_items s k @ vs)) s1 = Some (qs_items s k @ vs, s2) \<and>
    qs_wf s2 \<and> (\<forall>k' \<in> qs_keys s. qs_items s2 k' = (if k' = k then [] else qs_items s k'))"
  by (rule ptrq.fifo[OF assms(1) _ assms(4)]) (use assms(2,3) in \<open>simp add: qs_mine_def\<close>)

definition ex_queues :: "bool \<Rightarrow> nat qstate" where
  "ex_queues ty = (\<lparr>brk = 0, oom = \<lambda>_. False\<rparr>, Map.empty,
     [0 \<mapsto> \<lparr>q_head = NULL, q_tail = NULL, q_count = 0, is_ptr_queue = ty\<rparr>])"

lemma ex_queues_wf: "qs_wf (ex_queues ty)" and ex_queues_items: "qs_items (ex_queues ty) 0 = []"
proof -
  have r: "queue_rep Map.empty \<lparr>q_head = NULL, q_tail = NULL, q_count = 0, is_ptr_queue = ty\<rparr> []"
    by (simp add: queue_rep_def)
  show "qs_items (ex_queues ty) 0 = []" by (simp add: ex_queues_def qs_items_def qitems_rep[OF r])
  show "qs_wf (ex_queues ty)"
    unfolding qs_wf_def
    by (intro conjI queues_wfI)
      (auto simp: ex_queues_def qnodes_rep[OF r] r fresh_above_def split: if_splits)
qed

theorem ptr_queue_fifo_witness:
  "\<exists>s1 s2. foldM (qs_enq enqueue_ptr 0) [7, 9] (ex_queues True) = Some s1 \<and>
     deq_n (qs_deq dequeue_ptr 0) 2 s1 = Some ([7, 9], s2)"
proof -
  have "foldM (qs_enq enqueue_ptr 0) [7, 9] (ex_queues True) \<noteq> None"
    by (simp add: ex_queues_def qs_enq_def enqueue_ptr_def enqueue_new_def new_element_def malloc_def
        enqueue_def heap_simps Let_def)
  then obtain s1 where s1: "foldM (qs_enq enqueue_ptr 0) [7, 9] (ex_queues True) = Some s1" by blast
  have "snd (snd (ex_queues True)) 0 = Some new_ptr_queue" "is_ptr_queue new_ptr_queue"
    by (simp_all add: ex_queues_def new_ptr_queue_def)
  from ptr_queue_fifo[OF ex_queues_wf this s1] s1 show ?thesis
    by (auto simp: ex_queues_items numeral_2_eq_2)
qed

text \<open>Dequeuing never fails and an empty queue reads as 0: on every queue that represents a
  list, \<open>dequeue_int\<close> returns the first element, frees exactly its node and leaves a queue that
  represents the rest; on an empty queue it returns 0 and changes nothing, so an element 0 of an
  integer queue cannot be told from an empty queue by the value.\<close>

theorem dequeue_int_correct:
  assumes "queue_rep h q xs"
  shows "case xs of
      [] \<Rightarrow> dequeue_int h q = Some (0, h, q)
    | (n, v) # ys \<Rightarrow> \<exists>q'. dequeue_int h q = Some (v, h(n := None), q') \<and> queue_rep (h(n := None)) q' ys"
proof (cases xs)
  case Nil
  with assms show ?thesis by (simp add: dequeue_int_empty)
next
  case (Cons x ys)
  obtain n v where x: "x = (n, v)" by fastforce
  from assms have "queue_rep h q ((n, v) # ys)" by (simp add: Cons x)
  then obtain q' where "dequeue_int h q = Some (v, h(n := None), q')" "queue_rep (h(n := None)) q' ys"
    by (rule dequeue_int_Cons)
  then show ?thesis by (simp add: Cons x)
qed

theorem dequeue_int_correct_witness:
  "\<exists>q'. dequeue_int [5 \<mapsto> \<lparr>qe_val = 42, qe_next = NULL\<rparr>]
      \<lparr>q_head = 5, q_tail = 5, q_count = 1, is_ptr_queue = False\<rparr> = Some (42, Map.empty, q')"
  using dequeue_int_correct[of "[5 \<mapsto> \<lparr>qe_val = 42, qe_next = NULL\<rparr>]"
      "\<lparr>q_head = 5, q_tail = 5, q_count = 1, is_ptr_queue = False\<rparr>" "[(5, 42)]"]
  by (auto simp: queue_rep_def)

lemma queue_rep_elements: "queue_rep h q xs \<Longrightarrow> (n, v) \<in> set xs \<Longrightarrow> map_option qe_val (h n) = Some v"
proof (induction xs arbitrary: q)
  case (Cons x xs)
  obtain a b where x: "x = (a, b)" by fastforce
  with Cons.prems(1) have "map_option qe_val (h a) = Some b" by (auto simp: queue_rep_def)
  moreover obtain q' where "queue_rep h q' xs" using dequeue_Cons[of h q a b xs] Cons.prems(1) by (auto simp: x)
  ultimately show ?case using Cons.IH Cons.prems(2) by (auto simp: x)
qed simp

text \<open>C34: \<open>free_queue\<close> always returns and empties the queue, but leaks its elements: in the heap it
  leaves behind every element that was in the queue is still allocated, with its value, while the queue that would
  lead to it is empty; the rest of the heap is as before.\<close>

theorem free_queue_empties_and_leaks:
  assumes "queue_rep h q xs"
  shows "\<exists>h' q'. free_queue h q = Some (h', q') \<and> queue_rep h' q' [] \<and> is_ptr_queue q' = is_ptr_queue q \<and>
    (\<forall>(n, v) \<in> set xs. map_option qe_val (h' n) = Some v) \<and> (\<forall>n. n \<notin> fst ` set xs \<longrightarrow> h' n = h n)"
  using free_queue_rep[OF assms] queue_rep_elements[OF assms] by fastforce

theorem free_queue_empties_and_leaks_witness:
  "\<exists>h' q'. free_queue [5 \<mapsto> \<lparr>qe_val = 42, qe_next = NULL\<rparr>]
      \<lparr>q_head = 5, q_tail = 5, q_count = 1, is_ptr_queue = False\<rparr> = Some (h', q') \<and> q_count q' = 0 \<and>
      map_option qe_val (h' 5) = Some 42"
  using free_queue_empties_and_leaks[of "[5 \<mapsto> \<lparr>qe_val = 42, qe_next = NULL\<rparr>]"
      "\<lparr>q_head = 5, q_tail = 5, q_count = 1, is_ptr_queue = False\<rparr>" "[(5, 42)]"]
  by (auto simp: queue_rep_def)

end
