(* ===== verification/Kernel_State.thy ===== *)
theory Kernel_State
  imports PtrList Queue
begin

text \<open>
  The kernel's data: the enumerations and structures of \<open>kernel_shared.h\<close>,
  \<open>kernel_errors.h\<close> and the module headers, the state record with the global variables of
  all modules, and the helpers the modules share (raising an error, looking an object up by
  its id, adding an object to its list).

  Every kind of object has its own typed heap. Fields of a fresh object that the code does
  not initialise are taken from \<open>junk_PD\<close>, \<open>junk_EVENT\<close> and \<open>junk_MUTEX\<close>, which are arbitrary:
  nothing is assumed about the contents of uninitialised memory.
\<close>

section \<open>Enumerations\<close>

datatype ERROR_CODE =
  NO_ERR | INVALID_ARG_ERR | INVALID_REQUEST_ERR | KERNEL_INACTIVE_ERR
| UNPROCESSABLE_TASK_STATE_ERR | MAX_OBJECT_ERR | OBJECT_NOT_FOUND_ERR
| MALLOC_FAILED_ERR | UNKNOWN_ERR

datatype PROCESS_STATE =
  DEAD | READY | RUNNING | SLEEPING | SUSPENDED
| WAIT_EVENT | WAIT_EVENTG | WAIT_MUTEX | WAIT_SEMAPHORE | WAIT_MAILBOX

datatype KERNEL_REQUEST =
  NONE
| TASK_CREATE | TASK_YIELD | TASK_TERMINATE | TASK_SUSPEND | TASK_RESUME | TASK_SLEEP
| E_CREATE | E_WAIT | E_SIGNAL
| EG_CREATE | EG_DESTROY | EG_SETBITS | EG_CLEARBITS | EG_WAITBITS | EG_GETBITS
| MUT_CREATE | MUT_DESTROY | MUT_LOCK | MUT_UNLOCK
| SEM_CREATE | SEM_DESTROY | SEM_GIVE | SEM_GET
| MB_CREATE | MB_DESTROY | MB_DESTROYM | MB_CHECKMAIL | MB_SENDMAIL | MB_RECVMAIL
| INVALID

section \<open>Structures\<close>

text \<open>
  The stack pointer of a task is a byte offset into a stack block, as a pair (block, offset).
  A request argument is the union \<open>Kernel_Arg\<close> of an \<open>int\<close> and a pointer: one 16-bit word.
  The five arguments are a function of the index.
\<close>

type_synonym stack_ptr = "addr \<times> int"

record PD =
  pid :: u16
  pri :: u8
  state :: PROCESS_STATE
  stack_size :: u16
  stack :: addr
  sp :: stack_ptr
  code_ptr :: addr
  task_arg :: u16
  request :: KERNEL_REQUEST
  request_args :: "nat \<Rightarrow> u16"
  request_retval :: u16
  request_timeout :: u16
  last_state :: PROCESS_STATE
  starvation_ticks :: u16

record EVENT_TYPE =
  ev_id :: u16
  ev_owner :: u16
  ev_count :: u16

record EVENT_GROUP_TYPE =
  eg_id :: u16
  eg_events :: u16

record MUTEX_TYPE =
  mut_id :: u16
  mut_owner :: u16
  lock_count :: u16
  highest_priority :: u16
  owner_orig_priority :: u8
  mut_wait_queue :: Queue
  mut_orig_priority :: Queue

record SEMAPHORE_TYPE =
  sem_id :: u16
  sem_count :: u16
  is_binary :: u16
  sem_wait_queue :: Queue

record MAIL =
  mail_ptr :: addr
  mail_size :: u16
  mail_source :: u16

record MAILBOX_TYPE =
  mb_id :: u16
  capacity :: u16
  mails :: Queue
  send_queue :: Queue
  recv_queue :: Queue

section \<open>The state\<close>

text \<open>
  \<open>bytes\<close> holds the byte blocks (task stacks, messages). \<open>IRQ\<close> is the processor's global
  interrupt flag, cleared by \<open>Disable_Interrupt\<close> and set by \<open>Enable_Interrupt\<close>.
  \<open>Task_Terminate_entry\<close> is the link-time address of the function \<open>Task_Terminate\<close>.
\<close>

record kstate =
  alloc :: allocator
  nodes :: "PtrList heap"
  qelems :: "QElement heap"
  bytes :: "u8 list heap"
  pds :: "PD heap"
  events :: "EVENT_TYPE heap"
  event_groups :: "EVENT_GROUP_TYPE heap"
  mutexes :: "MUTEX_TYPE heap"
  semaphores :: "SEMAPHORE_TYPE heap"
  mailboxes :: "MAILBOX_TYPE heap"
  mail_objs :: "MAIL heap"
  junk_PD :: "addr \<Rightarrow> PD"
  junk_EVENT :: "addr \<Rightarrow> EVENT_TYPE"
  junk_MUTEX :: "addr \<Rightarrow> MUTEX_TYPE"
  Task_Terminate_entry :: u16
  Task_Count :: u16
  Last_PID :: u16
  Event_Count :: u16
  Last_EventID :: u16
  Event_Group_Count :: u16
  Last_Event_Group_ID :: u16
  Mutex_Count :: u16
  Last_MutexID :: u16
  Semaphore_Count :: u16
  Last_SemaphoreID :: u16
  Mailbox_Count :: u16
  Last_MailboxID :: u16
  Tick_Count :: u16
  Last_Dispatched :: addr
  Preemptive_Cswitch_Allowed :: u16
  Ticks_Since_Last_Cswitch :: u16
  Current_Process :: addr
  CurrentSp :: stack_ptr
  KernelActive :: u16
  Kernel_Request_Cswitch :: u16
  err :: ERROR_CODE
  IRQ :: bool

section \<open>Constants\<close>

text \<open>The configuration of \<open>os.h\<close> and the module headers, and the static list heads.\<close>

abbreviation MAXTHREAD :: nat where "MAXTHREAD \<equiv> 16"
abbreviation LOWEST_PRIORITY :: nat where "LOWEST_PRIORITY \<equiv> 10"
abbreviation PREEMPTIVE_CSWITCH_FREQ :: nat where "PREEMPTIVE_CSWITCH_FREQ \<equiv> 25"
abbreviation STARVATION_MAX :: nat where "STARVATION_MAX \<equiv> MAXTHREAD * 10"
abbreviation MAXEVENT :: nat where "MAXEVENT \<equiv> 8"
abbreviation MAX_EVENT_SIG_MISS :: nat where "MAX_EVENT_SIG_MISS \<equiv> 1"
abbreviation MAXEVENTGROUP :: nat where "MAXEVENTGROUP \<equiv> 8"
abbreviation MAXMUTEX :: nat where "MAXMUTEX \<equiv> 8"
abbreviation MAXSEMAPHORE :: nat where "MAXSEMAPHORE \<equiv> 8"
abbreviation MAXMAILBOX :: nat where "MAXMAILBOX \<equiv> 8"

definition ProcessList :: addr where "ProcessList = 1"
definition EventList :: addr where "EventList = 2"
definition EventGroupList :: addr where "EventGroupList = 3"
definition MutexList :: addr where "MutexList = 4"
definition SemaphoreList :: addr where "SemaphoreList = 5"
definition MailboxList :: addr where "MailboxList = 6"

lemmas list_heads = ProcessList_def EventList_def EventGroupList_def MutexList_def
  SemaphoreList_def MailboxList_def

definition LISTS :: "addr set" where
  "LISTS = {ProcessList, EventList, EventGroupList, MutexList, SemaphoreList, MailboxList}"

lemma in_LISTS [simp]:
  "ProcessList \<in> LISTS" "EventList \<in> LISTS" "EventGroupList \<in> LISTS"
  "MutexList \<in> LISTS" "SemaphoreList \<in> LISTS" "MailboxList \<in> LISTS"
  by (simp_all add: LISTS_def)

lemma heads_not_NULL [simp]:
  "ProcessList \<noteq> NULL" "EventList \<noteq> NULL" "EventGroupList \<noteq> NULL"
  "MutexList \<noteq> NULL" "SemaphoreList \<noteq> NULL" "MailboxList \<noteq> NULL"
  by (simp_all add: list_heads)

lemma heads_distinct [simp]:
  "ProcessList \<noteq> EventList" "ProcessList \<noteq> EventGroupList" "ProcessList \<noteq> MutexList"
  "ProcessList \<noteq> SemaphoreList" "ProcessList \<noteq> MailboxList"
  "EventList \<noteq> ProcessList" "EventList \<noteq> EventGroupList" "EventList \<noteq> MutexList"
  "EventList \<noteq> SemaphoreList" "EventList \<noteq> MailboxList"
  "EventGroupList \<noteq> ProcessList" "EventGroupList \<noteq> EventList" "EventGroupList \<noteq> MutexList"
  "EventGroupList \<noteq> SemaphoreList" "EventGroupList \<noteq> MailboxList"
  "MutexList \<noteq> ProcessList" "MutexList \<noteq> EventList" "MutexList \<noteq> EventGroupList"
  "MutexList \<noteq> SemaphoreList" "MutexList \<noteq> MailboxList"
  "SemaphoreList \<noteq> ProcessList" "SemaphoreList \<noteq> EventList" "SemaphoreList \<noteq> EventGroupList"
  "SemaphoreList \<noteq> MutexList" "SemaphoreList \<noteq> MailboxList"
  "MailboxList \<noteq> ProcessList" "MailboxList \<noteq> EventList" "MailboxList \<noteq> EventGroupList"
  "MailboxList \<noteq> MutexList" "MailboxList \<noteq> SemaphoreList"
  by (simp_all add: list_heads)

section \<open>Errors\<close>

text \<open>
  Raising an error stores its code (the message printed with it is output only, and
  \<open>Kernel_Error_Handler\<close> has an empty body).
\<close>

definition Kernel_Error_Handler :: "ERROR_CODE \<Rightarrow> kstate \<Rightarrow> kstate" where
  "Kernel_Error_Handler e s = s"

definition kernel_raise_error :: "ERROR_CODE \<Rightarrow> kstate \<Rightarrow> kstate" where
  "kernel_raise_error e s = Kernel_Error_Handler e (s\<lparr>err := e\<rparr>)"

lemma kernel_raise_error_eq [simp]: "kernel_raise_error e s = s\<lparr>err := e\<rparr>"
  by (simp add: kernel_raise_error_def Kernel_Error_Handler_def)

fun error_tostring :: "ERROR_CODE \<Rightarrow> string" where
  "error_tostring NO_ERR = ''NO_ERR''"
| "error_tostring INVALID_ARG_ERR = ''INVALID_ARG_ERR''"
| "error_tostring INVALID_REQUEST_ERR = ''INVALID_REQUEST_ERR''"
| "error_tostring KERNEL_INACTIVE_ERR = ''KERNEL_INACTIVE_ERR''"
| "error_tostring UNPROCESSABLE_TASK_STATE_ERR = ''UNPROCESSABLE_TASK_STATE_ERR''"
| "error_tostring MAX_OBJECT_ERR = ''MAX_OBJECT_ERR''"
| "error_tostring OBJECT_NOT_FOUND_ERR = ''OBJECT_NOT_FOUND_ERR''"
| "error_tostring MALLOC_FAILED_ERR = ''MALLOC_FAILED_ERR''"
| "error_tostring _ = ''UNKNOWN_ERR''"

section \<open>Access to the state\<close>

text \<open>A write through a \<open>PD*\<close>, and a write to a field of \<open>*Current_Process\<close>.\<close>

definition upd_pd :: "addr \<Rightarrow> (PD \<Rightarrow> PD) \<Rightarrow> kstate \<Rightarrow> kstate option" where
  "upd_pd p f s = do { h \<leftarrow> wr (pds s) p f; Some (s\<lparr>pds := h\<rparr>) }"

definition cur_pd :: "kstate \<Rightarrow> PD option" where
  "cur_pd s = rd (pds s) (Current_Process s)"

definition upd_cur :: "(PD \<Rightarrow> PD) \<Rightarrow> kstate \<Rightarrow> kstate option" where
  "upd_cur f s = upd_pd (Current_Process s) f s"

text \<open>The request arguments of the calling task.\<close>

definition req_arg :: "nat \<Rightarrow> kstate \<Rightarrow> u16 option" where
  "req_arg n s = do { d \<leftarrow> cur_pd s; Some (request_args d n) }"

text \<open>
  \<open>malloc\<close> and the list functions on the kernel state. \<open>put_obj h p ob\<close> is the typed heap
  after a \<open>malloc\<close> that returned \<open>p\<close>: the new block with its uninitialised contents \<open>ob\<close>.
\<close>

definition put_obj :: "'o heap \<Rightarrow> addr \<Rightarrow> 'o \<Rightarrow> 'o heap" where
  "put_obj h p ob = (if p = NULL then h else h(p \<mapsto> ob))"

definition malloc_k :: "kstate \<Rightarrow> addr \<times> kstate" where
  "malloc_k s = (let (p, al) = malloc (alloc s) in (p, s\<lparr>alloc := al\<rparr>))"

definition add_to_list :: "addr \<Rightarrow> addr \<Rightarrow> kstate \<Rightarrow> kstate option" where
  "add_to_list L p s = do {
     (e, al, h) \<leftarrow> ptrlist_add (alloc s) (nodes s) L p;
     Some (s\<lparr>alloc := al, nodes := h\<rparr>)
   }"

definition remove_from_list :: "addr \<Rightarrow> addr \<Rightarrow> kstate \<Rightarrow> kstate option" where
  "remove_from_list L n s = do {
     (r, h) \<leftarrow> ptrlist_remove (nodes s) L n;
     Some (s\<lparr>nodes := h\<rparr>)
   }"

text \<open>
  The loop of all \<open>find...ByID\<close> functions: walk the list, dereference the object of each node,
  stop at the first whose id matches. The head node of an empty list holds a null pointer,
  which the loop dereferences.
\<close>

partial_function (option) find_obj ::
  "PtrList heap \<Rightarrow> 'o heap \<Rightarrow> ('o \<Rightarrow> bool) \<Rightarrow> addr \<Rightarrow> addr option" where
  "find_obj h oh is_it i =
     (if i = NULL then Some NULL
      else do {
        c \<leftarrow> rd h i;
        ob \<leftarrow> rd oh (pl_ptr c);
        if is_it ob then Some (pl_ptr c) else find_obj h oh is_it (pl_next c)
      })"

text \<open>
  The search loop of all \<open>Kernel_Destroy_...\<close> functions: it leaves the loop variable \<open>i\<close>
  (\<open>NULL\<close> when the list is exhausted) and the last object pointer it looked at.
\<close>

partial_function (option) find_node ::
  "PtrList heap \<Rightarrow> 'o heap \<Rightarrow> ('o \<Rightarrow> bool) \<Rightarrow> addr \<Rightarrow> addr \<Rightarrow> (addr \<times> addr) option" where
  "find_node h oh is_it i ob_ptr =
     (if i = NULL then Some (NULL, ob_ptr)
      else do {
        c \<leftarrow> rd h i;
        ob \<leftarrow> rd oh (pl_ptr c);
        if is_it ob then Some (i, pl_ptr c) else find_node h oh is_it (pl_next c) (pl_ptr c)
      })"

text \<open>The parameter is an \<open>int\<close>; the comparison with the unsigned \<open>pid\<close> converts it back.\<close>

definition findProcessByPID :: "u16 \<Rightarrow> kstate \<Rightarrow> addr option" where
  "findProcessByPID p s =
     (if sint p \<le> 0 then Some NULL
      else find_obj (nodes s) (pds s) (\<lambda>d. pid d = p) ProcessList)"

section \<open>Lemmas on lookups\<close>

lemma upd_pd_Some: "rd (pds s) p = Some d \<Longrightarrow> upd_pd p f s = Some (s\<lparr>pds := (pds s)(p \<mapsto> f d)\<rparr>)"
  by (simp add: upd_pd_def wr_Some)

lemma upd_pd_iff: "upd_pd p f s = Some s' \<longleftrightarrow>
    (\<exists>d. rd (pds s) p = Some d \<and> s' = s\<lparr>pds := (pds s)(p \<mapsto> f d)\<rparr>)"
  by (cases "rd (pds s) p") (auto simp: upd_pd_def wr_def)

lemma upd_cur_Some: "cur_pd s = Some d \<Longrightarrow>
    upd_cur f s = Some (s\<lparr>pds := (pds s)(Current_Process s \<mapsto> f d)\<rparr>)"
  by (simp add: upd_cur_def cur_pd_def upd_pd_Some)

lemma upd_cur_iff: "upd_cur f s = Some s' \<longleftrightarrow>
    (\<exists>d. cur_pd s = Some d \<and> s' = s\<lparr>pds := (pds s)(Current_Process s \<mapsto> f d)\<rparr>)"
  by (simp add: upd_cur_def cur_pd_def upd_pd_iff)

text \<open>\<open>find_first\<close>: the first pointer of a list whose object satisfies a test.\<close>

definition find_first :: "'o heap \<Rightarrow> ('o \<Rightarrow> bool) \<Rightarrow> addr list \<Rightarrow> addr" where
  "find_first oh P ps = (case List.find (\<lambda>p. P (the (oh p))) ps of None \<Rightarrow> NULL | Some p \<Rightarrow> p)"

lemma find_first_simps [simp]:
  "find_first oh P [] = NULL"
  "find_first oh P (p # ps) = (if P (the (oh p)) then p else find_first oh P ps)"
  by (simp_all add: find_first_def)

lemma find_first_in:
  "NULL \<notin> set ps \<Longrightarrow> find_first oh P ps \<noteq> NULL \<longleftrightarrow> (\<exists>p \<in> set ps. P (the (oh p)))"
  by (induction ps) auto

lemma find_first_mem:
  "find_first oh P ps \<noteq> NULL \<Longrightarrow> find_first oh P ps \<in> set ps \<and> P (the (oh (find_first oh P ps)))"
  by (induction ps) auto

lemma find_obj_seg:
  "seg h i xs NULL \<Longrightarrow> \<forall>p \<in> snd ` set xs. p \<noteq> NULL \<and> p \<in> dom oh \<Longrightarrow>
   find_obj h oh P i = Some (find_first oh P (map snd xs))"
proof (induction xs arbitrary: i)
  case Nil
  then show ?case by (subst find_obj.simps) simp
next
  case (Cons x xs)
  then obtain c o1 where c: "i \<noteq> NULL" "h i = Some c" "pl_ptr c = snd x" "seg h (pl_next c) xs NULL"
    "oh (snd x) = Some o1" "snd x \<noteq> NULL" by auto
  with Cons show ?case by (subst find_obj.simps) (simp add: rd_def)
qed

text \<open>Lookups on a list of a well-formed heap whose pointers are allocated objects.\<close>

lemma find_obj_spec:
  assumes wf: "lists_wf H h" and L: "L \<in> H" and obj: "\<forall>p \<in> set (contents h L). p \<in> dom oh"
  shows "contents h L \<noteq> [] \<Longrightarrow> find_obj h oh P L = Some (find_first oh P (contents h L))"
    and "contents h L = [] \<Longrightarrow> find_obj h oh P L = None"
proof -
  assume ne: "contents h L \<noteq> []"
  then have m: "map snd (entries h L) = contents h L" using contents_Nil_iff(2)[OF wf L] by simp
  then have "\<forall>p \<in> snd ` set (entries h L). p \<noteq> NULL \<and> p \<in> dom oh"
    using obj by (metis contents_not_NULL list.set_map)
  from find_obj_seg[OF lists_wf_seg[OF wf L] this, of P] m
  show "find_obj h oh P L = Some (find_first oh P (contents h L))" by simp
next
  assume "contents h L = []"
  then have "entries h L = [(L, NULL)]" using contents_Nil_iff(1)[OF wf L] by simp
  with lists_wf_seg[OF wf L] show "find_obj h oh P L = None"
    by (subst find_obj.simps) (auto simp: rd_def)
qed

lemma find_node_seg:
  "seg h i xs NULL \<Longrightarrow> \<forall>p \<in> snd ` set xs. p \<noteq> NULL \<and> p \<in> dom oh \<Longrightarrow>
   find_node h oh P i q =
     Some (case List.find (\<lambda>x. P (the (oh (snd x)))) xs of
             None \<Rightarrow> (NULL, if xs = [] then q else snd (last xs))
           | Some x \<Rightarrow> x)"
proof (induction xs arbitrary: i q)
  case Nil
  then show ?case by (subst find_node.simps) simp
next
  case (Cons x xs)
  then obtain c o1 where c: "i = fst x" "i \<noteq> NULL" "h i = Some c" "pl_ptr c = snd x"
    "seg h (pl_next c) xs NULL" "oh (snd x) = Some o1" "snd x \<noteq> NULL" by auto
  with Cons show ?case
    by (subst find_node.simps) (auto simp: rd_def split: option.split)
qed

end
