(* ===== verification/Objects.thy ===== *)
theory Objects
  imports Kernel_State
begin

text \<open>
  Tables of kernel objects. Tasks, events, event
  groups, mutexes, semaphores and mailboxes are all kept the same way: a pointer list of
  allocated objects, a count bounded by a maximum, and a last id from which new ids are made.
  \<open>table_wf\<close> is the invariant of one such table and the locale \<open>kernel_objects\<close> the contract
  its create and find operations keep (interpreted in the theory of each module).
\<close>

section \<open>One table\<close>

definition table_wf :: "addr list \<Rightarrow> 'o heap \<Rightarrow> ('o \<Rightarrow> u16) \<Rightarrow> u16 \<Rightarrow> u16 \<Rightarrow> nat \<Rightarrow> bool" where
  "table_wf ps oh key cnt lst lim \<longleftrightarrow>
     (\<forall>p \<in> set ps. p \<in> dom oh \<and> 0 < key (the (oh p)) \<and> key (the (oh p)) \<le> lst) \<and>
     sorted_wrt (\<lambda>p q. key (the (oh p)) < key (the (oh q))) ps \<and>
     unat cnt = length ps \<and> length ps \<le> lim"

lemma table_wf_obj: "table_wf ps oh key cnt lst lim \<Longrightarrow> p \<in> set ps \<Longrightarrow> p \<in> dom oh"
  by (simp add: table_wf_def)

lemma table_wf_key:
  "table_wf ps oh key cnt lst lim \<Longrightarrow> p \<in> set ps \<Longrightarrow> 0 < key (the (oh p)) \<and> key (the (oh p)) \<le> lst"
  by (simp add: table_wf_def)

lemma table_wf_count:
  "table_wf ps oh key cnt lst lim \<Longrightarrow> unat cnt = length ps \<and> length ps \<le> lim"
  by (simp add: table_wf_def)

lemma table_wf_sorted:
  "table_wf ps oh key cnt lst lim \<Longrightarrow> sorted_wrt (<) (map (\<lambda>p. key (the (oh p))) ps)"
  by (simp add: table_wf_def sorted_wrt_map)

lemma table_wf_distinct:
  assumes "table_wf ps oh key cnt lst lim"
  shows "distinct (map (\<lambda>p. key (the (oh p))) ps)" and "distinct ps"
proof -
  show "distinct (map (\<lambda>p. key (the (oh p))) ps)"
    using table_wf_sorted[OF assms] strict_sorted_iff by blast
  then show "distinct ps" by (simp add: distinct_map)
qed

text \<open>The id determines the object.\<close>

lemma table_wf_key_inj:
  "table_wf ps oh key cnt lst lim \<Longrightarrow> p \<in> set ps \<Longrightarrow> q \<in> set ps \<Longrightarrow>
   key (the (oh p)) = key (the (oh q)) \<Longrightarrow> p = q"
  using table_wf_distinct(1)[of ps oh key cnt lst lim] by (auto simp: distinct_map inj_on_def)

lemma table_wf_empty: "table_wf [] oh key 0 0 lim"
  by (simp add: table_wf_def)

text \<open>The invariant reads the heap only through the ids of the listed objects.\<close>

lemma table_wf_cong:
  assumes t: "table_wf ps oh key cnt lst lim"
    and e: "\<And>p. p \<in> set ps \<Longrightarrow> p \<in> dom oh' \<and> key (the (oh' p)) = key (the (oh p))"
  shows "table_wf ps oh' key cnt lst lim"
proof -
  have "sorted_wrt (\<lambda>p q. key (the (oh' p)) < key (the (oh' q))) ps"
    by (rule sorted_wrt_mono_rel[of _ "\<lambda>p q. key (the (oh p)) < key (the (oh q))"])
       (use t e in \<open>simp_all add: table_wf_def\<close>)
  then show ?thesis using t e unfolding table_wf_def by simp
qed

lemma table_wf_upd:
  assumes "table_wf ps oh key cnt lst lim" and "key ob = key (the (oh p))"
  shows "table_wf ps (oh(p \<mapsto> ob)) key cnt lst lim"
  by (rule table_wf_cong[OF assms(1)]) (use assms table_wf_obj[OF assms(1)] in auto)

lemma table_wf_new:
  assumes "table_wf ps oh key cnt lst lim" and "p \<notin> set ps"
  shows "table_wf ps (oh(p := v)) key cnt lst lim"
  by (rule table_wf_cong[OF assms(1)]) (use assms table_wf_obj[OF assms(1)] in auto)

lemma table_wf_add:
  assumes t: "table_wf ps oh key cnt lst lim" and p: "p \<notin> set ps"
    and lim: "length ps < lim" "lim < 65535" and lst: "lst \<noteq> - 1" and key: "key ob = lst + 1"
  shows "table_wf (ps @ [p]) (oh(p \<mapsto> ob)) key (cnt + 1) (lst + 1) lim"
proof -
  have t': "table_wf ps (oh(p \<mapsto> ob)) key cnt lst lim" by (rule table_wf_new[OF t p])
  have "unat (cnt + 1) = Suc (length ps)"
    using t lim by (simp add: table_wf_def unat_inc_below)
  moreover have "0 < lst + 1" using unat_Suc_word(1)[OF lst] by (simp add: word_less_nat_alt)
  moreover have "x < lst + 1" if "x \<le> lst" for x
    using that unat_Suc_word(2)[OF lst] by (rule order.strict_trans1)
  moreover have "key (the ((oh(p \<mapsto> ob)) p)) = lst + 1" by (simp add: key)
  ultimately show ?thesis
    using t' lim unfolding table_wf_def sorted_wrt_append
    by (auto simp: key simp del: fun_upd_apply intro: order.strict_implies_order)
qed

lemma table_wf_remove:
  assumes t: "table_wf ps oh key cnt lst lim" and p: "p \<in> set ps"
  shows "table_wf (remove1 p ps) oh key (cnt - 1) lst lim"
proof -
  have "length ps \<noteq> 0" using p by auto
  then have "cnt \<noteq> 0" using t by (auto simp: table_wf_def)
  obtain ys zs where ps: "ps = ys @ p # zs" "p \<notin> set ys" using split_list_first[OF p] by blast
  then have r: "remove1 p ps = ys @ zs" by (simp add: remove1_append)
  show ?thesis
    using t ps(1) unat_dec[OF \<open>cnt \<noteq> 0\<close>] unfolding table_wf_def r
    by (auto simp: sorted_wrt_append)
qed

section \<open>The contract of create and find\<close>

text \<open>Creating \<open>n\<close> objects in a row.\<close>

primrec create_n :: "('s \<Rightarrow> (u16 \<times> 's) option) \<Rightarrow> nat \<Rightarrow> 's \<Rightarrow> (u16 list \<times> 's) option" where
  "create_n cr 0 s = Some ([], s)"
| "create_n cr (Suc n) s = do {
     (i, s1) \<leftarrow> cr s;
     (is, s2) \<leftarrow> create_n cr n s1;
     Some (i # is, s2)
   }"

locale kernel_objects =
  fixes inv :: "'s \<Rightarrow> bool"
    and ids :: "'s \<Rightarrow> u16 list"
    and last_id :: "'s \<Rightarrow> u16"
    and limit :: nat
    and valid :: "u16 \<Rightarrow> bool"
    and find :: "u16 \<Rightarrow> 's \<Rightarrow> addr option"
    and create :: "'s \<Rightarrow> (u16 \<times> 's) option"
  assumes ids_bound: "inv s \<Longrightarrow> i \<in> set (ids s) \<Longrightarrow> 0 < i \<and> i \<le> last_id s"
    and ids_sorted: "inv s \<Longrightarrow> sorted_wrt (<) (ids s)"
    and ids_limit: "inv s \<Longrightarrow> length (ids s) \<le> limit"
    and create_full: "inv s \<Longrightarrow> length (ids s) = limit \<Longrightarrow>
      \<exists>s'. create s = Some (0, s') \<and> inv s' \<and> ids s' = ids s \<and> last_id s' = last_id s"
    and create_new: "inv s \<Longrightarrow> last_id s \<noteq> - 1 \<Longrightarrow> create s = Some (i, s') \<Longrightarrow> i \<noteq> 0 \<Longrightarrow>
      inv s' \<and> i = last_id s + 1 \<and> last_id s' = i \<and> ids s' = ids s @ [i]"
    and find_iff: "inv s \<Longrightarrow> ids s \<noteq> [] \<Longrightarrow> valid i \<Longrightarrow>
      \<exists>p. find i s = Some p \<and> (p \<noteq> NULL \<longleftrightarrow> i \<in> set (ids s))"
    and find_empty: "inv s \<Longrightarrow> ids s = [] \<Longrightarrow> valid i \<Longrightarrow> find i s = None"
begin

lemma ids_distinct: "inv s \<Longrightarrow> distinct (ids s)"
  using ids_sorted strict_sorted_iff by blast

lemma create_fresh:
  assumes "inv s" "last_id s \<noteq> - 1" "create s = Some (i, s')" "i \<noteq> 0"
  shows "i \<notin> set (ids s)" and "length (ids s) < limit"
proof -
  have i: "i = last_id s + 1" using create_new[OF assms] by simp
  show "i \<notin> set (ids s)"
  proof
    assume "i \<in> set (ids s)"
    then have "i \<le> last_id s" using ids_bound[OF assms(1)] by blast
    then show False using i unat_Suc_word(2)[OF assms(2)] by simp
  qed
  show "length (ids s) < limit"
    using create_new[OF assms] ids_limit[of s'] by simp
qed

text \<open>A created object is found, and so is every older one.\<close>

lemma find_created:
  assumes "inv s" "last_id s \<noteq> - 1" "create s = Some (i, s')" "i \<noteq> 0" "valid j"
  shows "\<exists>p. find j s' = Some p \<and> (p \<noteq> NULL \<longleftrightarrow> j = i \<or> j \<in> set (ids s))"
  using find_iff[of s' j] create_new[OF assms(1-4)] assms(5) by auto

text \<open>Creating objects in a row hands out consecutive ids.\<close>

lemma create_many:
  "inv s \<Longrightarrow> unat (last_id s) + n < 65536 \<Longrightarrow> create_n create n s = Some (is, s') \<Longrightarrow> 0 \<notin> set is \<Longrightarrow>
   inv s' \<and> ids s' = ids s @ is \<and> length is = n"
proof (induction n arbitrary: s "is")
  case 0
  then show ?case by simp
next
  case (Suc n)
  then obtain i s1 js where c: "create s = Some (i, s1)" "create_n create n s1 = Some (js, s')" "is = i # js"
    by (auto elim!: bind_SomeE)
  have l: "last_id s \<noteq> - 1" using Suc.prems(2) by (intro below_max) simp
  have i: "i \<noteq> 0" "0 \<notin> set js" using Suc.prems(4) c(3) by auto
  note n = create_new[OF Suc.prems(1) l c(1) i(1)]
  have "unat (last_id s1) + n < 65536" using n unat_Suc_word(1)[OF l] Suc.prems(2) by simp
  with Suc.IH[OF _ this c(2) i(2)] n c(3) show ?case by simp
qed

text \<open>The ids are new and distinct, the limit is kept, and every object created is found.\<close>

lemma create_many_distinct:
  assumes "inv s" "unat (last_id s) + n < 65536" "create_n create n s = Some (is, s')" "0 \<notin> set is"
  shows "distinct (ids s @ is)" and "length (ids s) + n \<le> limit"
    and "\<And>i. i \<in> set is \<Longrightarrow> valid i \<Longrightarrow> \<exists>p. find i s' = Some p \<and> p \<noteq> NULL"
proof -
  note m = create_many[OF assms]
  show "distinct (ids s @ is)" using m ids_distinct[of s'] by simp
  show "length (ids s) + n \<le> limit" using m ids_limit[of s'] by simp
  show "\<exists>p. find i s' = Some p \<and> p \<noteq> NULL" if i: "i \<in> set is" "valid i" for i
  proof -
    have "ids s' \<noteq> []" using m i(1) by auto
    from find_iff[OF _ this i(2)] m i(1) show ?thesis by auto
  qed
qed

end

end
