(* ===== verification/Invariant.thy ===== *)
theory Invariant
  imports Objects
begin

text \<open>
  The invariant \<open>kwf\<close> of the kernel state: the memory is separated and the lists are well
  formed (\<open>mem_wf\<close>), every table of objects is well formed (\<open>tables_wf\<close>), the queues of all
  semaphores, mutexes and mailboxes are well formed, disjoint and hold what their users expect
  (\<open>queues_inv\<close>), and the running task exists (\<open>cur_wf\<close>). The second half are the lemmas by
  which the modules show that their operations keep it.
\<close>

section \<open>The queues of a state\<close>

datatype qkey =
  SemWait addr | MutWait addr | MutPri addr | MbMails addr | MbSend addr | MbRecv addr

fun queues_in ::
  "SEMAPHORE_TYPE heap \<Rightarrow> MUTEX_TYPE heap \<Rightarrow> MAILBOX_TYPE heap \<Rightarrow> qkey \<Rightarrow> Queue option" where
  "queues_in sh mh bh (SemWait a) = map_option sem_wait_queue (sh a)"
| "queues_in sh mh bh (MutWait a) = map_option mut_wait_queue (mh a)"
| "queues_in sh mh bh (MutPri a) = map_option mut_orig_priority (mh a)"
| "queues_in sh mh bh (MbMails a) = map_option mails (bh a)"
| "queues_in sh mh bh (MbSend a) = map_option send_queue (bh a)"
| "queues_in sh mh bh (MbRecv a) = map_option recv_queue (bh a)"

abbreviation queues_of :: "kstate \<Rightarrow> qkey \<Rightarrow> Queue option" where
  "queues_of s \<equiv> queues_in (semaphores s) (mutexes s) (mailboxes s)"

text \<open>Which type a queue has, and which words it may hold.\<close>

fun key_is_ptr :: "qkey \<Rightarrow> bool" where
  "key_is_ptr (MutPri _) = False"
| "key_is_ptr _ = True"

fun key_target :: "PD heap \<Rightarrow> MAIL heap \<Rightarrow> qkey \<Rightarrow> u16 \<Rightarrow> bool" where
  "key_target ph lh (MutPri _) v = True"
| "key_target ph lh (MbMails _) v = (v \<noteq> NULL \<and> v \<in> dom lh)"
| "key_target ph lh _ v = (v \<noteq> NULL \<and> v \<in> dom ph)"

text \<open>A message is in one mailbox, and there once.\<close>

fun is_mails :: "qkey \<Rightarrow> bool" where
  "is_mails (MbMails _) = True"
| "is_mails _ = False"

lemma not_mails:
  "\<not> is_mails (SemWait p)" "\<not> is_mails (MutWait p)" "\<not> is_mails (MutPri p)" "\<not> is_mails (MbSend p)" "\<not> is_mails (MbRecv p)"
  by simp_all

definition mails_sep :: "QElement heap \<Rightarrow> (qkey \<rightharpoonup> Queue) \<Rightarrow> bool" where
  "mails_sep h F \<longleftrightarrow> (\<forall>k q. is_mails k \<longrightarrow> F k = Some q \<longrightarrow> distinct (qitems h q) \<and>
     (\<forall>k' q'. is_mails k' \<longrightarrow> k' \<noteq> k \<longrightarrow> F k' = Some q' \<longrightarrow> set (qitems h q) \<inter> set (qitems h q') = {}))"

definition all_mails :: "QElement heap \<Rightarrow> (qkey \<rightharpoonup> Queue) \<Rightarrow> addr set" where
  "all_mails h F = {v. \<exists>k q. is_mails k \<and> F k = Some q \<and> v \<in> set (qitems h q)}"

lemma mails_sep_change:
  assumes S: "mails_sep h F" and same: "\<And>k' p. k' \<noteq> k \<Longrightarrow> F k' = Some p \<Longrightarrow> qitems h' p = qitems h p"
    and d: "is_mails k \<Longrightarrow> distinct (qitems h' q')"
    and o: "\<And>k' p. is_mails k \<Longrightarrow> is_mails k' \<Longrightarrow> k' \<noteq> k \<Longrightarrow> F k' = Some p \<Longrightarrow>
      set (qitems h' q') \<inter> set (qitems h p) = {}"
  shows "mails_sep h' (F(k \<mapsto> q'))"
  unfolding mails_sep_def
proof (intro allI impI conjI)
  fix k1 q1 assume k1: "is_mails k1" "(F(k \<mapsto> q')) k1 = Some q1"
  show "distinct (qitems h' q1)"
    using k1 d same[of k1 q1] S by (cases "k1 = k") (auto simp: mails_sep_def)
  fix k2 q2 assume k2: "is_mails k2" "k2 \<noteq> k1" "(F(k \<mapsto> q')) k2 = Some q2"
  consider "k1 = k" "k2 \<noteq> k" | "k1 \<noteq> k" "k2 = k" | "k1 \<noteq> k" "k2 \<noteq> k" using k2(2) by blast
  then show "set (qitems h' q1) \<inter> set (qitems h' q2) = {}"
  proof cases
    case 1
    with k1 k2 o[of k2 q2] same[of k2 q2] show ?thesis by simp
  next
    case 2
    with k1 k2 o[of k1 q1] same[of k1 q1] show ?thesis by (simp add: Int_commute)
  next
    case 3
    then have "F k1 = Some q1" "F k2 = Some q2" using k1 k2 by simp_all
    with k1(1) k2(1,2) same[of k1 q1] same[of k2 q2] S 3 show ?thesis unfolding mails_sep_def by metis
  qed
qed

lemma mails_sep_sub:
  assumes "mails_sep h F" "F k = Some q" "is_mails k" "is_mails k'" "k' \<noteq> k" "F k' = Some p"
  shows "distinct (qitems h q)" and "set (qitems h q) \<inter> set (qitems h p) = {}"
  using assms unfolding mails_sep_def by blast+

definition queues_inv ::
  "QElement heap \<Rightarrow> (qkey \<rightharpoonup> Queue) \<Rightarrow> (qkey \<Rightarrow> u16 \<Rightarrow> bool) \<Rightarrow> bool" where
  "queues_inv h F T \<longleftrightarrow> queues_wf h F \<and> mails_sep h F \<and>
     (\<forall>k q. F k = Some q \<longrightarrow> is_ptr_queue q = key_is_ptr k \<and> (\<forall>v \<in> set (qitems h q). T k v))"

lemma queues_inv_wf: "queues_inv h F T \<Longrightarrow> queues_wf h F"
  by (simp add: queues_inv_def)

lemma queues_inv_sep: "queues_inv h F T \<Longrightarrow> mails_sep h F"
  by (simp add: queues_inv_def)

lemma queues_inv_at:
  assumes "queues_inv h F T" and "F k = Some q"
  shows "queue_rep h q (qnodes h q)" and "is_ptr_queue q = key_is_ptr k"
    and "\<And>v. v \<in> set (qitems h q) \<Longrightarrow> T k v"
  using assms by (auto simp: queues_inv_def intro: queues_wf_rep)

lemma queues_inv_mono:
  assumes "queues_inv h F T" and "\<And>k v. T k v \<Longrightarrow> T' k v"
  shows "queues_inv h F T'"
  using assms unfolding queues_inv_def by blast

lemma queues_inv_change:
  assumes inv: "queues_inv h F T" and wf: "queues_wf h' (F(k \<mapsto> q'))"
    and nodes: "\<And>k' p. k' \<noteq> k \<Longrightarrow> F k' = Some p \<Longrightarrow> qnodes h' p = qnodes h p"
    and ty: "is_ptr_queue q' = key_is_ptr k" and T: "\<And>v. v \<in> set (qitems h' q') \<Longrightarrow> T k v"
    and sep: "is_mails k \<Longrightarrow> distinct (qitems h' q')"
    "\<And>k' p. is_mails k \<Longrightarrow> is_mails k' \<Longrightarrow> k' \<noteq> k \<Longrightarrow> F k' = Some p \<Longrightarrow> set (qitems h' q') \<inter> set (qitems h p) = {}"
  shows "queues_inv h' (F(k \<mapsto> q')) T"
proof -
  have "mails_sep h' (F(k \<mapsto> q'))"
    by (rule mails_sep_change[OF queues_inv_sep[OF inv] _ sep]) (simp add: qitems_def nodes)
  moreover
  have "is_ptr_queue p = key_is_ptr k' \<and> (\<forall>v \<in> set (qitems h' p). T k' v)"
    if p: "(F(k \<mapsto> q')) k' = Some p" for k' p
  proof (cases "k' = k")
    case True
    with p ty T show ?thesis by simp
  next
    case False
    with p have Fp: "F k' = Some p" by simp
    with nodes[OF False this] have "qitems h' p = qitems h p" by (simp add: qitems_def)
    with queues_inv_at(2,3)[OF inv Fp] show ?thesis by simp
  qed
  ultimately show ?thesis using wf unfolding queues_inv_def by blast
qed

lemma queues_inv_enqueue:
  assumes inv: "queues_inv h F T" and F: "F k = Some q" and fr: "fresh_above al h"
    and en: "enqueue_new al h q v = Some (r, al', h', q')" and T: "T k v"
    and N: "\<not> is_mails k \<or> v \<notin> all_mails h F"
  shows "queues_inv h' (F(k \<mapsto> q')) T" and "fresh_above al' h'" and "brk al \<le> brk al'"
    and "qitems h' q' = qitems h q @ [v]" and "r = 1"
    and "\<And>k' p. k' \<noteq> k \<Longrightarrow> F k' = Some p \<Longrightarrow> qitems h' p = qitems h p"
proof -
  note at = queues_inv_at[OF inv F]
  obtain e where e: "r = 1" "queue_rep h' q' (qnodes h q @ [(e, v)])" "h e = None" "e \<noteq> NULL"
    "\<And>n. n \<noteq> e \<Longrightarrow> n \<notin> fst ` set (qnodes h q) \<Longrightarrow> h' n = h n" "is_ptr_queue q' = is_ptr_queue q"
    "fresh_above al' h'" "malloc al = (e, al')"
    by (rule enqueue_new_spec[OF at(1) fr en]) (rule that)
  have F': "F k = Some q \<or> F k = None \<and> qnodes h q = []" using F by simp
  have frame: "h' n = h n" if "n \<notin> fst ` set (qnodes h q)" "n \<notin> fst ` set (qnodes h q @ [(e, v)])" for n
    using that by (intro e(5)) auto
  have new: "n \<in> fst ` set (qnodes h q) \<or> h n = None" if "n \<in> fst ` set (qnodes h q @ [(e, v)])" for n
    using that e(3) by auto
  note C = queues_wf_change[OF queues_inv_wf[OF inv] F' refl e(2) frame new]
  show it: "qitems h' q' = qitems h q @ [v]" unfolding qitems_rep[OF e(2)] by (simp add: qitems_def)
  have n: "v \<notin> set (qitems h p)" if "is_mails k" "is_mails k'" "F k' = Some p" for k' p
    using N that by (auto simp: all_mails_def)
  have s: "distinct (qitems h' q')" if "is_mails k"
    using n[OF that that F] queues_inv_sep[OF inv] that F it by (auto simp: mails_sep_def)
  have o: "set (qitems h' q') \<inter> set (qitems h p) = {}"
    if "is_mails k" "is_mails k'" "k' \<noteq> k" "F k' = Some p" for k' p
    using n[OF that(1,2,4)] mails_sep_sub(2)[OF queues_inv_sep[OF inv] F that] it by simp
  show "queues_inv h' (F(k \<mapsto> q')) T"
    by (rule queues_inv_change[OF inv C(1) _ _ _ s o]) (use C(2) at T it e(6) in \<open>auto\<close>)
  show "fresh_above al' h'" "r = 1" by (rule e)+
  show "brk al \<le> brk al'" using malloc_brk[OF e(8)] by simp
  show "\<And>k' p. k' \<noteq> k \<Longrightarrow> F k' = Some p \<Longrightarrow> qitems h' p = qitems h p"
    using C(2) by (simp add: qitems_def)
qed

lemma queues_inv_dequeue:
  assumes inv: "queues_inv h F T" and F: "F k = Some q" and it: "qitems h q = v # vs"
  obtains h' q' where "dequeue_int h q = Some (v, h', q')" and "queues_inv h' (F(k \<mapsto> q')) T"
    and "qitems h' q' = vs" and "\<And>al. fresh_above al h \<Longrightarrow> fresh_above al h'"
    and "\<And>k' p. k' \<noteq> k \<Longrightarrow> F k' = Some p \<Longrightarrow> qitems h' p = qitems h p"
proof -
  note at = queues_inv_at[OF inv F]
  obtain n xs where xs: "qnodes h q = (n, v) # xs" "map snd xs = vs"
    using it by (cases "qnodes h q") (auto simp: qitems_def)
  from at(1) xs(1) have "queue_rep h q ((n, v) # xs)" by simp
  then obtain q' where q': "dequeue_int h q = Some (v, h(n := None), q')"
    "queue_rep (h(n := None)) q' xs" "is_ptr_queue q' = is_ptr_queue q"
    by (rule dequeue_int_Cons)
  have F': "F k = Some q \<or> F k = None \<and> qnodes h q = []" using F by simp
  note C = queues_wf_change[OF queues_inv_wf[OF inv] F' refl q'(2)]
  have C1: "queues_wf (h(n := None)) (F(k \<mapsto> q'))" by (rule C(1)) (auto simp: xs(1))
  have C2: "qnodes (h(n := None)) p = qnodes h p" if "k' \<noteq> k" "F k' = Some p" for k' p
    by (rule C(2)[OF _ _ that]) (auto simp: xs(1))
  have it': "qitems (h(n := None)) q' = vs" by (simp add: qitems_rep[OF q'(2)] xs(2))
  show ?thesis
  proof (rule that[OF q'(1) _ it'])
    note S = queues_inv_sep[OF inv]
    have s: "distinct (qitems (h(n := None)) q')" if "is_mails k"
      using S that F it it' by (auto simp: mails_sep_def)
    have o: "set (qitems (h(n := None)) q') \<inter> set (qitems h p) = {}"
      if "is_mails k" "is_mails k'" "k' \<noteq> k" "F k' = Some p" for k' p
      using mails_sep_sub(2)[OF S F that] it it' by auto
    show "queues_inv (h(n := None)) (F(k \<mapsto> q')) T"
      by (rule queues_inv_change[OF inv C1 C2 _ _ s o]) (use at it it' q'(3) in auto)
  qed (use C2 in \<open>auto simp: qitems_def intro: fresh_above_del\<close>)
qed

lemma queues_inv_dequeue_any:
  assumes inv: "queues_inv h F T" and F: "F k = Some q" and dq: "dequeue_int h q = Some (v, h', q')"
  shows "queues_inv h' (F(k \<mapsto> q')) T" and "\<And>al. fresh_above al h \<Longrightarrow> fresh_above al h'"
    and "qitems h' q' = tl (qitems h q)" and "v \<in> set (qitems h q) \<or> v = 0 \<and> qitems h q = []"
proof -
  have "queues_inv h' (F(k \<mapsto> q')) T \<and> (\<forall>al. fresh_above al h \<longrightarrow> fresh_above al h') \<and>
    qitems h' q' = tl (qitems h q) \<and> (v \<in> set (qitems h q) \<or> v = 0 \<and> qitems h q = [])"
  proof (cases "qitems h q")
    case Nil
    then have "queue_rep h q []" using queues_inv_at(1)[OF inv F] by (simp add: qitems_def)
    from dequeue_int_empty[OF this] dq Nil inv F show ?thesis by (simp add: fun_upd_idem)
  next
    case (Cons w ws)
    obtain h1 q1 where "dequeue_int h q = Some (w, h1, q1)" "queues_inv h1 (F(k \<mapsto> q1)) T"
      "qitems h1 q1 = ws" "\<And>al. fresh_above al h \<Longrightarrow> fresh_above al h1"
      by (rule queues_inv_dequeue[OF inv F Cons]) (rule that)
    with dq Cons show ?thesis by simp
  qed
  then show "queues_inv h' (F(k \<mapsto> q')) T" and "\<And>al. fresh_above al h \<Longrightarrow> fresh_above al h'"
    and "qitems h' q' = tl (qitems h q)" and "v \<in> set (qitems h q) \<or> v = 0 \<and> qitems h q = []"
    by blast+
qed

lemma queues_inv_new:
  assumes inv: "queues_inv h F T" and F: "F k = None" and ty: "is_ptr_queue q = key_is_ptr k"
    and rep: "queue_rep h q []"
  shows "queues_inv h (F(k \<mapsto> q)) T"
proof -
  have F': "F k = Some q \<or> F k = None \<and> [] = []" using F by simp
  note C = queues_wf_change[OF queues_inv_wf[OF inv] F' _ rep]
  have C1: "queues_wf h (F(k \<mapsto> q))" by (rule C(1)) (use F in auto)
  show ?thesis
    by (rule queues_inv_change[OF inv C1]) (use ty rep in \<open>auto simp: qitems_rep\<close>)
qed

lemma queues_inv_del: "queues_inv h F T \<Longrightarrow> queues_inv h (F(k := None)) T"
  unfolding queues_inv_def queues_wf_def mails_sep_def by (auto split: if_splits)

lemma queues_inv_same: "queues_inv h F T \<Longrightarrow> F k = Some q \<Longrightarrow> queues_inv h (F(k \<mapsto> q)) T"
  by (simp add: fun_upd_idem)

text \<open>How an update of an object changes the family.\<close>

lemma queues_in_sem: "queues_in (sh(p \<mapsto> m)) mh bh = (queues_in sh mh bh)(SemWait p \<mapsto> sem_wait_queue m)"
  by (rule ext, rename_tac k, case_tac k) auto

lemma queues_in_mut: "queues_in sh (mh(p \<mapsto> m)) bh =
    (queues_in sh mh bh)(MutWait p \<mapsto> mut_wait_queue m, MutPri p \<mapsto> mut_orig_priority m)"
  by (rule ext, rename_tac k, case_tac k) auto

lemma queues_in_mb: "queues_in sh mh (bh(p \<mapsto> m)) =
    (queues_in sh mh bh)(MbMails p \<mapsto> mails m, MbSend p \<mapsto> send_queue m, MbRecv p \<mapsto> recv_queue m)"
  by (rule ext, rename_tac k, case_tac k) auto

lemma queues_in_sem_del: "queues_in (sh(p := None)) mh bh = (queues_in sh mh bh)(SemWait p := None)"
  by (rule ext, rename_tac k, case_tac k) auto

lemma queues_in_mut_del: "queues_in sh (mh(p := None)) bh =
    (queues_in sh mh bh)(MutWait p := None, MutPri p := None)"
  by (rule ext, rename_tac k, case_tac k) auto

lemma queues_in_mb_del: "queues_in sh mh (bh(p := None)) =
    (queues_in sh mh bh)(MbMails p := None, MbSend p := None, MbRecv p := None)"
  by (rule ext, rename_tac k, case_tac k) auto

lemma key_target_mono:
  assumes "key_target ph lh k v" and "dom ph \<subseteq> dom ph'" and "dom lh \<subseteq> dom lh'"
  shows "key_target ph' lh' k v"
  using assms by (cases k) auto

lemma key_target_del:
  "key_target ph lh k v \<Longrightarrow> \<not> is_mails k \<or> v \<noteq> m \<Longrightarrow> key_target ph (lh(m := None)) k v"
  by (cases k) auto

section \<open>Well-formed states\<close>

abbreviation procs :: "kstate \<Rightarrow> addr list" where
  "procs s \<equiv> contents (nodes s) ProcessList"

definition mem_wf :: "kstate \<Rightarrow> bool" where
  "mem_wf s \<longleftrightarrow> lists_wf LISTS (nodes s) \<and> fresh_above (alloc s) (nodes s) \<and>
     fresh_above (alloc s) (qelems s) \<and> fresh_above (alloc s) (bytes s) \<and>
     fresh_above (alloc s) (pds s) \<and> fresh_above (alloc s) (events s) \<and>
     fresh_above (alloc s) (event_groups s) \<and> fresh_above (alloc s) (mutexes s) \<and>
     fresh_above (alloc s) (semaphores s) \<and> fresh_above (alloc s) (mailboxes s) \<and>
     fresh_above (alloc s) (mail_objs s)"

definition tables_wf :: "kstate \<Rightarrow> bool" where
  "tables_wf s \<longleftrightarrow>
     table_wf (procs s) (pds s) pid (Task_Count s) (Last_PID s) MAXTHREAD \<and>
     table_wf (contents (nodes s) EventList) (events s) ev_id (Event_Count s) (Last_EventID s) MAXEVENT \<and>
     table_wf (contents (nodes s) EventGroupList) (event_groups s) eg_id
       (Event_Group_Count s) (Last_Event_Group_ID s) MAXEVENTGROUP \<and>
     table_wf (contents (nodes s) MutexList) (mutexes s) mut_id (Mutex_Count s) (Last_MutexID s) MAXMUTEX \<and>
     table_wf (contents (nodes s) SemaphoreList) (semaphores s) sem_id
       (Semaphore_Count s) (Last_SemaphoreID s) MAXSEMAPHORE \<and>
     table_wf (contents (nodes s) MailboxList) (mailboxes s) mb_id
       (Mailbox_Count s) (Last_MailboxID s) MAXMAILBOX"

abbreviation queues_ok :: "kstate \<Rightarrow> bool" where
  "queues_ok s \<equiv> queues_inv (qelems s) (queues_of s) (key_target (pds s) (mail_objs s))"

definition cur_wf :: "kstate \<Rightarrow> bool" where
  "cur_wf s \<longleftrightarrow> (KernelActive s \<noteq> 0 \<longrightarrow>
     Current_Process s \<noteq> NULL \<and> Current_Process s \<in> dom (pds s))"

definition kwf :: "kstate \<Rightarrow> bool" where
  "kwf s \<longleftrightarrow> mem_wf s \<and> tables_wf s \<and> queues_ok s \<and> cur_wf s"

lemmas kwf_defs = kwf_def mem_wf_def tables_wf_def cur_wf_def

lemma kwf_parts:
  assumes "kwf s"
  shows "mem_wf s" and "tables_wf s" and "queues_ok s" and "cur_wf s"
  using assms by (auto simp: kwf_def)

lemma kwf_lists: "kwf s \<Longrightarrow> lists_wf LISTS (nodes s)"
  by (simp add: kwf_def mem_wf_def)

lemma kwf_tables:
  assumes "kwf s"
  shows "table_wf (procs s) (pds s) pid (Task_Count s) (Last_PID s) MAXTHREAD"
    and "table_wf (contents (nodes s) EventList) (events s) ev_id (Event_Count s) (Last_EventID s) MAXEVENT"
    and "table_wf (contents (nodes s) EventGroupList) (event_groups s) eg_id
       (Event_Group_Count s) (Last_Event_Group_ID s) MAXEVENTGROUP"
    and "table_wf (contents (nodes s) MutexList) (mutexes s) mut_id (Mutex_Count s) (Last_MutexID s) MAXMUTEX"
    and "table_wf (contents (nodes s) SemaphoreList) (semaphores s) sem_id
       (Semaphore_Count s) (Last_SemaphoreID s) MAXSEMAPHORE"
    and "table_wf (contents (nodes s) MailboxList) (mailboxes s) mb_id
       (Mailbox_Count s) (Last_MailboxID s) MAXMAILBOX"
  using assms by (auto simp: kwf_def tables_wf_def)

text \<open>Fields the invariant does not mention.\<close>

lemma kwf_scalars [simp]:
  "kwf (s\<lparr>err := e\<rparr>) = kwf s"
  "kwf (s\<lparr>IRQ := b\<rparr>) = kwf s"
  "kwf (s\<lparr>Tick_Count := t\<rparr>) = kwf s"
  "kwf (s\<lparr>Last_Dispatched := n\<rparr>) = kwf s"
  "kwf (s\<lparr>Preemptive_Cswitch_Allowed := c\<rparr>) = kwf s"
  "kwf (s\<lparr>Ticks_Since_Last_Cswitch := t\<rparr>) = kwf s"
  "kwf (s\<lparr>CurrentSp := p\<rparr>) = kwf s"
  "kwf (s\<lparr>Kernel_Request_Cswitch := c\<rparr>) = kwf s"
  by (simp_all add: kwf_defs)

section \<open>Steps that keep the invariant\<close>

text \<open>An update of a descriptor that keeps its pid.\<close>

lemma kwf_pds:
  assumes "kwf s" and "pds s p = Some d" and "pid d' = pid d"
  shows "kwf (s\<lparr>pds := (pds s)(p \<mapsto> d')\<rparr>)"
proof -
  have t: "table_wf (procs s) ((pds s)(p \<mapsto> d')) pid (Task_Count s) (Last_PID s) MAXTHREAD"
    by (rule table_wf_upd[OF kwf_tables(1)[OF assms(1)]]) (simp add: assms)
  have q: "queues_inv (qelems s) (queues_of s) (key_target ((pds s)(p \<mapsto> d')) (mail_objs s))"
    by (rule queues_inv_mono[OF kwf_parts(3)[OF assms(1)]]) (erule key_target_mono, auto)
  have f: "fresh_above (alloc s) ((pds s)(p \<mapsto> d'))"
    by (rule fresh_above_upd[where w = d]) (use assms(1,2) in \<open>simp_all add: kwf_defs\<close>)
  show ?thesis using assms(1) t q f by (auto simp: kwf_defs)
qed

lemma kwf_upd_pd:
  assumes "upd_pd p f s = Some s'" and "kwf s" and "\<And>d. pid (f d) = pid d"
  shows "kwf s'"
  using assms kwf_pds[OF assms(2)] by (auto simp: upd_pd_iff rd_Some_iff)

lemma kwf_upd_cur:
  "upd_cur f s = Some s' \<Longrightarrow> kwf s \<Longrightarrow> (\<And>d. pid (f d) = pid d) \<Longrightarrow> kwf s'"
  unfolding upd_cur_def by (rule kwf_upd_pd)

lemmas kwf_steps = kwf_upd_pd kwf_upd_cur

lemma kwf_set_current: "kwf s \<Longrightarrow> p \<noteq> NULL \<Longrightarrow> p \<in> dom (pds s) \<Longrightarrow> kwf (s\<lparr>Current_Process := p\<rparr>)"
  by (auto simp: kwf_defs)

text \<open>Another task becomes the current one, with other request arguments.\<close>

lemma kwf_become:
  assumes "kwf s" "rd (pds s) c = Some d" "pid d' = pid d"
  shows "kwf (s\<lparr>Current_Process := c, pds := (pds s)(c \<mapsto> d')\<rparr>)"
proof -
  have c: "c \<noteq> NULL" "pds s c = Some d" using assms(2) by (simp_all add: rd_Some_iff)
  have "kwf (s\<lparr>Current_Process := c\<rparr>)" by (rule kwf_set_current[OF assms(1)]) (use c in auto)
  from kwf_pds[OF this, of c d d'] c assms(3) show ?thesis by simp
qed

lemma cur_pd_dom: "cur_pd s = Some d \<Longrightarrow> Current_Process s \<noteq> NULL \<and> Current_Process s \<in> dom (pds s)"
  by (auto simp: cur_pd_def rd_Some_iff)

lemma req_arg_dom: "req_arg n s = Some a \<Longrightarrow> Current_Process s \<noteq> NULL \<and> Current_Process s \<in> dom (pds s)"
  by (auto simp: req_arg_def dest: cur_pd_dom elim!: bind_SomeE)

text \<open>Finding an object in its table.\<close>

lemma find_obj_table:
  assumes wf: "lists_wf H h" and L: "L \<in> H" and t: "table_wf (contents h L) oh key cnt lst lim"
  shows "contents h L = [] \<Longrightarrow> find_obj h oh (\<lambda>x. key x = i) L = None"
    and "contents h L \<noteq> [] \<Longrightarrow> find_obj h oh (\<lambda>x. key x = i) L =
      Some (find_first oh (\<lambda>x. key x = i) (contents h L))"
  using find_obj_spec[OF wf L, of oh "\<lambda>x. key x = i"] table_wf_obj[OF t] by blast+

lemma find_obj_found:
  assumes wf: "lists_wf H h" and L: "L \<in> H" and t: "table_wf (contents h L) oh key cnt lst lim"
    and f: "find_obj h oh (\<lambda>x. key x = i) L = Some p" and p: "p \<noteq> NULL"
  obtains ob where "p \<in> set (contents h L)" and "oh p = Some ob" and "key ob = i"
proof -
  have p': "p = find_first oh (\<lambda>x. key x = i) (contents h L)"
    using find_obj_table[OF wf L t, of i] f by (cases "contents h L = []") auto
  with find_first_mem[of oh "\<lambda>x. key x = i" "contents h L"] p
  have *: "p \<in> set (contents h L)" "key (the (oh p)) = i" by auto
  with table_wf_obj[OF t *(1)] show ?thesis by (auto intro: that)
qed

lemma find_obj_iff:
  assumes wf: "lists_wf H h" and L: "L \<in> H" and t: "table_wf (contents h L) oh key cnt lst lim"
    and p: "p \<in> set (contents h L)" and k: "key (the (oh p)) = i"
  shows "find_obj h oh (\<lambda>x. key x = i) L = Some p"
proof -
  let ?q = "find_first oh (\<lambda>x. key x = i) (contents h L)"
  have ne: "contents h L \<noteq> []" using p by auto
  have "NULL \<notin> set (contents h L)" using contents_not_NULL by blast
  then have "?q \<noteq> NULL" using p k by (subst find_first_in) auto
  then have "?q \<in> set (contents h L)" "key (the (oh ?q)) = i"
    using find_first_mem[of oh "\<lambda>x. key x = i" "contents h L"] by auto
  then have "?q = p" using table_wf_key_inj[OF t _ p] k by auto
  with find_obj_table(2)[OF wf L t ne, of i] show ?thesis by simp
qed

lemma findProcess_found:
  assumes "kwf s" and "findProcessByPID i s = Some p" and "p \<noteq> NULL"
  obtains d where "p \<in> set (procs s)" and "pds s p = Some d" and "pid d = i"
  using assms(2,3) find_obj_found[OF kwf_lists[OF assms(1)] _ kwf_tables(1)[OF assms(1)]]
  by (auto simp: findProcessByPID_def split: if_splits)

lemma findProcess_iff:
  assumes "kwf s" and "p \<in> set (procs s)" and "pid (the (pds s p)) = i" and "0 < sint i"
  shows "findProcessByPID i s = Some p"
  using assms find_obj_iff[OF kwf_lists[OF assms(1)] _ kwf_tables(1)[OF assms(1)], of p i]
  by (simp add: findProcessByPID_def)

lemma kwf_find_obj_None:
  assumes wf: "lists_wf H h" and L: "L \<in> H" and t: "table_wf (contents h L) oh key cnt lst lim"
  shows "find_obj h oh (\<lambda>x. key x = i) L = None \<longleftrightarrow> contents h L = []"
  using find_obj_table[OF wf L t, of i] by (cases "contents h L = []") auto

text \<open>Allocating, and linking a new object into its list.\<close>

lemma malloc_k_iff: "malloc_k s = (p, s') \<longleftrightarrow> (\<exists>al. malloc (alloc s) = (p, al) \<and> s' = s\<lparr>alloc := al\<rparr>)"
  by (auto simp: malloc_k_def Let_def split: prod.splits)

lemma mem_wf_alloc:
  "mem_wf s \<Longrightarrow> brk (alloc s) \<le> brk al \<Longrightarrow> mem_wf (s\<lparr>alloc := al\<rparr>)"
  by (auto simp: mem_wf_def intro: fresh_above_mono)

lemma kwf_alloc: "kwf s \<Longrightarrow> brk (alloc s) \<le> brk al \<Longrightarrow> kwf (s\<lparr>alloc := al\<rparr>)"
  using mem_wf_alloc[of s al] by (auto simp: kwf_def tables_wf_def cur_wf_def)

lemma kwf_malloc_k: "kwf s \<Longrightarrow> malloc_k s = (p, s') \<Longrightarrow> kwf s'"
  by (auto simp: malloc_k_iff dest: malloc_brk intro!: kwf_alloc)

lemma kwf_bytes: "kwf s \<Longrightarrow> fresh_above (alloc s) h \<Longrightarrow> kwf (s\<lparr>bytes := h\<rparr>)"
  by (simp add: kwf_defs)

text \<open>The new address is in no heap.\<close>

lemma mem_wf_fresh:
  assumes "mem_wf s" and "malloc (alloc s) = (p, al)" and "p \<noteq> NULL"
  shows "nodes s p = None" and "qelems s p = None" and "bytes s p = None" and "pds s p = None"
    and "events s p = None" and "event_groups s p = None" and "mutexes s p = None"
    and "semaphores s p = None" and "mailboxes s p = None" and "mail_objs s p = None"
  using assms malloc_fresh[OF assms(2,3)] by (auto simp: mem_wf_def)

text \<open>\<open>link_new L p s al h\<close>: what holds after a new block \<open>p\<close> was allocated and linked into \<open>L\<close>.\<close>

definition link_new :: "addr \<Rightarrow> addr \<Rightarrow> kstate \<Rightarrow> allocator \<Rightarrow> PtrList heap \<Rightarrow> bool" where
  "link_new L p s al h \<longleftrightarrow> p \<noteq> NULL \<and> lists_wf LISTS h \<and> fresh_above al h \<and> brk (alloc s) \<le> brk al \<and>
     unat p \<le> brk al \<and> brk (alloc s) < unat p \<and>
     contents h L = contents (nodes s) L @ [p] \<and>
     (\<forall>M \<in> LISTS. M \<noteq> L \<longrightarrow> contents h M = contents (nodes s) M) \<and>
     (\<forall>M \<in> LISTS. \<forall>x \<in> set (entries (nodes s) M). snd x \<noteq> NULL \<longrightarrow> x \<in> set (entries h M))"

lemma malloc_add:
  assumes mem: "mem_wf s" and L: "L \<in> LISTS" and m: "malloc_k s = (p, s1)" and p: "p \<noteq> NULL"
    and add: "add_to_list L p s2 = Some s3" and s2: "alloc s2 = alloc s1" "nodes s2 = nodes s"
  shows "\<exists>al h. s3 = s2\<lparr>alloc := al, nodes := h\<rparr> \<and> link_new L p s al h"
proof -
  from m obtain al1 where al1: "malloc (alloc s) = (p, al1)" "s1 = s\<lparr>alloc := al1\<rparr>"
    by (auto simp: malloc_k_iff)
  have M: "brk al1 = Suc (brk (alloc s))" "unat p = Suc (brk (alloc s))"
    using malloc_brk[OF al1(1)] unat_malloc[OF al1(1) p] by simp_all
  have wf: "lists_wf LISTS (nodes s)" and fr: "fresh_above al1 (nodes s)"
    using mem fresh_above_malloc[OF al1(1)] by (auto simp: mem_wf_def)
  from add s2 al1(2) obtain e al h where a: "ptrlist_add al1 (nodes s) L p = Some (e, al, h)"
    "s3 = s2\<lparr>alloc := al, nodes := h\<rparr>"
    by (auto simp: add_to_list_def elim!: bind_SomeE)
  note S = ptrlist_add_spec[OF wf L p fr a(1)]
  have "x \<in> set (entries h N)" if "N \<in> LISTS" "x \<in> set (entries (nodes s) N)" "snd x \<noteq> NULL" for N x
  proof (cases "N = L")
    case True
    have "wf_entries L (entries (nodes s) L)" by (rule lists_wf_entries[OF wf L])
    with S(3) that(2,3) True show ?thesis by (auto simp: add_entry_def wf_entries_Cons)
  qed (use S(5) that in simp)
  then have "link_new L p s al h"
    using S M p by (simp add: link_new_def contents_def)
  with a(2) show ?thesis by blast
qed

text \<open>With memory for two more blocks both allocations succeed.\<close>

lemma malloc_add_plenty:
  assumes mem: "mem_wf s" and L: "L \<in> LISTS" and pl: "plenty (alloc s) (Suc (Suc n))"
  obtains p s1 where "malloc_k s = (p, s1)" and "p \<noteq> NULL"
    and "\<And>s2. alloc s2 = alloc s1 \<Longrightarrow> nodes s2 = nodes s \<Longrightarrow>
      \<exists>al h. add_to_list L p s2 = Some (s2\<lparr>alloc := al, nodes := h\<rparr>) \<and> plenty al n"
proof -
  obtain p al1 where m: "malloc (alloc s) = (p, al1)" "p \<noteq> NULL" "plenty al1 (Suc n)"
    by (rule plenty_malloc[OF pl])
  have wf: "lists_wf LISTS (nodes s)" and fr: "fresh_above al1 (nodes s)"
    using mem fresh_above_malloc[OF m(1)] by (auto simp: mem_wf_def)
  obtain e al h where a: "ptrlist_add al1 (nodes s) L p = Some (e, al, h)" "plenty al n"
    by (rule ptrlist_add_plenty[OF wf L fr m(3)])
  show ?thesis
    by (rule that[of p "s\<lparr>alloc := al1\<rparr>"]) (use m a in \<open>auto simp: malloc_k_iff add_to_list_def\<close>)
qed

lemma link_new_fresh: "link_new L p s al h \<Longrightarrow> fresh_above (alloc s) oh \<Longrightarrow> oh p = None"
  by (auto simp: link_new_def intro: fresh_above_dom)

lemma link_new_mem:
  assumes "link_new L p s al h" and "mem_wf s"
  shows "lists_wf LISTS h" and "fresh_above al h" and "fresh_above al (qelems s)"
    and "fresh_above al (bytes s)" and "fresh_above al (pds s)" and "fresh_above al (events s)"
    and "fresh_above al (event_groups s)" and "fresh_above al (mutexes s)"
    and "fresh_above al (semaphores s)" and "fresh_above al (mailboxes s)"
    and "fresh_above al (mail_objs s)"
    and "\<And>oh v. fresh_above al oh \<Longrightarrow> fresh_above al (oh(p := v))"
  using assms fresh_above_put[of al]
  by (auto simp: link_new_def mem_wf_def intro: fresh_above_mono)

lemma link_new_contents:
  assumes "link_new L p s al h" and "M \<in> LISTS"
  shows "contents h M = (if M = L then contents (nodes s) L @ [p] else contents (nodes s) M)"
  using assms by (auto simp: link_new_def)

text \<open>The find law of the contract.\<close>

lemma find_obj_ids:
  assumes wf: "lists_wf H h" and L: "L \<in> H" and t: "table_wf (contents h L) oh key cnt lst lim"
    and ne: "contents h L \<noteq> []"
  shows "\<exists>p. find_obj h oh (\<lambda>x. key x = i) L = Some p \<and>
    (p \<noteq> NULL \<longleftrightarrow> i \<in> set (map (\<lambda>p. key (the (oh p))) (contents h L)))"
proof -
  have "NULL \<notin> set (contents h L)" using contents_not_NULL by blast
  from find_first_in[OF this, of oh "\<lambda>x. key x = i"] find_obj_table(2)[OF wf L t ne, of i]
  show ?thesis by auto
qed

lemma ids_bounds:
  assumes "table_wf ps oh key cnt lst lim" and "i \<in> set (map (\<lambda>p. key (the (oh p))) ps)"
  shows "0 < i \<and> i \<le> lst"
  using assms table_wf_key[OF assms(1)] by auto

text \<open>Searching the node of an object and removing it, as all destroy functions do.\<close>

lemma find_node_remove:
  assumes wf: "lists_wf H h" and L: "L \<in> H" and t: "table_wf (contents h L) oh key cnt lst lim"
    and p: "p \<in> set (contents h L)" and k: "key (the (oh p)) = i"
  obtains n h' where "find_node h oh (\<lambda>x. key x = i) L NULL = Some (n, p)"
    and "ptrlist_remove h L n = Some (1, h')" and "lists_wf H h'"
    and "contents h' L = remove1 p (contents h L)"
    and "\<And>M. M \<in> H \<Longrightarrow> M \<noteq> L \<Longrightarrow> contents h' M = contents h M"
    and "\<And>al. fresh_above al h \<Longrightarrow> fresh_above al h'"
proof -
  have ne: "contents h L \<noteq> []" using p by auto
  have m: "map snd (entries h L) = contents h L" using contents_Nil_iff(2)[OF wf L] ne by simp
  have obj: "\<forall>q \<in> snd ` set (entries h L). q \<noteq> NULL \<and> q \<in> dom oh"
    using m table_wf_obj[OF t] contents_not_NULL by (metis list.set_map)
  note F = find_node_seg[OF lists_wf_seg[OF wf L] obj, of "\<lambda>x. key x = i" NULL]
  have "\<exists>x \<in> set (entries h L). key (the (oh (snd x))) = i"
    using p k m by (metis (no_types, lifting) image_iff list.set_map)
  then obtain x where x: "List.find (\<lambda>x. key (the (oh (snd x))) = i) (entries h L) = Some x"
    by (metis (mono_tags, lifting) find_None_iff not_Some_eq)
  then obtain j where j: "j < length (entries h L)" "entries h L ! j = x"
    and kx: "key (the (oh (snd x))) = i" and kj: "\<forall>l < j. key (the (oh (snd (entries h L ! l)))) \<noteq> i"
    by (auto simp: find_Some_iff)
  define ys zs where "ys = take j (entries h L)" and "zs = drop (Suc j) (entries h L)"
  have e: "entries h L = ys @ x # zs" using id_take_nth_drop[OF j(1)] j(2) by (simp add: ys_def zs_def)
  have ky: "key (the (oh (snd y))) \<noteq> i" if "y \<in> set ys" for y
  proof -
    from that obtain l where "l < j" "y = entries h L ! l" using j(1) by (auto simp: ys_def in_set_conv_nth)
    then show ?thesis by (simp add: kj)
  qed
  have "snd x \<in> set (contents h L)" using e m by (metis in_set_conv_decomp list.set_map imageI)
  from table_wf_key_inj[OF t this p] kx k have sx: "snd x = p" by simp
  then obtain n where xn: "x = (n, p)" by (cases x) simp
  have "p \<notin> snd ` set ys" using ky k by auto
  then have f: "ptrlist_find h L p = Some n"
    using lists_wf_seg[OF wf L] e xn by (intro find_seg[where ys = ys and zs = zs]) simp_all
  obtain n' h' where R: "ptrlist_find h L p = Some n'" "ptrlist_remove h L n' = Some (1, h')"
    "lists_wf H h'" "contents h' L = remove1 p (contents h L)"
    "\<And>M. M \<in> H \<Longrightarrow> M \<noteq> L \<Longrightarrow> entries h' M = entries h M"
    "\<And>al. fresh_above al h \<Longrightarrow> fresh_above al h'"
    by (rule ptrlist_find_remove[OF wf L p]) (rule that)
  show ?thesis
    by (rule that[of n h']) (use F x xn R f in \<open>simp_all add: contents_def\<close>)
qed

text \<open>When no object has the id, the search ends with the last object, and the removal of the
  null node that it leaves dereferences a null pointer.\<close>

lemma find_node_missing:
  assumes wf: "lists_wf H h" and L: "L \<in> H" and t: "table_wf (contents h L) oh key cnt lst lim"
    and none: "i \<notin> set (map (\<lambda>p. key (the (oh p))) (contents h L))"
  shows "contents h L = [] \<Longrightarrow> find_node h oh (\<lambda>x. key x = i) L NULL = None"
    and "contents h L \<noteq> [] \<Longrightarrow>
      find_node h oh (\<lambda>x. key x = i) L NULL = Some (NULL, last (contents h L))"
    and "ptrlist_remove h L NULL = None"
proof -
  note seg = lists_wf_seg[OF wf L]
  obtain q ys where xs: "entries h L = (L, q) # ys"
    using lists_wf_entries[OF wf L] by (auto simp: wf_entries_Cons)
  show "ptrlist_remove h L NULL = None" by (rule ptrlist_remove_NULL[OF seg]) (simp add: xs)
  show "find_node h oh (\<lambda>x. key x = i) L NULL = None" if "contents h L = []"
  proof -
    have "entries h L = [(L, NULL)]" using contents_Nil_iff(1)[OF wf L] that by simp
    with seg show ?thesis by (subst find_node.simps) (auto simp: rd_def)
  qed
  assume ne: "contents h L \<noteq> []"
  have m: "map snd (entries h L) = contents h L" using contents_Nil_iff(2)[OF wf L] ne by simp
  have obj: "\<forall>q \<in> snd ` set (entries h L). q \<noteq> NULL \<and> q \<in> dom oh"
    using m table_wf_obj[OF t] contents_not_NULL by (metis list.set_map)
  have "key (the (oh (snd x))) \<noteq> i" if "x \<in> set (entries h L)" for x
  proof -
    have "snd x \<in> set (contents h L)" using that m by (metis imageI list.set_map)
    with none show ?thesis by auto
  qed
  then have "List.find (\<lambda>x. key (the (oh (snd x))) = i) (entries h L) = None"
    by (fastforce simp: find_None_iff)
  moreover have "snd (last (entries h L)) = last (contents h L)"
    using m xs by (metis last_map list.distinct(1))
  ultimately show "find_node h oh (\<lambda>x. key x = i) L NULL = Some (NULL, last (contents h L))"
    using find_node_seg[OF seg obj, of "\<lambda>x. key x = i" NULL] xs by simp
qed

text \<open>The return value that the create functions store when the kernel is active.\<close>

definition set_retval :: "u16 \<Rightarrow> kstate \<Rightarrow> kstate option" where
  "set_retval r s = (if KernelActive s \<noteq> 0 then upd_cur (\<lambda>d. d\<lparr>request_retval := r\<rparr>) s else Some s)"

lemma kwf_set_retval: "set_retval r s = Some s' \<Longrightarrow> kwf s \<Longrightarrow> kwf s'"
  by (auto simp: set_retval_def split: if_splits) (erule kwf_steps | simp)+

lemma set_retval_ex: "kwf s \<Longrightarrow> \<exists>s'. set_retval r s = Some s'"
  by (auto simp: set_retval_def kwf_defs upd_cur_def upd_pd_def wr_def rd_def)

lemma set_retval_frame: "set_retval r s = Some s' \<Longrightarrow> nodes s' = nodes s \<and> mutexes s' = mutexes s \<and>
    events s' = events s \<and> event_groups s' = event_groups s \<and> mailboxes s' = mailboxes s \<and>
    Last_MutexID s' = Last_MutexID s \<and> Last_EventID s' = Last_EventID s \<and>
    Last_Event_Group_ID s' = Last_Event_Group_ID s \<and> Last_MailboxID s' = Last_MailboxID s \<and>
    alloc s' = alloc s \<and> err s' = err s"
  by (auto simp: set_retval_def upd_cur_iff split: if_splits)

text \<open>An update of all descriptors of a list.\<close>

definition upd_all :: "(PD \<Rightarrow> PD) \<Rightarrow> addr list \<Rightarrow> PD heap \<Rightarrow> PD heap" where
  "upd_all f ps h = (\<lambda>p. if p \<in> set ps then map_option f (h p) else h p)"

lemma upd_all_simps [simp]:
  "upd_all f [] h = h"
  "p \<notin> set ps \<Longrightarrow> h p = Some d \<Longrightarrow> upd_all f ps (h(p \<mapsto> f d)) = upd_all f (p # ps) h"
  "dom (upd_all f ps h) = dom h"
  by (auto simp: upd_all_def split: if_splits)

lemma upd_all_at: "p \<in> set ps \<Longrightarrow> h p = Some d \<Longrightarrow> upd_all f ps h p = Some (f d)"
  by (simp add: upd_all_def)

lemma foldM_upd_pd:
  "distinct ps \<Longrightarrow> \<forall>p \<in> set ps. p \<noteq> NULL \<and> p \<in> dom (pds s) \<Longrightarrow>
   foldM (\<lambda>p. upd_pd p f) ps s = Some (s\<lparr>pds := upd_all f ps (pds s)\<rparr>)"
proof (induction ps arbitrary: s)
  case (Cons p ps)
  then obtain d where d: "pds s p = Some d" "p \<noteq> NULL" by auto
  define s1 where "s1 = s\<lparr>pds := (pds s)(p \<mapsto> f d)\<rparr>"
  have "\<forall>q \<in> set ps. q \<noteq> NULL \<and> q \<in> dom (pds s1)" using Cons.prems(2) by (auto simp: s1_def)
  from Cons.IH[OF _ this] Cons.prems(1) have
    "foldM (\<lambda>p. upd_pd p f) ps s1 = Some (s1\<lparr>pds := upd_all f ps (pds s1)\<rparr>)" by simp
  moreover have "upd_all f ps (pds s1) = upd_all f (p # ps) (pds s)"
    unfolding s1_def using Cons.prems(1) d by (simp del: fun_upd_apply)
  moreover have "upd_pd p f s = Some s1" using d by (simp add: upd_pd_Some rd_SomeI s1_def)
  ultimately show ?case by (simp add: s1_def)
qed simp

lemma kwf_upd_all:
  assumes kwf: "kwf s" and f: "\<And>d. pid (f d) = pid d"
  shows "kwf (s\<lparr>pds := upd_all f ps (pds s)\<rparr>)"
proof -
  let ?h = "upd_all f ps (pds s)"
  have dom: "dom ?h = dom (pds s)" by simp
  have t: "table_wf (procs s) ?h pid (Task_Count s) (Last_PID s) MAXTHREAD"
    by (rule table_wf_cong[OF kwf_tables(1)[OF kwf]])
      (use table_wf_obj[OF kwf_tables(1)[OF kwf]] in \<open>force simp: upd_all_def f\<close>)
  have q: "queues_inv (qelems s) (queues_of s) (key_target ?h (mail_objs s))"
    by (rule queues_inv_mono[OF kwf_parts(3)[OF kwf]]) (erule key_target_mono, simp_all only: dom order.refl)
  have "fresh_above (alloc s) ?h" using kwf by (simp add: kwf_defs fresh_above_def)
  then show ?thesis using kwf t q by (simp add: kwf_defs)
qed

lemma kwf_procs:
  assumes "kwf s" and "procs s \<noteq> []"
  shows "map snd (entries (nodes s) ProcessList) = procs s" and "distinct (procs s)"
    and "\<forall>p \<in> set (procs s). p \<noteq> NULL \<and> p \<in> dom (pds s)"
    and "seg (nodes s) ProcessList (entries (nodes s) ProcessList) NULL"
  using contents_Nil_iff(2)[OF kwf_lists[OF assms(1)]] table_wf_distinct(2)[OF kwf_tables(1)[OF assms(1)]]
    table_wf_obj[OF kwf_tables(1)[OF assms(1)]] lists_wf_seg[OF kwf_lists[OF assms(1)]] contents_not_NULL assms(2)
  by (blast | simp)+

end
