(* ===== verification/Examples.thy ===== *)
theory Examples
  imports Invariant
begin

text \<open>
  Concrete well-formed states, on which the theorems of the modules are instantiated: three
  tasks with the pids 1, 2 and 3 at the addresses 20, 21 and 22, the first of them running, and
  one object of each kind but mailboxes. The descriptors, the queue elements and the objects are
  parameters.
\<close>

definition ex_nodes_k :: "PtrList heap" where
  "ex_nodes_k = [1 \<mapsto> \<lparr>pl_ptr = 20, pl_next = 30\<rparr>, 30 \<mapsto> \<lparr>pl_ptr = 21, pl_next = 31\<rparr>,
     31 \<mapsto> \<lparr>pl_ptr = 22, pl_next = NULL\<rparr>, 2 \<mapsto> \<lparr>pl_ptr = 60, pl_next = NULL\<rparr>,
     3 \<mapsto> \<lparr>pl_ptr = 70, pl_next = NULL\<rparr>, 4 \<mapsto> \<lparr>pl_ptr = 50, pl_next = NULL\<rparr>,
     5 \<mapsto> \<lparr>pl_ptr = 40, pl_next = NULL\<rparr>, 6 \<mapsto> \<lparr>pl_ptr = NULL, pl_next = NULL\<rparr>]"

definition ex_PD :: "u16 \<Rightarrow> u8 \<Rightarrow> PROCESS_STATE \<Rightarrow> (nat \<Rightarrow> u16) \<Rightarrow> u16 \<Rightarrow> PD" where
  "ex_PD i pr st args t = \<lparr>pid = i, pri = pr, state = st, stack_size = 100, stack = 90, sp = (90, 50),
     code_ptr = 0, task_arg = 0, request = NONE, request_args = args, request_retval = 0,
     request_timeout = t, last_state = DEAD, starvation_ticks = 0\<rparr>"

definition ex_EV :: EVENT_TYPE where
  "ex_EV = \<lparr>ev_id = 1, ev_owner = 0, ev_count = 0\<rparr>"

definition ex_EG :: EVENT_GROUP_TYPE where
  "ex_EG = \<lparr>eg_id = 1, eg_events = 0\<rparr>"

definition ex_SEM :: "u16 \<Rightarrow> Queue \<Rightarrow> SEMAPHORE_TYPE" where
  "ex_SEM c q = \<lparr>sem_id = 1, sem_count = c, is_binary = 0, sem_wait_queue = q\<rparr>"

definition ex_MUT :: "u16 \<Rightarrow> u16 \<Rightarrow> Queue \<Rightarrow> Queue \<Rightarrow> MUTEX_TYPE" where
  "ex_MUT own n q1 q2 = \<lparr>mut_id = 1, mut_owner = own, lock_count = n, highest_priority = 5,
     owner_orig_priority = 5, mut_wait_queue = q1, mut_orig_priority = q2\<rparr>"

definition ex_state :: "PD \<Rightarrow> PD \<Rightarrow> PD \<Rightarrow> QElement heap \<Rightarrow> EVENT_TYPE \<Rightarrow> EVENT_GROUP_TYPE \<Rightarrow>
    MUTEX_TYPE \<Rightarrow> SEMAPHORE_TYPE \<Rightarrow> kstate" where
  "ex_state d1 d2 d3 qh ev eg mu se = \<lparr>
     alloc = \<lparr>brk = 100, oom = \<lambda>_. False\<rparr>, nodes = ex_nodes_k, qelems = qh,
     bytes = [90 \<mapsto> replicate 100 0], pds = [20 \<mapsto> d1, 21 \<mapsto> d2, 22 \<mapsto> d3], events = [60 \<mapsto> ev],
     event_groups = [70 \<mapsto> eg], mutexes = [50 \<mapsto> mu], semaphores = [40 \<mapsto> se],
     mailboxes = Map.empty, mail_objs = Map.empty,
     junk_PD = \<lambda>_. d1, junk_EVENT = \<lambda>_. ev\<lparr>ev_count := 7\<rparr>, junk_MUTEX = \<lambda>_. mu,
     Task_Terminate_entry = 0x1234,
     Task_Count = 3, Last_PID = 3, Event_Count = 1, Last_EventID = 1,
     Event_Group_Count = 1, Last_Event_Group_ID = 1, Mutex_Count = 1, Last_MutexID = 1,
     Semaphore_Count = 1, Last_SemaphoreID = 1, Mailbox_Count = 0, Last_MailboxID = 0,
     Tick_Count = 0, Last_Dispatched = 1, Preemptive_Cswitch_Allowed = 1, Ticks_Since_Last_Cswitch = 0,
     Current_Process = 20, CurrentSp = (90, 50), KernelActive = 1, Kernel_Request_Cswitch = 0,
     err = NO_ERR, IRQ = False\<rparr>"

lemma ex_entries [simp]:
  "entries ex_nodes_k ProcessList = [(1, 20), (30, 21), (31, 22)]"
  "entries ex_nodes_k EventList = [(2, 60)]" "entries ex_nodes_k EventGroupList = [(3, 70)]"
  "entries ex_nodes_k MutexList = [(4, 50)]" "entries ex_nodes_k SemaphoreList = [(5, 40)]"
  "entries ex_nodes_k MailboxList = [(6, NULL)]"
  by (rule entries_of_seg; simp add: ex_nodes_k_def list_heads)+

lemma ex_contents [simp]:
  "contents ex_nodes_k ProcessList = [20, 21, 22]"
  "contents ex_nodes_k EventList = [60]" "contents ex_nodes_k EventGroupList = [70]"
  "contents ex_nodes_k MutexList = [50]" "contents ex_nodes_k SemaphoreList = [40]"
  "contents ex_nodes_k MailboxList = []"
  by (simp_all add: contents_def)

lemma ex_lists: "lists_wf LISTS ex_nodes_k"
proof (rule lists_wfI)
  fix L assume "L \<in> LISTS"
  then consider "L = ProcessList" | "L = EventList" | "L = EventGroupList" | "L = MutexList"
    | "L = SemaphoreList" | "L = MailboxList" by (auto simp: LISTS_def)
  then show "seg ex_nodes_k L (entries ex_nodes_k L) NULL" "wf_entries L (entries ex_nodes_k L)"
    by (cases; simp; simp add: ex_nodes_k_def list_heads wf_entries_def)+
next
  fix L L' n assume "L \<in> LISTS" "L' \<in> LISTS" "L \<noteq> L'" "n \<in> fst ` set (entries ex_nodes_k L)"
  then show "n \<notin> fst ` set (entries ex_nodes_k L')"
    by (auto simp: LISTS_def)
qed

lemma ex_state_kwf:
  assumes "pid d1 = 1" "pid d2 = 2" "pid d3 = 3" "ev_id ev = 1" "eg_id eg = 1" "mut_id mu = 1" "sem_id se = 1"
    and fr: "fresh_above \<lparr>brk = 100, oom = \<lambda>_. False\<rparr> qh"
    and q: "queues_inv qh (queues_in [40 \<mapsto> se] [50 \<mapsto> mu] Map.empty)
      (key_target [20 \<mapsto> d1, 21 \<mapsto> d2, 22 \<mapsto> d3] Map.empty)"
  shows "kwf (ex_state d1 d2 d3 qh ev eg mu se)"
proof -
  have f: "fresh_above \<lparr>brk = 100, oom = \<lambda>_. False\<rparr> ex_nodes_k"
    by (auto simp: fresh_above_def ex_nodes_k_def split: if_splits)
  show ?thesis
    using assms f ex_lists
    by (simp add: kwf_defs ex_state_def table_wf_def fresh_above_def)
qed

text \<open>The family of queues of such a state, from the three queues of its objects.\<close>

lemma ex_queues_inv:
  assumes "queue_rep qh (sem_wait_queue se) xs" "queue_rep qh (mut_wait_queue mu) ys"
    "queue_rep qh (mut_orig_priority mu) zs"
    and "is_ptr_queue (sem_wait_queue se)" "is_ptr_queue (mut_wait_queue mu)"
    "\<not> is_ptr_queue (mut_orig_priority mu)"
    and "fst ` set xs \<inter> fst ` set ys = {}" "fst ` set xs \<inter> fst ` set zs = {}"
    "fst ` set ys \<inter> fst ` set zs = {}"
    and "\<And>v. v \<in> snd ` set xs \<union> snd ` set ys \<Longrightarrow> v \<noteq> NULL \<and> v \<in> dom ph"
  shows "queues_inv qh (queues_in [40 \<mapsto> se] [50 \<mapsto> mu] Map.empty) (key_target ph lh)"
proof -
  note n = qnodes_rep[OF assms(1)] qnodes_rep[OF assms(2)] qnodes_rep[OF assms(3)]
  have c: "F k = Some q \<Longrightarrow> k = SemWait 40 \<and> q = sem_wait_queue se \<or>
      k = MutWait 50 \<and> q = mut_wait_queue mu \<or> k = MutPri 50 \<and> q = mut_orig_priority mu"
    if "F = queues_in [40 \<mapsto> se] [50 \<mapsto> mu] Map.empty" for F k q
    using that by (cases k) (auto split: if_splits)
  have "queues_wf qh (queues_in [40 \<mapsto> se] [50 \<mapsto> mu] Map.empty)"
  proof (rule queues_wfI)
    show "queue_rep qh q (qnodes qh q)" if "queues_in [40 \<mapsto> se] [50 \<mapsto> mu] Map.empty k = Some q" for k q
      using c[OF refl that] assms(1-3) by (auto simp: n)
    show "x \<notin> fst ` set (qnodes qh q')"
      if "queues_in [40 \<mapsto> se] [50 \<mapsto> mu] Map.empty k = Some q"
        "queues_in [40 \<mapsto> se] [50 \<mapsto> mu] Map.empty k' = Some q'" "k \<noteq> k'" "x \<in> fst ` set (qnodes qh q)"
      for k k' q q' x
      using c[OF refl that(1)] c[OF refl that(2)] that(3,4)
      by (elim disjE conjE; simp add: n) (use assms(7-9) in blast)+
  qed
  moreover have "is_ptr_queue q = key_is_ptr k \<and> (\<forall>v \<in> set (qitems qh q). key_target ph lh k v)"
    if "queues_in [40 \<mapsto> se] [50 \<mapsto> mu] Map.empty k = Some q" for k q
    using c[OF refl that] assms(4-6,10) by (elim disjE conjE; simp add: qitems_def n)
  moreover have "mails_sep qh (queues_in [40 \<mapsto> se] [50 \<mapsto> mu] Map.empty)"
  proof -
    have "queues_in [40 \<mapsto> se] [50 \<mapsto> mu] Map.empty k = None" if "is_mails k" for k using that by (cases k) auto
    then show ?thesis by (simp add: mails_sep_def)
  qed
  ultimately show ?thesis unfolding queues_inv_def by blast
qed

text \<open>Two tasks in a queue, and an empty queue.\<close>

definition ex_elems :: "QElement heap" where
  "ex_elems = [80 \<mapsto> \<lparr>qe_val = 21, qe_next = 81\<rparr>, 81 \<mapsto> \<lparr>qe_val = 22, qe_next = NULL\<rparr>]"

definition ex_queue :: Queue where
  "ex_queue = \<lparr>q_head = 80, q_tail = 81, q_count = 2, is_ptr_queue = True\<rparr>"

lemma ex_queue_rep: "queue_rep ex_elems ex_queue [(80, 21), (81, 22)]"
  by (simp add: queue_rep_def ex_elems_def ex_queue_def)

lemma ex_queue_items [simp]: "qitems ex_elems ex_queue = [21, 22]"
  by (simp add: qitems_rep[OF ex_queue_rep])

lemma ex_elems_fresh: "fresh_above \<lparr>brk = 100, oom = \<lambda>_. False\<rparr> ex_elems"
  by (auto simp: fresh_above_def ex_elems_def split: if_splits)

text \<open>Three tasks, no queues: a running one, whose request arguments are \<open>args\<close>, and two others.\<close>

definition ex_tasks :: "(nat \<Rightarrow> bool) \<Rightarrow> (nat \<Rightarrow> u16) \<Rightarrow> PD \<Rightarrow> PD \<Rightarrow> kstate" where
  "ex_tasks om args d2 d3 = (ex_state (ex_PD 1 5 RUNNING args 0) d2 d3
     Map.empty ex_EV ex_EG (ex_MUT 0 0 new_ptr_queue new_int_queue) (ex_SEM 0 new_ptr_queue))
     \<lparr>alloc := \<lparr>brk = 100, oom = om\<rparr>\<rparr>"

lemma ex_tasks_kwf: "pid d2 = 2 \<Longrightarrow> pid d3 = 3 \<Longrightarrow> kwf (ex_tasks om args d2 d3)"
proof -
  assume "pid d2 = 2" "pid d3 = 3"
  then have "kwf (ex_state (ex_PD 1 5 RUNNING args 0) d2 d3
     Map.empty ex_EV ex_EG (ex_MUT 0 0 new_ptr_queue new_int_queue) (ex_SEM 0 new_ptr_queue))"
    by (intro ex_state_kwf, simp_all add: ex_PD_def ex_EV_def ex_EG_def ex_MUT_def ex_SEM_def fresh_above_def)
      (rule ex_queues_inv[where xs = "[]" and ys = "[]" and zs = "[]"],
        simp_all add: new_ptr_queue_def new_int_queue_def queue_rep_def)
  from kwf_alloc[OF this, of "\<lparr>brk = 100, oom = om\<rparr>"] show ?thesis
    by (simp add: ex_tasks_def ex_state_def)
qed

lemmas ex_tasks_eval = ex_tasks_def ex_state_def ex_nodes_k_def list_heads malloc_k_def malloc_def put_obj_def
  add_to_list_def ptrlist_add_def ptrlist_findtail_def findtail_loop.simps wr_def rd_def contents_def
  entries_def walk.simps

end
