(* ===== verification/Task.thy ===== *)
theory Task
  imports Examples
begin

text \<open>
  The task module: \<open>task/task.c\<close> and \<open>Kernel_Init_Task_Stack\<close> of \<open>hardware/cpuarch.c\<close>.
  A task is a process descriptor (\<open>PD\<close>) on \<open>ProcessList\<close>; its stack is a byte block.
\<close>

section \<open>The initial stack of a task\<close>

text \<open>
  A stack pointer is a block and an offset. Moving it outside the block or writing
  outside the block is undefined behaviour.
\<close>

definition ptr_move :: "u8 list heap \<Rightarrow> stack_ptr \<Rightarrow> int \<Rightarrow> stack_ptr option" where
  "ptr_move h p n = do {
     b \<leftarrow> rd h (fst p);
     if 0 \<le> snd p + n \<and> snd p + n \<le> int (length b) then Some (fst p, snd p + n) else None
   }"

definition write_byte :: "u8 list heap \<Rightarrow> stack_ptr \<Rightarrow> u8 \<Rightarrow> u8 list heap option" where
  "write_byte h p v = do {
     b \<leftarrow> rd h (fst p);
     if 0 \<le> snd p \<and> snd p < int (length b) then Some (h(fst p \<mapsto> b[nat (snd p) := v])) else None
   }"

text \<open>The statement \<open>*(unsigned char *)sp-- = v\<close>.\<close>

definition push_byte :: "u8 \<Rightarrow> u8 list heap \<times> stack_ptr \<Rightarrow> (u8 list heap \<times> stack_ptr) option" where
  "push_byte v hp = do {
     h \<leftarrow> write_byte (fst hp) (snd hp) v;
     sp' \<leftarrow> ptr_move h (snd hp) (- 1);
     Some (h, sp')
   }"

definition Kernel_Init_Task_Stack ::
  "u16 \<Rightarrow> u16 \<Rightarrow> u8 list heap \<times> stack_ptr \<Rightarrow> (u8 list heap \<times> stack_ptr) option" where
  "Kernel_Init_Task_Stack term f hp = do {
     hp \<leftarrow> push_byte (ucast (term AND 0xFF)) hp;
     hp \<leftarrow> push_byte (ucast (drop_bit 8 term AND 0xFF)) hp;
     hp \<leftarrow> push_byte 0 hp;
     hp \<leftarrow> push_byte (ucast (f AND 0xFF)) hp;
     hp \<leftarrow> push_byte (ucast (drop_bit 8 f AND 0xFF)) hp;
     hp \<leftarrow> push_byte 0 hp;
     sp' \<leftarrow> ptr_move (fst hp) (snd hp) (- 34);
     Some (fst hp, sp')
   }"

section \<open>Operations\<close>

definition Task_Reset :: "kstate \<Rightarrow> kstate" where
  "Task_Reset s = s\<lparr>Task_Count := 0, Last_PID := 0,
     nodes := (nodes s)(ProcessList \<mapsto> \<lparr>pl_ptr = NULL, pl_next = NULL\<rparr>)\<rparr>"

text \<open>
  \<open>malloc(stack_size)\<close> followed by \<open>memset\<close> gives a block of zeros; \<open>stack_size - 1\<close> is
  computed in \<open>size_t\<close>.
\<close>

definition Kernel_Create_Task_Direct ::
  "u16 \<Rightarrow> u16 \<Rightarrow> u8 \<Rightarrow> u16 \<Rightarrow> kstate \<Rightarrow> (u16 \<times> kstate) option" where
  "Kernel_Create_Task_Direct f ssize py targ s =
     (if unat (Task_Count s) = MAXTHREAD then Some (0, kernel_raise_error MAX_OBJECT_ERR s)
      else do {
        let (p, s) = malloc_k s;
        if p = NULL then Some (0, kernel_raise_error MALLOC_FAILED_ERR s)
        else do {
          s \<leftarrow> add_to_list ProcessList p (s\<lparr>pds := put_obj (pds s) p (junk_PD s p)\<rparr>);
          let s = s\<lparr>Task_Count := Task_Count s + 1, Last_PID := Last_PID s + 1\<rparr>;
          s \<leftarrow> upd_pd p (\<lambda>d. d\<lparr>pid := Last_PID s, pri := py, stack_size := ssize, task_arg := targ,
                 request := NONE, state := READY, code_ptr := f, starvation_ticks := 0\<rparr>) s;
          let (stk, s) = malloc_k s;
          s \<leftarrow> upd_pd p (\<lambda>d. d\<lparr>stack := stk\<rparr>) s;
          if stk = NULL then Some (0, kernel_raise_error MALLOC_FAILED_ERR s)
          else do {
            let h = (bytes s)(stk \<mapsto> replicate (unat ssize) 0);
            sp0 \<leftarrow> ptr_move h (stk, 0) (uint (ssize - 1));
            (h, sp1) \<leftarrow> Kernel_Init_Task_Stack (Task_Terminate_entry s) f (h, sp0);
            s \<leftarrow> upd_pd p (\<lambda>d. d\<lparr>sp := sp1\<rparr>) (s\<lparr>bytes := h\<rparr>);
            d \<leftarrow> rd (pds s) p;
            Some (pid d, s)
          }
        }
      })"

text \<open>The \<open>int\<close> priority argument is converted to an \<open>unsigned char\<close>.\<close>

definition Kernel_Create_Task :: "kstate \<Rightarrow> kstate option" where
  "Kernel_Create_Task s = do {
     f \<leftarrow> req_arg 0 s;
     ssize \<leftarrow> req_arg 1 s;
     py \<leftarrow> req_arg 2 s;
     targ \<leftarrow> req_arg 3 s;
     (r, s) \<leftarrow> Kernel_Create_Task_Direct f ssize (ucast py) targ s;
     upd_cur (\<lambda>d. d\<lparr>request_retval := r\<rparr>) s
   }"

definition Kernel_Suspend_Task :: "kstate \<Rightarrow> kstate option" where
  "Kernel_Suspend_Task s = do {
     a \<leftarrow> req_arg 0 s;
     p \<leftarrow> findProcessByPID a s;
     if p = NULL then Some (kernel_raise_error OBJECT_NOT_FOUND_ERR s)
     else do {
       d \<leftarrow> rd (pds s) p;
       if \<not> (state d = READY \<or> state d = RUNNING \<or> state d = SLEEPING)
       then Some (kernel_raise_error UNPROCESSABLE_TASK_STATE_ERR s)
       else upd_pd p (\<lambda>d. d\<lparr>last_state := (if state d = RUNNING then READY else state d),
              state := SUSPENDED\<rparr>) s
     }
   }"

definition Kernel_Resume_Task :: "kstate \<Rightarrow> kstate option" where
  "Kernel_Resume_Task s = do {
     a \<leftarrow> req_arg 0 s;
     p \<leftarrow> findProcessByPID a s;
     if p = NULL then Some (kernel_raise_error OBJECT_NOT_FOUND_ERR s)
     else do {
       d \<leftarrow> rd (pds s) p;
       if state d \<noteq> SUSPENDED then Some (kernel_raise_error UNPROCESSABLE_TASK_STATE_ERR s)
       else upd_pd p (\<lambda>d. d\<lparr>state := (if last_state d = RUNNING then READY else last_state d),
              last_state := SUSPENDED\<rparr>) s
     }
   }"

definition Kernel_Sleep_Task :: "kstate \<Rightarrow> kstate option" where
  "Kernel_Sleep_Task s = do {
     s \<leftarrow> upd_cur (\<lambda>d. d\<lparr>state := SLEEPING\<rparr>) s;
     Some (s\<lparr>Kernel_Request_Cswitch := 1\<rparr>)
   }"

text \<open>The stack is freed and the node of the process list removed; the \<open>PD\<close> itself is not freed.\<close>

definition Kernel_Terminate_Task :: "kstate \<Rightarrow> kstate option" where
  "Kernel_Terminate_Task s = do {
     s \<leftarrow> upd_cur (\<lambda>d. d\<lparr>state := DEAD\<rparr>) s;
     let s = s\<lparr>Task_Count := Task_Count s - 1\<rparr>;
     d \<leftarrow> cur_pd s;
     b \<leftarrow> free (bytes s) (stack d);
     n \<leftarrow> ptrlist_find (nodes s) ProcessList (Current_Process s);
     s \<leftarrow> remove_from_list ProcessList n (s\<lparr>bytes := b\<rparr>);
     Some (s\<lparr>Kernel_Request_Cswitch := 1\<rparr>)
   }"

section \<open>The initial stack\<close>

lemma ptr_move_eq:
  "p \<noteq> NULL \<Longrightarrow> h p = Some b \<Longrightarrow>
   ptr_move h (p, i) n = (if 0 \<le> i + n \<and> i + n \<le> int (length b) then Some (p, i + n) else None)"
  by (simp add: ptr_move_def rd_def)

lemma push_byte_eq:
  assumes "p \<noteq> NULL" and "h p = Some b"
  shows "push_byte v (h, (p, i)) =
    (if 0 < i \<and> i < int (length b) then Some (h(p \<mapsto> b[nat i := v]), (p, i - 1)) else None)"
  using assms by (auto simp: push_byte_def write_byte_def rd_def ptr_move_def)

text \<open>A push at the \<open>j\<close>-th byte of the second part of a block.\<close>

lemma push_byte_at:
  assumes "p \<noteq> NULL" and "h p = Some (c @ t)" and "c \<noteq> []" and "j < length t" and "i = int (length c) + int j"
  shows "push_byte v (h, (p, i)) = Some (h(p \<mapsto> c @ t[j := v]), (p, i - 1))"
proof -
  have "nat i = length c + j" "0 < int (length c) + int j" using assms(3,5) by (auto simp: add_pos_nonneg)
  with assms show ?thesis by (simp add: push_byte_eq list_update_append)
qed

text \<open>The frame the function leaves: the two return addresses, least significant byte on top.\<close>

definition init_frame :: "u16 \<Rightarrow> u16 \<Rightarrow> u8 list" where
  "init_frame term f = [0, ucast (drop_bit 8 f AND 0xFF), ucast (f AND 0xFF),
     0, ucast (drop_bit 8 term AND 0xFF), ucast (term AND 0xFF)]"

lemma init_stack_ok:
  assumes p: "p \<noteq> NULL" and b: "h p = Some (c @ t)" "length t = 6" "35 \<le> length c"
  shows "Kernel_Init_Task_Stack term f (h, (p, int (length (c @ t)) - 1)) =
    Some (h(p \<mapsto> c @ init_frame term f), (p, int (length c) - 35))"
proof -
  obtain x1 x2 x3 x4 x5 x6 where t: "t = [x1, x2, x3, x4, x5, x6]"
    using b(2) by (auto simp: length_Suc_conv eval_nat_numeral)
  have c: "c \<noteq> []" using b(3) by auto
  note P = push_byte_at[OF p _ c]
  have "push_byte v5 (h, (p, int (length (c @ t)) - 1)) =
      Some (h(p \<mapsto> c @ [x1, x2, x3, x4, x5, v5]), (p, int (length c) + 4))" for v5
    using P[of h t 5 "int (length c) + 5" v5] b(1) by (simp add: t add.commute)
  moreover have "push_byte v4 (h(p \<mapsto> c @ [x1, x2, x3, x4, x5, v5]), (p, int (length c) + 4)) =
      Some (h(p \<mapsto> c @ [x1, x2, x3, x4, v4, v5]), (p, int (length c) + 3))" for v4 v5
    using P[of "h(p \<mapsto> c @ [x1, x2, x3, x4, x5, v5])" _ 4 "int (length c) + 4" v4] by simp
  moreover have "push_byte v3 (h(p \<mapsto> c @ [x1, x2, x3, x4, v4, v5]), (p, int (length c) + 3)) =
      Some (h(p \<mapsto> c @ [x1, x2, x3, v3, v4, v5]), (p, int (length c) + 2))" for v3 v4 v5
    using P[of "h(p \<mapsto> c @ [x1, x2, x3, x4, v4, v5])" _ 3 "int (length c) + 3" v3] by simp
  moreover have "push_byte v2 (h(p \<mapsto> c @ [x1, x2, x3, v3, v4, v5]), (p, int (length c) + 2)) =
      Some (h(p \<mapsto> c @ [x1, x2, v2, v3, v4, v5]), (p, int (length c) + 1))" for v2 v3 v4 v5
    using P[of "h(p \<mapsto> c @ [x1, x2, x3, v3, v4, v5])" _ 2 "int (length c) + 2" v2] by simp
  moreover have "push_byte v1 (h(p \<mapsto> c @ [x1, x2, v2, v3, v4, v5]), (p, int (length c) + 1)) =
      Some (h(p \<mapsto> c @ [x1, v1, v2, v3, v4, v5]), (p, int (length c)))" for v1 v2 v3 v4 v5
    using P[of "h(p \<mapsto> c @ [x1, x2, v2, v3, v4, v5])" _ 1 "int (length c) + 1" v1] by simp
  moreover have "push_byte v0 (h(p \<mapsto> c @ [x1, v1, v2, v3, v4, v5]), (p, int (length c))) =
      Some (h(p \<mapsto> c @ [v0, v1, v2, v3, v4, v5]), (p, int (length c) - 1))" for v0 v1 v2 v3 v4 v5
    using P[of "h(p \<mapsto> c @ [x1, v1, v2, v3, v4, v5])" _ 0 "int (length c)" v0] by simp
  moreover have "ptr_move (h(p \<mapsto> c @ init_frame term f)) (p, int (length c) - 1) (- 34) =
      Some (p, int (length c) - 35)"
    using p b(3) by (simp add: ptr_move_eq)
  ultimately show ?thesis by (simp add: Kernel_Init_Task_Stack_def init_frame_def)
qed

lemma init_stack_small:
  assumes p: "p \<noteq> NULL" and b: "h p = Some b" and n: "length b < 41" and i: "i < int (length b)"
  shows "Kernel_Init_Task_Stack term f (h, (p, i)) = None"
  using p b n i
  by (simp add: Kernel_Init_Task_Stack_def push_byte_eq ptr_move_eq)

section \<open>The table of tasks\<close>

definition task_ids :: "kstate \<Rightarrow> u16 list" where
  "task_ids s = map (\<lambda>p. pid (the (pds s p))) (procs s)"

text \<open>The descriptor of a new task; fields that are not listed keep the contents of the memory.\<close>

definition new_PD :: "PD \<Rightarrow> u16 \<Rightarrow> u16 \<Rightarrow> u16 \<Rightarrow> u8 \<Rightarrow> u16 \<Rightarrow> PD" where
  "new_PD d i f ssize py targ = d\<lparr>pid := i, pri := py, stack_size := ssize, task_arg := targ,
     request := NONE, state := READY, code_ptr := f, starvation_ticks := 0\<rparr>"

definition with_task :: "addr \<Rightarrow> PD \<Rightarrow> allocator \<Rightarrow> PtrList heap \<Rightarrow> kstate \<Rightarrow> kstate" where
  "with_task p d al h s = s\<lparr>alloc := al, nodes := h, pds := (pds s)(p \<mapsto> d),
     Task_Count := Task_Count s + 1, Last_PID := Last_PID s + 1\<rparr>"

lemma create_task_full:
  "kwf s \<Longrightarrow> length (procs s) = MAXTHREAD \<Longrightarrow>
   Kernel_Create_Task_Direct f n py a s = Some (0, s\<lparr>err := MAX_OBJECT_ERR\<rparr>)"
  using table_wf_count[OF kwf_tables(1)[of s]] by (simp add: Kernel_Create_Task_Direct_def)

text \<open>What a creation does when there is room: the three outcomes.\<close>

definition stack_result :: "u16 \<Rightarrow> u16 \<Rightarrow> u16 \<Rightarrow> addr \<Rightarrow> u8 list heap \<Rightarrow> (u8 list heap \<times> stack_ptr) option" where
  "stack_result term f n stk h = do {
     sp0 \<leftarrow> ptr_move (h(stk \<mapsto> replicate (unat n) 0)) (stk, 0) (uint (n - 1));
     Kernel_Init_Task_Stack term f (h(stk \<mapsto> replicate (unat n) 0), sp0)
   }"

lemma create_task_new:
  assumes kwf: "kwf s" and room: "length (procs s) < MAXTHREAD"
    and cr: "Kernel_Create_Task_Direct f n py a s = Some (i, s')"
  shows "(\<exists>al. i = 0 \<and> s' = s\<lparr>alloc := al, err := MALLOC_FAILED_ERR\<rparr> \<and> malloc (alloc s) = (NULL, al)) \<or>
    (\<exists>p al h d stk al2. link_new ProcessList p s al h \<and> d = new_PD (junk_PD s p) (Last_PID s + 1) f n py a \<and>
       malloc al = (stk, al2) \<and>
       (stk = NULL \<and> i = 0 \<and>
          s' = (with_task p (d\<lparr>stack := NULL\<rparr>) al h s)\<lparr>alloc := al2, err := MALLOC_FAILED_ERR\<rparr> \<or>
        stk \<noteq> NULL \<and> i = Last_PID s + 1 \<and>
          (\<exists>bh sp1. stack_result (Task_Terminate_entry s) f n stk (bytes s) = Some (bh, sp1) \<and>
            s' = (with_task p (d\<lparr>stack := stk, sp := sp1\<rparr>) al h s)\<lparr>alloc := al2, bytes := bh\<rparr>)))"
proof -
  have full: "unat (Task_Count s) \<noteq> MAXTHREAD"
    using room table_wf_count[OF kwf_tables(1)[OF kwf]] by simp
  obtain p s1 where m: "malloc_k s = (p, s1)" by fastforce
  then obtain al1 where s1: "malloc (alloc s) = (p, al1)" "s1 = s\<lparr>alloc := al1\<rparr>" by (auto simp: malloc_k_iff)
  show ?thesis
  proof (cases "p = NULL")
    case True
    with cr full m s1 show ?thesis by (auto simp: Kernel_Create_Task_Direct_def)
  next
    case False
    let ?s2 = "s1\<lparr>pds := (pds s)(p \<mapsto> junk_PD s p)\<rparr>"
    from cr full m s1 False obtain s3 where s3: "add_to_list ProcessList p ?s2 = Some s3"
      by (auto simp: Kernel_Create_Task_Direct_def put_obj_def elim!: bind_SomeE)
    obtain al h where h: "s3 = ?s2\<lparr>alloc := al, nodes := h\<rparr>" "link_new ProcessList p s al h"
      using malloc_add[OF kwf_parts(1)[OF kwf] _ m False s3] s1 by auto
    obtain stk al2 where m2: "malloc al = (stk, al2)" by fastforce
    define d where "d = new_PD (junk_PD s p) (Last_PID s + 1) f n py a"
    note unf = Kernel_Create_Task_Direct_def put_obj_def upd_pd_def wr_def rd_def malloc_k_def
    show ?thesis
    proof (cases "stk = NULL")
      case True
      have "i = 0 \<and> s' = (with_task p (d\<lparr>stack := NULL\<rparr>) al h s)\<lparr>alloc := al2, err := MALLOC_FAILED_ERR\<rparr>"
        using cr full s1 False s3 h(1) m2 True by (auto simp: unf d_def new_PD_def with_task_def)
      with h(2) m2 True d_def show ?thesis by blast
    next
      case stk: False
      from cr full s1 False s3 h(1) m2 stk
      obtain bh sp1 where st: "stack_result (Task_Terminate_entry s) f n stk (bytes s) = Some (bh, sp1)"
        "i = Last_PID s + 1" "s' = (with_task p (d\<lparr>stack := stk, sp := sp1\<rparr>) al h s)\<lparr>alloc := al2, bytes := bh\<rparr>"
        by (auto simp: unf Let_def stack_result_def d_def new_PD_def with_task_def elim!: bind_SomeE)
      with h(2) m2 stk d_def show ?thesis by blast
    qed
  qed
qed

lemma kwf_with_task:
  assumes kwf: "kwf s" and room: "length (procs s) < MAXTHREAD" and lst: "Last_PID s \<noteq> - 1"
    and lnk: "link_new ProcessList p s al h" and d: "pid d = Last_PID s + 1"
  shows "kwf (with_task p d al h s)"
    and "task_ids (with_task p d al h s) = task_ids s @ [Last_PID s + 1]"
proof -
  note M = link_new_mem[OF lnk kwf_parts(1)[OF kwf]] and C = link_new_contents[OF lnk]
  have new: "pds s p = None" using kwf by (intro link_new_fresh[OF lnk]) (simp add: kwf_defs)
  then have p: "p \<notin> set (procs s)" using table_wf_obj[OF kwf_tables(1)[OF kwf], of p] by auto
  have t: "table_wf (procs s @ [p]) ((pds s)(p \<mapsto> d)) pid (Task_Count s + 1) (Last_PID s + 1) MAXTHREAD"
    by (rule table_wf_add[OF kwf_tables(1)[OF kwf] p room _ lst d]) simp
  have q: "queues_inv (qelems s) (queues_of s) (key_target ((pds s)(p \<mapsto> d)) (mail_objs s))"
    by (rule queues_inv_mono[OF kwf_parts(3)[OF kwf]]) (erule key_target_mono, auto)
  show "kwf (with_task p d al h s)"
    using kwf_tables[OF kwf] kwf_parts(4)[OF kwf] M t q
    by (auto simp: kwf_defs with_task_def C)
  have "map (\<lambda>q. pid (the (((pds s)(p \<mapsto> d)) q))) (procs s) = task_ids s"
    using p by (auto simp: task_ids_def)
  then show "task_ids (with_task p d al h s) = task_ids s @ [Last_PID s + 1]"
    by (simp add: task_ids_def with_task_def C d)
qed

lemma stack_result_fresh:
  assumes "stack_result term f n stk h = Some (h', sp1)" and "fresh_above al h" and "unat stk \<le> brk al"
  shows "fresh_above al h'"
proof -
  have push: "dom (fst hp') \<subseteq> dom (fst hp)" if "push_byte v hp = Some hp'" for v hp hp'
    using that by (auto simp: push_byte_def write_byte_def rd_def elim!: bind_SomeE split: if_splits)
  have ini: "dom h2 \<subseteq> dom (fst hp)" if "Kernel_Init_Task_Stack term f hp = Some (h2, q)" for hp h2 q
    using that unfolding Kernel_Init_Task_Stack_def
    by (elim bind_SomeE) (use push in \<open>metis (no_types, lifting) fst_conv option.inject subset_trans\<close>)
  have "dom h' \<subseteq> dom (h(stk \<mapsto> replicate (unat n) 0))"
    using assms(1) ini unfolding stack_result_def by (elim bind_SomeE) fastforce
  then show ?thesis using assms(2,3) by (auto simp: fresh_above_def)
qed

lemma uint_dec: "(n :: u16) \<noteq> 0 \<Longrightarrow> uint (n - 1) = int (unat n) - 1"
proof -
  assume n: "n \<noteq> 0"
  then have "unat n = Suc (unat (n - 1))" using unat_dec[OF n] by (simp add: unat_gt_0)
  then show ?thesis unfolding uint_nat by simp
qed

lemma stack_result_ok:
  assumes "stk \<noteq> NULL" and "41 \<le> unat n"
  shows "stack_result term f n stk h =
    Some (h(stk \<mapsto> replicate (unat n - 6) 0 @ init_frame term f), (stk, int (unat n) - 41))"
proof -
  have n0: "n \<noteq> 0" using assms(2) by auto
  note u = uint_dec[OF n0]
  have r: "replicate (unat n) (0 :: u8) = replicate (unat n - 6) 0 @ replicate 6 0"
  proof -
    have "unat n = (unat n - 6) + 6" using assms(2) by simp
    then show ?thesis by (metis replicate_add)
  qed
  let ?h = "h(stk \<mapsto> replicate (unat n - 6) 0 @ replicate 6 0)"
  have "ptr_move ?h (stk, 0) (int (unat n) - 1) = Some (stk, int (unat n) - 1)"
    using assms n0 uint_ge_0[of n] uint_0_iff[of n] by (simp add: ptr_move_eq less_le of_nat_diff)
  moreover have "Kernel_Init_Task_Stack term f (?h, (stk, int (unat n) - 1)) =
      Some (?h(stk \<mapsto> replicate (unat n - 6) 0 @ init_frame term f), (stk, int (unat n) - 41))"
    using init_stack_ok[OF assms(1), of ?h "replicate (unat n - 6) 0" "replicate 6 0" "term" f] assms(2)
    by (simp add: of_nat_diff)
  ultimately show ?thesis by (simp add: stack_result_def u r)
qed

lemma stack_result_small:
  assumes "stk \<noteq> NULL" and "unat n < 41"
  shows "stack_result term f n stk h = None"
proof (cases "unat n = 0")
  case True
  then have "n = 0" by (simp add: unat_eq_zero)
  then have "uint (n - 1) = 65535" by (simp add: unsigned_minus_1_eq_mask mask_eq_exp_minus_1)
  with True assms(1) show ?thesis by (simp add: stack_result_def ptr_move_eq)
next
  case False
  then have n0: "n \<noteq> 0" by auto
  note u = uint_dec[OF n0]
  show ?thesis
    using init_stack_small[OF assms(1), of "h(stk \<mapsto> replicate (unat n) 0)" "replicate (unat n) 0"] assms False
    by (simp add: stack_result_def u ptr_move_eq)
qed

lemma create_task_kwf:
  assumes kwf: "kwf s" and lst: "Last_PID s \<noteq> - 1"
    and cr: "Kernel_Create_Task_Direct f n py a s = Some (i, s')"
  shows "kwf s' \<and> (i \<noteq> 0 \<longrightarrow> i = Last_PID s + 1 \<and> Last_PID s' = i \<and> task_ids s' = task_ids s @ [i])"
proof (cases "length (procs s) = MAXTHREAD")
  case True
  with create_task_full[OF kwf] cr have "i = 0" "s' = s\<lparr>err := MAX_OBJECT_ERR\<rparr>" by auto
  with kwf show ?thesis by simp
next
  case False
  then have room: "length (procs s) < MAXTHREAD" using table_wf_count[OF kwf_tables(1)[OF kwf]] by simp
  from create_task_new[OF kwf room cr] show ?thesis
  proof (elim disjE exE conjE)
    fix al assume "i = 0" "s' = s\<lparr>alloc := al, err := MALLOC_FAILED_ERR\<rparr>" "malloc (alloc s) = (NULL, al)"
    with kwf_alloc[OF kwf, of al] malloc_brk[of "alloc s" NULL al] show ?thesis by simp
  next
    fix p al h d stk al2
    assume l: "link_new ProcessList p s al h" and d: "d = new_PD (junk_PD s p) (Last_PID s + 1) f n py a"
      and m: "malloc al = (stk, al2)" and s': "i = 0"
        "s' = (with_task p (d\<lparr>stack := NULL\<rparr>) al h s)\<lparr>alloc := al2, err := MALLOC_FAILED_ERR\<rparr>"
    have k: "kwf (with_task p (d\<lparr>stack := NULL\<rparr>) al h s)"
      by (rule kwf_with_task(1)[OF kwf room lst l]) (simp add: d new_PD_def)
    have "kwf ((with_task p (d\<lparr>stack := NULL\<rparr>) al h s)\<lparr>alloc := al2\<rparr>)"
      by (rule kwf_alloc[OF k]) (use malloc_brk[OF m] in \<open>simp add: with_task_def\<close>)
    with s' show ?thesis by simp
  next
    fix p al h d stk al2 bh sp1
    assume l: "link_new ProcessList p s al h" and d: "d = new_PD (junk_PD s p) (Last_PID s + 1) f n py a"
      and m: "malloc al = (stk, al2)" and s': "stk \<noteq> NULL" "i = Last_PID s + 1"
        "s' = (with_task p (d\<lparr>stack := stk, sp := sp1\<rparr>) al h s)\<lparr>alloc := al2, bytes := bh\<rparr>"
      and st: "stack_result (Task_Terminate_entry s) f n stk (bytes s) = Some (bh, sp1)"
    let ?t = "with_task p (d\<lparr>stack := stk, sp := sp1\<rparr>) al h s"
    have k: "kwf ?t" "task_ids ?t = task_ids s @ [Last_PID s + 1]"
      using kwf_with_task[OF kwf room lst l, of "d\<lparr>stack := stk, sp := sp1\<rparr>"] by (simp_all add: d new_PD_def)
    have "kwf (?t\<lparr>alloc := al2\<rparr>)"
      by (rule kwf_alloc[OF k(1)]) (use malloc_brk[OF m] in \<open>simp add: with_task_def\<close>)
    moreover have "fresh_above al2 bh"
    proof (rule stack_result_fresh[OF st])
      show "fresh_above al2 (bytes s)"
        using link_new_mem(4)[OF l kwf_parts(1)[OF kwf]] by (rule fresh_above_malloc[OF m])
      show "unat stk \<le> brk al2" using unat_malloc[OF m s'(1)] malloc_brk[OF m] by simp
    qed
    ultimately have "kwf (?t\<lparr>alloc := al2, bytes := bh\<rparr>)" by (simp add: kwf_bytes)
    with s' k(2) show ?thesis by (simp add: with_task_def task_ids_def)
  qed
qed

lemma Kernel_Create_Task_Direct_full_or_zero:
  "kwf s \<Longrightarrow> length (task_ids s) = MAXTHREAD \<Longrightarrow>
   Kernel_Create_Task_Direct f n py a s = Some (0, s\<lparr>err := MAX_OBJECT_ERR\<rparr>)"
  using create_task_full by (simp add: task_ids_def)

interpretation tk: kernel_objects kwf task_ids Last_PID MAXTHREAD "\<lambda>i. 0 < sint i"
  findProcessByPID "Kernel_Create_Task_Direct f n py a" for f n py a
proof
  fix s i s'
  assume kwf: "kwf s"
  note t = kwf_tables(1)[OF kwf] and L = kwf_lists[OF kwf]
  show "0 < i \<and> i \<le> Last_PID s" if "i \<in> set (task_ids s)"
    using ids_bounds[OF t] that by (simp add: task_ids_def)
  show "sorted_wrt (<) (task_ids s)" using table_wf_sorted[OF t] by (simp add: task_ids_def)
  show "length (task_ids s) \<le> MAXTHREAD" using table_wf_count[OF t] by (simp add: task_ids_def)
  show "\<exists>s'. Kernel_Create_Task_Direct f n py a s = Some (0, s') \<and> kwf s' \<and> task_ids s' = task_ids s \<and>
      Last_PID s' = Last_PID s" if "length (task_ids s) = MAXTHREAD"
    using Kernel_Create_Task_Direct_full_or_zero[OF kwf that] kwf by (simp add: task_ids_def)
  show "kwf s' \<and> i = Last_PID s + 1 \<and> Last_PID s' = i \<and> task_ids s' = task_ids s @ [i]"
    if "Last_PID s \<noteq> - 1" "Kernel_Create_Task_Direct f n py a s = Some (i, s')" "i \<noteq> 0"
    using create_task_kwf[OF kwf that(1,2)] that(3) by blast
  show "\<exists>p. findProcessByPID i s = Some p \<and> (p \<noteq> NULL \<longleftrightarrow> i \<in> set (task_ids s))"
    if "task_ids s \<noteq> []" "0 < sint i"
    using find_obj_ids[OF L _ t, of i] that by (simp add: findProcessByPID_def task_ids_def)
  show "findProcessByPID i s = None" if "task_ids s = []" "0 < sint i"
    using find_obj_table(1)[OF L _ t] that by (simp add: findProcessByPID_def task_ids_def)
qed

section \<open>The operations keep the invariant\<close>

lemma kwf_Kernel_Create_Task:
  assumes "kwf s" "Last_PID s \<noteq> - 1" "Kernel_Create_Task s = Some s'"
  shows "kwf s'"
proof -
  from assms(3) obtain f n py a r s1 where
    u: "Kernel_Create_Task_Direct f n py a s = Some (r, s1)" "upd_cur (\<lambda>d. d\<lparr>request_retval := r\<rparr>) s1 = Some s'"
    by (auto simp: Kernel_Create_Task_def elim!: bind_SomeE)
  have "kwf s1" using create_task_kwf[OF assms(1,2) u(1)] by blast
  then show ?thesis by (rule kwf_upd_cur[OF u(2)]) simp
qed

lemma kwf_Kernel_Suspend_Task: "kwf s \<Longrightarrow> Kernel_Suspend_Task s = Some s' \<Longrightarrow> kwf s'"
  by (auto simp: Kernel_Suspend_Task_def elim!: bind_SomeE split: if_splits) (erule kwf_steps | simp)+

lemma kwf_Kernel_Resume_Task: "kwf s \<Longrightarrow> Kernel_Resume_Task s = Some s' \<Longrightarrow> kwf s'"
  by (auto simp: Kernel_Resume_Task_def elim!: bind_SomeE split: if_splits) (erule kwf_steps | simp)+

lemma kwf_Kernel_Sleep_Task: "kwf s \<Longrightarrow> Kernel_Sleep_Task s = Some s' \<Longrightarrow> kwf s'"
  by (auto simp: Kernel_Sleep_Task_def elim!: bind_SomeE) (erule kwf_steps | simp)+

text \<open>The effect of terminating the running task.\<close>

definition terminated :: "addr \<Rightarrow> PD \<Rightarrow> u8 list heap \<Rightarrow> PtrList heap \<Rightarrow> kstate \<Rightarrow> kstate" where
  "terminated p d b h s = s\<lparr>pds := (pds s)(p \<mapsto> d\<lparr>state := DEAD\<rparr>), Task_Count := Task_Count s - 1,
     bytes := b, nodes := h, Kernel_Request_Cswitch := 1\<rparr>"

lemma terminate_effect:
  assumes kwf: "kwf s" and t: "Kernel_Terminate_Task s = Some s'"
  obtains d b h n where "cur_pd s = Some d" and "Current_Process s \<in> set (procs s)"
    and "free (bytes s) (stack d) = Some b" and "s' = terminated (Current_Process s) d b h s"
    and "lists_wf LISTS h" and "contents h ProcessList = remove1 (Current_Process s) (procs s)"
    and "\<And>M. M \<in> LISTS \<Longrightarrow> M \<noteq> ProcessList \<Longrightarrow> contents h M = contents (nodes s) M"
    and "\<And>al. fresh_above al (nodes s) \<Longrightarrow> fresh_above al h"
    and "(n, Current_Process s) \<in> set (entries (nodes s) ProcessList)"
    and "n \<noteq> ProcessList \<Longrightarrow> h n = None"
proof -
  let ?p = "Current_Process s"
  from t obtain d where d: "cur_pd s = Some d"
    by (auto simp: Kernel_Terminate_Task_def upd_cur_iff elim!: bind_SomeE)
  have p: "?p \<noteq> NULL" using cur_pd_dom[OF d] by simp
  have c: "cur_pd (s\<lparr>pds := (pds s)(?p \<mapsto> d\<lparr>state := DEAD\<rparr>), Task_Count := Task_Count s - 1\<rparr>) = Some (d\<lparr>state := DEAD\<rparr>)"
    using p by (simp add: cur_pd_def rd_def)
  from t d c obtain b n r h where u: "free (bytes s) (stack d) = Some b"
    "ptrlist_find (nodes s) ProcessList ?p = Some n" "ptrlist_remove (nodes s) ProcessList n = Some (r, h)"
    "s' = terminated ?p d b h s"
    by (auto simp: Kernel_Terminate_Task_def Let_def upd_cur_iff remove_from_list_def terminated_def elim!: bind_SomeE)
  note L = kwf_lists[OF kwf]
  have mem: "?p \<in> set (procs s)"
  proof (rule ccontr)
    assume "?p \<notin> set (procs s)"
    from ptrlist_find_spec(1)[OF L _ p this] u(2) have "n = NULL" by simp
    moreover have "entries (nodes s) ProcessList \<noteq> []" using lists_wf_entries[OF L, of ProcessList] by (auto simp: wf_entries_Cons)
    ultimately show False using ptrlist_remove_NULL[OF lists_wf_seg[OF L, of ProcessList]] u(3) by simp
  qed
  obtain n' h' where R: "ptrlist_find (nodes s) ProcessList ?p = Some n'" "ptrlist_remove (nodes s) ProcessList n' = Some (1, h')"
    "lists_wf LISTS h'" "contents h' ProcessList = remove1 ?p (procs s)"
    "\<And>M. M \<in> LISTS \<Longrightarrow> M \<noteq> ProcessList \<Longrightarrow> entries h' M = entries (nodes s) M"
    "\<And>al. fresh_above al (nodes s) \<Longrightarrow> fresh_above al h'" "n' \<noteq> ProcessList \<Longrightarrow> h' n' = None"
    "(n', ?p) \<in> set (entries (nodes s) ProcessList)"
    by (rule ptrlist_find_remove[OF L in_LISTS(1) mem]) (rule that)
  have "n' = n" "h' = h" using R(1,2) u(2,3) by simp_all
  with R show ?thesis by (intro that[OF d mem u(1,4)]) (simp_all add: contents_def)
qed

lemma free_fresh: "free h p = Some h' \<Longrightarrow> fresh_above al h \<Longrightarrow> fresh_above al h'"
  by (auto simp: free_def fresh_above_del split: if_splits option.splits)

lemma kwf_Kernel_Terminate_Task:
  assumes kwf: "kwf s" and t: "Kernel_Terminate_Task s = Some s'"
  shows "kwf s'"
proof -
  let ?p = "Current_Process s"
  obtain d b h n where T: "cur_pd s = Some d" "?p \<in> set (procs s)" "free (bytes s) (stack d) = Some b"
    "s' = terminated ?p d b h s" "lists_wf LISTS h" "contents h ProcessList = remove1 ?p (procs s)"
    "\<And>M. M \<in> LISTS \<Longrightarrow> M \<noteq> ProcessList \<Longrightarrow> contents h M = contents (nodes s) M"
    "\<And>al. fresh_above al (nodes s) \<Longrightarrow> fresh_above al h"
    by (rule terminate_effect[OF kwf t]) (rule that)
  have p: "pds s ?p = Some d" using T(1) by (simp add: cur_pd_def rd_Some_iff)
  have k: "kwf (s\<lparr>pds := (pds s)(?p \<mapsto> d\<lparr>state := DEAD\<rparr>)\<rparr>)" by (rule kwf_pds[OF kwf p]) simp
  have "table_wf (remove1 ?p (procs s)) ((pds s)(?p \<mapsto> d\<lparr>state := DEAD\<rparr>)) pid (Task_Count s - 1) (Last_PID s) MAXTHREAD"
    using table_wf_remove[OF kwf_tables(1)[OF k]] T(2) by simp
  then show ?thesis
    using k T(5-8) free_fresh[OF T(3)] by (simp add: kwf_defs T(4) terminated_def)
qed

section \<open>Properties\<close>

text \<open>
  How the processor reads the stack of a new task: \<open>RESTORECTX\<close> pops 34 bytes (every pop first
  moves the stack pointer up by one), then \<open>reti\<close> pops a return address of three bytes, the
  most significant first; \<open>pc_at b o\<close> is the address (of its low 16 bits) popped at offset \<open>o\<close>.
\<close>

definition pc_at :: "u8 list \<Rightarrow> nat \<Rightarrow> u16" where
  "pc_at b i = push_bit 8 (ucast (b ! (i + 2))) OR ucast (b ! (i + 3))"

lemma bytes_of_word: "push_bit 8 (ucast (ucast (drop_bit 8 (f :: u16) AND 0xFF) :: u8)) OR
    ucast (ucast (f AND 0xFF) :: u8) = f"
proof (rule bit_word_eqI)
  fix n assume "n < LENGTH(16)"
  have m: "(0xFF :: u16) = mask 8" by (simp add: mask_eq_exp_minus_1)
  show "bit (push_bit 8 (ucast (ucast (drop_bit 8 f AND 0xFF) :: u8)) OR ucast (ucast (f AND 0xFF) :: u8) :: u16) n = bit f n"
    unfolding m using \<open>n < LENGTH(16)\<close> by (auto simp: bit_simps)
qed

lemma frame_pcs:
  assumes "length c = k" and "0 < k"
  shows "pc_at (c @ init_frame term f) (k - 1) = f"
    and "pc_at (c @ init_frame term f) (k + 2) = term"
  using assms bytes_of_word[of f] bytes_of_word[of "term"]
  by (auto simp: pc_at_def init_frame_def nth_append numeral_eq_Suc)

text \<open>C24: When \<open>Kernel_Create_Task_Direct\<close> returns a pid, it is a new one, the one that follows the
  last; exactly one task was added, at the end of the process list: READY, with the given
  priority, argument and function and no request; its stack is a block of the given size, at
  least 41 bytes, whose saved context restores a return address to the task function and, under
  it, one to \<open>Task_Terminate\<close>; no other task changed and no more than 16 tasks exist.\<close>

theorem task_create_builds_task:
  assumes "kwf s" "Last_PID s \<noteq> - 1"
    and "Kernel_Create_Task_Direct f n py a s = Some (i, s')" "i \<noteq> 0"
  shows "kwf s' \<and> i = Last_PID s + 1 \<and> i \<notin> set (task_ids s) \<and> length (procs s') \<le> MAXTHREAD \<and>
    (\<exists>p d b. procs s' = procs s @ [p] \<and> pds s p = None \<and> pds s' = (pds s)(p \<mapsto> d) \<and>
      pid d = i \<and> state d = READY \<and> pri d = py \<and> task_arg d = a \<and> code_ptr d = f \<and> request d = NONE \<and>
      starvation_ticks d = 0 \<and> 41 \<le> unat n \<and> sp d = (stack d, int (unat n) - 41) \<and>
      bytes s' (stack d) = Some b \<and> length b = unat n \<and>
      pc_at b (unat n - 41 + 34) = f \<and> pc_at b (unat n - 41 + 37) = Task_Terminate_entry s)"
proof -
  note K = create_task_kwf[OF assms(1-3)]
  have room: "length (procs s) < MAXTHREAD"
    using create_task_full[OF assms(1), of f n py a] table_wf_count[OF kwf_tables(1)[OF assms(1)]] assms(3,4)
    by fastforce
  from create_task_new[OF assms(1) room assms(3)] assms(4)
  obtain p al h d stk al2 bh sp1 where
    l: "link_new ProcessList p s al h" and d: "d = new_PD (junk_PD s p) (Last_PID s + 1) f n py a"
    and stk: "stk \<noteq> NULL" "i = Last_PID s + 1"
    and st: "stack_result (Task_Terminate_entry s) f n stk (bytes s) = Some (bh, sp1)"
    and s': "s' = (with_task p (d\<lparr>stack := stk, sp := sp1\<rparr>) al h s)\<lparr>alloc := al2, bytes := bh\<rparr>"
    by blast
  have n: "41 \<le> unat n" using stack_result_small[OF stk(1), of n] st by (metis leI option.simps(3))
  let ?b = "replicate (unat n - 6) 0 @ init_frame (Task_Terminate_entry s) f"
  have bh: "bh = (bytes s)(stk \<mapsto> ?b)" "sp1 = (stk, int (unat n) - 41)"
    using stack_result_ok[OF stk(1) n] st by auto
  have new: "pds s p = None" using assms(1) by (intro link_new_fresh[OF l]) (simp add: kwf_defs)
  have o1: "unat n - 41 + 34 = (unat n - 6) - 1" and o2: "unat n - 41 + 37 = (unat n - 6) + 2" using n by simp_all
  have pc: "pc_at ?b (unat n - 41 + 34) = f" "pc_at ?b (unat n - 41 + 37) = Task_Terminate_entry s"
    unfolding o1 o2 by (rule frame_pcs; use n in simp)+
  let ?d = "d\<lparr>stack := stk, sp := sp1\<rparr>"
  have P: "procs s' = procs s @ [p]" using link_new_contents[OF l, of ProcessList] by (simp add: s' with_task_def)
  have K': "kwf s' \<and> i = Last_PID s + 1 \<and> i \<notin> set (task_ids s) \<and> length (procs s') \<le> MAXTHREAD"
    using K assms(4) tk.create_fresh(1)[OF assms] table_wf_count[OF kwf_tables(1), of s'] by blast
  have D: "pid ?d = i" "state ?d = READY" "pri ?d = py" "task_arg ?d = a" "code_ptr ?d = f" "request ?d = NONE"
    "starvation_ticks ?d = 0" "stack ?d = stk" "sp ?d = (stk, int (unat n) - 41)"
    by (simp_all add: d new_PD_def stk(2) bh(2))
  have H: "pds s' = (pds s)(p \<mapsto> ?d)" "bytes s' stk = Some ?b"
    by (simp_all add: s' with_task_def bh(1))
  have "length ?b = unat n" using n by (simp add: init_frame_def)
  with P new n H pc D show ?thesis
    by (intro conjI[OF K', unfolded conj_assoc] exI[of _ p] exI[of _ ?d] exI[of _ ?b] conjI) (simp_all only: D)
qed

theorem task_create_builds_task_witness:
  "\<exists>s' d. Kernel_Create_Task_Direct 0x4321 41 3 9 (ex_tasks (\<lambda>n. False) (\<lambda>i. 0) (ex_PD 2 5 READY (\<lambda>i. 0) 0)
      (ex_PD 3 5 READY (\<lambda>i. 0) 0)) = Some (4, s') \<and> length (procs s') \<le> MAXTHREAD \<and>
     (\<exists>p. pds s' p = Some d \<and> state d = READY \<and> pri d = 3)"
proof -
  let ?s = "ex_tasks (\<lambda>n. False) (\<lambda>i. 0) (ex_PD 2 5 READY (\<lambda>i. 0) 0) (ex_PD 3 5 READY (\<lambda>i. 0) 0)"
  have "\<exists>s'. Kernel_Create_Task_Direct 0x4321 41 3 9 ?s = Some (4, s')"
    by (simp add: Kernel_Create_Task_Direct_def ex_tasks_eval upd_pd_def Kernel_Init_Task_Stack_def
        push_byte_def write_byte_def ptr_move_def)
  then obtain s' where s': "Kernel_Create_Task_Direct 0x4321 41 3 9 ?s = Some (4, s')" by blast
  have "kwf ?s" "Last_PID ?s \<noteq> - 1" "(4 :: u16) \<noteq> 0"
    by (simp_all add: ex_tasks_kwf ex_PD_def) (simp add: ex_tasks_def ex_state_def)
  from task_create_builds_task[OF this(1,2) s' this(3)] obtain p d where
    *: "length (procs s') \<le> MAXTHREAD" "pds s' = (pds ?s)(p \<mapsto> d)" "state d = READY" "pri d = 3" by blast
  from *(2) have "pds s' p = Some d" by simp
  with s' * show ?thesis by blast
qed

text \<open>C33: A creation that fails is not undone: when there is memory for the descriptor and, if the process list
  is not empty, for its node, but not for the stack, the call returns 0 with MALLOC_FAILED_ERR, and a task stays in
  the process list, counted, READY (so that the scheduler will dispatch it) and without a stack.\<close>

theorem task_create_failure_leaves_ready_task:
  assumes "kwf s" "length (procs s) < MAXTHREAD"
    and "k = (if procs s = [] then 1 else 2)" "plenty (alloc s) k" "oom (alloc s) (Suc (brk (alloc s) + k))"
  shows "\<exists>s' p d. Kernel_Create_Task_Direct f n py a s = Some (0, s') \<and> err s' = MALLOC_FAILED_ERR \<and>
    Task_Count s' = Task_Count s + 1 \<and> procs s' = procs s @ [p] \<and>
    pds s' p = Some d \<and> state d = READY \<and> pri d = py \<and> stack d = NULL"
proof -
  note mem = kwf_parts(1)[OF assms(1)] and L = kwf_lists[OF assms(1)]
  obtain p al1 where m: "malloc (alloc s) = (p, al1)" by fastforce
  have k: "k = Suc (k - 1)" "k - 1 = (if procs s = [] then 0 else 1)" using assms(3) by simp_all
  with assms(4) m have p: "plenty al1 (k - 1)" "p \<noteq> NULL" "brk al1 = Suc (brk (alloc s))" "oom al1 = oom (alloc s)"
    using plenty_requests by metis+
  have fr: "fresh_above al1 (nodes s)" using mem fresh_above_malloc[OF m] by (auto simp: mem_wf_def)
  have "ptrlist_add al1 (nodes s) ProcessList p \<noteq> None"
  proof (cases "procs s = []")
    case False
    then have "plenty al1 (Suc 0)" using p(1) k(2) by simp
    with plenty_fst ptrlist_add_None_iff[OF L in_LISTS(1) fr] show ?thesis by blast
  qed (simp add: ptrlist_add_None_iff[OF L in_LISTS(1) fr])
  then obtain e al h where add: "ptrlist_add al1 (nodes s) ProcessList p = Some (e, al, h)" by auto
  have "al = (if procs s = [] then al1 else snd (malloc al1))" by (rule ptrlist_add_requests[OF L in_LISTS(1) add])
  then have "oom al (Suc (brk al))" using assms(3,5) p(3,4) malloc_brk[of al1 "fst (malloc al1)" "snd (malloc al1)"] by auto
  then obtain al2 where stk: "malloc al = (NULL, al2)" using oom_malloc by (metis prod.collapse)
  have full: "unat (Task_Count s) \<noteq> MAXTHREAD" using assms(2) table_wf_count[OF kwf_tables(1)[OF assms(1)]] by simp
  have c: "contents h ProcessList = procs s @ [p]" by (rule ptrlist_add_spec(4)[OF L in_LISTS(1) p(2) fr add])
  show ?thesis
    using m p(2) add stk full c
    by (simp add: Kernel_Create_Task_Direct_def malloc_k_def add_to_list_def put_obj_def upd_pd_def wr_def rd_def)
qed

theorem task_create_failure_leaves_ready_task_witness:
  "\<exists>s' p d. Kernel_Create_Task_Direct 0x4321 100 3 9 (ex_tasks (\<lambda>n. n = 103) (\<lambda>i. 0) (ex_PD 2 5 READY (\<lambda>i. 0) 0)
      (ex_PD 3 5 READY (\<lambda>i. 0) 0)) = Some (0, s') \<and> procs s' = [20, 21, 22, p] \<and> pds s' p = Some d \<and> state d = READY \<and> stack d = NULL"
proof -
  let ?s = "ex_tasks (\<lambda>n. n = 103) (\<lambda>i. 0) (ex_PD 2 5 READY (\<lambda>i. 0) 0) (ex_PD 3 5 READY (\<lambda>i. 0) 0)"
  have c: "procs ?s = [20, 21, 22]" by (simp add: ex_tasks_def ex_state_def)
  have "kwf ?s" by (rule ex_tasks_kwf) (simp_all add: ex_PD_def)
  moreover have "length (procs ?s) < MAXTHREAD" "2 = (if procs ?s = [] then 1 else 2 :: nat)" by (simp_all add: c)
  moreover have "plenty (alloc ?s) 2" "oom (alloc ?s) (Suc (brk (alloc ?s) + 2))" by (simp_all add: ex_tasks_def plenty_def)
  ultimately show ?thesis
    using task_create_failure_leaves_ready_task[of ?s 2 "0x4321" 100 3 9] unfolding c by auto
qed

lemma find_task:
  assumes "kwf s" "p \<in> set (procs s)" "pds s p = Some d" "0 < sint (pid d)"
  shows "findProcessByPID (pid d) s = Some p"
  using findProcess_iff[OF assms(1,2)] assms(3,4) by simp

lemma suspend_effect:
  assumes "kwf s" "req_arg 0 s = Some (pid d)" "p \<in> set (procs s)" "pds s p = Some d" "0 < sint (pid d)"
  shows "Kernel_Suspend_Task s = Some (if state d \<in> {READY, RUNNING, SLEEPING}
      then s\<lparr>pds := (pds s)(p \<mapsto> d\<lparr>last_state := (if state d = RUNNING then READY else state d),
              state := SUSPENDED\<rparr>)\<rparr>
      else s\<lparr>err := UNPROCESSABLE_TASK_STATE_ERR\<rparr>)"
  using assms find_task[OF assms(1,3-5)] contents_not_NULL[OF assms(3)]
  by (auto simp: Kernel_Suspend_Task_def rd_SomeI upd_pd_iff)

lemma resume_effect:
  assumes "kwf s" "req_arg 0 s = Some (pid d)" "p \<in> set (procs s)" "pds s p = Some d" "0 < sint (pid d)"
  shows "Kernel_Resume_Task s = Some (if state d = SUSPENDED
      then s\<lparr>pds := (pds s)(p \<mapsto> d\<lparr>state := (if last_state d = RUNNING then READY else last_state d),
              last_state := SUSPENDED\<rparr>)\<rparr>
      else s\<lparr>err := UNPROCESSABLE_TASK_STATE_ERR\<rparr>)"
  using assms find_task[OF assms(1,3-5)] contents_not_NULL[OF assms(3)]
  by (auto simp: Kernel_Resume_Task_def rd_SomeI upd_pd_iff)

text \<open>Suspending a task that is READY, RUNNING or SLEEPING and then resuming it gives it back the
  state it had (READY if it was running) and changes nothing else but the \<open>last_state\<close> field,
  which the kernel does not read again; a task waiting for an object cannot be suspended: the
  request only raises UNPROCESSABLE_TASK_STATE_ERR.\<close>

theorem suspend_resume_roundtrip:
  assumes "kwf s" "req_arg 0 s = Some (pid d)" "p \<in> set (procs s)" "pds s p = Some d" "0 < sint (pid d)"
  shows "if state d \<in> {READY, RUNNING, SLEEPING}
    then \<exists>s1. Kernel_Suspend_Task s = Some s1 \<and> map_option state (pds s1 p) = Some SUSPENDED \<and>
      Kernel_Resume_Task s1 = Some (s\<lparr>pds := (pds s)(p \<mapsto> d\<lparr>state := (if state d = RUNNING then READY else state d),
        last_state := SUSPENDED\<rparr>)\<rparr>)
    else Kernel_Suspend_Task s = Some (s\<lparr>err := UNPROCESSABLE_TASK_STATE_ERR\<rparr>)"
proof (cases "state d \<in> {READY, RUNNING, SLEEPING}")
  case True
  let ?d1 = "d\<lparr>last_state := (if state d = RUNNING then READY else state d), state := SUSPENDED\<rparr>"
  let ?s1 = "s\<lparr>pds := (pds s)(p \<mapsto> ?d1)\<rparr>"
  have s1: "Kernel_Suspend_Task s = Some ?s1" using suspend_effect[OF assms] True by simp
  have k1: "kwf ?s1" by (rule kwf_pds[OF assms(1,4)]) simp
  have a1: "req_arg 0 ?s1 = Some (pid ?d1)"
    using assms(2,4) by (auto simp: req_arg_def cur_pd_def rd_def elim!: bind_SomeE split: if_splits)
  have "Kernel_Resume_Task ?s1 = Some (?s1\<lparr>pds := (pds ?s1)(p \<mapsto> ?d1\<lparr>state :=
      (if last_state ?d1 = RUNNING then READY else last_state ?d1), last_state := SUSPENDED\<rparr>)\<rparr>)"
    using resume_effect[OF k1 a1, of p] assms(3,5) by simp
  with s1 True show ?thesis by auto
next
  case False
  with suspend_effect[OF assms] show ?thesis by simp
qed

theorem suspend_resume_roundtrip_witness:
  "\<exists>s1 s2. Kernel_Suspend_Task (ex_tasks (\<lambda>n. False) (\<lambda>i. 3) (ex_PD 2 5 READY (\<lambda>i. 0) 0)
      (ex_PD 3 5 SLEEPING (\<lambda>i. 0) 7)) = Some s1 \<and> map_option state (pds s1 22) = Some SUSPENDED \<and>
     Kernel_Resume_Task s1 = Some s2 \<and> map_option state (pds s2 22) = Some SLEEPING"
proof -
  let ?s = "ex_tasks (\<lambda>n. False) (\<lambda>i. 3) (ex_PD 2 5 READY (\<lambda>i. 0) 0) (ex_PD 3 5 SLEEPING (\<lambda>i. 0) 7)"
  let ?d = "ex_PD 3 5 SLEEPING (\<lambda>i. 0) 7"
  have "kwf ?s" by (simp add: ex_tasks_kwf ex_PD_def)
  moreover have "req_arg 0 ?s = Some (pid ?d)"
    by (simp add: req_arg_def cur_pd_def rd_def ex_tasks_def ex_state_def) (simp add: ex_PD_def)
  moreover have "22 \<in> set (procs ?s)" "pds ?s 22 = Some ?d" by (simp_all add: ex_tasks_def ex_state_def)
  moreover have "0 < sint (pid ?d)" by (simp add: ex_PD_def)
  ultimately show ?thesis
    using suspend_resume_roundtrip[of ?s ?d 22] by (auto simp: ex_PD_def)
qed

end
