(* ===== verification/Scheduler.thy ===== *)
theory Scheduler
  imports Task
begin

text \<open>
  The timer and the scheduler of \<open>kernel.c\<close>: \<open>Kernel_Tick_ISR\<close>, \<open>Kernel_Tick_Handler\<close>,
  \<open>Kernel_Select_Next_Task\<close> and \<open>Kernel_Dispatch_Next_Task\<close>.
\<close>

section \<open>The timer\<close>

text \<open>
  The interrupt service routine counts a tick and, when preemption is allowed and 25 ticks
  have passed since the last switch, enters the kernel with a yield request for the running
  task. The result tells whether \<open>Enter_Kernel\<close> is called.
\<close>

definition Kernel_Tick_ISR :: "kstate \<Rightarrow> (bool \<times> kstate) option" where
  "Kernel_Tick_ISR s = do {
     let s = s\<lparr>Tick_Count := Tick_Count s + 1\<rparr>;
     if Preemptive_Cswitch_Allowed s = 0 then Some (False, s)
     else do {
       let s = s\<lparr>Ticks_Since_Last_Cswitch := Ticks_Since_Last_Cswitch s + 1\<rparr>;
       if PREEMPTIVE_CSWITCH_FREQ \<le> unat (Ticks_Since_Last_Cswitch s)
       then do {
         s \<leftarrow> upd_cur (\<lambda>d. d\<lparr>request := TASK_YIELD\<rparr>) (s\<lparr>IRQ := False\<rparr>);
         Some (True, s)
       }
       else Some (False, s)
     }
   }"

text \<open>
  What one iteration of the tick handler does to a process descriptor, \<open>t\<close> being the number of
  ticks. The difference of the two unsigned numbers is stored in an \<open>int\<close>.
\<close>

definition tick_PD :: "u16 \<Rightarrow> PD \<Rightarrow> PD" where
  "tick_PD t d = (
     let d = (if state d = READY then d\<lparr>starvation_ticks := starvation_ticks d + t\<rparr> else d);
         remaining_ticks = request_timeout d - t
     in if request_timeout d = 0 then d
        else if sint remaining_ticks > 0 then d\<lparr>request_timeout := remaining_ticks\<rparr>
        else if state d = SUSPENDED then d\<lparr>request_timeout := 0, last_state := READY\<rparr>
        else d\<lparr>request_timeout := 0, state := READY, request_retval := 0\<rparr>)"

definition Kernel_Tick_Handler :: "kstate \<Rightarrow> kstate option" where
  "Kernel_Tick_Handler s =
     (if Tick_Count s = 0 then Some s
      else do {
        s \<leftarrow> for_list pl_next pl_ptr (nodes s) ProcessList (\<lambda>p. upd_pd p (tick_PD (Tick_Count s))) s;
        Some (s\<lparr>Tick_Count := 0\<rparr>)
      })"

section \<open>Selection\<close>

text \<open>The local variables of the selection loop.\<close>

record sel =
  next_dispatch :: addr
  highest_prio :: int
  most_starved :: addr
  process_ms :: addr

definition select_step :: "kstate \<Rightarrow> addr \<Rightarrow> sel \<Rightarrow> sel option" where
  "select_step s i v = do {
     c \<leftarrow> rd (nodes s) i;
     d \<leftarrow> rd (pds s) (pl_ptr c);
     if state d \<noteq> READY then Some v
     else if uint (pri d) < highest_prio v
     then Some (v\<lparr>next_dispatch := i, highest_prio := uint (pri d)\<rparr>)
     else if STARVATION_MAX \<le> unat (starvation_ticks d)
     then do {
       skip \<leftarrow> (if most_starved v = NULL then Some False
               else do {
                 m \<leftarrow> rd (pds s) (process_ms v);
                 Some (starvation_ticks m \<le> starvation_ticks d)
               });
       if skip then Some v else Some (v\<lparr>most_starved := i, process_ms := pl_ptr c\<rparr>)
     }
     else Some v
   }"

primrec select_loop :: "kstate \<Rightarrow> nat \<Rightarrow> addr \<Rightarrow> sel \<Rightarrow> sel option" where
  "select_loop s 0 i v = Some v"
| "select_loop s (Suc n) i v = do {
     v \<leftarrow> select_step s i v;
     i \<leftarrow> ptrlist_cnext (nodes s) ProcessList i;
     select_loop s n i v
   }"

definition sel_init :: sel where
  "sel_init = \<lparr>next_dispatch = NULL, highest_prio = int LOWEST_PRIORITY + 1,
     most_starved = NULL, process_ms = NULL\<rparr>"

definition Kernel_Select_Next_Task :: "kstate \<Rightarrow> addr option" where
  "Kernel_Select_Next_Task s = do {
     i \<leftarrow> ptrlist_cnext (nodes s) ProcessList (Last_Dispatched s);
     v \<leftarrow> select_loop s (unat (Task_Count s)) i sel_init;
     Some (if most_starved v \<noteq> NULL then most_starved v else next_dispatch v)
   }"

section \<open>Dispatch\<close>

text \<open>
  \<open>timer_ticks n\<close>: \<open>n\<close> timer interrupts arrive while the kernel waits for a task to become
  ready (preemption is not allowed then, so none of them enters the kernel).
\<close>

primrec timer_ticks :: "nat \<Rightarrow> kstate \<Rightarrow> kstate option" where
  "timer_ticks 0 s = Some s"
| "timer_ticks (Suc n) s = do {
     (entered, s) \<leftarrow> Kernel_Tick_ISR s;
     timer_ticks n s
   }"

definition node_pd :: "kstate \<Rightarrow> addr \<Rightarrow> PD option" where
  "node_pd s i = do { c \<leftarrow> rd (nodes s) i; rd (pds s) (pl_ptr c) }"

text \<open>
  The waiting loop. The list \<open>env\<close> says how many timer interrupts arrive in each iteration; an
  exhausted list means that the kernel is still waiting (no result). The rest of the list is
  returned.
\<close>

primrec idle_loop :: "nat list \<Rightarrow> u16 \<Rightarrow> addr \<Rightarrow> kstate \<Rightarrow> (kstate \<times> nat list) option" where
  "idle_loop [] j i s = do {
     d \<leftarrow> node_pd s i;
     if state d = READY then Some (s, []) else None
   }"
| "idle_loop (n # env) j i s = do {
     d \<leftarrow> node_pd s i;
     if state d = READY then Some (s, n # env)
     else do {
       s \<leftarrow> timer_ticks n s;
       let j = j + 1;
       (j, s) \<leftarrow> (if Task_Count s * 100 \<le> j
                 then do {
                   s \<leftarrow> Kernel_Tick_Handler (s\<lparr>IRQ := False\<rparr>);
                   Some (0, s\<lparr>IRQ := True\<rparr>)
                 }
                 else Some (j, s));
       i \<leftarrow> ptrlist_cnext (nodes s) ProcessList i;
       idle_loop env j i s
     }
   }"

definition Kernel_Dispatch_Next_Task :: "nat list \<Rightarrow> kstate \<Rightarrow> (kstate \<times> nat list) option" where
  "Kernel_Dispatch_Next_Task env s = do {
     let s = s\<lparr>Preemptive_Cswitch_Allowed := 0\<rparr>;
     d \<leftarrow> cur_pd s;
     s \<leftarrow> (if state d = RUNNING then upd_cur (\<lambda>d. d\<lparr>state := READY\<rparr>) s else Some s);
     s \<leftarrow> Kernel_Tick_Handler s;
     n \<leftarrow> Kernel_Select_Next_Task s;
     (n, s, env) \<leftarrow> (if n = NULL
       then do {
         (s, env) \<leftarrow> idle_loop env 0 (Last_Dispatched s) (s\<lparr>IRQ := True\<rparr>);
         let s = s\<lparr>IRQ := False\<rparr>;
         n \<leftarrow> Kernel_Select_Next_Task s;
         Some (n, s, env)
       }
       else Some (n, s, env));
     c \<leftarrow> rd (nodes s) n;
     let s = s\<lparr>Last_Dispatched := n, Current_Process := pl_ptr c\<rparr>;
     d \<leftarrow> cur_pd s;
     s \<leftarrow> upd_cur (\<lambda>d. d\<lparr>state := RUNNING\<rparr>) (s\<lparr>CurrentSp := sp d\<rparr>);
     s \<leftarrow> upd_cur (\<lambda>d. d\<lparr>starvation_ticks := 0\<rparr>)
           (s\<lparr>Ticks_Since_Last_Cswitch := 0, Preemptive_Cswitch_Allowed := 1\<rparr>);
     Some (s, env)
   }"

section \<open>The tick handler\<close>

definition ticked :: "kstate \<Rightarrow> kstate" where
  "ticked s = (if Tick_Count s = 0 then s
     else s\<lparr>pds := upd_all (tick_PD (Tick_Count s)) (procs s) (pds s), Tick_Count := 0\<rparr>)"

lemma tick_handler:
  assumes kwf: "kwf s" and ne: "procs s \<noteq> []"
  shows "Kernel_Tick_Handler s = Some (ticked s)"
  unfolding Kernel_Tick_Handler_def ticked_def for_list_chain[OF kwf_procs(4)[OF kwf ne]] kwf_procs(1)[OF kwf ne]
    foldM_upd_pd[OF kwf_procs(2,3)[OF kwf ne]] by simp

lemma tick_handler_empty:
  assumes kwf: "kwf s" and "procs s = []" and t: "Tick_Count s \<noteq> 0"
  shows "Kernel_Tick_Handler s = None"
proof -
  have "entries (nodes s) ProcessList = [(ProcessList, NULL)]"
    using contents_Nil_iff(1)[OF kwf_lists[OF kwf], of ProcessList] assms(2) by simp
  with lists_wf_seg[OF kwf_lists[OF kwf], of ProcessList] t show ?thesis
    by (simp add: Kernel_Tick_Handler_def for_list_chain[OF lists_wf_seg[OF kwf_lists[OF kwf] in_LISTS(1)]] upd_pd_def)
qed

lemma tick_PD_pid [simp]: "pid (tick_PD t d) = pid d" "pri (tick_PD t d) = pri d" "sp (tick_PD t d) = sp d"
  by (simp_all add: tick_PD_def Let_def)

lemma kwf_ticked: "kwf s \<Longrightarrow> kwf (ticked s)"
  using kwf_upd_all[of s "tick_PD (Tick_Count s)" "procs s"] by (simp add: ticked_def)

lemma kwf_Kernel_Tick_Handler: "kwf s \<Longrightarrow> Kernel_Tick_Handler s = Some s' \<Longrightarrow> kwf s'"
  using tick_handler[of s] tick_handler_empty[of s] kwf_ticked[of s]
  by (cases "procs s = []") (auto simp: Kernel_Tick_Handler_def split: if_splits)

lemma kwf_Kernel_Tick_ISR: "kwf s \<Longrightarrow> Kernel_Tick_ISR s = Some (b, s') \<Longrightarrow> kwf s'"
  by (auto simp: Kernel_Tick_ISR_def Let_def elim!: bind_SomeE split: if_splits) (erule kwf_steps | simp)+


section \<open>Timeouts\<close>

text \<open>The handler runs repeatedly, with \<open>t\<close> ticks counted since its last run, for each \<open>t\<close> of a list.\<close>

definition tick_series :: "u16 list \<Rightarrow> kstate \<Rightarrow> kstate option" where
  "tick_series = foldM (\<lambda>t s. Kernel_Tick_Handler (s\<lparr>Tick_Count := t\<rparr>))"

definition tick_PD_at :: "u16 \<Rightarrow> PD \<Rightarrow> PD" where
  "tick_PD_at t d = (if t = 0 then d else tick_PD t d)"

lemma ticked_at:
  assumes "p \<in> set (procs s)" and "pds s p = Some d"
  shows "pds (ticked (s\<lparr>Tick_Count := t\<rparr>)) p = Some (tick_PD_at t d)"
    and "nodes (ticked (s\<lparr>Tick_Count := t\<rparr>)) = nodes s"
  using assms by (auto simp: ticked_def tick_PD_at_def upd_all_at)

lemma tick_series_at:
  "kwf s \<Longrightarrow> p \<in> set (procs s) \<Longrightarrow> pds s p = Some d \<Longrightarrow>
   \<exists>s'. tick_series ts s = Some s' \<and> kwf s' \<and> pds s' p = Some (fold tick_PD_at ts d) \<and> nodes s' = nodes s"
proof (induction ts arbitrary: s d)
  case (Cons t ts)
  let ?s = "s\<lparr>Tick_Count := t\<rparr>"
  have "procs s \<noteq> []" using Cons.prems(2) by auto
  then have t: "Kernel_Tick_Handler ?s = Some (ticked ?s)" using Cons.prems(1) by (intro tick_handler) simp_all
  note at = ticked_at[OF Cons.prems(2,3), of t]
  have "kwf (ticked ?s)" using Cons.prems(1) by (intro kwf_ticked) simp
  from Cons.IH[OF this _ at(1)] Cons.prems(2) t show ?case
    by (simp add: tick_series_def at(2))
qed (simp add: tick_series_def)

lemma sint_diff:
  fixes a b :: u16
  assumes "in_int16 (uint a - uint b)"
  shows "sint (a - b) = uint a - uint b"
  using sint_word_of_int16[OF assms] by simp

lemma sint_diff_wrapped:
  fixes a b :: u16
  assumes "32768 \<le> uint a - uint b"
  shows "sint (a - b) < 0"
proof -
  have "in_int16 (uint a - uint b - 65536)"
    using assms uint_bounded[of a] uint_ge_0[of b] unfolding in_int16_def by (simp, linarith?)
  note w = sint_word_of_int16[OF this]
  have "(word_of_int (uint a - uint b - 65536) :: u16) = a - b" by (simp add: wi_hom_syms)
  with w have "sint (a - b) = uint a - uint b - 65536" by (simp only:)
  moreover have "uint a < 65536" using uint_bounded[of a] by simp
  ultimately show ?thesis using uint_ge_0[of b] by linarith
qed

text \<open>A task that waits with a timeout, until its time is up.\<close>

definition timed_out :: "PD \<Rightarrow> PD" where
  "timed_out d = d\<lparr>request_timeout := 0, state := READY, request_retval := 0\<rparr>"

lemma tick_PD_at_timed:
  assumes "state d \<noteq> READY" "state d \<noteq> SUSPENDED" "request_timeout d = n" "0 < n" "unat n \<le> 32767" "unat t \<le> 32767"
  shows "tick_PD_at t d = (if unat t < unat n then d\<lparr>request_timeout := n - t\<rparr> else timed_out d)"
proof -
  have "in_int16 (uint n - uint t)" using assms(5,6) unfolding in_int16_def uint_nat by linarith
  note sd = sint_diff[OF this]
  have "0 < sint (n - t) \<longleftrightarrow> unat t < unat n" unfolding sd uint_nat by linarith
  moreover have "n \<noteq> 0" "unat n \<noteq> 0" using assms(4) by (auto simp: unat_eq_zero)
  ultimately show ?thesis using assms(1-4) by (auto simp: tick_PD_at_def tick_PD_def timed_out_def Let_def)
qed

lemma tick_PD_at_ready:
  assumes "state d = READY" "request_timeout d = 0"
  shows "state (tick_PD_at t d) = READY \<and> request_timeout (tick_PD_at t d) = 0 \<and>
    request_retval (tick_PD_at t d) = request_retval d"
  using assms by (auto simp: tick_PD_at_def tick_PD_def Let_def)

lemma ticks_ready:
  "state d = READY \<Longrightarrow> request_timeout d = 0 \<Longrightarrow>
   state (fold tick_PD_at ts d) = READY \<and> request_timeout (fold tick_PD_at ts d) = 0 \<and>
   request_retval (fold tick_PD_at ts d) = request_retval d"
proof (induction ts arbitrary: d)
  case (Cons t ts)
  show ?case using Cons.IH[of "tick_PD_at t d"] tick_PD_at_ready[OF Cons.prems, of t] by simp
qed simp

lemma ticks_timed:
  "state d \<noteq> READY \<Longrightarrow> state d \<noteq> SUSPENDED \<Longrightarrow> 0 < request_timeout d \<Longrightarrow> unat (request_timeout d) \<le> 32767 \<Longrightarrow>
   \<forall>t \<in> set ts. unat t \<le> 32767 \<Longrightarrow>
   if (\<Sum>t\<leftarrow>ts. unat t) < unat (request_timeout d)
   then \<exists>n. fold tick_PD_at ts d = d\<lparr>request_timeout := n\<rparr> \<and>
     unat n = unat (request_timeout d) - (\<Sum>t\<leftarrow>ts. unat t)
   else state (fold tick_PD_at ts d) = READY \<and> request_timeout (fold tick_PD_at ts d) = 0 \<and>
     request_retval (fold tick_PD_at ts d) = 0"
proof (induction ts arbitrary: d)
  case Nil
  then show ?case by (auto intro!: exI[of _ "request_timeout d"] simp: word_less_nat_alt)
next
  case (Cons t ts)
  let ?n = "request_timeout d"
  have t: "unat t \<le> 32767" using Cons.prems(5) by simp
  note step = tick_PD_at_timed[OF Cons.prems(1,2) refl Cons.prems(3,4) t]
  show ?case
  proof (cases "unat t < unat ?n")
    case True
    then have u: "unat (?n - t) = unat ?n - unat t" by (intro unat_sub) (simp add: word_le_nat_alt)
    let ?d = "d\<lparr>request_timeout := ?n - t\<rparr>"
    have "0 < request_timeout ?d" using True u by (simp add: word_less_nat_alt)
    moreover have "unat (request_timeout ?d) \<le> 32767" using u Cons.prems(4) by simp
    ultimately have "if (\<Sum>t\<leftarrow>ts. unat t) < unat (request_timeout ?d)
       then \<exists>n. fold tick_PD_at ts ?d = ?d\<lparr>request_timeout := n\<rparr> \<and>
         unat n = unat (request_timeout ?d) - (\<Sum>t\<leftarrow>ts. unat t)
       else state (fold tick_PD_at ts ?d) = READY \<and> request_timeout (fold tick_PD_at ts ?d) = 0 \<and>
         request_retval (fold tick_PD_at ts ?d) = 0"
      using Cons.IH[of ?d] Cons.prems by simp
    then show ?thesis using True step u by (auto simp: less_diff_conv2 split: if_splits)
  next
    case False
    with step ticks_ready[of "timed_out d" ts] show ?thesis by (auto simp: timed_out_def)
  qed
qed

end
