(* ===== verification/Selection.thy ===== *)
theory Selection
  imports Scheduler "HOL-Library.Multiset"
begin

text \<open>
  What \<open>Kernel_Select_Next_Task\<close> selects: the loop visits the tasks of the process list in
  the order of \<open>dispatch_order\<close> and its result is the one that the function \<open>scheduled\<close>, which
  has no loop variables, gives for the ready tasks in this order (\<open>select_scheduled\<close>).
\<close>

section \<open>The selection loop\<close>

text \<open>The loop visits the nodes of the process list in order, from the node after the start and around.\<close>

lemma select_loop_segment:
  assumes seg: "seg (nodes s) ProcessList xs NULL"
  shows "xs = as @ bs @ cs \<Longrightarrow> i = (case bs @ cs of [] \<Rightarrow> ProcessList | x # _ \<Rightarrow> fst x) \<Longrightarrow>
    select_loop s (length bs + k) i v =
      Option.bind (foldM (\<lambda>x. select_step s (fst x)) bs v)
        (select_loop s k (case cs of [] \<Rightarrow> ProcessList | x # _ \<Rightarrow> fst x))"
proof (induction bs arbitrary: as i v)
  case (Cons b bs)
  have xs: "xs = as @ (fst b, snd b) # bs @ cs" using Cons.prems(1) by simp
  have n: "ptrlist_cnext (nodes s) ProcessList (fst b) =
      Some (case bs @ cs of [] \<Rightarrow> ProcessList | x # _ \<Rightarrow> fst x)"
    by (rule cnext_seg[OF seg[unfolded xs]])
  have "xs = (as @ [b]) @ bs @ cs" using Cons.prems(1) by simp
  from Cons.IH[OF this refl] n Cons.prems(2) show ?case
    by (cases "select_step s (fst b) v") simp_all
qed simp

text \<open>The order in which the loop visits the tasks.\<close>

definition dispatch_order :: "kstate \<Rightarrow> (addr \<times> addr) list" where
  "dispatch_order s = (let xs = entries (nodes s) ProcessList; f = (\<lambda>x. fst x \<noteq> Last_Dispatched s)
     in tl (dropWhile f xs) @ takeWhile f xs @ [hd (dropWhile f xs)])"

lemma dispatch_order_split:
  assumes "kwf s" and "entries (nodes s) ProcessList = ys @ (Last_Dispatched s, p) # zs"
  shows "dispatch_order s = zs @ ys @ [(Last_Dispatched s, p)]"
proof -
  have "distinct (map fst (entries (nodes s) ProcessList))"
    by (rule chain_distinct[OF lists_wf_seg[OF kwf_lists[OF assms(1)] in_LISTS(1)]])
  then have "\<forall>x \<in> set ys. fst x \<noteq> Last_Dispatched s" unfolding assms(2) by force
  then show ?thesis by (simp add: dispatch_order_def assms(2) Let_def takeWhile_append2 dropWhile_append2)
qed

definition last_ok :: "kstate \<Rightarrow> bool" where
  "last_ok s \<longleftrightarrow> procs s \<noteq> [] \<and> Last_Dispatched s \<in> fst ` set (entries (nodes s) ProcessList)"

lemma select_loop_all:
  assumes kwf: "kwf s" and last: "last_ok s"
  shows "Option.bind (ptrlist_cnext (nodes s) ProcessList (Last_Dispatched s))
      (\<lambda>i. select_loop s (unat (Task_Count s)) i v) =
    foldM (\<lambda>x. select_step s (fst x)) (dispatch_order s) v"
proof -
  let ?xs = "entries (nodes s) ProcessList"
  note seg = lists_wf_seg[OF kwf_lists[OF kwf] in_LISTS(1)]
  obtain ys p zs where xs: "?xs = ys @ (Last_Dispatched s, p) # zs"
    using last by (auto simp: last_ok_def in_set_conv_decomp)
  have count: "unat (Task_Count s) = length zs + (length (ys @ [(Last_Dispatched s, p)]) + 0)"
    using table_wf_count[OF kwf_tables(1)[OF kwf]] kwf_procs(1)[OF kwf] last xs
    by (metis (no_types, opaque_lifting) add.commute add_0 length_Cons length_append length_map last_ok_def
        append_Cons append_assoc append_Nil)
  have nxt: "ptrlist_cnext (nodes s) ProcessList (Last_Dispatched s) =
      Some (case zs of [] \<Rightarrow> ProcessList | x # _ \<Rightarrow> fst x)"
    by (rule cnext_seg[OF seg[unfolded xs]])
  have 1: "?xs = (ys @ [(Last_Dispatched s, p)]) @ zs @ []" using xs by simp
  have 2: "?xs = [] @ (ys @ [(Last_Dispatched s, p)]) @ zs" using xs by simp
  obtain q rs where L: "?xs = (ProcessList, q) # rs"
    using lists_wf_entries[OF kwf_lists[OF kwf] in_LISTS(1)] by (auto simp: wf_entries_Cons)
  have start: "ProcessList = (case (ys @ [(Last_Dispatched s, p)]) @ zs of [] \<Rightarrow> ProcessList | x # _ \<Rightarrow> fst x)"
    using L 2 by (cases ys) auto
  have stop: "Option.bind m (select_loop s 0 i) = m" for m i by (cases m) simp_all
  have second: "select_loop s (length (ys @ [(Last_Dispatched s, p)]) + 0) ProcessList =
      foldM (\<lambda>x. select_step s (fst x)) (ys @ [(Last_Dispatched s, p)])"
    by (rule ext, rule trans[OF select_loop_segment[OF seg 2 start]]) (rule stop)
  have "select_loop s (length zs + (length (ys @ [(Last_Dispatched s, p)]) + 0))
      (case zs of [] \<Rightarrow> ProcessList | x # _ \<Rightarrow> fst x) v =
    Option.bind (foldM (\<lambda>x. select_step s (fst x)) zs v)
      (foldM (\<lambda>x. select_step s (fst x)) (ys @ [(Last_Dispatched s, p)]))"
    by (rule trans[OF select_loop_segment[OF seg 1]]) (simp, simp only: list.case second)
  then show ?thesis
    unfolding dispatch_order_split[OF kwf xs] foldM_append[of _ zs] nxt count by simp
qed

section \<open>What is selected\<close>

text \<open>
  \<open>ready_tasks s\<close>: the ready tasks with their nodes, in the order the loop visits them.
  \<open>first_least f xs\<close>: the first element of a list with the least \<open>f\<close>.
  \<open>passed_over m rs\<close>: those of the tasks \<open>rs\<close> that do not improve on the priorities before them
  (nor on \<open>m\<close>): only these are looked at for starvation.
\<close>

definition ready_tasks :: "kstate \<Rightarrow> (addr \<times> PD) list" where
  "ready_tasks s = filter (\<lambda>x. state (snd x) = READY) (map (\<lambda>(n, p). (n, the (pds s p))) (dispatch_order s))"

fun first_least :: "('a \<Rightarrow> int) \<Rightarrow> 'a list \<Rightarrow> 'a" where
  "first_least f [] = undefined"
| "first_least f [x] = x"
| "first_least f (x # xs) = (let y = first_least f xs in if f x \<le> f y then x else y)"

fun passed_over :: "int \<Rightarrow> (addr \<times> PD) list \<Rightarrow> (addr \<times> PD) list" where
  "passed_over m [] = []"
| "passed_over m (x # xs) = (if uint (pri (snd x)) < m then passed_over (uint (pri (snd x))) xs
     else x # passed_over m xs)"

definition starving :: "(addr \<times> PD) list \<Rightarrow> (addr \<times> PD) list" where
  "starving rs = filter (\<lambda>x. STARVATION_MAX \<le> unat (starvation_ticks (snd x))) (passed_over 11 rs)"

definition scheduled :: "(addr \<times> PD) list \<Rightarrow> addr" where
  "scheduled rs = (if starving rs \<noteq> [] then fst (first_least (\<lambda>x. uint (starvation_ticks (snd x))) (starving rs))
     else let es = filter (\<lambda>x. uint (pri (snd x)) < 11) rs
       in if es = [] then NULL else fst (first_least (\<lambda>x. uint (pri (snd x))) es))"

lemma first_least_snoc:
  "xs \<noteq> [] \<Longrightarrow> first_least f (xs @ [y]) = (if f (first_least f xs) \<le> f y then first_least f xs else y)"
proof (induction f xs rule: first_least.induct)
  case (3 f x v vs)
  then show ?case by (auto simp: Let_def)
qed auto

lemma first_least_props:
  assumes "xs \<noteq> []"
  shows "\<exists>as bs. xs = as @ first_least f xs # bs \<and> (\<forall>x \<in> set as. f (first_least f xs) < f x) \<and>
    (\<forall>x \<in> set bs. f (first_least f xs) \<le> f x)"
  using assms
proof (induction xs rule: rev_induct)
  case (snoc y xs)
  show ?case
  proof (cases "xs = []")
    case True
    then show ?thesis by (auto intro!: exI[of _ "[]"])
  next
    case False
    then obtain as bs where *: "xs = as @ first_least f xs # bs" "\<forall>x \<in> set as. f (first_least f xs) < f x"
      "\<forall>x \<in> set bs. f (first_least f xs) \<le> f x" using snoc.IH by blast
    show ?thesis
    proof (cases "f (first_least f xs) \<le> f y")
      case True
      with * False show ?thesis
        by (intro exI[of _ as] exI[of _ "bs @ [y]"]) (simp add: first_least_snoc)
    next
      case F: False
      have "f y < f x" if "x \<in> set xs" for x
      proof -
        have "f (first_least f xs) \<le> f x" using that by (subst (asm) *(1)) (use *(2,3) in auto)
        with F show ?thesis by simp
      qed
      with F False show ?thesis
        by (intro exI[of _ xs] exI[of _ "[]"]) (simp add: first_least_snoc)
    qed
  qed
qed simp

lemma first_least_mem: "xs \<noteq> [] \<Longrightarrow> first_least f xs \<in> set xs"
  using first_least_props[of xs f] by (metis in_set_conv_decomp)

text \<open>The state of the loop after the ready tasks \<open>rs\<close>, the nodes and descriptors being known.\<close>

definition best :: "(addr \<times> PD) list \<Rightarrow> (addr \<times> PD) option" where
  "best rs = (let es = filter (\<lambda>x. uint (pri (snd x)) < 11) rs
     in if es = [] then None else Some (first_least (\<lambda>x. uint (pri (snd x))) es))"

definition best_prio :: "(addr \<times> PD) list \<Rightarrow> int" where
  "best_prio rs = (case best rs of None \<Rightarrow> 11 | Some x \<Rightarrow> uint (pri (snd x)))"

lemma best_snoc: "best (rs @ [x]) = (if uint (pri (snd x)) < best_prio rs then Some x else best rs)"
  using first_least_mem[of "filter (\<lambda>x. uint (pri (snd x)) < 11) rs" "\<lambda>x. uint (pri (snd x))"]
  by (auto simp: best_def best_prio_def Let_def first_least_snoc)

lemma passed_over_snoc:
  "m \<le> 11 \<Longrightarrow> passed_over m (rs @ [x]) =
   passed_over m rs @ (if uint (pri (snd x)) < min m (best_prio rs) then [] else [x])"
proof (induction rs arbitrary: m)
  case Nil
  then show ?case by (simp add: best_prio_def best_def min_def)
next
  case (Cons r rs)
  have "best_prio (r # rs) = min (uint (pri (snd r))) (best_prio rs) \<or> 11 \<le> uint (pri (snd r)) \<and> best_prio (r # rs) = best_prio rs"
    by (cases "filter (\<lambda>x. uint (pri (snd x)) < 11) rs") (auto simp: best_prio_def best_def Let_def)
  with Cons show ?case by (auto simp: min_def)
qed

lemma best_prio_le: "best_prio rs \<le> 11"
  using first_least_mem[of "filter (\<lambda>x. uint (pri (snd x)) < 11) rs" "\<lambda>x. uint (pri (snd x))"]
  by (auto simp: best_prio_def best_def Let_def)

lemma starving_snoc: "starving (rs @ [x]) = starving rs @
   (if best_prio rs \<le> uint (pri (snd x)) \<and> STARVATION_MAX \<le> unat (starvation_ticks (snd x)) then [x] else [])"
  using best_prio_le[of rs] by (auto simp: starving_def passed_over_snoc min_def)

text \<open>The loop variables after the tasks \<open>rs\<close>.\<close>

definition sel_of :: "kstate \<Rightarrow> (addr \<times> PD) list \<Rightarrow> sel \<Rightarrow> bool" where
  "sel_of s rs v \<longleftrightarrow> highest_prio v = best_prio rs \<and>
     next_dispatch v = (case best rs of None \<Rightarrow> NULL | Some x \<Rightarrow> fst x) \<and>
     (if starving rs = [] then most_starved v = NULL
      else \<exists>x. x = first_least (\<lambda>x. uint (starvation_ticks (snd x))) (starving rs) \<and>
        most_starved v = fst x \<and> rd (pds s) (process_ms v) = Some (snd x))"

lemma sel_of_init: "sel_of s [] sel_init"
  by (simp add: sel_of_def sel_init_def best_prio_def best_def starving_def)

lemma sel_of_scheduled:
  assumes "sel_of s rs v" and "\<forall>x \<in> set rs. fst x \<noteq> NULL"
  shows "(if most_starved v \<noteq> NULL then most_starved v else next_dispatch v) = scheduled rs"
proof (cases "starving rs = []")
  case True
  with assms(1) show ?thesis by (simp add: sel_of_def scheduled_def best_def Let_def)
next
  case False
  let ?x = "first_least (\<lambda>x. uint (starvation_ticks (snd x))) (starving rs)"
  have "set (passed_over m rs) \<subseteq> set rs" for m by (induction m rs rule: passed_over.induct) auto
  then have "?x \<in> set rs" using first_least_mem[OF False] by (auto simp: starving_def)
  with assms False show ?thesis by (auto simp: sel_of_def scheduled_def)
qed


lemma select_step_sel_of:
  assumes v: "sel_of s rs v" and ne: "\<forall>x \<in> set rs. fst x \<noteq> NULL" and i: "i \<noteq> NULL"
    and c: "rd (nodes s) i = Some c" "rd (pds s) (pl_ptr c) = Some d"
  shows "\<exists>v'. select_step s i v = Some v' \<and> sel_of s (if state d = READY then rs @ [(i, d)] else rs) v'"
proof (cases "state d = READY")
  case False
  with v c show ?thesis by (simp add: select_step_def)
next
  case R: True
  have hp: "highest_prio v = best_prio rs" using v by (simp add: sel_of_def)
  consider "uint (pri d) < best_prio rs"
    | "best_prio rs \<le> uint (pri d)" "\<not> STARVATION_MAX \<le> unat (starvation_ticks d)"
    | "best_prio rs \<le> uint (pri d)" "STARVATION_MAX \<le> unat (starvation_ticks d)" by linarith
  then show ?thesis
  proof cases
    case 1
    with R c hp v show ?thesis
      by (auto simp: select_step_def sel_of_def best_snoc starving_snoc best_prio_def[of "rs @ [(i, d)]"])
  next
    case 2
    with R c hp v show ?thesis
      by (auto simp add: select_step_def sel_of_def best_snoc starving_snoc best_prio_def[of "rs @ [(i, d)]"] best_prio_def[of rs])
  next
    case 3
    have bp: "best_prio (rs @ [(i, d)]) = best_prio rs" "best (rs @ [(i, d)]) = best rs"
      using 3 by (simp_all add: best_prio_def[of "rs @ [(i, d)]"] best_prio_def[of rs] best_snoc)
    have st: "starving (rs @ [(i, d)]) = starving rs @ [(i, d)]" using 3 by (simp add: starving_snoc)
    show ?thesis
    proof (cases "starving rs = []")
      case True
      then have "most_starved v = NULL" using v by (simp add: sel_of_def)
      with True R c hp v 3 bp st show ?thesis by (simp add: select_step_def sel_of_def)
    next
      case False
      let ?x = "first_least (\<lambda>x. uint (starvation_ticks (snd x))) (starving rs)"
      have "set (passed_over m rs) \<subseteq> set rs" for m by (induction m rs rule: passed_over.induct) auto
      then have "?x \<in> set rs" using first_least_mem[OF False] by (auto simp: starving_def)
      then have "fst ?x \<noteq> NULL" using ne by blast
      with False v have x: "most_starved v = fst ?x" "rd (pds s) (process_ms v) = Some (snd ?x)" "most_starved v \<noteq> NULL"
        by (auto simp: sel_of_def)
      have le: "starvation_ticks (snd ?x) \<le> starvation_ticks d \<longleftrightarrow>
          uint (starvation_ticks (snd ?x)) \<le> uint (starvation_ticks d)" by (simp add: word_le_def)
      show ?thesis
        using x False R c hp v 3 bp st first_least_snoc[OF False, of "\<lambda>x. uint (starvation_ticks (snd x))" "(i, d)"]
        by (auto simp: select_step_def sel_of_def le)
    qed
  qed
qed

lemma select_fold:
  "sel_of s rs v \<Longrightarrow> \<forall>x \<in> set rs. fst x \<noteq> NULL \<Longrightarrow>
   \<forall>(i, p) \<in> set xs. i \<noteq> NULL \<and> p \<in> dom (pds s) \<and> p \<noteq> NULL \<and> (\<exists>c. nodes s i = Some c \<and> pl_ptr c = p) \<Longrightarrow>
   \<exists>v'. foldM (\<lambda>x. select_step s (fst x)) xs v = Some v' \<and>
     sel_of s (rs @ filter (\<lambda>x. state (snd x) = READY) (map (\<lambda>(n, p). (n, the (pds s p))) xs)) v'"
proof (induction xs arbitrary: rs v)
  case (Cons x xs)
  obtain i p where x: "x = (i, p)" by fastforce
  with Cons.prems(3) obtain c d where c: "i \<noteq> NULL" "nodes s i = Some c" "pl_ptr c = p" "pds s p = Some d" "p \<noteq> NULL"
    by auto
  then have r: "rd (nodes s) i = Some c" "rd (pds s) (pl_ptr c) = Some d" by (simp_all add: rd_SomeI)
  from select_step_sel_of[OF Cons.prems(1,2) c(1) r] obtain v1 where
    v1: "select_step s i v = Some v1" "sel_of s (if state d = READY then rs @ [(i, d)] else rs) v1" by blast
  have "\<forall>x \<in> set (if state d = READY then rs @ [(i, d)] else rs). fst x \<noteq> NULL" using Cons.prems(2) c(1) by auto
  from Cons.IH[OF v1(2) this] Cons.prems(3) v1(1) x c(4) show ?case by (auto split: if_splits)
qed simp

lemma seg_nodes:
  "seg h a xs b \<Longrightarrow> (n, p) \<in> set xs \<Longrightarrow> n \<noteq> NULL \<and> (\<exists>c. h n = Some c \<and> pl_ptr c = p)"
  by (induction xs arbitrary: a) auto

lemma dispatch_order_mem:
  assumes "kwf s" "last_ok s"
  shows "set (dispatch_order s) = set (entries (nodes s) ProcessList)"
    and "mset (map snd (dispatch_order s)) = mset (procs s)"
    and "\<forall>(i, p) \<in> set (dispatch_order s). i \<noteq> NULL \<and> p \<in> dom (pds s) \<and> p \<noteq> NULL \<and> (\<exists>c. nodes s i = Some c \<and> pl_ptr c = p)"
proof -
  have ne: "procs s \<noteq> []" using assms(2) by (simp add: last_ok_def)
  obtain ys p zs where xs: "entries (nodes s) ProcessList = ys @ (Last_Dispatched s, p) # zs"
    using assms(2) by (auto simp: last_ok_def in_set_conv_decomp)
  note o = dispatch_order_split[OF assms(1) xs]
  show s: "set (dispatch_order s) = set (entries (nodes s) ProcessList)" by (auto simp: o xs)
  show "mset (map snd (dispatch_order s)) = mset (procs s)"
    unfolding kwf_procs(1)[OF assms(1) ne, symmetric] o xs by simp
  have "q \<in> dom (pds s) \<and> q \<noteq> NULL" if "(i, q) \<in> set (entries (nodes s) ProcessList)" for i q
  proof -
    have "q \<in> set (procs s)" using that unfolding kwf_procs(1)[OF assms(1) ne, symmetric] by force
    then show ?thesis using kwf_procs(3)[OF assms(1) ne] by blast
  qed
  then show "\<forall>(i, p) \<in> set (dispatch_order s). i \<noteq> NULL \<and> p \<in> dom (pds s) \<and> p \<noteq> NULL \<and> (\<exists>c. nodes s i = Some c \<and> pl_ptr c = p)"
    using seg_nodes[OF kwf_procs(4)[OF assms(1) ne]] unfolding s by auto
qed

lemma select_scheduled:
  assumes "kwf s" and "last_ok s"
  shows "Kernel_Select_Next_Task s = Some (scheduled (ready_tasks s))"
proof -
  note M = dispatch_order_mem(3)[OF assms]
  obtain v where v: "foldM (\<lambda>x. select_step s (fst x)) (dispatch_order s) sel_init = Some v" "sel_of s (ready_tasks s) v"
    using select_fold[OF sel_of_init _ M] by (auto simp: ready_tasks_def)
  have ne: "\<forall>x \<in> set (ready_tasks s). fst x \<noteq> NULL" using M by (auto simp: ready_tasks_def)
  have "Kernel_Select_Next_Task s = Option.bind (foldM (\<lambda>x. select_step s (fst x)) (dispatch_order s) sel_init)
      (\<lambda>v. Some (if most_starved v \<noteq> NULL then most_starved v else next_dispatch v))"
    unfolding Kernel_Select_Next_Task_def select_loop_all[OF assms, symmetric] Option.bind_assoc[symmetric] by simp
  with v sel_of_scheduled[OF v(2) ne] show ?thesis by simp
qed

end
