(* ===== verification/Dispatch.thy ===== *)
theory Dispatch
  imports Selection
begin

text \<open>
  What \<open>Kernel_Dispatch_Next_Task\<close> does: the two ways through it (\<open>dispatch_cases\<close>), its result
  (\<open>dispatch_result\<close>), and the properties of the timer and the scheduler.
\<close>

section \<open>Dispatching\<close>

text \<open>The running task is made ready before the selection, and the selected task is switched to.\<close>

definition mark_ready :: "kstate \<Rightarrow> kstate" where
  "mark_ready s = (let d = the (pds s (Current_Process s)) in
     s\<lparr>Preemptive_Cswitch_Allowed := 0,
       pds := (if state d = RUNNING then (pds s)(Current_Process s \<mapsto> d\<lparr>state := READY\<rparr>) else pds s)\<rparr>)"

definition switch_to :: "addr \<Rightarrow> addr \<Rightarrow> PD \<Rightarrow> kstate \<Rightarrow> kstate" where
  "switch_to n p d s = s\<lparr>Last_Dispatched := n, Current_Process := p, CurrentSp := sp d,
     pds := (pds s)(p \<mapsto> d\<lparr>state := RUNNING, starvation_ticks := 0\<rparr>),
     Ticks_Since_Last_Cswitch := 0, Preemptive_Cswitch_Allowed := 1\<rparr>"

text \<open>\<open>quiet s t\<close>: from \<open>s\<close> to \<open>t\<close> only ticks were counted and handled.\<close>

definition running :: "kstate \<Rightarrow> addr set" where
  "running s = {p. \<exists>d. pds s p = Some d \<and> state d = RUNNING}"

definition quiet :: "kstate \<Rightarrow> kstate \<Rightarrow> bool" where
  "quiet s t \<longleftrightarrow> kwf t \<and> nodes t = nodes s \<and> Last_Dispatched t = Last_Dispatched s \<and>
     Current_Process t = Current_Process s \<and> KernelActive t = KernelActive s \<and>
     Preemptive_Cswitch_Allowed t = Preemptive_Cswitch_Allowed s \<and> Task_Count t = Task_Count s \<and>
     running t \<subseteq> running s \<and> (\<forall>p. map_option sp (pds t p) = map_option sp (pds s p))"

lemma quiet_refl: "kwf s \<Longrightarrow> quiet s s"
  by (simp add: quiet_def)

lemma quiet_trans: "quiet s t \<Longrightarrow> quiet t u \<Longrightarrow> quiet s u"
  by (auto simp: quiet_def)

lemma quiet_scalars [simp]:
  "quiet s (t\<lparr>IRQ := b\<rparr>) = quiet s t" "quiet (s\<lparr>IRQ := b\<rparr>) t = quiet s t"
  "quiet s (t\<lparr>Tick_Count := c\<rparr>) = quiet s t" "quiet (s\<lparr>Tick_Count := c\<rparr>) t = quiet s t"
  by (simp_all add: quiet_def running_def)

lemma last_ok_quiet: "quiet s t \<Longrightarrow> last_ok s \<Longrightarrow> last_ok t"
  by (simp add: quiet_def last_ok_def)

lemma tick_PD_RUNNING: "state (tick_PD t d) = RUNNING \<Longrightarrow> state d = RUNNING"
  by (auto simp: tick_PD_def Let_def split: if_splits)

lemma tick_PD_sp: "sp \<circ> tick_PD t = sp"
  by (auto simp: tick_PD_def Let_def)

lemma quiet_ticked: "kwf s \<Longrightarrow> quiet s (ticked s)"
  using kwf_ticked[of s] by (auto simp: quiet_def ticked_def running_def upd_all_def option.map_comp tick_PD_sp split: if_splits dest: tick_PD_RUNNING)

lemma quiet_tick_handler: "Kernel_Tick_Handler s = Some t \<Longrightarrow> kwf s \<Longrightarrow> last_ok s \<Longrightarrow> quiet s t"
  using tick_handler[of s] quiet_ticked[of s] by (simp add: last_ok_def)

lemma timer_ticks_quiet:
  "Preemptive_Cswitch_Allowed s = 0 \<Longrightarrow> timer_ticks n s = Some (s\<lparr>Tick_Count := Tick_Count s + of_nat n\<rparr>)"
proof (induction n arbitrary: s)
  case (Suc n)
  then show ?case by (simp add: Kernel_Tick_ISR_def Let_def add.assoc)
qed simp

lemma last_ok_scalars [simp]:
  "last_ok (s\<lparr>IRQ := b\<rparr>) = last_ok s" "last_ok (s\<lparr>Tick_Count := t\<rparr>) = last_ok s"
  by (simp_all add: last_ok_def)

lemma idle_loop_quiet:
  "idle_loop env j i s = Some (t, env') \<Longrightarrow> kwf s \<Longrightarrow> last_ok s \<Longrightarrow> Preemptive_Cswitch_Allowed s = 0 \<Longrightarrow>
   quiet s t"
proof (induction env arbitrary: j i s)
  case Nil
  then show ?case by (auto simp: quiet_refl elim!: bind_SomeE split: if_splits)
next
  case (Cons n env)
  from Cons.prems(1) obtain d where d: "node_pd s i = Some d" by (auto elim: bind_SomeE)
  show ?case
  proof (cases "state d = READY")
    case True
    with Cons.prems d show ?thesis by (simp add: quiet_refl)
  next
    case False
    let ?s1 = "s\<lparr>Tick_Count := Tick_Count s + of_nat n\<rparr>"
    have k: "kwf ?s1" "last_ok ?s1" using Cons.prems by simp_all
    from Cons.prems(1) d False timer_ticks_quiet[OF Cons.prems(4), of n] obtain j2 s2 i2 where
      s2: "(if Task_Count s * 100 \<le> j + 1
         then Option.bind (Kernel_Tick_Handler (?s1\<lparr>IRQ := False\<rparr>)) (\<lambda>s. Some (0, s\<lparr>IRQ := True\<rparr>))
         else Some (j + 1, ?s1)) = Some (j2, s2)"
      and rest: "idle_loop env j2 i2 s2 = Some (t, env')"
      by (auto simp: Let_def elim!: bind_SomeE)
    have "quiet s s2"
      using s2 quiet_tick_handler[of "?s1\<lparr>IRQ := False\<rparr>"] k quiet_refl[OF k(1)]
      by (auto elim!: bind_SomeE split: if_splits)
    moreover from this have "quiet s2 t"
      using Cons.IH[OF rest] last_ok_quiet[of s s2] Cons.prems(3,4) by (simp add: quiet_def)
    ultimately show ?thesis by (rule quiet_trans)
  qed
qed

lemma kwf_mark_ready:
  assumes "kwf s" "Current_Process s \<in> dom (pds s)"
  shows "kwf (mark_ready s)"
proof -
  obtain d where d: "pds s (Current_Process s) = Some d" using assms(2) by blast
  have "kwf (s\<lparr>pds := (pds s)(Current_Process s \<mapsto> d\<lparr>state := READY\<rparr>)\<rparr>)" by (rule kwf_pds[OF assms(1) d]) simp
  then show ?thesis using assms(1) d by (auto simp: mark_ready_def Let_def kwf_defs)
qed

lemma switch_kwf:
  assumes "kwf s" "pds s p = Some d" "p \<noteq> NULL"
  shows "kwf (switch_to n p d s)"
proof -
  have "kwf (s\<lparr>pds := (pds s)(p \<mapsto> d\<lparr>state := RUNNING, starvation_ticks := 0\<rparr>)\<rparr>)"
    by (rule kwf_pds[OF assms(1,2)]) simp
  then show ?thesis using assms(3) by (auto simp: switch_to_def kwf_defs)
qed

text \<open>What is selected is the node of a ready task.\<close>

lemma scheduled_ready:
  assumes "kwf s" "last_ok s" "scheduled (ready_tasks s) = n" "n \<noteq> NULL"
  obtains p d where "(n, p) \<in> set (entries (nodes s) ProcessList)" and "pds s p = Some d" and "state d = READY"
    and "p \<noteq> NULL" and "\<exists>c. rd (nodes s) n = Some c \<and> pl_ptr c = p"
proof -
  let ?rs = "ready_tasks s"
  let ?es = "filter (\<lambda>x. uint (pri (snd x)) < 11) ?rs"
  have sub: "set (passed_over m rs) \<subseteq> set rs" for m rs by (induction m rs rule: passed_over.induct) auto
  have "starving ?rs \<noteq> [] \<or> ?es \<noteq> []" using assms(3,4) by (auto simp: scheduled_def Let_def)
  then have "\<exists>x \<in> set ?rs. fst x = n"
  proof (cases "starving ?rs = []")
    case False
    then show ?thesis
      using first_least_mem[OF False, of "\<lambda>x. uint (starvation_ticks (snd x))"] assms(3) sub[of 11 ?rs]
      by (auto simp: scheduled_def starving_def)
  next
    case True
    moreover from this assms(3,4) have "?es \<noteq> []" by (auto simp: scheduled_def Let_def)
    ultimately show ?thesis
      using first_least_mem[of ?es "\<lambda>x. uint (pri (snd x))"] assms(3)
      by (auto simp: scheduled_def Let_def)
  qed
  then obtain p d where p: "(n, p) \<in> set (dispatch_order s)" "d = the (pds s p)" "state d = READY"
    by (auto simp: ready_tasks_def)
  then show ?thesis
    using dispatch_order_mem(1,3)[OF assms(1,2)] by (intro that[of p d]) (auto simp: rd_SomeI)
qed

text \<open>The last part of a dispatch, on the state in which a task has been selected.\<close>

lemma switch_part:
  assumes "kwf u" "last_ok u" "n = scheduled (ready_tasks u)"
  shows "Option.bind (rd (nodes u) n) (\<lambda>c. do {
       let s = u\<lparr>Last_Dispatched := n, Current_Process := pl_ptr c\<rparr>;
       d \<leftarrow> cur_pd s;
       s \<leftarrow> upd_cur (\<lambda>d. d\<lparr>state := RUNNING\<rparr>) (s\<lparr>CurrentSp := sp d\<rparr>);
       s \<leftarrow> upd_cur (\<lambda>d. d\<lparr>starvation_ticks := 0\<rparr>) (s\<lparr>Ticks_Since_Last_Cswitch := 0, Preemptive_Cswitch_Allowed := 1\<rparr>);
       Some (s, env) }) =
     (case rd (nodes u) n of None \<Rightarrow> None
        | Some c \<Rightarrow> Some (switch_to n (pl_ptr c) (the (pds u (pl_ptr c))) u, env))"
proof (cases "rd (nodes u) n")
  case (Some c)
  then have "n \<noteq> NULL" by auto
  from scheduled_ready[OF assms(1,2) assms(3)[symmetric] this] obtain p d where
    "pds u p = Some d" "p \<noteq> NULL" "\<exists>c. rd (nodes u) n = Some c \<and> pl_ptr c = p" by blast
  with Some show ?thesis
    by (simp add: Let_def upd_cur_def upd_pd_def wr_def rd_def cur_pd_def switch_to_def)
qed simp

text \<open>The first part: the running task becomes ready and the ticks are handled.\<close>

lemma ticks_part:
  assumes kwf: "kwf s" and last: "last_ok s" and cur: "cur_pd s = Some d0"
  defines "t \<equiv> ticked (mark_ready s)"
  shows "quiet (mark_ready s) t" and "kwf t" and "last_ok t" and "Last_Dispatched t = Last_Dispatched s"
    and "(if state d0 = RUNNING then upd_cur (\<lambda>d. d\<lparr>state := READY\<rparr>) (s\<lparr>Preemptive_Cswitch_Allowed := 0\<rparr>)
      else Some (s\<lparr>Preemptive_Cswitch_Allowed := 0\<rparr>)) = Some (mark_ready s)"
    and "Kernel_Tick_Handler (mark_ready s) = Some t"
proof -
  have cp: "Current_Process s \<noteq> NULL" "pds s (Current_Process s) = Some d0"
    using cur by (auto simp: cur_pd_def rd_Some_iff)
  then have km: "kwf (mark_ready s)" by (intro kwf_mark_ready[OF kwf]) auto
  then show q: "quiet (mark_ready s) t" unfolding t_def by (rule quiet_ticked)
  then show "kwf t" by (simp add: quiet_def)
  have lm: "last_ok (mark_ready s)" using last by (simp add: last_ok_def mark_ready_def Let_def)
  show "last_ok t" by (rule last_ok_quiet[OF q lm])
  show "(if state d0 = RUNNING then upd_cur (\<lambda>d. d\<lparr>state := READY\<rparr>) (s\<lparr>Preemptive_Cswitch_Allowed := 0\<rparr>)
      else Some (s\<lparr>Preemptive_Cswitch_Allowed := 0\<rparr>)) = Some (mark_ready s)"
    using cp by (auto simp: upd_cur_iff cur_pd_def rd_Some_iff mark_ready_def Let_def)
  show "Kernel_Tick_Handler (mark_ready s) = Some t"
    unfolding t_def using lm by (intro tick_handler[OF km]) (simp add: last_ok_def)
  show "Last_Dispatched t = Last_Dispatched s" using q by (simp add: quiet_def mark_ready_def Let_def)
qed

lemma idle_ok:
  assumes q: "quiet (mark_ready s) t" "last_ok t" and e: "idle_loop env 0 i (t\<lparr>IRQ := True\<rparr>) = Some (u, env')"
  shows "quiet t u" and "kwf (u\<lparr>IRQ := False\<rparr>)" and "last_ok (u\<lparr>IRQ := False\<rparr>)"
proof -
  have "Preemptive_Cswitch_Allowed (t\<lparr>IRQ := True\<rparr>) = 0" "kwf t" using q(1) by (simp_all add: quiet_def mark_ready_def Let_def)
  with idle_loop_quiet[OF e] q(2) show "quiet t u" by simp
  then show "kwf (u\<lparr>IRQ := False\<rparr>)" "last_ok (u\<lparr>IRQ := False\<rparr>)"
    using last_ok_quiet[OF _ q(2)] by (simp_all add: quiet_def)
qed

text \<open>The two ways through a dispatch.\<close>

lemma dispatch_cases:
  assumes kwf: "kwf s" and last: "last_ok s" and cur: "cur_pd s = Some d0"
  defines "t \<equiv> ticked (mark_ready s)"
  shows "quiet (mark_ready s) t" and "kwf t" and "last_ok t"
    and "Kernel_Dispatch_Next_Task env s = (if scheduled (ready_tasks t) \<noteq> NULL
      then (case rd (nodes t) (scheduled (ready_tasks t)) of None \<Rightarrow> None
        | Some c \<Rightarrow> Some (switch_to (scheduled (ready_tasks t)) (pl_ptr c) (the (pds t (pl_ptr c))) t, env))
      else Option.bind (idle_loop env 0 (Last_Dispatched s) (t\<lparr>IRQ := True\<rparr>)) (\<lambda>(u, env').
        let u = u\<lparr>IRQ := False\<rparr>; n = scheduled (ready_tasks u) in
        case rd (nodes u) n of None \<Rightarrow> None
        | Some c \<Rightarrow> Some (switch_to n (pl_ptr c) (the (pds u (pl_ptr c))) u, env')))"
proof -
  note P = ticks_part[OF kwf last cur, folded t_def]
  show "quiet (mark_ready s) t" and k: "kwf t" and l: "last_ok t" by (rule P)+
  have c: "cur_pd (s\<lparr>Preemptive_Cswitch_Allowed := 0\<rparr>) = Some d0" using cur by (simp add: cur_pd_def)
  note D = Kernel_Dispatch_Next_Task_def Let_def c bind.bind_lunit P(5,6) select_scheduled[OF k l]
  show "Kernel_Dispatch_Next_Task env s = (if scheduled (ready_tasks t) \<noteq> NULL
      then (case rd (nodes t) (scheduled (ready_tasks t)) of None \<Rightarrow> None
        | Some c \<Rightarrow> Some (switch_to (scheduled (ready_tasks t)) (pl_ptr c) (the (pds t (pl_ptr c))) t, env))
      else Option.bind (idle_loop env 0 (Last_Dispatched s) (t\<lparr>IRQ := True\<rparr>)) (\<lambda>(u, env').
        let u = u\<lparr>IRQ := False\<rparr>; n = scheduled (ready_tasks u) in
        case rd (nodes u) n of None \<Rightarrow> None
        | Some c \<Rightarrow> Some (switch_to n (pl_ptr c) (the (pds u (pl_ptr c))) u, env')))"
  proof (cases "scheduled (ready_tasks t) = NULL")
    case False
    then show ?thesis unfolding D using switch_part[OF k l refl, of env, unfolded Let_def] by simp
  next
    case True
    show ?thesis
    proof (cases "idle_loop env 0 (Last_Dispatched s) (t\<lparr>IRQ := True\<rparr>)")
      case None
      then show ?thesis unfolding D using True P(4) by (simp add: Let_def)
    next
      case (Some ue)
      then obtain u env' where ue: "idle_loop env 0 (Last_Dispatched s) (t\<lparr>IRQ := True\<rparr>) = Some (u, env')" by (cases ue) auto
      note I = idle_ok[OF P(1,3) ue]
      show ?thesis
        unfolding D using True P(4) ue switch_part[OF I(2,3) refl, of env', unfolded Let_def] select_scheduled[OF I(2,3)] by simp
    qed
  qed
qed


text \<open>Every dispatch that ends switches to the task selected in a state \<open>u\<close> that differs from the
  state before only by the tick handling.\<close>

lemma dispatch_result:
  assumes kwf: "kwf s" and last: "last_ok s" and d: "Kernel_Dispatch_Next_Task env s = Some (s', env')"
  obtains u n p d where "quiet (mark_ready s) u" and "last_ok u" and "n = scheduled (ready_tasks u)" and "n \<noteq> NULL"
    and "(n, p) \<in> set (entries (nodes s) ProcessList)" and "p \<in> set (procs s)" and "p \<noteq> NULL" and "pds u p = Some d"
    and "state d = READY" and "s' = switch_to n p d u" and "kwf s'" and "last_ok s'"
proof -
  obtain d0 where cur: "cur_pd s = Some d0"
    using d by (auto simp: Kernel_Dispatch_Next_Task_def Let_def cur_pd_def elim!: bind_SomeE)
  define t where "t = ticked (mark_ready s)"
  note C = dispatch_cases[OF kwf last cur, folded t_def]
  obtain u where u: "quiet (mark_ready s) u" "last_ok u"
    and s': "\<exists>c. rd (nodes u) (scheduled (ready_tasks u)) = Some c \<and>
      s' = switch_to (scheduled (ready_tasks u)) (pl_ptr c) (the (pds u (pl_ptr c))) u"
  proof (cases "scheduled (ready_tasks t) = NULL")
    case False
    with C(4)[of env] d have "\<exists>c. rd (nodes t) (scheduled (ready_tasks t)) = Some c \<and>
      s' = switch_to (scheduled (ready_tasks t)) (pl_ptr c) (the (pds t (pl_ptr c))) t"
      by (auto split: option.splits)
    with C show ?thesis by (intro that[of t])
  next
    case True
    with C(4)[of env] d have "Option.bind (idle_loop env 0 (Last_Dispatched s) (t\<lparr>IRQ := True\<rparr>)) (\<lambda>(u, env').
        let u = u\<lparr>IRQ := False\<rparr>; n = scheduled (ready_tasks u) in
        case rd (nodes u) n of None \<Rightarrow> None
        | Some c \<Rightarrow> Some (switch_to n (pl_ptr c) (the (pds u (pl_ptr c))) u, env')) = Some (s', env')" by simp
    then obtain u0 e where u0: "idle_loop env 0 (Last_Dispatched s) (t\<lparr>IRQ := True\<rparr>) = Some (u0, e)"
      "\<exists>c. rd (nodes u0) (scheduled (ready_tasks (u0\<lparr>IRQ := False\<rparr>))) = Some c \<and>
      s' = switch_to (scheduled (ready_tasks (u0\<lparr>IRQ := False\<rparr>))) (pl_ptr c)
        (the (pds u0 (pl_ptr c))) (u0\<lparr>IRQ := False\<rparr>)"
      by (auto simp: Let_def elim!: bind_SomeE split: option.splits)
    note I = idle_ok[OF C(1,3) u0(1)]
    have "quiet (mark_ready s) (u0\<lparr>IRQ := False\<rparr>)" using quiet_trans[OF C(1) I(1)] by simp
    with I(3) show ?thesis using u0(2) by (intro that[of "u0\<lparr>IRQ := False\<rparr>"]) simp_all
  qed
  have ku: "kwf u" and nu: "nodes u = nodes s" using u(1) by (simp_all add: quiet_def mark_ready_def Let_def)
  let ?n = "scheduled (ready_tasks u)"
  have n: "?n \<noteq> NULL" using s' by auto
  obtain p d where p: "(?n, p) \<in> set (entries (nodes u) ProcessList)" "pds u p = Some d" "state d = READY"
    "p \<noteq> NULL" "\<exists>c. rd (nodes u) ?n = Some c \<and> pl_ptr c = p"
    by (rule scheduled_ready[OF ku u(2) refl n]) (rule that)
  have eq: "s' = switch_to ?n p d u" using s' p by auto
  have ne: "procs s \<noteq> []" using last by (simp add: last_ok_def)
  have pp: "p \<in> set (procs s)" unfolding kwf_procs(1)[OF kwf ne, symmetric] using p(1) nu by force
  have "last_ok s'" using u(2) p(1) unfolding eq by (force simp: last_ok_def switch_to_def)
  then show ?thesis
    using that[OF u refl n _ pp p(4,2,3) eq] p(1) nu switch_kwf[OF ku p(2,4)] eq by simp
qed

lemma kwf_Kernel_Dispatch_Next_Task:
  "kwf s \<Longrightarrow> last_ok s \<Longrightarrow> Kernel_Dispatch_Next_Task env s = Some (s', env') \<Longrightarrow> kwf s' \<and> last_ok s'"
  by (rule dispatch_result) blast+

section \<open>Busy tasks\<close>

text \<open>
  A dispatch when no task waits: every task is ready, or running and then the current one, and
  has no timeout. \<open>aged t\<close> is what the dispatch makes of a task before the selection.
\<close>

definition busy :: "kstate \<Rightarrow> bool" where
  "busy s \<longleftrightarrow> kwf s \<and> last_ok s \<and> Current_Process s \<in> set (procs s) \<and>
     (\<forall>p \<in> set (procs s). \<exists>d. pds s p = Some d \<and> request_timeout d = 0 \<and>
       (state d = READY \<or> state d = RUNNING \<and> p = Current_Process s))"

definition aged :: "u16 \<Rightarrow> PD \<Rightarrow> PD" where
  "aged t d = d\<lparr>state := READY, starvation_ticks := starvation_ticks d + t\<rparr>"

definition aged_tasks :: "u16 \<Rightarrow> kstate \<Rightarrow> (addr \<times> PD) list" where
  "aged_tasks t s = map (\<lambda>(n, p). (n, aged t (the (pds s p)))) (dispatch_order s)"

text \<open>Dispatches in a row, with the numbers of ticks counted before each.\<close>

definition rounds :: "u16 list \<Rightarrow> kstate \<Rightarrow> kstate option" where
  "rounds = foldM (\<lambda>t s. map_option fst (Kernel_Dispatch_Next_Task [] (s\<lparr>Tick_Count := t\<rparr>)))"

lemma busy_ticked:
  fixes t :: u16
  assumes b: "busy s" and p: "p \<in> set (procs s)" and d: "pds s p = Some d"
  defines "u \<equiv> ticked (mark_ready (s\<lparr>Tick_Count := t\<rparr>))"
  shows "pds u p = Some (aged t d)"
proof -
  from b p d have s: "request_timeout d = 0" "state d = READY \<or> state d = RUNNING \<and> p = Current_Process s"
    unfolding busy_def by fastforce+
  have m: "pds (mark_ready (s\<lparr>Tick_Count := t\<rparr>)) p = Some (d\<lparr>state := READY\<rparr>)"
    using s d by (auto simp: mark_ready_def Let_def)
  show ?thesis
  proof (cases "t = 0")
    case True
    with m show ?thesis by (simp add: u_def ticked_def mark_ready_def Let_def aged_def)
  next
    case False
    have "p \<in> set (procs (mark_ready (s\<lparr>Tick_Count := t\<rparr>)))" using p by (simp add: mark_ready_def Let_def)
    from upd_all_at[where h = "pds (mark_ready (s\<lparr>Tick_Count := t\<rparr>))" and f = "tick_PD t", OF this m] False s(1) show ?thesis
      by (simp add: u_def ticked_def mark_ready_def Let_def tick_PD_def aged_def)
  qed
qed

lemma busy_dispatch:
  assumes b: "busy s" and n: "(n, p) \<in> set (entries (nodes s) ProcessList)" "scheduled (aged_tasks t s) = n"
  obtains u where "Kernel_Dispatch_Next_Task [] (s\<lparr>Tick_Count := t\<rparr>) = Some (switch_to n p (aged t (the (pds s p))) u, [])"
    and "nodes u = nodes s" and "kwf u" and "u = ticked (mark_ready (s\<lparr>Tick_Count := t\<rparr>))"
    and "\<And>q. q \<in> set (procs s) \<Longrightarrow> pds u q = Some (aged t (the (pds s q)))"
    and "busy (switch_to n p (aged t (the (pds s p))) u)"
proof -
  let ?s = "s\<lparr>Tick_Count := t\<rparr>"
  have kwf: "kwf s" and last: "last_ok s" and ne: "procs s \<noteq> []" and cp: "Current_Process s \<in> set (procs s)"
    using b by (auto simp: busy_def last_ok_def)
  have kwf': "kwf ?s" "last_ok ?s" using kwf last by simp_all
  obtain d0 where d0: "cur_pd ?s = Some d0"
    using kwf_procs(3)[OF kwf ne] cp by (auto simp: cur_pd_def rd_def)
  define u where "u = ticked (mark_ready ?s)"
  note C = dispatch_cases[OF kwf' d0, folded u_def]
  have nu: "nodes u = nodes s" "Last_Dispatched u = Last_Dispatched s"
    using C(1) by (simp_all add: quiet_def mark_ready_def Let_def)
  have at: "pds u q = Some (aged t (the (pds s q)))" if q: "q \<in> set (procs s)" for q
  proof -
    obtain d where "pds s q = Some d" using kwf_procs(3)[OF kwf ne] q by blast
    with busy_ticked[OF b q this] show ?thesis by (simp add: u_def)
  qed
  have ord: "dispatch_order u = dispatch_order s" by (simp add: dispatch_order_def nu)
  have mem: "q \<in> set (procs s)" if "(i, q) \<in> set (entries (nodes s) ProcessList)" for i q
    using that unfolding kwf_procs(1)[OF kwf ne, symmetric] by force
  have "map (\<lambda>(n, p). (n, the (pds u p))) (dispatch_order u) = aged_tasks t s"
    unfolding aged_tasks_def ord
    by (rule map_cong[OF refl]) (use mem at dispatch_order_mem(1)[OF kwf last] in auto)
  then have rt: "ready_tasks u = aged_tasks t s"
    by (auto simp: ready_tasks_def aged_tasks_def aged_def filter_id_conv)
  note sn = seg_nodes[OF kwf_procs(4)[OF kwf ne] n(1)]
  then obtain c where c: "rd (nodes u) n = Some c" "pl_ptr c = p" "n \<noteq> NULL" by (auto simp: nu rd_SomeI)
  have p: "p \<in> set (procs s)" by (rule mem[OF n(1)])
  have d: "Kernel_Dispatch_Next_Task [] ?s = Some (switch_to n p (aged t (the (pds s p))) u, [])"
    using C(4)[of "[]"] c n(2) at[OF p] by (simp add: rt)
  from dispatch_result[OF kwf' d] have ks: "kwf (switch_to n p (aged t (the (pds s p))) u)"
    "last_ok (switch_to n p (aged t (the (pds s p))) u)" by blast+
  have "request_timeout (the (pds s q)) = 0" if "q \<in> set (procs s)" for q
    using b that by (auto simp: busy_def)
  then have "busy (switch_to n p (aged t (the (pds s p))) u)"
    using ks p at unfolding busy_def by (auto simp: switch_to_def nu aged_def)
  from that[OF d nu(1) C(2) u_def at this] show ?thesis by simp
qed

section \<open>A cycle of tasks of equal priority\<close>

lemma dispatch_order_rotate:
  assumes "kwf s" "i < length (entries (nodes s) ProcessList)" "Last_Dispatched s = fst (entries (nodes s) ProcessList ! i)"
  shows "dispatch_order s = rotate (Suc i) (entries (nodes s) ProcessList)"
proof -
  let ?xs = "entries (nodes s) ProcessList"
  have "?xs = take i ?xs @ (Last_Dispatched s, snd (?xs ! i)) # drop (Suc i) ?xs"
    using id_take_nth_drop[OF assms(2)] assms(3) by simp
  from dispatch_order_split[OF assms(1) this]
  have "dispatch_order s = drop (Suc i) ?xs @ take (Suc i) ?xs"
    using assms(2,3) by (simp add: take_Suc_conv_app_nth)
  moreover have "rotate (Suc i) ?xs = drop (Suc i) ?xs @ take (Suc i) ?xs"
  proof (cases "Suc i < length ?xs")
    case True
    then show ?thesis by (simp add: rotate_drop_take del: rotate_Suc)
  next
    case False
    then have "Suc i = length ?xs" using assms(2) by simp
    then show ?thesis by (simp add: rotate_drop_take del: rotate_Suc)
  qed
  ultimately show ?thesis by simp
qed

lemma passed_over_none: "\<forall>x \<in> set rs. m \<le> uint (pri (snd x)) \<Longrightarrow> passed_over m rs = rs"
  by (induction rs) auto

lemma scheduled_equal:
  assumes "\<forall>x \<in> set (r # rs). pri (snd x) = q \<and> unat (starvation_ticks (snd x)) < STARVATION_MAX" "unat q \<le> 10"
  shows "scheduled (r # rs) = fst r"
proof -
  have q: "uint q < 11" using assms(2) unfolding uint_nat by linarith
  have "passed_over (uint q) rs = rs" by (rule passed_over_none) (use assms(1) in auto)
  then have st: "starving (r # rs) = []" using assms(1) q by (auto simp: starving_def filter_empty_conv)
  have es: "filter (\<lambda>x. uint (pri (snd x)) < 11) (r # rs) = r # rs" using assms(1) q by (auto simp: filter_id_conv)
  obtain as bs where ab: "r # rs = as @ first_least (\<lambda>x. uint (pri (snd x))) (r # rs) # bs"
    "\<forall>x \<in> set as. uint (pri (snd (first_least (\<lambda>x. uint (pri (snd x))) (r # rs)))) < uint (pri (snd x))"
    using first_least_props[of "r # rs" "\<lambda>x. uint (pri (snd x))"] by blast
  have "as = []"
  proof (rule ccontr)
    assume "as \<noteq> []"
    then have "r \<in> set as" using ab(1) by (cases as) auto
    moreover have "first_least (\<lambda>x. uint (pri (snd x))) (r # rs) \<in> set (r # rs)" by (rule first_least_mem) simp
    ultimately show False using ab(2) assms(1) by fastforce
  qed
  with ab(1) have "first_least (\<lambda>x. uint (pri (snd x))) (r # rs) = r" by (metis append_Nil list.inject)
  then show ?thesis unfolding scheduled_def st es Let_def by simp
qed

text \<open>What is needed of the tasks for a cycle in which \<open>T\<close> more ticks pass.\<close>

definition equal_tasks :: "u8 \<Rightarrow> nat \<Rightarrow> kstate \<Rightarrow> bool" where
  "equal_tasks q T s \<longleftrightarrow> (\<forall>p \<in> set (procs s). \<forall>d. pds s p = Some d \<longrightarrow>
     pri d = q \<and> unat (starvation_ticks d) + T < STARVATION_MAX)"

lemma unat_add_small: "unat (x :: u16) + unat y < 65536 \<Longrightarrow> unat (x + y) = unat x + unat y"
  by (simp add: unat_word_ariths)

lemma round_robin_step:
  assumes b: "busy s" and eq: "equal_tasks q T s" "unat q \<le> 10" and t: "unat t \<le> T"
    and i: "i < length (procs s)" "Last_Dispatched s = fst (entries (nodes s) ProcessList ! i)"
  obtains s' where "Kernel_Dispatch_Next_Task [] (s\<lparr>Tick_Count := t\<rparr>) = Some (s', [])" and "busy s'"
    and "equal_tasks q (T - unat t) s'" and "nodes s' = nodes s"
    and "Last_Dispatched s' = fst (entries (nodes s) ProcessList ! (Suc i mod length (procs s)))"
    and "Current_Process s' = procs s ! (Suc i mod length (procs s))"
    and "\<exists>n p d. s' = switch_to n p d (ticked (mark_ready (s\<lparr>Tick_Count := t\<rparr>)))"
    and "\<forall>p \<in> set (procs s). pri (the (pds s' p)) = q \<and> unat (starvation_ticks (the (pds s' p))) =
      (if p = procs s ! (Suc i mod length (procs s)) then 0 else unat (starvation_ticks (the (pds s p))) + unat t)"
proof -
  let ?xs = "entries (nodes s) ProcessList"
  let ?j = "Suc i mod length (procs s)"
  have kwf: "kwf s" and last: "last_ok s" and ne: "procs s \<noteq> []" using b by (auto simp: busy_def last_ok_def)
  have len: "length ?xs = length (procs s)" using kwf_procs(1)[OF kwf ne] by (metis length_map)
  have i': "i < length ?xs" using i(1) len by simp
  have o: "dispatch_order s = rotate (Suc i) ?xs" by (rule dispatch_order_rotate[OF kwf i' i(2)])
  have xne: "?xs \<noteq> []" using i' by auto
  have hd: "hd (rotate (Suc i) ?xs) = ?xs ! ?j" unfolding len[symmetric] by (rule hd_rotate_conv_nth[OF xne])
  then obtain rs where rs: "dispatch_order s = ?xs ! ?j # rs" using o xne by (metis hd_Cons_tl rotate_is_Nil_conv)
  have j: "?j < length (procs s)" using ne by simp
  then have mem: "(?xs ! ?j) \<in> set ?xs" by (intro nth_mem) (simp only: len)
  have old: "pri (the (pds s p)) = q \<and> unat (starvation_ticks (the (pds s p))) + T < 160" if "p \<in> set (procs s)" for p
    using that eq(1) kwf_procs(3)[OF kwf ne] by (fastforce simp: equal_tasks_def)
  have sum: "unat (starvation_ticks (the (pds s p)) + t) = unat (starvation_ticks (the (pds s p))) + unat t"
    if "p \<in> set (procs s)" for p
    by (rule unat_add_small) (use old[OF that] t in simp)
  have in_procs: "snd x \<in> set (procs s)" if "x \<in> set (dispatch_order s)" for x
    using that unfolding kwf_procs(1)[OF kwf ne, symmetric] dispatch_order_mem(1)[OF kwf last] by force
  have "\<forall>x \<in> set (aged_tasks t s). pri (snd x) = q \<and> unat (starvation_ticks (snd x)) < STARVATION_MAX"
    using old sum in_procs t by (fastforce simp: aged_tasks_def aged_def)
  then have sch: "scheduled (aged_tasks t s) = fst (?xs ! ?j)"
    using scheduled_equal[OF _ eq(2)] by (simp add: aged_tasks_def rs split: prod.splits)
  obtain u where u: "Kernel_Dispatch_Next_Task [] (s\<lparr>Tick_Count := t\<rparr>) =
      Some (switch_to (fst (?xs ! ?j)) (snd (?xs ! ?j)) (aged t (the (pds s (snd (?xs ! ?j))))) u, [])"
    "nodes u = nodes s" "kwf u" "u = ticked (mark_ready (s\<lparr>Tick_Count := t\<rparr>))"
    "\<And>q. q \<in> set (procs s) \<Longrightarrow> pds u q = Some (aged t (the (pds s q)))"
    "busy (switch_to (fst (?xs ! ?j)) (snd (?xs ! ?j)) (aged t (the (pds s (snd (?xs ! ?j))))) u)"
    by (rule busy_dispatch[OF b _ sch, of "snd (?xs ! ?j)"]) (use mem in simp, rule that)
  have "snd (?xs ! ?j) = procs s ! ?j"
    unfolding kwf_procs(1)[OF kwf ne, symmetric] by (rule nth_map[symmetric]) (use j len in simp)
  moreover have "equal_tasks q (T - unat t) (switch_to n p (aged t (the (pds s p))) u)" if "p \<in> set (procs s)" for n p
    using old sum u(2,5) t that unfolding equal_tasks_def by (auto simp: switch_to_def aged_def) fastforce+
  moreover have pj: "snd (?xs ! ?j) \<in> set (procs s)" using in_procs rs by simp
  moreover have "pri (the (pds (switch_to n (snd (?xs ! ?j)) (aged t (the (pds s (snd (?xs ! ?j))))) u) p)) = q \<and>
      unat (starvation_ticks (the (pds (switch_to n (snd (?xs ! ?j)) (aged t (the (pds s (snd (?xs ! ?j))))) u) p))) =
      (if p = snd (?xs ! ?j) then 0 else unat (starvation_ticks (the (pds s p))) + unat t)" if "p \<in> set (procs s)" for n p
    using old[OF that] old[OF pj] sum[OF that] u(5)[OF that] by (simp add: switch_to_def aged_def)
  ultimately show ?thesis using that[OF u(1) u(6)] u(2,4) by (simp add: switch_to_def) blast
qed

text \<open>
  Every task gets its turn before it has waited \<open>STARVATION_MAX\<close> ticks: the task \<open>k + 1\<close> places behind the
  current one, whose turn is the dispatch number \<open>k + 1\<close>, with the ticks it has waited already, and
  then any task, which has its next turn as many dispatches later as there are tasks.
\<close>

definition in_time :: "nat \<Rightarrow> u16 list \<Rightarrow> kstate \<Rightarrow> bool" where
  "in_time i ts s \<longleftrightarrow>
     (\<forall>k < length (procs s). unat (starvation_ticks (the (pds s (procs s ! ((i + Suc k) mod length (procs s)))))) +
        (\<Sum>t\<leftarrow>take (Suc k) ts. unat t) < STARVATION_MAX) \<and>
     (\<forall>k. (\<Sum>t\<leftarrow>take (length (procs s)) (drop k ts). unat t) < STARVATION_MAX)"

lemma index_at_distance: "i < n \<Longrightarrow> m < n \<Longrightarrow> \<exists>k < n. m = (i + Suc k) mod (n :: nat)"
  by (rule exI[of _ "if i < m then m - Suc i else n + m - Suc i"]) (auto simp: not_less)

lemma distance_index: "i < n \<Longrightarrow> Suc k < n \<Longrightarrow> (i + Suc (Suc k)) mod n \<noteq> Suc i mod (n :: nat)"
  using mod_eq_dvd_iff_nat[of "Suc i" "i + Suc (Suc k)" n] by (auto dest: dvd_imp_le)

lemma round_robin_rounds:
  "busy s \<Longrightarrow> \<forall>p \<in> set (procs s). pri (the (pds s p)) = q \<Longrightarrow> unat q \<le> 10 \<Longrightarrow> in_time i ts s \<Longrightarrow> i < length (procs s) \<Longrightarrow>
   Last_Dispatched s = fst (entries (nodes s) ProcessList ! i) \<Longrightarrow> Current_Process s = procs s ! i \<Longrightarrow>
   \<exists>s'. rounds ts s = Some s' \<and> kwf s' \<and> Current_Process s' = procs s ! ((i + length ts) mod length (procs s))"
proof (induction ts arbitrary: s i)
  case Nil
  then show ?case by (simp add: rounds_def busy_def)
next
  case (Cons t ts)
  let ?n = "length (procs s)" and ?j = "Suc i mod length (procs s)" and ?w = "\<lambda>s p. unat (starvation_ticks (the (pds s p)))"
  have w: "?w s (procs s ! ((i + Suc k) mod ?n)) + unat t + (\<Sum>t\<leftarrow>take k ts. unat t) < 160" if "k < ?n" for k
  proof -
    have "?w s (procs s ! ((i + Suc k) mod ?n)) + (\<Sum>t\<leftarrow>take (Suc k) (t # ts). unat t) < STARVATION_MAX"
      using Cons.prems(4) that unfolding in_time_def by blast
    then show ?thesis by simp
  qed
  have f: "(\<Sum>t\<leftarrow>take ?n (drop k ts). unat t) < 160" for k
  proof -
    have "(\<Sum>t\<leftarrow>take ?n (drop (Suc k) (t # ts)). unat t) < STARVATION_MAX" using Cons.prems(4) unfolding in_time_def by blast
    then show ?thesis by simp
  qed
  have "?w s p + unat t < 160" if p: "p \<in> set (procs s)" for p
  proof -
    obtain m where m: "m < ?n" "p = procs s ! m" using p by (auto simp: in_set_conv_nth)
    obtain k where "k < ?n" "m = (i + Suc k) mod ?n" using index_at_distance[OF Cons.prems(5) m(1)] by blast
    with w[of k] m(2) show ?thesis by simp
  qed
  then have "\<forall>p \<in> set (procs s). pri (the (pds s p)) = q \<and> ?w s p + unat t < STARVATION_MAX" using Cons.prems(2) by simp
  then have eq: "equal_tasks q (unat t) s" unfolding equal_tasks_def by (metis option.sel)
  obtain s1 where s1: "Kernel_Dispatch_Next_Task [] (s\<lparr>Tick_Count := t\<rparr>) = Some (s1, [])" "busy s1" "nodes s1 = nodes s"
    "Last_Dispatched s1 = fst (entries (nodes s) ProcessList ! ?j)" "Current_Process s1 = procs s ! ?j"
    "\<forall>p \<in> set (procs s). pri (the (pds s1 p)) = q \<and> ?w s1 p = (if p = procs s ! ?j then 0 else ?w s p + unat t)"
    by (rule round_robin_step[OF Cons.prems(1) eq Cons.prems(3) order.refl Cons.prems(5,6)]) (rule that)
  have j: "?j < ?n" using Cons.prems(5) by (intro mod_less_divisor) (rule le_less_trans[OF le0])
  have dist: "distinct (procs s)" using kwf_procs(2)[of s] Cons.prems(1) by (auto simp: busy_def last_ok_def)
  have "?w s1 (procs s ! ((?j + Suc k) mod ?n)) + (\<Sum>t\<leftarrow>take (Suc k) ts. unat t) < 160" if k: "k < ?n" for k
  proof -
    have m: "(?j + Suc k) mod ?n = (i + Suc (Suc k)) mod ?n" using mod_add_left_eq[of "Suc i" ?n "Suc k"] by simp
    have l: "(i + Suc (Suc k)) mod ?n < ?n" by (rule mod_less_divisor) (use k in \<open>rule le_less_trans[OF le0]\<close>)
    show ?thesis
    proof (cases "Suc k < ?n")
      case True
      have "procs s ! ((i + Suc (Suc k)) mod ?n) \<noteq> procs s ! ?j"
        using nth_eq_iff_index_eq[OF dist l j] distance_index[OF Cons.prems(5) True] by simp
      then show ?thesis using bspec[OF s1(6) nth_mem[OF l]] m w[OF True] by simp
    next
      case False
      then have n: "Suc k = ?n" using k by simp
      then have "(i + Suc (Suc k)) mod ?n = ?j" by (metis add_Suc_right add_Suc_shift mod_add_self2)
      then show ?thesis using bspec[OF s1(6) nth_mem[OF l]] m f[of 0] n by simp
    qed
  qed
  then have "in_time ?j ts s1" using f s1(3) by (simp add: in_time_def)
  moreover have "\<forall>p \<in> set (procs s1). pri (the (pds s1 p)) = q" using s1(3,6) by simp
  ultimately show ?case
    using Cons.IH[OF s1(2) _ Cons.prems(3), of ?j] s1 j by (simp add: rounds_def mod_simps)
qed

section \<open>A task that is passed by\<close>

lemma passed_over_decreasing:
  "sorted_wrt (\<lambda>x y. pri (snd y) < pri (snd x)) rs \<Longrightarrow> \<forall>x \<in> set rs. uint (pri (snd x)) < m \<Longrightarrow> passed_over m rs = []"
  by (induction rs arbitrary: m) (auto simp: word_less_def)

lemma scheduled_decreasing:
  assumes s: "sorted_wrt (\<lambda>x y. pri (snd y) < pri (snd x)) (rs @ [r])" and m: "\<forall>x \<in> set (rs @ [r]). unat (pri (snd x)) \<le> 10"
  shows "scheduled (rs @ [r]) = fst r"
proof -
  have m': "\<forall>x \<in> set (rs @ [r]). uint (pri (snd x)) < 11"
  proof
    fix x assume "x \<in> set (rs @ [r])"
    with m have "unat (pri (snd x)) \<le> 10" by blast
    then show "uint (pri (snd x)) < 11" unfolding uint_nat by linarith
  qed
  then have es: "filter (\<lambda>x. uint (pri (snd x)) < 11) (rs @ [r]) = rs @ [r]" by (simp add: filter_id_conv)
  have st: "starving (rs @ [r]) = []" using passed_over_decreasing[OF s m'] by (simp add: starving_def)
  have "first_least (\<lambda>x. uint (pri (snd x))) (rs @ [r]) = r"
  proof (cases "rs = []")
    case False
    have "first_least (\<lambda>x. uint (pri (snd x))) rs \<in> set rs" by (rule first_least_mem[OF False])
    then have "\<not> uint (pri (snd (first_least (\<lambda>x. uint (pri (snd x))) rs))) \<le> uint (pri (snd r))"
      using s by (auto simp: sorted_wrt_append word_less_def)
    then show ?thesis by (simp add: first_least_snoc[OF False])
  qed simp
  then show ?thesis unfolding scheduled_def st es Let_def by simp
qed

definition decreasing :: "kstate \<Rightarrow> bool" where
  "decreasing s \<longleftrightarrow> sorted_wrt (\<lambda>x y. pri (the (pds s (snd y))) < pri (the (pds s (snd x)))) (dispatch_order s) \<and>
     (\<forall>p \<in> set (procs s). unat (pri (the (pds s p))) \<le> 10)"

lemma starved_step:
  assumes b: "busy s" and dec: "decreasing s" and o: "dispatch_order s = as @ [(Last_Dispatched s, Current_Process s)]"
  obtains s' where "Kernel_Dispatch_Next_Task [] (s\<lparr>Tick_Count := t\<rparr>) = Some (s', [])" and "busy s'"
    and "decreasing s'" and "dispatch_order s' = as @ [(Last_Dispatched s', Current_Process s')]"
    and "Current_Process s' = Current_Process s" and "procs s' = procs s"
    and "\<And>q. q \<in> set (procs s) \<Longrightarrow> q \<noteq> Current_Process s \<Longrightarrow> pds s' q = Some (aged t (the (pds s q)))"
proof -
  have kwf: "kwf s" and last: "last_ok s" and ne: "procs s \<noteq> []" using b by (auto simp: busy_def last_ok_def)
  let ?c = "(Last_Dispatched s, Current_Process s)"
  have in_procs: "snd x \<in> set (procs s)" if "x \<in> set (dispatch_order s)" for x
    using that unfolding kwf_procs(1)[OF kwf ne, symmetric] dispatch_order_mem(1)[OF kwf last] by force
  have at: "aged_tasks t s = map (\<lambda>(n, p). (n, aged t (the (pds s p)))) as @ [(Last_Dispatched s, aged t (the (pds s (Current_Process s))))]"
    by (simp add: aged_tasks_def o)
  have "sorted_wrt (\<lambda>x y. pri (snd y) < pri (snd x)) (aged_tasks t s)"
    unfolding aged_tasks_def sorted_wrt_map
    by (rule sorted_wrt_mono_rel[OF _ conjunct1[OF dec[unfolded decreasing_def]]]) (auto simp: aged_def split: prod.splits)
  moreover have "\<forall>x \<in> set (aged_tasks t s). unat (pri (snd x)) \<le> 10"
    using dec in_procs by (fastforce simp: aged_tasks_def decreasing_def aged_def)
  ultimately have sch: "scheduled (aged_tasks t s) = Last_Dispatched s"
    unfolding at by (subst scheduled_decreasing) simp_all
  have mem: "?c \<in> set (entries (nodes s) ProcessList)"
    unfolding dispatch_order_mem(1)[OF kwf last, symmetric] o by simp
  obtain u where u: "Kernel_Dispatch_Next_Task [] (s\<lparr>Tick_Count := t\<rparr>) =
      Some (switch_to (Last_Dispatched s) (Current_Process s) (aged t (the (pds s (Current_Process s)))) u, [])"
    "nodes u = nodes s" "kwf u" "\<And>q. q \<in> set (procs s) \<Longrightarrow> pds u q = Some (aged t (the (pds s q)))"
    "busy (switch_to (Last_Dispatched s) (Current_Process s) (aged t (the (pds s (Current_Process s)))) u)"
    by (rule busy_dispatch[OF b mem sch]) (rule that)
  let ?s' = "switch_to (Last_Dispatched s) (Current_Process s) (aged t (the (pds s (Current_Process s)))) u"
  have o': "dispatch_order ?s' = dispatch_order s" by (simp add: dispatch_order_def switch_to_def u(2))
  have pr: "pri (the (pds ?s' q)) = pri (the (pds s q))" if "q \<in> set (procs s)" for q
    using u(4)[OF that] by (simp add: switch_to_def aged_def)
  have "sorted_wrt (\<lambda>x y. pri (the (pds ?s' (snd y))) < pri (the (pds ?s' (snd x)))) (dispatch_order s)"
    by (rule sorted_wrt_mono_rel[OF _ conjunct1[OF dec[unfolded decreasing_def]]]) (use pr in_procs in simp)
  then have "decreasing ?s'" unfolding decreasing_def o' using dec pr by (simp add: decreasing_def switch_to_def u(2))
  with that[OF u(1,5)] o o' u(2,4) show ?thesis by (simp add: switch_to_def)
qed

lemma starved_rounds:
  "busy s \<Longrightarrow> decreasing s \<Longrightarrow> dispatch_order s = as @ [(Last_Dispatched s, Current_Process s)] \<Longrightarrow>
   \<exists>s'. rounds ts s = Some s' \<and> Current_Process s' = Current_Process s \<and>
     (\<forall>q \<in> set (procs s). q \<noteq> Current_Process s \<longrightarrow> starvation_ticks (the (pds s' q)) =
        starvation_ticks (the (pds s q)) + sum_list ts)"
proof (induction ts arbitrary: s)
  case (Cons t ts)
  obtain s1 where s1: "Kernel_Dispatch_Next_Task [] (s\<lparr>Tick_Count := t\<rparr>) = Some (s1, [])" "busy s1" "decreasing s1"
    "dispatch_order s1 = as @ [(Last_Dispatched s1, Current_Process s1)]" "Current_Process s1 = Current_Process s"
    "procs s1 = procs s"
    "\<And>q. q \<in> set (procs s) \<Longrightarrow> q \<noteq> Current_Process s \<Longrightarrow> pds s1 q = Some (aged t (the (pds s q)))"
    by (rule starved_step[OF Cons.prems]) (rule that)
  from Cons.IH[OF s1(2-4)] s1(1,5-7) show ?case
    by (auto simp: rounds_def aged_def add.assoc)
qed (simp add: rounds_def)

lemma filter_split:
  "filter P xs = as @ x # bs \<Longrightarrow> \<exists>us vs. xs = us @ x # vs \<and> filter P us = as \<and> filter P vs = bs"
proof (induction xs arbitrary: as)
  case (Cons y ys)
  show ?case
  proof (cases "P y \<and> as = []")
    case True
    with Cons.prems show ?thesis by (intro exI[of _ "[]"] exI[of _ ys]) simp
  next
    case False
    define cs where "cs = (if P y then tl as else as)"
    have "filter P ys = cs @ x # bs" and as: "as = (if P y then y # cs else cs)"
      using Cons.prems False by (cases as; auto simp: cs_def)+
    then obtain us vs where "ys = us @ x # vs" "filter P us = cs" "filter P vs = bs" using Cons.IH by blast
    with as show ?thesis by (intro exI[of _ "y # us"] exI[of _ vs]) auto
  qed
qed simp

section \<open>Properties\<close>

text \<open>C12: A task that waits with a timeout of \<open>n\<close> ticks (a sleeping task, or one in any wait state),
  \<open>n\<close> at most 32767, keeps its state as long as fewer than \<open>n\<close> ticks were handled and is READY with
  the return value 0 once \<open>n\<close> ticks were handled, however the ticks are spread over the runs of the
  handler (at most 32767 between two runs).\<close>

theorem timeout_wakes_on_time:
  assumes "kwf s" "p \<in> set (procs s)" "pds s p = Some d" "state d \<noteq> READY" "state d \<noteq> SUSPENDED"
    and "0 < request_timeout d" "unat (request_timeout d) \<le> 32767" "\<forall>t \<in> set ts. unat t \<le> 32767"
  shows "\<exists>s' d'. tick_series ts s = Some s' \<and> kwf s' \<and> pds s' p = Some d' \<and>
    (if (\<Sum>t\<leftarrow>ts. unat t) < unat (request_timeout d)
     then state d' = state d \<and> unat (request_timeout d') = unat (request_timeout d) - (\<Sum>t\<leftarrow>ts. unat t)
     else state d' = READY \<and> request_timeout d' = 0 \<and> request_retval d' = 0)"
proof -
  obtain s' where s': "tick_series ts s = Some s'" "kwf s'" "pds s' p = Some (fold tick_PD_at ts d)"
    using tick_series_at[OF assms(1-3)] by blast
  from ticks_timed[OF assms(4-8)] s' show ?thesis
    by (intro exI[of _ s'] exI[of _ "fold tick_PD_at ts d"]) (auto split: if_splits)
qed

theorem timeout_wakes_on_time_witness:
  "\<exists>s' d'. tick_series [3, 4] (ex_tasks (\<lambda>n. False) (\<lambda>i. 0) (ex_PD 2 5 SLEEPING (\<lambda>i. 0) 7) (ex_PD 3 5 READY (\<lambda>i. 0) 0))
     = Some s' \<and> pds s' 21 = Some d' \<and> state d' = READY"
proof -
  let ?d = "ex_PD 2 5 SLEEPING (\<lambda>i. 0) 7"
  let ?s = "ex_tasks (\<lambda>n. False) (\<lambda>i. 0) ?d (ex_PD 3 5 READY (\<lambda>i. 0) 0)"
  have k: "kwf ?s" by (rule ex_tasks_kwf) (simp_all add: ex_PD_def)
  have p: "21 \<in> set (procs ?s)" "pds ?s 21 = Some ?d" by (simp_all add: ex_tasks_def ex_state_def)
  have d: "state ?d \<noteq> READY" "state ?d \<noteq> SUSPENDED" "0 < request_timeout ?d" "unat (request_timeout ?d) \<le> 32767"
    "\<forall>t \<in> set [3, 4 :: u16]. unat t \<le> 32767" by (simp_all add: ex_PD_def)
  from timeout_wakes_on_time[OF k p d] show ?thesis by (auto simp: ex_PD_def)
qed

text \<open>C16: A longer timeout is not respected, although a sleep is documented to last at least the given
  number of ticks: when the timeout exceeds the ticks counted by 32768 or more, the difference is
  negative as an \<open>int\<close> and the task is READY at the first run of the handler.\<close>

theorem long_timeout_expires_early:
  assumes "kwf s" "p \<in> set (procs s)" "pds s p = Some d" "state d = SLEEPING"
    and "t \<noteq> 0" "unat t + 32768 \<le> unat (request_timeout d)"
  shows "\<exists>s' d'. tick_series [t] s = Some s' \<and> pds s' p = Some d' \<and> state d' = READY"
proof -
  let ?n = "request_timeout d"
  have "32768 \<le> uint ?n - uint t" using assms(6) unfolding uint_nat by linarith
  from sint_diff_wrapped[OF this] have "sint (?n - t) < 0" .
  moreover have "?n \<noteq> 0" using assms(6) by auto
  ultimately have "state (tick_PD_at t d) = READY"
    using assms(4,5) by (simp add: tick_PD_at_def tick_PD_def Let_def)
  then show ?thesis using tick_series_at[OF assms(1-3), of "[t]"] by auto
qed

theorem long_timeout_expires_early_witness:
  "\<exists>s' d'. tick_series [1] (ex_tasks (\<lambda>n. False) (\<lambda>i. 0) (ex_PD 2 5 SLEEPING (\<lambda>i. 0) 40000) (ex_PD 3 5 READY (\<lambda>i. 0) 0))
     = Some s' \<and> pds s' 21 = Some d' \<and> state d' = READY"
proof -
  let ?d = "ex_PD 2 5 SLEEPING (\<lambda>i. 0) 40000"
  let ?s = "ex_tasks (\<lambda>n. False) (\<lambda>i. 0) ?d (ex_PD 3 5 READY (\<lambda>i. 0) 0)"
  have k: "kwf ?s" by (rule ex_tasks_kwf) (simp_all add: ex_PD_def)
  have p: "21 \<in> set (procs ?s)" "pds ?s 21 = Some ?d" by (simp_all add: ex_tasks_def ex_state_def)
  show ?thesis by (rule long_timeout_expires_early[OF k p]) (simp_all add: ex_PD_def)
qed

text \<open>A task that asks to sleep for 0 ticks is never woken by the timer: it is still SLEEPING
  after any sequence of runs of the tick handler.\<close>

theorem zero_sleep_never_ends:
  assumes "kwf s" "Current_Process s \<in> set (procs s)" "cur_pd s = Some d" "request_timeout d = 0"
  shows "\<exists>s1 s' d'. Kernel_Sleep_Task s = Some s1 \<and> tick_series ts s1 = Some s' \<and>
    pds s' (Current_Process s) = Some d' \<and> state d' = SLEEPING"
proof -
  let ?p = "Current_Process s"
  let ?s1 = "s\<lparr>pds := (pds s)(?p \<mapsto> d\<lparr>state := SLEEPING\<rparr>), Kernel_Request_Cswitch := 1\<rparr>"
  have sl: "Kernel_Sleep_Task s = Some ?s1"
    using upd_cur_Some[OF assms(3), of "\<lambda>d. d\<lparr>state := SLEEPING\<rparr>"] by (simp add: Kernel_Sleep_Task_def)
  have "fold tick_PD_at ts x = x" if "state x = SLEEPING" "request_timeout x = 0" for x
    using that by (induction ts) (auto simp: tick_PD_at_def tick_PD_def)
  with assms(4) have "fold tick_PD_at ts (d\<lparr>state := SLEEPING\<rparr>) = d\<lparr>state := SLEEPING\<rparr>" by simp
  moreover have "\<exists>s'. tick_series ts ?s1 = Some s' \<and> pds s' ?p = Some (fold tick_PD_at ts (d\<lparr>state := SLEEPING\<rparr>))"
    using tick_series_at[OF kwf_Kernel_Sleep_Task[OF assms(1) sl], of ?p "d\<lparr>state := SLEEPING\<rparr>" ts] assms(2) by auto
  ultimately show ?thesis using sl by fastforce
qed

theorem zero_sleep_never_ends_witness:
  "\<exists>s1 s' d'. Kernel_Sleep_Task (ex_tasks (\<lambda>n. False) (\<lambda>i. 0) (ex_PD 2 5 READY (\<lambda>i. 0) 0) (ex_PD 3 5 READY (\<lambda>i. 0) 0)) = Some s1 \<and>
    tick_series [100, 200] s1 = Some s' \<and> pds s' 20 = Some d' \<and> state d' = SLEEPING"
proof -
  let ?s = "ex_tasks (\<lambda>n. False) (\<lambda>i. 0) (ex_PD 2 5 READY (\<lambda>i. 0) 0) (ex_PD 3 5 READY (\<lambda>i. 0) 0)"
  have k: "kwf ?s" by (rule ex_tasks_kwf) (simp_all add: ex_PD_def)
  have c: "Current_Process ?s = 20" "cur_pd ?s = Some (ex_PD 1 5 RUNNING (\<lambda>i. 0) 0)" "20 \<in> set (procs ?s)"
    by (simp_all add: ex_tasks_def ex_state_def cur_pd_def rd_def)
  have "request_timeout (ex_PD 1 5 RUNNING (\<lambda>i. 0) 0) = 0" by (simp add: ex_PD_def)
  from zero_sleep_never_ends[OF k _ c(2) this, of "[100, 200]"] c(1,3) show ?thesis by simp
qed

text \<open>C11: The selection by priority: when no ready task has waited 160 ticks and some ready task has
  one of the priorities 0 to 10, the task selected has the best priority of all ready tasks and,
  among those of equal priority, is the first one after the task dispatched last (round robin).\<close>

theorem select_highest_priority:
  assumes "kwf s" "last_ok s" "rs = ready_tasks s"
    and "\<forall>x \<in> set rs. unat (starvation_ticks (snd x)) < STARVATION_MAX" "\<exists>x \<in> set rs. unat (pri (snd x)) \<le> LOWEST_PRIORITY"
  shows "\<exists>as x bs. rs = as @ x # bs \<and> Kernel_Select_Next_Task s = Some (fst x) \<and>
    (\<forall>y \<in> set as. pri (snd x) < pri (snd y)) \<and> (\<forall>y \<in> set bs. pri (snd x) \<le> pri (snd y))"
proof -
  let ?f = "\<lambda>x. uint (pri (snd (x :: addr \<times> PD)))"
  let ?es = "filter (\<lambda>x. ?f x < 11) rs"
  have sub: "set (passed_over m rs) \<subseteq> set rs" for m rs by (induction m rs rule: passed_over.induct) auto
  have st: "starving rs = []" using assms(4) sub[of 11 rs] by (fastforce simp: starving_def filter_empty_conv)
  obtain y where y: "y \<in> set rs" "unat (pri (snd y)) \<le> 10" using assms(5) by blast
  have "?f y < 11" using y(2) unfolding uint_nat by linarith
  with y(1) have ne: "?es \<noteq> []" by (auto simp: filter_empty_conv)
  let ?x = "first_least ?f ?es"
  obtain as bs where ab: "?es = as @ ?x # bs" "\<forall>y \<in> set as. ?f ?x < ?f y" "\<forall>y \<in> set bs. ?f ?x \<le> ?f y"
    using first_least_props[OF ne, of ?f] by blast
  from filter_split[OF ab(1)] obtain us vs where
    *: "rs = us @ ?x # vs" "as = filter (\<lambda>x. ?f x < 11) us" "bs = filter (\<lambda>x. ?f x < 11) vs" by blast
  have x11: "?f ?x < 11" using first_least_mem[OF ne, of ?f] by simp
  have "?f ?x < ?f y" if "y \<in> set us" for y using that ab(2) *(2) x11 by (cases "?f y < 11"; cases y; fastforce)
  moreover have "?f ?x \<le> ?f y" if "y \<in> set vs" for y using that ab(3) *(3) x11 by (cases "?f y < 11"; cases y; fastforce)
  moreover have "Kernel_Select_Next_Task s = Some (fst ?x)"
    using select_scheduled[OF assms(1,2)] ne st by (simp add: assms(3)[symmetric] scheduled_def Let_def)
  ultimately show ?thesis using *(1) by (intro exI[of _ us] exI[of _ ?x] exI[of _ vs]) (simp add: word_less_def word_le_def)
qed

theorem select_highest_priority_witness:
  "Kernel_Select_Next_Task (ex_tasks (\<lambda>n. False) (\<lambda>i. 0) (ex_PD 2 6 READY (\<lambda>i. 0) 0) (ex_PD 3 5 READY (\<lambda>i. 0) 0)) = Some 31"
proof -
  let ?s = "ex_tasks (\<lambda>n. False) (\<lambda>i. 0) (ex_PD 2 6 READY (\<lambda>i. 0) 0) (ex_PD 3 5 READY (\<lambda>i. 0) 0)"
  have k: "kwf ?s" by (rule ex_tasks_kwf) (simp_all add: ex_PD_def)
  have n: "nodes ?s = ex_nodes_k" "Last_Dispatched ?s = 1" "pds ?s = [20 \<mapsto> ex_PD 1 5 RUNNING (\<lambda>i. 0) 0,
      21 \<mapsto> ex_PD 2 6 READY (\<lambda>i. 0) 0, 22 \<mapsto> ex_PD 3 5 READY (\<lambda>i. 0) 0]"
    by (simp_all add: ex_tasks_def ex_state_def)
  have l: "last_ok ?s" by (simp add: last_ok_def n)
  have "dispatch_order ?s = [(30, 21), (31, 22), (1, 20)]" by (simp add: dispatch_order_def n)
  then have r: "ready_tasks ?s = [(30, ex_PD 2 6 READY (\<lambda>i. 0) 0), (31, ex_PD 3 5 READY (\<lambda>i. 0) 0)]"
    by (simp add: ready_tasks_def n) (simp add: ex_PD_def)
  from select_highest_priority[OF k l r[symmetric]] show ?thesis
    by (auto simp: ex_PD_def Cons_eq_append_conv)
qed

text \<open>C15: The selection by starvation: a ready task that has waited 160 ticks or more is preferred to
  the task with the best priority only if some ready task visited before it has a priority at
  least as good; of the tasks preferred in this way the one that has waited least, and not the
  one that has waited most, is selected.\<close>

theorem select_starving_least:
  assumes "kwf s" "last_ok s" "starving (ready_tasks s) \<noteq> []"
  shows "\<exists>as x bs. starving (ready_tasks s) = as @ x # bs \<and> Kernel_Select_Next_Task s = Some (fst x) \<and>
    (\<forall>y \<in> set (as @ bs). starvation_ticks (snd x) \<le> starvation_ticks (snd y)) \<and>
    (\<exists>us vs. ready_tasks s = us @ x # vs \<and> ((\<exists>y \<in> set us. pri (snd y) \<le> pri (snd x)) \<or> LOWEST_PRIORITY < unat (pri (snd x))))"
proof -
  let ?f = "\<lambda>x. uint (starvation_ticks (snd (x :: addr \<times> PD)))"
  let ?x = "first_least ?f (starving (ready_tasks s))"
  obtain as bs where ab: "starving (ready_tasks s) = as @ ?x # bs" "\<forall>y \<in> set as. ?f ?x < ?f y" "\<forall>y \<in> set bs. ?f ?x \<le> ?f y"
    using first_least_props[OF assms(3), of ?f] by blast
  have sel: "Kernel_Select_Next_Task s = Some (fst ?x)"
    using select_scheduled[OF assms(1,2)] assms(3) by (simp add: scheduled_def)
  have le: "\<forall>y \<in> set (as @ bs). starvation_ticks (snd ?x) \<le> starvation_ticks (snd y)"
    using ab(2,3) by (auto simp: word_le_def)
  have po: "x \<in> set (passed_over m rs) \<Longrightarrow>
      (\<exists>us vs. rs = us @ x # vs \<and> (m \<le> uint (pri (snd x)) \<or> (\<exists>y \<in> set us. pri (snd y) \<le> pri (snd x))))" for x m rs
  proof (induction m rs rule: passed_over.induct)
    case (2 m y ys)
    show ?case
    proof (cases "uint (pri (snd y)) < m")
      case True
      with 2 obtain us vs where "ys = us @ x # vs"
        "uint (pri (snd y)) \<le> uint (pri (snd x)) \<or> (\<exists>y \<in> set us. pri (snd y) \<le> pri (snd x))" by auto
      then show ?thesis by (intro exI[of _ "y # us"] exI[of _ vs]) (auto simp: word_le_def)
    next
      case False
      show ?thesis
      proof (cases "x = y")
        case True
        with False show ?thesis by (intro exI[of _ "[]"] exI[of _ ys]) simp
      next
        case ne: False
        with 2 False obtain us vs where "ys = us @ x # vs"
          "m \<le> uint (pri (snd x)) \<or> (\<exists>y \<in> set us. pri (snd y) \<le> pri (snd x))" by auto
        then show ?thesis by (intro exI[of _ "y # us"] exI[of _ vs]) auto
      qed
    qed
  qed simp
  have "?x \<in> set (passed_over 11 (ready_tasks s))" using first_least_mem[OF assms(3), of ?f] by (simp add: starving_def)
  from po[OF this] obtain us vs where "ready_tasks s = us @ ?x # vs"
    "11 \<le> uint (pri (snd ?x)) \<or> (\<exists>y \<in> set us. pri (snd y) \<le> pri (snd ?x))" by blast
  moreover have "LOWEST_PRIORITY < unat q" if "11 \<le> uint q" for q :: u8 using that unfolding uint_nat by linarith
  ultimately have "\<exists>us vs. ready_tasks s = us @ ?x # vs \<and>
      ((\<exists>y \<in> set us. pri (snd y) \<le> pri (snd ?x)) \<or> LOWEST_PRIORITY < unat (pri (snd ?x)))" by blast
  with ab(1) sel le show ?thesis by blast
qed

lemma ex_tasks_facts:
  "nodes (ex_tasks om args d2 d3) = ex_nodes_k" "Last_Dispatched (ex_tasks om args d2 d3) = 1"
  "Current_Process (ex_tasks om args d2 d3) = 20"
  "pds (ex_tasks om args d2 d3) = [20 \<mapsto> ex_PD 1 5 RUNNING args 0, 21 \<mapsto> d2, 22 \<mapsto> d3]"
  "dispatch_order (ex_tasks om args d2 d3) = [(30, 21), (31, 22), (1, 20)]"
  "last_ok (ex_tasks om args d2 d3)"
  by (simp_all add: ex_tasks_def ex_state_def dispatch_order_def last_ok_def)

theorem select_starving_least_witness:
  "Kernel_Select_Next_Task (ex_tasks (\<lambda>n. False) (\<lambda>i. 0) ((ex_PD 2 5 READY (\<lambda>i. 0) 0))
     ((ex_PD 3 6 READY (\<lambda>i. 0) 0)\<lparr>starvation_ticks := 200\<rparr>)) = Some 31"
proof -
  let ?s = "ex_tasks (\<lambda>n. False) (\<lambda>i. 0) ((ex_PD 2 5 READY (\<lambda>i. 0) 0))
     ((ex_PD 3 6 READY (\<lambda>i. 0) 0)\<lparr>starvation_ticks := 200\<rparr>)"
  have k: "kwf ?s" by (rule ex_tasks_kwf) (simp_all add: ex_PD_def)
  have r: "starving (ready_tasks ?s) = [(31, (ex_PD 3 6 READY (\<lambda>i. 0) 0)\<lparr>starvation_ticks := 200\<rparr>)]"
    by (simp add: ready_tasks_def ex_tasks_facts ex_PD_def starving_def)
  from select_starving_least[OF k ex_tasks_facts(6)] r show ?thesis
    by (auto simp: Cons_eq_append_conv)
qed

text \<open>C9: A dispatch that returns has switched to one task of the process list: it is the current
  process and the task dispatched last, it is RUNNING with its starvation count reset and its
  stack pointer loaded, preemption is allowed again with a fresh time slice, and when at most the
  old current task was RUNNING before, the new one is the only RUNNING task.\<close>

theorem dispatch_switches:
  assumes "kwf s" "last_ok s" "running s \<subseteq> {Current_Process s}"
    and "Kernel_Dispatch_Next_Task env s = Some (s', env')"
  shows "kwf s' \<and> procs s' = procs s \<and> Current_Process s' \<in> set (procs s) \<and>
    (Last_Dispatched s', Current_Process s') \<in> set (entries (nodes s') ProcessList) \<and>
    running s' = {Current_Process s'} \<and>
    (\<exists>d. pds s' (Current_Process s') = Some d \<and> starvation_ticks d = 0 \<and> CurrentSp s' = sp d) \<and>
    Preemptive_Cswitch_Allowed s' = 1 \<and> Ticks_Since_Last_Cswitch s' = 0"
proof -
  obtain u n p d where D: "quiet (mark_ready s) u" "(n, p) \<in> set (entries (nodes s) ProcessList)" "p \<in> set (procs s)"
    "s' = switch_to n p d u" "kwf s'"
    by (rule dispatch_result[OF assms(1,2,4)]) (rule that)
  have n: "nodes u = nodes s" using D(1) by (simp add: quiet_def mark_ready_def Let_def)
  have "running (mark_ready s) = {}"
  proof -
    have "p = Current_Process s" if "pds s p = Some d" "state d = RUNNING" for p d
      using assms(3) that by (auto simp: running_def)
    then show ?thesis by (auto simp: running_def mark_ready_def Let_def split: if_splits)
  qed
  then have "running u = {}" using D(1) by (simp add: quiet_def)
  then have "running s' = {p}" unfolding D(4) by (auto simp: running_def switch_to_def split: if_splits)
  with D n show ?thesis by (simp add: switch_to_def)
qed

theorem dispatch_switches_witness:
  "\<exists>s'. Kernel_Dispatch_Next_Task [] (ex_tasks (\<lambda>n. False) (\<lambda>i. 0) (ex_PD 2 6 READY (\<lambda>i. 0) 0) (ex_PD 3 5 READY (\<lambda>i. 0) 0))
     = Some (s', []) \<and> running s' = {22}"
proof -
  let ?s = "ex_tasks (\<lambda>n. False) (\<lambda>i. 0) (ex_PD 2 6 READY (\<lambda>i. 0) 0) (ex_PD 3 5 READY (\<lambda>i. 0) 0)"
  have k: "kwf ?s" by (rule ex_tasks_kwf) (simp_all add: ex_PD_def)
  have b: "busy ?s"
    using k ex_tasks_facts(6)
    by (auto simp: busy_def ex_tasks_facts) (simp_all add: ex_PD_def)
  have "Tick_Count ?s = 0" by (simp add: ex_tasks_def ex_state_def)
  then have tc: "?s\<lparr>Tick_Count := 0\<rparr> = ?s" by simp
  have "scheduled (aged_tasks 0 ?s) = 31"
    by (simp add: aged_tasks_def ex_tasks_facts ex_PD_def aged_def scheduled_def starving_def)
  from busy_dispatch[OF b _ this, of 22] tc obtain u where
    u: "Kernel_Dispatch_Next_Task [] ?s = Some (switch_to 31 22 (aged 0 (the (pds ?s 22))) u, [])"
    by (auto simp: ex_tasks_facts)
  have "running ?s \<subseteq> {Current_Process ?s}"
    by (auto simp: running_def ex_tasks_facts ex_PD_def split: if_splits)
  from dispatch_switches[OF k ex_tasks_facts(6) this u] u show ?thesis by (simp add: switch_to_def)
qed

text \<open>C10: Round robin: tasks of one priority (at most 10), none of them waiting, all run in turn. After
  \<open>k\<close> dispatches, for any \<open>k\<close>, the current task is the one \<open>k\<close> places further in the process list, around its
  end, whatever numbers of ticks pass before the dispatches, as long as no task comes to wait 160 ticks for its
  turn.\<close>

theorem round_robin_cycles:
  assumes "busy s" "\<forall>p \<in> set (procs s). pri (the (pds s p)) = q" "unat q \<le> LOWEST_PRIORITY" "in_time i ts s"
    and "i < length (procs s)" "Last_Dispatched s = fst (entries (nodes s) ProcessList ! i)" "Current_Process s = procs s ! i"
  shows "\<exists>s'. rounds ts s = Some s' \<and> kwf s' \<and> Current_Process s' = procs s ! ((i + length ts) mod length (procs s))"
  by (rule round_robin_rounds[OF assms])

text \<open>Three tasks with time slices of 25 ticks, for any number of dispatches.\<close>

theorem round_robin_cycles_witness:
  "\<forall>n. \<exists>s'. rounds (replicate n 25) (ex_tasks (\<lambda>n. False) (\<lambda>i. 0) (ex_PD 2 5 READY (\<lambda>i. 0) 0) (ex_PD 3 5 READY (\<lambda>i. 0) 0))
     = Some s' \<and> Current_Process s' = [20, 21, 22] ! (n mod 3)"
proof
  fix n
  let ?s = "ex_tasks (\<lambda>n. False) (\<lambda>i. 0) (ex_PD 2 5 READY (\<lambda>i. 0) 0) (ex_PD 3 5 READY (\<lambda>i. 0) 0)"
  have k: "kwf ?s" by (rule ex_tasks_kwf) (simp_all add: ex_PD_def)
  have b: "busy ?s"
    using k ex_tasks_facts(6)
    by (auto simp: busy_def ex_tasks_facts) (simp_all add: ex_PD_def)
  have e: "\<forall>p \<in> set (procs ?s). pri (the (pds ?s p)) = 5" "\<forall>p \<in> set (procs ?s). starvation_ticks (the (pds ?s p)) = 0"
    by (auto simp: ex_tasks_facts ex_PD_def)
  have l: "length (procs ?s) = 3" by (simp add: ex_tasks_facts)
  have r: "(\<Sum>t\<leftarrow>take k (drop m (replicate n (25 :: u16))). unat t) \<le> 25 * k" for k m
    by (simp add: take_replicate sum_list_replicate)
  have "in_time 0 (replicate n 25) ?s"
    unfolding in_time_def l
  proof (intro conjI allI impI)
    fix k :: nat assume k: "k < 3"
    have "procs ?s ! ((0 + Suc k) mod 3) \<in> set (procs ?s)" by (rule nth_mem) (simp add: l)
    with e(2) r[of "Suc k" 0] k show "unat (starvation_ticks (the (pds ?s (procs ?s ! ((0 + Suc k) mod 3))))) +
        (\<Sum>t\<leftarrow>take (Suc k) (replicate n (25 :: u16)). unat t) < STARVATION_MAX" by simp
  next
    fix k show "(\<Sum>t\<leftarrow>take 3 (drop k (replicate n (25 :: u16))). unat t) < STARVATION_MAX" using r[of 3 k] by simp
  qed
  moreover have "unat (5 :: u8) \<le> 10" "0 < length (procs ?s)" "Last_Dispatched ?s = fst (entries (nodes ?s) ProcessList ! 0)"
    "Current_Process ?s = procs ?s ! 0" by (simp_all add: ex_tasks_facts)
  ultimately show "\<exists>s'. rounds (replicate n 25) ?s = Some s' \<and> Current_Process s' = [20, 21, 22] ! (n mod 3)"
    using round_robin_cycles[OF b e(1)] l by (fastforce simp: ex_tasks_facts)
qed

text \<open>C13: Starvation is not prevented in general: when the tasks that follow the running one in the
  dispatch order are ready with ever better priorities, up to the running task itself, every
  dispatch selects the running task again, for any number of dispatches and however many ticks
  the others have waited, since a task that improves on the best priority seen so far is never
  looked at for starvation.\<close>

theorem starvation_not_prevented:
  assumes "busy s" "decreasing s" "dispatch_order s = as @ [(Last_Dispatched s, Current_Process s)]"
  shows "\<exists>s'. rounds ts s = Some s' \<and> Current_Process s' = Current_Process s \<and>
    (\<forall>p \<in> set (procs s). p \<noteq> Current_Process s \<longrightarrow> starvation_ticks (the (pds s' p)) =
       starvation_ticks (the (pds s p)) + sum_list ts)"
  by (rule starved_rounds[OF assms])

theorem starvation_not_prevented_witness:
  "\<exists>s'. rounds [10000, 10000, 10000] (ex_tasks (\<lambda>n. False) (\<lambda>i. 0) (ex_PD 2 7 READY (\<lambda>i. 0) 0) (ex_PD 3 6 READY (\<lambda>i. 0) 0))
     = Some s' \<and> Current_Process s' = 20 \<and> starvation_ticks (the (pds s' 21)) = 30000"
proof -
  let ?s = "ex_tasks (\<lambda>n. False) (\<lambda>i. 0) (ex_PD 2 7 READY (\<lambda>i. 0) 0) (ex_PD 3 6 READY (\<lambda>i. 0) 0)"
  have k: "kwf ?s" by (rule ex_tasks_kwf) (simp_all add: ex_PD_def)
  have b: "busy ?s"
    using k ex_tasks_facts(6)
    by (auto simp: busy_def ex_tasks_facts) (simp_all add: ex_PD_def)
  have d: "decreasing ?s" by (simp add: decreasing_def ex_tasks_facts) (simp add: ex_PD_def)
  have o: "dispatch_order ?s = [(30, 21), (31, 22)] @ [(Last_Dispatched ?s, Current_Process ?s)]"
    by (simp add: ex_tasks_facts)
  have "starvation_ticks (the (pds ?s 21)) = 0" "21 \<in> set (procs ?s)" by (simp_all add: ex_tasks_facts ex_PD_def)
  with starvation_not_prevented[OF b d o, of "[10000, 10000, 10000]"] show ?thesis by (auto simp: ex_tasks_facts(3))
qed

lemma dispatch_reads:
  assumes "Kernel_Dispatch_Next_Task env s = Some r"
  obtains s2 t m where "s2 = s\<lparr>Preemptive_Cswitch_Allowed := 0\<rparr> \<or>
      upd_cur (\<lambda>d. d\<lparr>state := READY\<rparr>) (s\<lparr>Preemptive_Cswitch_Allowed := 0\<rparr>) = Some s2"
    and "Kernel_Tick_Handler s2 = Some t" and "Kernel_Select_Next_Task t = Some m"
proof -
  let ?s1 = "s\<lparr>Preemptive_Cswitch_Allowed := 0\<rparr>"
  from assms obtain d :: PD and s2 t m where c: "(if state d = RUNNING then upd_cur (\<lambda>d. d\<lparr>state := READY\<rparr>) ?s1 else Some ?s1) = Some s2"
    "Kernel_Tick_Handler s2 = Some t" "Kernel_Select_Next_Task t = Some m"
    unfolding Kernel_Dispatch_Next_Task_def Let_def by (elim bind_SomeE) (rule that)
  then show ?thesis by (intro that[of s2 t m]) (auto split: if_splits)
qed

lemma dispatch_selects:
  assumes "kwf s" "Kernel_Dispatch_Next_Task env s = Some r"
  obtains t m where "nodes t = nodes s" and "Last_Dispatched t = Last_Dispatched s" and "Task_Count t = Task_Count s"
    and "Kernel_Select_Next_Task t = Some m"
proof -
  obtain s2 t m where c: "s2 = s\<lparr>Preemptive_Cswitch_Allowed := 0\<rparr> \<or>
      upd_cur (\<lambda>d. d\<lparr>state := READY\<rparr>) (s\<lparr>Preemptive_Cswitch_Allowed := 0\<rparr>) = Some s2"
    "Kernel_Tick_Handler s2 = Some t" "Kernel_Select_Next_Task t = Some m"
    by (rule dispatch_reads[OF assms(2)])
  have "kwf (s\<lparr>Preemptive_Cswitch_Allowed := 0\<rparr>)" using assms(1) by simp
  then have "kwf s2" using c(1) kwf_upd_cur[of _ "s\<lparr>Preemptive_Cswitch_Allowed := 0\<rparr>"] by fastforce
  then have t: "nodes s2 = nodes s" "Last_Dispatched s2 = Last_Dispatched s" "Task_Count s2 = Task_Count s" "kwf s2"
    "Kernel_Tick_Handler s2 = Some t" using c by (auto simp: upd_cur_iff)
  have "nodes t = nodes s \<and> Last_Dispatched t = Last_Dispatched s \<and> Task_Count t = Task_Count s"
  proof (cases "procs s2 = []")
    case True
    with tick_handler_empty[OF t(4)] t show ?thesis by (auto simp: Kernel_Tick_Handler_def split: if_splits)
  next
    case False
    with tick_handler[OF t(4)] t show ?thesis by (auto simp: ticked_def split: if_splits)
  qed
  with c(3) show ?thesis by (intro that[of t m]) simp_all
qed

text \<open>The node of the last dispatched task must exist.\<close>

lemma dispatch_dangling:
  assumes "kwf s" "nodes s (Last_Dispatched s) = None"
  shows "Kernel_Dispatch_Next_Task env s = None"
proof (rule ccontr)
  assume "Kernel_Dispatch_Next_Task env s \<noteq> None"
  then obtain r where "Kernel_Dispatch_Next_Task env s = Some r" by auto
  then obtain t m where "nodes t = nodes s" "Last_Dispatched t = Last_Dispatched s" "Kernel_Select_Next_Task t = Some m"
    by (rule dispatch_selects[OF assms(1)])
  with assms(2) show False
    by (auto simp: Kernel_Select_Next_Task_def ptrlist_cnext_def rd_def elim!: bind_SomeE split: if_splits)
qed

text \<open>The node that the running task has in the process list is the one dispatched last.\<close>

lemma terminate_node:
  assumes "kwf s" "(Last_Dispatched s, Current_Process s) \<in> set (entries (nodes s) ProcessList)"
    and "Kernel_Terminate_Task s = Some s'"
  shows "Last_Dispatched s' = Last_Dispatched s" and "Current_Process s' = Current_Process s"
    and "procs s' = remove1 (Current_Process s) (procs s)" and "Kernel_Request_Cswitch s' = 1"
    and "Last_Dispatched s \<noteq> ProcessList \<Longrightarrow> nodes s' (Last_Dispatched s') = None"
    and "pds s' = (pds s)(Current_Process s \<mapsto> the (pds s (Current_Process s))\<lparr>state := DEAD\<rparr>)"
proof -
  let ?p = "Current_Process s"
  obtain d b h n where T: "cur_pd s = Some d" "s' = terminated ?p d b h s" "contents h ProcessList = remove1 ?p (procs s)"
    "(n, ?p) \<in> set (entries (nodes s) ProcessList)" "n \<noteq> ProcessList \<Longrightarrow> h n = None" "?p \<in> set (procs s)"
    by (rule terminate_effect[OF assms(1,3)]) (rule that)
  have ne: "procs s \<noteq> []" using T(6) by auto
  have "distinct (map snd (entries (nodes s) ProcessList))"
    using kwf_procs(1,2)[OF assms(1) ne] by simp
  with assms(2) T(4) have "n = Last_Dispatched s"
    by (metis (mono_tags, lifting) distinct_map inj_onD prod.inject snd_conv)
  with T(5) show "Last_Dispatched s \<noteq> ProcessList \<Longrightarrow> nodes s' (Last_Dispatched s') = None"
    by (simp add: T(2) terminated_def)
  show "Last_Dispatched s' = Last_Dispatched s" "Current_Process s' = ?p" "Kernel_Request_Cswitch s' = 1"
    by (simp_all add: T(2) terminated_def)
  have "nodes s' = h" by (simp add: T(2) terminated_def)
  then show "procs s' = remove1 ?p (procs s)" by (simp only: T(3))
  have "pds s ?p = Some d" using T(1) by (simp add: cur_pd_def rd_Some_iff)
  then show "pds s' = (pds s)(?p \<mapsto> the (pds s ?p)\<lparr>state := DEAD\<rparr>)" by (simp add: T(2) terminated_def)
qed

text \<open>C14: A task that terminates anywhere but at the head of the process list leaves \<open>Last_Dispatched\<close>
  pointing to the node that was freed: the dispatch that follows its termination reads freed
  memory, so it has no defined result.\<close>

theorem terminate_leaves_dangling_node:
  assumes "kwf s" "(Last_Dispatched s, Current_Process s) \<in> set (entries (nodes s) ProcessList)"
    and "Last_Dispatched s \<noteq> ProcessList" "Kernel_Terminate_Task s = Some s'"
  shows "nodes s' (Last_Dispatched s') = None \<and> Kernel_Dispatch_Next_Task env s' = None"
  using terminate_node(5)[OF assms(1,2,4,3)] dispatch_dangling[OF kwf_Kernel_Terminate_Task[OF assms(1,4)]] by simp

theorem terminate_leaves_dangling_node_witness:
  "\<exists>s'. Kernel_Terminate_Task ((ex_tasks (\<lambda>n. False) (\<lambda>i. 0) (ex_PD 2 5 RUNNING (\<lambda>i. 0) 0) (ex_PD 3 5 READY (\<lambda>i. 0) 0))
     \<lparr>Current_Process := 21, Last_Dispatched := 30\<rparr>) = Some s' \<and> nodes s' 30 = None \<and> Kernel_Dispatch_Next_Task [] s' = None"
proof -
  let ?t = "ex_tasks (\<lambda>n. False) (\<lambda>i. 0) (ex_PD 2 5 RUNNING (\<lambda>i. 0) 0) (ex_PD 3 5 READY (\<lambda>i. 0) 0)"
  let ?s = "?t\<lparr>Current_Process := 21, Last_Dispatched := 30\<rparr>"
  have "kwf ?t" by (rule ex_tasks_kwf) (simp_all add: ex_PD_def)
  from kwf_set_current[OF this, of 21] have "kwf (?t\<lparr>Current_Process := 21\<rparr>)" by (simp add: ex_tasks_facts)
  then have k: "kwf ?s" by (subst kwf_scalars(4))
  have "\<exists>s'. Kernel_Terminate_Task ?s = Some s' \<and> Last_Dispatched s' = 30"
    by (simp add: Kernel_Terminate_Task_def ex_tasks_eval upd_cur_def upd_pd_def cur_pd_def free_def ex_PD_def Let_def
        ptrlist_find.simps remove_from_list_def ptrlist_remove_def pred_loop.simps)
  then obtain s' where s': "Kernel_Terminate_Task ?s = Some s'" "Last_Dispatched s' = 30" by blast
  have "(Last_Dispatched ?s, Current_Process ?s) \<in> set (entries (nodes ?s) ProcessList)" "Last_Dispatched ?s \<noteq> ProcessList"
    by (simp_all add: ex_tasks_facts) (simp add: list_heads)
  from terminate_leaves_dangling_node[OF k this s'(1)] s' show ?thesis by auto
qed

end
