(* ===== verification/Semaphore.thy ===== *)
theory Semaphore
  imports Examples
begin

text \<open>
  The semaphore module, \<open>semaphore/semaphore.c\<close>: counting and binary semaphores with a queue
  of waiting tasks.
\<close>

section \<open>Operations\<close>

definition upd_sem :: "addr \<Rightarrow> (SEMAPHORE_TYPE \<Rightarrow> SEMAPHORE_TYPE) \<Rightarrow> kstate \<Rightarrow> kstate option" where
  "upd_sem p f s = do { h \<leftarrow> wr (semaphores s) p f; Some (s\<lparr>semaphores := h\<rparr>) }"

definition Semaphore_Reset :: "kstate \<Rightarrow> kstate" where
  "Semaphore_Reset s = s\<lparr>Semaphore_Count := 0, Last_SemaphoreID := 0,
     nodes := (nodes s)(SemaphoreList \<mapsto> \<lparr>pl_ptr = NULL, pl_next = NULL\<rparr>)\<rparr>"

definition findSemaphoreByID :: "u16 \<Rightarrow> kstate \<Rightarrow> addr option" where
  "findSemaphoreByID i s = find_obj (nodes s) (semaphores s) (\<lambda>x. sem_id x = i) SemaphoreList"

text \<open>\<open>initial_count\<close> is an \<open>int\<close>. Every field of the new object is written.\<close>

definition Kernel_Create_Semaphore_Direct :: "u16 \<Rightarrow> u16 \<Rightarrow> kstate \<Rightarrow> (u16 \<times> kstate) option" where
  "Kernel_Create_Semaphore_Direct initial_count binary s =
     (if MAXSEMAPHORE \<le> unat (Semaphore_Count s) then Some (0, kernel_raise_error MAX_OBJECT_ERR s)
      else do {
        let (p, s) = malloc_k s;
        s \<leftarrow> add_to_list SemaphoreList p (s\<lparr>semaphores := put_obj (semaphores s) p
               \<lparr>sem_id = 0, sem_count = 0, is_binary = 0, sem_wait_queue = new_ptr_queue\<rparr>\<rparr>);
        let s = s\<lparr>Semaphore_Count := Semaphore_Count s + 1, Last_SemaphoreID := Last_SemaphoreID s + 1\<rparr>;
        s \<leftarrow> upd_sem p (\<lambda>m. m\<lparr>sem_id := Last_SemaphoreID s, sem_wait_queue := new_ptr_queue\<rparr>) s;
        s \<leftarrow> (if 0 < unat binary
              then upd_sem p (\<lambda>m. m\<lparr>is_binary := 1, sem_count := (if 1 \<le> sint initial_count then 1 else 0)\<rparr>) s
              else upd_sem p (\<lambda>m. m\<lparr>is_binary := 0, sem_count := initial_count\<rparr>) s);
        m \<leftarrow> rd (semaphores s) p;
        Some (sem_id m, s)
      })"

definition Kernel_Create_Semaphore :: "kstate \<Rightarrow> kstate option" where
  "Kernel_Create_Semaphore s = do {
     c \<leftarrow> req_arg 0 s;
     b \<leftarrow> req_arg 1 s;
     (r, s) \<leftarrow> Kernel_Create_Semaphore_Direct c b s;
     upd_cur (\<lambda>d. d\<lparr>request_retval := r\<rparr>) s
   }"

text \<open>
  The loop variable \<open>sem\<close> is a null pointer only if the list was never entered, which cannot
  happen: the test of the code is on the last object looked at.
\<close>

definition Kernel_Destroy_Semaphore :: "kstate \<Rightarrow> kstate option" where
  "Kernel_Destroy_Semaphore s = do {
     a \<leftarrow> req_arg 0 s;
     (i, sem) \<leftarrow> find_node (nodes s) (semaphores s) (\<lambda>x. sem_id x = a) SemaphoreList NULL;
     if sem = NULL then Some (kernel_raise_error OBJECT_NOT_FOUND_ERR s)
     else do {
       h \<leftarrow> free (semaphores s) sem;
       s \<leftarrow> remove_from_list SemaphoreList i (s\<lparr>semaphores := h\<rparr>);
       Some (s\<lparr>Semaphore_Count := Semaphore_Count s - 1\<rparr>)
     }
   }"

text \<open>
  Waking waiting tasks: as long as the count covers the amount wanted by the head of the queue,
  the head is woken and dequeued. The argument of the head is read before the test that there
  is a head.
\<close>

partial_function (option) get_from_queue :: "addr \<Rightarrow> addr \<Rightarrow> kstate \<Rightarrow> kstate option" where
  "get_from_queue sem head s = do {
     m \<leftarrow> rd (semaphores s) sem;
     d \<leftarrow> rd (pds s) head;
     r \<leftarrow> int_sub (sem_count m) (request_args d 1);
     if sint r \<ge> 0
     then if state d \<noteq> WAIT_SEMAPHORE
       then Some (kernel_raise_error UNPROCESSABLE_TASK_STATE_ERR s)
       else do {
         s \<leftarrow> upd_sem sem (\<lambda>m. m\<lparr>sem_count := r\<rparr>) s;
         s \<leftarrow> upd_pd head (\<lambda>d. d\<lparr>state := READY\<rparr>) s;
         m \<leftarrow> rd (semaphores s) sem;
         (v, h, q) \<leftarrow> dequeue_int (qelems s) (sem_wait_queue m);
         s \<leftarrow> upd_sem sem (\<lambda>m. m\<lparr>sem_wait_queue := q\<rparr>) (s\<lparr>qelems := h\<rparr>);
         head \<leftarrow> queue_peek_ptr h q;
         get_from_queue sem head s
       }
     else Some s
   }"

definition Kernel_Semaphore_Get_From_Queue :: "addr \<Rightarrow> kstate \<Rightarrow> kstate option" where
  "Kernel_Semaphore_Get_From_Queue sem s = do {
     m \<leftarrow> rd (semaphores s) sem;
     head \<leftarrow> queue_peek_ptr (qelems s) (sem_wait_queue m);
     get_from_queue sem head s
   }"

text \<open>\<open>req_amount\<close> is the task's own request argument, which a binary semaphore clips to 0 or 1.\<close>

definition clip_amount :: "u16 \<Rightarrow> u16" where
  "clip_amount a = (if sint a > 1 then 1 else if sint a < 0 then 0 else a)"

definition Kernel_Semaphore_Get :: "kstate \<Rightarrow> kstate option" where
  "Kernel_Semaphore_Get s = do {
     a \<leftarrow> req_arg 0 s;
     sem \<leftarrow> findSemaphoreByID a s;
     if sem = NULL then Some (kernel_raise_error OBJECT_NOT_FOUND_ERR s)
     else do {
       m \<leftarrow> rd (semaphores s) sem;
       s \<leftarrow> (if is_binary m \<noteq> 0
             then upd_cur (\<lambda>d. d\<lparr>request_args := (request_args d)(1 := clip_amount (request_args d 1))\<rparr>) s
             else Some s);
       n \<leftarrow> req_arg 1 s;
       has_enough \<leftarrow> int_sub (sem_count m) n;
       if sint has_enough < 0
       then do {
         (r, al, h, q) \<leftarrow> enqueue_ptr (alloc s) (qelems s) (sem_wait_queue m) (Current_Process s);
         s \<leftarrow> upd_sem sem (\<lambda>m. m\<lparr>sem_wait_queue := q\<rparr>) (s\<lparr>alloc := al, qelems := h\<rparr>);
         s \<leftarrow> upd_cur (\<lambda>d. d\<lparr>state := WAIT_SEMAPHORE\<rparr>) s;
         Some (s\<lparr>Kernel_Request_Cswitch := 1\<rparr>)
       }
       else upd_sem sem (\<lambda>m. m\<lparr>sem_count := has_enough\<rparr>) s
     }
   }"

definition Kernel_Semaphore_Give :: "kstate \<Rightarrow> kstate option" where
  "Kernel_Semaphore_Give s = do {
     a \<leftarrow> req_arg 0 s;
     sem \<leftarrow> findSemaphoreByID a s;
     if sem = NULL then Some (kernel_raise_error OBJECT_NOT_FOUND_ERR s)
     else do {
       m \<leftarrow> rd (semaphores s) sem;
       n \<leftarrow> req_arg 1 s;
       c \<leftarrow> int_add (sem_count m) n;
       s \<leftarrow> upd_sem sem (\<lambda>m. m\<lparr>sem_count := c\<rparr>) s;
       s \<leftarrow> (if is_binary m \<noteq> 0 \<and> sint c > 1 then upd_sem sem (\<lambda>m. m\<lparr>sem_count := 1\<rparr>) s else Some s);
       m \<leftarrow> rd (semaphores s) sem;
       if sint (sem_count m) > 0 \<and> 0 < q_count (sem_wait_queue m)
       then Kernel_Semaphore_Get_From_Queue sem s
       else Some s
     }
   }"

section \<open>The table of semaphores\<close>

abbreviation sems :: "kstate \<Rightarrow> addr list" where
  "sems s \<equiv> contents (nodes s) SemaphoreList"

definition sem_ids :: "kstate \<Rightarrow> u16 list" where
  "sem_ids s = map (\<lambda>p. sem_id (the (semaphores s p))) (sems s)"

lemma upd_sem_iff: "upd_sem p f s = Some s' \<longleftrightarrow>
    (\<exists>m. rd (semaphores s) p = Some m \<and> s' = s\<lparr>semaphores := (semaphores s)(p \<mapsto> f m)\<rparr>)"
  by (cases "rd (semaphores s) p") (auto simp: upd_sem_def wr_def)

text \<open>The semaphore a creation makes.\<close>

definition new_semaphore :: "u16 \<Rightarrow> u16 \<Rightarrow> u16 \<Rightarrow> SEMAPHORE_TYPE" where
  "new_semaphore i c b = \<lparr>sem_id = i, sem_count = (if b = 0 then c else if 1 \<le> sint c then 1 else 0),
     is_binary = (if b = 0 then 0 else 1), sem_wait_queue = new_ptr_queue\<rparr>"

definition with_semaphore :: "addr \<Rightarrow> SEMAPHORE_TYPE \<Rightarrow> allocator \<Rightarrow> PtrList heap \<Rightarrow> kstate \<Rightarrow> kstate" where
  "with_semaphore p m al h s = s\<lparr>alloc := al, nodes := h, semaphores := (semaphores s)(p \<mapsto> m),
     Semaphore_Count := Semaphore_Count s + 1, Last_SemaphoreID := Last_SemaphoreID s + 1\<rparr>"

lemma create_semaphore_full:
  "kwf s \<Longrightarrow> length (sems s) = MAXSEMAPHORE \<Longrightarrow>
   Kernel_Create_Semaphore_Direct c b s = Some (0, s\<lparr>err := MAX_OBJECT_ERR\<rparr>)"
  using table_wf_count[OF kwf_tables(5)[of s]] by (simp add: Kernel_Create_Semaphore_Direct_def)

lemma create_semaphore_new:
  assumes kwf: "kwf s" and room: "length (sems s) < MAXSEMAPHORE"
    and cr: "Kernel_Create_Semaphore_Direct c b s = Some (i, s')"
  obtains p al h where "i = Last_SemaphoreID s + 1" and "link_new SemaphoreList p s al h"
    and "s' = with_semaphore p (new_semaphore i c b) al h s"
proof -
  have "\<not> MAXSEMAPHORE \<le> unat (Semaphore_Count s)"
    using room table_wf_count[OF kwf_tables(5)[OF kwf]] by simp
  moreover obtain p s1 where m: "malloc_k s = (p, s1)" by fastforce
  moreover obtain al1 where s1: "s1 = s\<lparr>alloc := al1\<rparr>" using m by (auto simp: malloc_k_iff)
  moreover have p: "p \<noteq> NULL"
    using cr calculation
    by (auto simp: Kernel_Create_Semaphore_Direct_def put_obj_def upd_sem_iff elim!: bind_SomeE)
  moreover from calculation cr obtain s3 where
    s3: "add_to_list SemaphoreList p (s1\<lparr>semaphores := (semaphores s)(p \<mapsto>
          \<lparr>sem_id = 0, sem_count = 0, is_binary = 0, sem_wait_queue = new_ptr_queue\<rparr>)\<rparr>) = Some s3"
    by (auto simp: Kernel_Create_Semaphore_Direct_def put_obj_def elim!: bind_SomeE)
  moreover from malloc_add[OF kwf_parts(1)[OF kwf] _ m p s3] s1
  obtain al h where h: "s3 = s1\<lparr>semaphores := (semaphores s)(p \<mapsto>
        \<lparr>sem_id = 0, sem_count = 0, is_binary = 0, sem_wait_queue = new_ptr_queue\<rparr>),
        alloc := al, nodes := h\<rparr>" "link_new SemaphoreList p s al h"
    by auto
  ultimately show ?thesis
    using cr
    by (intro that[of p al h])
      (auto simp: Kernel_Create_Semaphore_Direct_def put_obj_def upd_sem_def wr_def rd_def
        new_semaphore_def with_semaphore_def word_gt_0 unat_gt_0 split: if_splits)
qed

lemma kwf_with_semaphore:
  assumes kwf: "kwf s" and room: "length (sems s) < MAXSEMAPHORE" and lst: "Last_SemaphoreID s \<noteq> - 1"
    and lnk: "link_new SemaphoreList p s al h" and m: "sem_id m = Last_SemaphoreID s + 1"
    "sem_wait_queue m = new_ptr_queue"
  shows "kwf (with_semaphore p m al h s)"
    and "sem_ids (with_semaphore p m al h s) = sem_ids s @ [Last_SemaphoreID s + 1]"
proof -
  note M = link_new_mem[OF lnk kwf_parts(1)[OF kwf]] and C = link_new_contents[OF lnk]
  have new: "semaphores s p = None"
    using kwf by (intro link_new_fresh[OF lnk]) (simp add: kwf_defs)
  then have p: "p \<notin> set (sems s)" using table_wf_obj[OF kwf_tables(5)[OF kwf], of p] by auto
  have t: "table_wf (sems s @ [p]) ((semaphores s)(p \<mapsto> m)) sem_id (Semaphore_Count s + 1)
      (Last_SemaphoreID s + 1) MAXSEMAPHORE"
    by (rule table_wf_add[OF kwf_tables(5)[OF kwf] p room _ lst m(1)]) simp
  have "queues_of s (SemWait p) = None" using new by simp
  then have q: "queues_inv (qelems s) ((queues_of s)(SemWait p \<mapsto> sem_wait_queue m))
      (key_target (pds s) (mail_objs s))"
    by (intro queues_inv_new[OF kwf_parts(3)[OF kwf]]) (simp_all add: m new_ptr_queue_def queue_rep_def)
  show "kwf (with_semaphore p m al h s)"
    using kwf_tables[OF kwf] kwf_parts(4)[OF kwf] M t q
    by (simp add: kwf_defs with_semaphore_def C queues_in_sem)
  have "map (\<lambda>q. sem_id (the (((semaphores s)(p \<mapsto> m)) q))) (sems s) = sem_ids s"
    using p by (auto simp: sem_ids_def)
  then show "sem_ids (with_semaphore p m al h s) = sem_ids s @ [Last_SemaphoreID s + 1]"
    by (simp add: sem_ids_def with_semaphore_def C m)
qed

lemma create_semaphore_plenty:
  assumes kwf: "kwf s" and room: "length (sems s) < MAXSEMAPHORE" and pl: "plenty (alloc s) (Suc (Suc n))"
  obtains s' where "Kernel_Create_Semaphore_Direct c b s = Some (Last_SemaphoreID s + 1, s')"
    and "plenty (alloc s') n"
proof -
  have full: "\<not> MAXSEMAPHORE \<le> unat (Semaphore_Count s)"
    using room table_wf_count[OF kwf_tables(5)[OF kwf]] by simp
  obtain p s1 where m: "malloc_k s = (p, s1)" "p \<noteq> NULL"
    "\<And>s2. alloc s2 = alloc s1 \<Longrightarrow> nodes s2 = nodes s \<Longrightarrow>
      \<exists>al h. add_to_list SemaphoreList p s2 = Some (s2\<lparr>alloc := al, nodes := h\<rparr>) \<and> plenty al n"
    by (rule malloc_add_plenty[OF kwf_parts(1)[OF kwf] in_LISTS(5) pl]) (rule that)
  have s1: "nodes s1 = nodes s" "semaphores s1 = semaphores s" "Last_SemaphoreID s1 = Last_SemaphoreID s"
    using m(1) by (auto simp: malloc_k_iff)
  let ?s2 = "s1\<lparr>semaphores := (semaphores s)(p \<mapsto>
    \<lparr>sem_id = 0, sem_count = 0, is_binary = 0, sem_wait_queue = new_ptr_queue\<rparr>)\<rparr>"
  obtain al h where "add_to_list SemaphoreList p ?s2 = Some (?s2\<lparr>alloc := al, nodes := h\<rparr>)" "plenty al n"
    using m(3)[of ?s2] s1 by auto
  then have "\<exists>s'. Kernel_Create_Semaphore_Direct c b s = Some (Last_SemaphoreID s + 1, s') \<and> plenty (alloc s') n"
    using full m(1,2) s1
    by (simp add: Kernel_Create_Semaphore_Direct_def put_obj_def upd_sem_def wr_def rd_def)
  then show ?thesis using that by blast
qed

interpretation sm: kernel_objects kwf sem_ids Last_SemaphoreID MAXSEMAPHORE "\<lambda>_. True"
  findSemaphoreByID "Kernel_Create_Semaphore_Direct c b" for c b
proof
  fix s i s'
  assume kwf: "kwf s"
  note t = kwf_tables(5)[OF kwf] and L = kwf_lists[OF kwf]
  show "0 < i \<and> i \<le> Last_SemaphoreID s" if "i \<in> set (sem_ids s)"
    using ids_bounds[OF t] that by (simp add: sem_ids_def)
  show "sorted_wrt (<) (sem_ids s)" using table_wf_sorted[OF t] by (simp add: sem_ids_def)
  show "length (sem_ids s) \<le> MAXSEMAPHORE" using table_wf_count[OF t] by (simp add: sem_ids_def)
  show "\<exists>s'. Kernel_Create_Semaphore_Direct c b s = Some (0, s') \<and> kwf s' \<and> sem_ids s' = sem_ids s \<and>
      Last_SemaphoreID s' = Last_SemaphoreID s" if "length (sem_ids s) = MAXSEMAPHORE"
    using create_semaphore_full[OF kwf, of c b] that kwf by (simp add: sem_ids_def)
  show "kwf s' \<and> i = Last_SemaphoreID s + 1 \<and> Last_SemaphoreID s' = i \<and> sem_ids s' = sem_ids s @ [i]"
    if lst: "Last_SemaphoreID s \<noteq> - 1" and cr: "Kernel_Create_Semaphore_Direct c b s = Some (i, s')"
      and i: "i \<noteq> 0"
  proof -
    have room: "length (sems s) < MAXSEMAPHORE"
      using create_semaphore_full[OF kwf, of c b] table_wf_count[OF t] cr i by fastforce
    obtain p al h where n: "i = Last_SemaphoreID s + 1" "link_new SemaphoreList p s al h"
      "s' = with_semaphore p (new_semaphore i c b) al h s"
      by (rule create_semaphore_new[OF kwf room cr])
    have "sem_id (new_semaphore i c b) = Last_SemaphoreID s + 1"
      "sem_wait_queue (new_semaphore i c b) = new_ptr_queue" by (simp_all add: new_semaphore_def n(1))
    from kwf_with_semaphore[OF kwf room lst n(2) this] n show ?thesis by (simp add: with_semaphore_def)
  qed
  show "\<exists>p. findSemaphoreByID i s = Some p \<and> (p \<noteq> NULL \<longleftrightarrow> i \<in> set (sem_ids s))" if "sem_ids s \<noteq> []"
    using find_obj_ids[OF L _ t, of i] that by (simp add: findSemaphoreByID_def sem_ids_def)
  show "findSemaphoreByID i s = None" if "sem_ids s = []"
    using find_obj_table(1)[OF L _ t] that by (simp add: findSemaphoreByID_def sem_ids_def)
qed

section \<open>The operations keep the invariant\<close>

lemma kwf_sem:
  assumes kwf: "kwf s" and m: "semaphores s p = Some m"
    and q: "queues_inv h ((queues_of s)(SemWait p \<mapsto> sem_wait_queue m')) (key_target (pds s) (mail_objs s))"
    and al: "fresh_above al h" "brk (alloc s) \<le> brk al" and id: "sem_id m' = sem_id m"
  shows "kwf (s\<lparr>alloc := al, qelems := h, semaphores := (semaphores s)(p \<mapsto> m')\<rparr>)"
proof -
  have t: "table_wf (sems s) ((semaphores s)(p \<mapsto> m')) sem_id (Semaphore_Count s)
      (Last_SemaphoreID s) MAXSEMAPHORE"
    by (rule table_wf_upd[OF kwf_tables(5)[OF kwf]]) (simp add: m id)
  have "fresh_above (alloc s) ((semaphores s)(p \<mapsto> m'))"
    by (rule fresh_above_upd[where w = m]) (use kwf m in \<open>simp_all add: kwf_defs\<close>)
  then have f: "fresh_above al ((semaphores s)(p \<mapsto> m'))" by (rule fresh_above_mono[OF _ al(2)])
  show ?thesis
    using kwf t q f al by (auto simp: kwf_defs queues_in_sem intro: fresh_above_mono)
qed

lemma kwf_upd_sem:
  assumes u: "upd_sem p f s = Some s'" and kwf: "kwf s"
    and f: "\<And>m. sem_id (f m) = sem_id m" "\<And>m. sem_wait_queue (f m) = sem_wait_queue m"
  shows "kwf s'"
proof -
  obtain m where m: "semaphores s p = Some m" "s' = s\<lparr>semaphores := (semaphores s)(p \<mapsto> f m)\<rparr>"
    using u by (auto simp: upd_sem_iff rd_Some_iff)
  have "queues_inv (qelems s) ((queues_of s)(SemWait p \<mapsto> sem_wait_queue (f m)))
      (key_target (pds s) (mail_objs s))"
    by (rule queues_inv_same[OF kwf_parts(3)[OF kwf]]) (simp add: m f)
  from kwf_sem[OF kwf m(1) this, of "alloc s"] kwf m(2) f show ?thesis by (simp add: kwf_defs)
qed

lemma kwf_create_semaphore:
  assumes "kwf s" and "Kernel_Create_Semaphore_Direct c b s = Some (i, s')"
    and "Last_SemaphoreID s \<noteq> - 1"
  shows "kwf s'"
proof (cases "length (sem_ids s) = MAXSEMAPHORE")
  case True
  with sm.create_full[OF assms(1), of c b] assms(2) show ?thesis by auto
next
  case False
  then have "length (sems s) < MAXSEMAPHORE" using sm.ids_limit[OF assms(1)] by (simp add: sem_ids_def)
  from create_semaphore_new[OF assms(1) this assms(2)] have "i = Last_SemaphoreID s + 1" by blast
  then have "i \<noteq> 0" using assms(3) by (metis add.inverse_inverse add_eq_0_iff2)
  from sm.create_new[OF assms(1,3,2) this] show ?thesis by blast
qed

lemma kwf_Kernel_Create_Semaphore:
  "kwf s \<Longrightarrow> Last_SemaphoreID s \<noteq> - 1 \<Longrightarrow> Kernel_Create_Semaphore s = Some s' \<Longrightarrow> kwf s'"
  by (auto simp: Kernel_Create_Semaphore_def elim!: bind_SomeE)
    (erule kwf_steps, auto intro: kwf_create_semaphore)

text \<open>Destroying an existing semaphore removes it; with an unknown id the result is undefined.\<close>

lemma destroy_semaphore_found:
  assumes kwf: "kwf s" and a: "req_arg 0 s = Some i" and p: "p \<in> set (sems s)"
    and i: "sem_id (the (semaphores s p)) = i"
  obtains s' where "Kernel_Destroy_Semaphore s = Some s'" and "kwf s'" and "sems s' = remove1 p (sems s)"
    and "semaphores s' = (semaphores s)(p := None)" and "err s' = err s"
proof -
  note t = kwf_tables(5)[OF kwf]
  obtain n h where R: "find_node (nodes s) (semaphores s) (\<lambda>x. sem_id x = i) SemaphoreList NULL = Some (n, p)"
    "ptrlist_remove (nodes s) SemaphoreList n = Some (1, h)" "lists_wf LISTS h"
    "contents h SemaphoreList = remove1 p (sems s)"
    "\<And>M. M \<in> LISTS \<Longrightarrow> M \<noteq> SemaphoreList \<Longrightarrow> contents h M = contents (nodes s) M"
    "\<And>al. fresh_above al (nodes s) \<Longrightarrow> fresh_above al h"
    by (rule find_node_remove[OF kwf_lists[OF kwf] _ t p i]) (simp, rule that)
  have p0: "p \<noteq> NULL" using p contents_not_NULL by blast
  obtain m where m: "semaphores s p = Some m" using table_wf_obj[OF t p] by blast
  let ?s' = "s\<lparr>semaphores := (semaphores s)(p := None), nodes := h, Semaphore_Count := Semaphore_Count s - 1\<rparr>"
  have d: "Kernel_Destroy_Semaphore s = Some ?s'"
    using R(1,2) a p0 m by (simp add: Kernel_Destroy_Semaphore_def remove_from_list_def free_def)
  have t': "table_wf (remove1 p (sems s)) ((semaphores s)(p := None)) sem_id (Semaphore_Count s - 1)
      (Last_SemaphoreID s) MAXSEMAPHORE"
    by (rule table_wf_new[OF table_wf_remove[OF t p]]) (simp add: table_wf_distinct(2)[OF t])
  have "kwf ?s'"
    using kwf t' R(3-6) queues_inv_del[OF kwf_parts(3)[OF kwf], of "SemWait p"] fresh_above_del[of _ "semaphores s"]
    by (simp add: kwf_defs queues_in_sem_del)
  from that[OF d this] R(4) show ?thesis by simp
qed

lemma destroy_semaphore_missing:
  assumes kwf: "kwf s" and a: "req_arg 0 s = Some i" and i: "i \<notin> set (sem_ids s)"
  shows "Kernel_Destroy_Semaphore s = None"
proof (cases "sems s = []")
  case True
  with find_node_missing(1)[OF kwf_lists[OF kwf] _ kwf_tables(5)[OF kwf], of i] a i show ?thesis
    by (simp add: Kernel_Destroy_Semaphore_def sem_ids_def)
next
  case False
  have "last (sems s) \<in> set (sems s)" using False by simp
  moreover from this obtain m where "semaphores s (last (sems s)) = Some m"
    using table_wf_obj[OF kwf_tables(5)[OF kwf]] by blast
  ultimately show ?thesis
    using find_node_missing(2,3)[OF kwf_lists[OF kwf] _ kwf_tables(5)[OF kwf], of i] a i False
      contents_not_NULL[of "last (sems s)" "nodes s" SemaphoreList]
    by (simp add: Kernel_Destroy_Semaphore_def sem_ids_def remove_from_list_def free_def)
qed

lemma kwf_Kernel_Destroy_Semaphore:
  assumes "kwf s" and d: "Kernel_Destroy_Semaphore s = Some s'"
  shows "kwf s'"
proof -
  obtain i where i: "req_arg 0 s = Some i" using d by (auto simp: Kernel_Destroy_Semaphore_def elim: bind_SomeE)
  have "i \<in> set (sem_ids s)" using destroy_semaphore_missing[OF assms(1) i] d by auto
  then obtain p where p: "p \<in> set (sems s)" "sem_id (the (semaphores s p)) = i" by (auto simp: sem_ids_def)
  from destroy_semaphore_found[OF assms(1) i p] d show ?thesis by (metis option.inject)
qed

lemma kwf_sem_dequeue:
  assumes u: "upd_sem p (\<lambda>m. m\<lparr>sem_wait_queue := q\<rparr>) (s\<lparr>qelems := h\<rparr>) = Some s'"
    and dq: "dequeue_int (qelems s) (sem_wait_queue m) = Some (v, h, q)"
    and m: "rd (semaphores s) p = Some m" and kwf: "kwf s"
  shows "kwf s'"
proof -
  have m': "semaphores s p = Some m" using m by (simp add: rd_Some_iff)
  then have F: "queues_of s (SemWait p) = Some (sem_wait_queue m)" by simp
  note D = queues_inv_dequeue_any[OF kwf_parts(3)[OF kwf] F dq]
  have "kwf (s\<lparr>alloc := alloc s, qelems := h, semaphores := (semaphores s)(p \<mapsto> m\<lparr>sem_wait_queue := q\<rparr>)\<rparr>)"
    by (rule kwf_sem[OF kwf m']) (use D kwf in \<open>simp_all add: kwf_defs\<close>)
  with u m show ?thesis by (auto simp: upd_sem_iff)
qed

lemma kwf_get_from_queue:
  assumes "get_from_queue sem w s = Some s'"
  shows "kwf s \<longrightarrow> kwf s'"
proof (rule get_from_queue.raw_induct[OF _ assms, where P = "\<lambda>_ _ s s'. kwf s \<longrightarrow> kwf s'"])
  fix f sem w s s'
  assume IH: "\<And>sem w s s'. f sem w s = Some s' \<Longrightarrow> kwf s \<longrightarrow> kwf s'"
    and body: "do {
     m \<leftarrow> rd (semaphores s) sem;
     d \<leftarrow> rd (pds s) w;
     r \<leftarrow> int_sub (sem_count m) (request_args d 1);
     if sint r \<ge> 0
     then if state d \<noteq> WAIT_SEMAPHORE
       then Some (kernel_raise_error UNPROCESSABLE_TASK_STATE_ERR s)
       else do {
         s \<leftarrow> upd_sem sem (\<lambda>m. m\<lparr>sem_count := r\<rparr>) s;
         s \<leftarrow> upd_pd w (\<lambda>d. d\<lparr>state := READY\<rparr>) s;
         m \<leftarrow> rd (semaphores s) sem;
         (v, h, q) \<leftarrow> dequeue_int (qelems s) (sem_wait_queue m);
         s \<leftarrow> upd_sem sem (\<lambda>m. m\<lparr>sem_wait_queue := q\<rparr>) (s\<lparr>qelems := h\<rparr>);
         hd \<leftarrow> queue_peek_ptr h q;
         f sem hd s
       }
     else Some s
   } = Some s'"
  show "kwf s \<longrightarrow> kwf s'"
  proof
    assume "kwf s"
    with body show "kwf s'"
      by (auto elim!: bind_SomeE split: if_splits)
        (drule IH, erule mp, erule (2) kwf_sem_dequeue, (erule kwf_steps kwf_upd_sem | simp)+)
  qed
qed

lemma kwf_Kernel_Semaphore_Get_From_Queue:
  "kwf s \<Longrightarrow> Kernel_Semaphore_Get_From_Queue sem s = Some s' \<Longrightarrow> kwf s'"
  using kwf_get_from_queue by (auto simp: Kernel_Semaphore_Get_From_Queue_def elim!: bind_SomeE)

lemma kwf_sem_enqueue:
  assumes kwf: "kwf s" and m: "rd (semaphores s) p = Some m"
    and en: "enqueue_ptr (alloc s) (qelems s) (sem_wait_queue m) v = Some (r, al, h, q)"
    and v: "v \<noteq> NULL" "v \<in> dom (pds s)"
    and u: "upd_sem p (\<lambda>m. m\<lparr>sem_wait_queue := q\<rparr>) (s\<lparr>alloc := al, qelems := h\<rparr>) = Some s'"
  shows "kwf s'" and "qitems h q = qitems (qelems s) (sem_wait_queue m) @ [v]"
proof -
  have m': "semaphores s p = Some m" using m by (simp add: rd_Some_iff)
  then have F: "queues_of s (SemWait p) = Some (sem_wait_queue m)" by simp
  have ty: "is_ptr_queue (sem_wait_queue m)"
    using queues_inv_at(2)[OF kwf_parts(3)[OF kwf] F] by simp
  then have en': "enqueue_new (alloc s) (qelems s) (sem_wait_queue m) v = Some (r, al, h, q)"
    using en by (simp add: enqueue_ptr_def)
  have fr: "fresh_above (alloc s) (qelems s)" using kwf by (simp add: kwf_defs)
  have T: "key_target (pds s) (mail_objs s) (SemWait p) v" using v by simp
  note E = queues_inv_enqueue[OF kwf_parts(3)[OF kwf] F fr en' T disjI1[OF not_mails(1)]]
  show "qitems h q = qitems (qelems s) (sem_wait_queue m) @ [v]" by (rule E)
  have "kwf (s\<lparr>alloc := al, qelems := h, semaphores := (semaphores s)(p \<mapsto> m\<lparr>sem_wait_queue := q\<rparr>)\<rparr>)"
    by (rule kwf_sem[OF kwf m']) (use E in simp_all)
  with u m show "kwf s'" by (auto simp: upd_sem_iff)
qed

lemma kwf_Kernel_Semaphore_Get:
  assumes kwf: "kwf s" and g: "Kernel_Semaphore_Get s = Some s'"
  shows "kwf s'"
proof -
  have sems: "semaphores s1 = semaphores s" if "upd_cur f s = Some s1" for f s1
    using that by (auto simp: upd_cur_iff)
  have enq: "kwf s2"
    if "upd_sem sem (\<lambda>m. m\<lparr>sem_wait_queue := q\<rparr>) (s1\<lparr>alloc := al, qelems := h\<rparr>) = Some s2"
    "enqueue_ptr (alloc s1) (qelems s1) (sem_wait_queue m) (Current_Process s1) = Some (r, al, h, q)"
    "req_arg n s1 = Some a" "rd sh sem = Some m" "semaphores s1 = sh" "kwf s1"
    for s1 s2 sem m n a r al h q sh
    using kwf_sem_enqueue(1)[OF that(6) _ that(2) _ _ that(1)] that(4,5) req_arg_dom[OF that(3)] by blast
  show ?thesis
    using g kwf
    by (auto simp: Kernel_Semaphore_Get_def elim!: bind_SomeE split: if_splits)
      (erule (3) enq | erule kwf_steps kwf_upd_sem | simp add: sems)+
qed

lemma kwf_Kernel_Semaphore_Give:
  "kwf s \<Longrightarrow> Kernel_Semaphore_Give s = Some s' \<Longrightarrow> kwf s'"
  by (auto simp: Kernel_Semaphore_Give_def elim!: bind_SomeE split: if_splits)
    (erule kwf_upd_sem kwf_Kernel_Semaphore_Get_From_Queue[rotated] | simp)+

section \<open>Waking the waiting tasks\<close>

text \<open>\<open>served c as\<close>: how many of the amounts \<open>as\<close>, in order, a count \<open>c\<close> covers.\<close>

fun served :: "int \<Rightarrow> int list \<Rightarrow> nat" where
  "served c [] = 0"
| "served c (a # as) = (if a \<le> c then Suc (served (c - a) as) else 0)"

definition ready_all :: "addr list \<Rightarrow> PD heap \<Rightarrow> PD heap" where
  "ready_all ps h = (\<lambda>p. if p \<in> set ps then map_option (\<lambda>d. d\<lparr>state := READY\<rparr>) (h p) else h p)"

definition amounts :: "PD heap \<Rightarrow> addr list \<Rightarrow> int list" where
  "amounts h ps = map (\<lambda>p. sint (request_args (the (h p)) 1)) ps"

text \<open>The tasks of a wait queue are distinct, wait for the semaphore and want at least 0.\<close>

definition waiters_ok :: "PD heap \<Rightarrow> addr list \<Rightarrow> bool" where
  "waiters_ok h ps \<longleftrightarrow> distinct ps \<and>
     (\<forall>p \<in> set ps. \<exists>d. h p = Some d \<and> state d = WAIT_SEMAPHORE \<and> 0 \<le> sint (request_args d 1))"

lemma served_le: "served c as \<le> length as"
  by (induction c as rule: served.induct) auto

lemma served_covers: "0 \<le> c \<Longrightarrow> sum_list (take (served c as) as) \<le> c"
  by (induction c as rule: served.induct) auto

lemma ready_all_simps [simp]:
  "ready_all [] h = h"
  "h w = Some d \<Longrightarrow> ready_all ps (h(w \<mapsto> d\<lparr>state := READY\<rparr>)) = ready_all (w # ps) h"
  by (auto simp: ready_all_def)

lemma waiters_ok_tl:
  assumes "waiters_ok h (w # ws)" and "h w = Some d"
  shows "waiters_ok (h(w \<mapsto> d')) ws" and "amounts (h(w \<mapsto> d')) ws = amounts h ws"
  using assms by (auto simp: waiters_ok_def amounts_def)

lemma int_sub_nonneg:
  assumes "0 \<le> sint (x :: u16)" and "0 \<le> sint y"
  obtains r where "int_sub x y = Some r" and "sint r = sint x - sint y"
proof -
  have "in_int16 (sint x - sint y)"
    using assms sint_in_int16[of x] sint_in_int16[of y] by (simp add: in_int16_def)
  then have "int_sub x y = Some (x - y)" by (simp add: int_sub_def)
  from that[OF this sint_int_sub[OF this]] show ?thesis .
qed

text \<open>One round of the loop, when the count covers the head.\<close>

lemma get_from_queue_round:
  assumes kwf: "kwf s" and m: "rd (semaphores s) sem = Some m"
    and q: "qitems (qelems s) (sem_wait_queue m) = w # ws" and d: "pds s w = Some d"
    and st: "state d = WAIT_SEMAPHORE" and r: "int_sub (sem_count m) (request_args d 1) = Some r" "0 \<le> sint r"
  obtains s' m' where "get_from_queue sem w s = get_from_queue sem (case ws of [] \<Rightarrow> NULL | v # _ \<Rightarrow> v) s'"
    and "kwf s'" and "rd (semaphores s') sem = Some m'" and "sem_count m' = r"
    and "qitems (qelems s') (sem_wait_queue m') = ws" and "pds s' = (pds s)(w \<mapsto> d\<lparr>state := READY\<rparr>)"
    and "semaphores s' = (semaphores s)(sem \<mapsto> m')" and "err s' = err s" and "is_binary m' = is_binary m"
    and "sem_id m' = sem_id m"
proof -
  have m': "semaphores s sem = Some m" "sem \<noteq> NULL" using m by (auto simp: rd_Some_iff)
  have F: "queues_of s (SemWait sem) = Some (sem_wait_queue m)" using m' by simp
  have w: "w \<noteq> NULL" using queues_inv_at(3)[OF kwf_parts(3)[OF kwf] F] q by simp
  obtain h q' where dq: "dequeue_int (qelems s) (sem_wait_queue m) = Some (w, h, q')"
    and Q: "queues_inv h ((queues_of s)(SemWait sem \<mapsto> q')) (key_target (pds s) (mail_objs s))"
    "qitems h q' = ws"
    by (rule queues_inv_dequeue[OF kwf_parts(3)[OF kwf] F q]) (rule that)
  have "queue_rep h q' (qnodes h q')" by (rule queues_inv_at(1)[OF Q(1), of "SemWait sem"]) simp
  from queue_peek_int_rep(2)[OF this] Q(2)
  have peek: "queue_peek_ptr h q' = Some (case ws of [] \<Rightarrow> NULL | v # _ \<Rightarrow> v)"
    by (cases "qnodes h q'") (auto simp: qitems_def)
  define s1 where "s1 = s\<lparr>semaphores := (semaphores s)(sem \<mapsto> m\<lparr>sem_count := r\<rparr>)\<rparr>"
  define s2 where "s2 = s1\<lparr>pds := (pds s)(w \<mapsto> d\<lparr>state := READY\<rparr>)\<rparr>"
  define s3 where "s3 = s2\<lparr>qelems := h,
    semaphores := (semaphores s)(sem \<mapsto> m\<lparr>sem_count := r, sem_wait_queue := q'\<rparr>)\<rparr>"
  have u: "upd_sem sem (\<lambda>m. m\<lparr>sem_count := r\<rparr>) s = Some s1"
    "upd_pd w (\<lambda>d. d\<lparr>state := READY\<rparr>) s1 = Some s2" "rd (semaphores s2) sem = Some (m\<lparr>sem_count := r\<rparr>)"
    "upd_sem sem (\<lambda>m. m\<lparr>sem_wait_queue := q'\<rparr>) (s2\<lparr>qelems := h\<rparr>) = Some s3"
    using m m' d w by (auto simp: upd_sem_iff upd_pd_iff s1_def s2_def s3_def rd_Some_iff)
  have "kwf s1" by (rule kwf_upd_sem[OF u(1) kwf]) simp_all
  then have "kwf s2" by (rule kwf_upd_pd[OF u(2)]) simp
  have dq2: "dequeue_int (qelems s2) (sem_wait_queue (m\<lparr>sem_count := r\<rparr>)) = Some (w, h, q')"
    using dq by (simp add: s1_def s2_def)
  have kwf3: "kwf s3" by (rule kwf_sem_dequeue[OF u(4) dq2 u(3) \<open>kwf s2\<close>])
  have "get_from_queue sem w s = get_from_queue sem (case ws of [] \<Rightarrow> NULL | v # _ \<Rightarrow> v) s3"
    using m d w st r u dq2 peek by (subst get_from_queue.simps) (simp add: rd_SomeI)
  then show ?thesis
    by (rule that[where m' = "m\<lparr>sem_count := r, sem_wait_queue := q'\<rparr>"]) (use kwf3 m' Q(2) in \<open>simp_all add: s1_def s2_def s3_def rd_SomeI\<close>)
qed

lemma get_from_queue_NULL: "get_from_queue sem NULL s = None"
  by (cases "rd (semaphores s) sem") (simp_all add: get_from_queue.simps)

lemma get_from_queue_stop:
  assumes "rd (semaphores s) sem = Some m" and "rd (pds s) w = Some d"
    and "int_sub (sem_count m) (request_args d 1) = Some r" and "sint r < 0"
  shows "get_from_queue sem w s = Some s"
  using assms by (subst get_from_queue.simps) simp

text \<open>\<open>woke s sem m ws n s'\<close>: from \<open>s\<close> to \<open>s'\<close> the first \<open>n\<close> of the tasks \<open>ws\<close> waiting for the
  semaphore were made ready, removed from its queue and their amounts taken off its count.\<close>

definition woke :: "kstate \<Rightarrow> addr \<Rightarrow> SEMAPHORE_TYPE \<Rightarrow> addr list \<Rightarrow> nat \<Rightarrow> kstate \<Rightarrow> bool" where
  "woke s sem m ws n s' \<longleftrightarrow> kwf s' \<and> err s' = err s \<and> pds s' = ready_all (take n ws) (pds s) \<and>
     (\<exists>m'. semaphores s' = (semaphores s)(sem \<mapsto> m') \<and> is_binary m' = is_binary m \<and> sem_id m' = sem_id m \<and>
       qitems (qelems s') (sem_wait_queue m') = drop n ws \<and>
       sint (sem_count m') = sint (sem_count m) - sum_list (take n (amounts (pds s) ws)))"

lemma woke_0:
  assumes "kwf s" "rd (semaphores s) sem = Some m" "qitems (qelems s) (sem_wait_queue m) = ws"
  shows "woke s sem m ws 0 s"
  unfolding woke_def using assms by (auto simp: rd_Some_iff fun_upd_idem intro!: exI[of _ m])

lemma woke_Suc:
  assumes w: "woke s1 sem m1 ws n s'" and "pds s1 = (pds s)(w \<mapsto> d\<lparr>state := READY\<rparr>)" "pds s w = Some d"
    and "semaphores s1 = (semaphores s)(sem \<mapsto> m1)" "err s1 = err s" "is_binary m1 = is_binary m"
    "sem_id m1 = sem_id m" "sint (sem_count m1) = sint (sem_count m) - sint (request_args d 1)"
    and ok: "waiters_ok (pds s) (w # ws)"
  shows "woke s sem m (w # ws) (Suc n) s'"
proof -
  have am: "amounts (pds s1) ws = amounts (pds s) ws"
    "amounts (pds s) (w # ws) = sint (request_args d 1) # amounts (pds s) ws"
    using waiters_ok_tl(2)[OF ok assms(3)] assms(2,3) by (simp_all add: amounts_def)
  obtain m' where "semaphores s' = (semaphores s1)(sem \<mapsto> m')" "is_binary m' = is_binary m1"
    "sem_id m' = sem_id m1" "qitems (qelems s') (sem_wait_queue m') = drop n ws"
    "sint (sem_count m') = sint (sem_count m1) - sum_list (take n (amounts (pds s1) ws))"
    using w by (auto simp: woke_def)
  then show ?thesis
    using w assms(2-8) unfolding woke_def am by (auto intro!: exI[of _ m'])
qed

lemma get_from_queue_spec:
  "kwf s \<Longrightarrow> rd (semaphores s) sem = Some m \<Longrightarrow> qitems (qelems s) (sem_wait_queue m) = ws \<Longrightarrow> ws \<noteq> [] \<Longrightarrow>
   waiters_ok (pds s) ws \<Longrightarrow> 0 \<le> sint (sem_count m) \<Longrightarrow>
   n = served (sint (sem_count m)) (amounts (pds s) ws) \<Longrightarrow>
   if n = length ws then get_from_queue sem (hd ws) s = None
   else \<exists>s'. get_from_queue sem (hd ws) s = Some s' \<and> woke s sem m ws n s'"
proof (induction ws arbitrary: s m n)
  case (Cons w ws)
  note P = Cons.prems
  from P(5) obtain d where d: "pds s w = Some d" "state d = WAIT_SEMAPHORE"
    "0 \<le> sint (request_args d 1)" by (auto simp: waiters_ok_def)
  obtain r where r: "int_sub (sem_count m) (request_args d 1) = Some r"
    "sint r = sint (sem_count m) - sint (request_args d 1)"
    by (rule int_sub_nonneg[OF P(6) d(3)])
  have F: "queues_of s (SemWait sem) = Some (sem_wait_queue m)" using P(2) by (simp add: rd_Some_iff)
  have w: "w \<noteq> NULL" using queues_inv_at(3)[OF kwf_parts(3)[OF P(1)] F] P(3) by simp
  have am: "amounts (pds s) (w # ws) = sint (request_args d 1) # amounts (pds s) ws"
    using d(1) by (simp add: amounts_def)
  show ?case
  proof (cases "0 \<le> sint r")
    case False
    then have "get_from_queue sem w s = Some s"
      using d r w by (intro get_from_queue_stop[OF P(2) _ r(1)]) (simp_all add: rd_SomeI)
    with False r(2) P(7) woke_0[OF P(1-3)] show ?thesis by (simp add: am)
  next
    case True
    obtain s1 m1 where R: "get_from_queue sem w s = get_from_queue sem (case ws of [] \<Rightarrow> NULL | v # _ \<Rightarrow> v) s1"
      "kwf s1" "rd (semaphores s1) sem = Some m1" "sem_count m1 = r"
      "qitems (qelems s1) (sem_wait_queue m1) = ws" "pds s1 = (pds s)(w \<mapsto> d\<lparr>state := READY\<rparr>)"
      "semaphores s1 = (semaphores s)(sem \<mapsto> m1)" "err s1 = err s" "is_binary m1 = is_binary m"
      "sem_id m1 = sem_id m"
      by (rule get_from_queue_round[OF P(1-3) d(1,2) r(1) True]) (rule that)
    have n: "n = Suc (served (sint r) (amounts (pds s) ws))" using True r(2) P(7) by (simp add: am)
    show ?thesis
    proof (cases ws)
      case Nil
      with R(1) n show ?thesis by (simp add: get_from_queue_NULL amounts_def)
    next
      case (Cons v vs)
      have W: "waiters_ok (pds s1) ws" "amounts (pds s1) ws = amounts (pds s) ws"
        using waiters_ok_tl[OF P(5) d(1)] by (simp_all add: R(6))
      have "ws \<noteq> []" "0 \<le> sint (sem_count m1)" using Cons True R(4) by simp_all
      note IH = Cons.IH[OF R(2,3,5) this(1) W(1) this(2) refl]
      have hd: "get_from_queue sem w s = get_from_queue sem (hd ws) s1" using R(1) by (simp add: Cons)
      from IH woke_Suc[OF _ R(6) d(1) R(7-10) _ P(5)] show ?thesis
        using n r(2) by (auto simp: W(2) R(4) hd)
    qed
  qed
qed simp

lemma find_semaphore:
  assumes "kwf s" and "p \<in> set (sems s)" and "semaphores s p = Some m"
  shows "findSemaphoreByID (sem_id m) s = Some p"
  using find_obj_iff[OF kwf_lists[OF assms(1)] _ kwf_tables(5)[OF assms(1)] assms(2)] assms(3)
  by (simp add: findSemaphoreByID_def)

text \<open>The count after a \<open>Give\<close> of \<open>n\<close>, before any waiting task is served.\<close>

definition given :: "SEMAPHORE_TYPE \<Rightarrow> int \<Rightarrow> int" where
  "given m n = (if is_binary m \<noteq> 0 then min 1 (sint (sem_count m) + n) else sint (sem_count m) + n)"

lemma give_reaches_queue:
  assumes kwf: "kwf s" and a: "req_arg 0 s = Some (sem_id m)" "req_arg 1 s = Some n"
    and p: "p \<in> set (sems s)" "semaphores s p = Some m"
    and c: "0 \<le> sint (sem_count m)" "0 \<le> sint n" "sint (sem_count m) + sint n \<le> 32767"
  obtains m1 where "Kernel_Semaphore_Give s = (if 0 < given m (sint n) \<and> 0 < q_count (sem_wait_queue m)
      then Kernel_Semaphore_Get_From_Queue p (s\<lparr>semaphores := (semaphores s)(p \<mapsto> m1)\<rparr>)
      else Some (s\<lparr>semaphores := (semaphores s)(p \<mapsto> m1)\<rparr>))"
    and "sint (sem_count m1) = given m (sint n)" and "sem_wait_queue m1 = sem_wait_queue m"
    and "is_binary m1 = is_binary m" and "sem_id m1 = sem_id m"
    and "kwf (s\<lparr>semaphores := (semaphores s)(p \<mapsto> m1)\<rparr>)"
proof -
  have p0: "p \<noteq> NULL" using p(1) contents_not_NULL by blast
  have i: "in_int16 (sint (sem_count m) + sint n)" using c by (simp add: in_int16_def)
  then have add: "int_add (sem_count m) n = Some (sem_count m + n)" by (simp add: int_add_def)
  note sa = sint_int_add[OF add]
  let ?m1 = "if is_binary m \<noteq> 0 \<and> 1 < sint (sem_count m + n) then m\<lparr>sem_count := 1\<rparr>
    else m\<lparr>sem_count := sem_count m + n\<rparr>"
  have g: "sint (sem_count ?m1) = given m (sint n)" using sa by (auto simp: given_def)
  have r: "rd (semaphores s) p = Some m" using p p0 by (simp add: rd_SomeI)
  have give: "Kernel_Semaphore_Give s = (if 0 < given m (sint n) \<and> 0 < q_count (sem_wait_queue m)
      then Kernel_Semaphore_Get_From_Queue p (s\<lparr>semaphores := (semaphores s)(p \<mapsto> ?m1)\<rparr>)
      else Some (s\<lparr>semaphores := (semaphores s)(p \<mapsto> ?m1)\<rparr>))"
    using a p0 r add find_semaphore[OF kwf p]
    by (auto simp: Kernel_Semaphore_Give_def upd_sem_def wr_def rd_upd g[symmetric])
  have "upd_sem p (\<lambda>m. m\<lparr>sem_count := sem_count ?m1\<rparr>) s = Some (s\<lparr>semaphores := (semaphores s)(p \<mapsto> ?m1)\<rparr>)"
    using r by (auto simp: upd_sem_iff)
  then have "kwf (s\<lparr>semaphores := (semaphores s)(p \<mapsto> ?m1)\<rparr>)" by (rule kwf_upd_sem) (simp_all add: kwf)
  from that[OF give g _ _ _ this] show ?thesis by simp
qed

section \<open>Properties\<close>

text \<open>A give, case by case.\<close>

lemma give_result:
  assumes "kwf s" "req_arg 0 s = Some (sem_id m)" "req_arg 1 s = Some n"
    and "p \<in> set (sems s)" "semaphores s p = Some m"
    and "0 \<le> sint (sem_count m)" "0 \<le> sint n" "sint (sem_count m) + sint n \<le> 32767"
    and "ws = qitems (qelems s) (sem_wait_queue m)" "waiters_ok (pds s) ws"
    and "c = given m (sint n)" "k = (if 0 < c then served c (amounts (pds s) ws) else 0)"
  shows "if 0 < c \<and> ws \<noteq> [] \<and> k = length ws then Kernel_Semaphore_Give s = None
    else \<exists>s' m'. Kernel_Semaphore_Give s = Some s' \<and> kwf s' \<and>
      pds s' = ready_all (take k ws) (pds s) \<and> semaphores s' p = Some m' \<and>
      (\<forall>q. q \<noteq> p \<longrightarrow> semaphores s' q = semaphores s q) \<and>
      qitems (qelems s') (sem_wait_queue m') = drop k ws \<and>
      sint (sem_count m') + sum_list (take k (amounts (pds s) ws)) = c"
proof -
  obtain m1 where G: "Kernel_Semaphore_Give s = (if 0 < given m (sint n) \<and> 0 < q_count (sem_wait_queue m)
      then Kernel_Semaphore_Get_From_Queue p (s\<lparr>semaphores := (semaphores s)(p \<mapsto> m1)\<rparr>)
      else Some (s\<lparr>semaphores := (semaphores s)(p \<mapsto> m1)\<rparr>))"
    and m1: "sint (sem_count m1) = given m (sint n)" "sem_wait_queue m1 = sem_wait_queue m"
    "is_binary m1 = is_binary m" "sem_id m1 = sem_id m"
    and kwf1: "kwf (s\<lparr>semaphores := (semaphores s)(p \<mapsto> m1)\<rparr>)"
    by (rule give_reaches_queue[OF assms(1-8)])
  let ?s1 = "s\<lparr>semaphores := (semaphores s)(p \<mapsto> m1)\<rparr>"
  have p0: "p \<noteq> NULL" using assms(4) contents_not_NULL by blast
  then have r1: "rd (semaphores ?s1) p = Some m1" by (simp add: rd_upd)
  have F: "queues_of s (SemWait p) = Some (sem_wait_queue m)" using assms(5) by simp
  note rep = queues_inv_at(1)[OF kwf_parts(3)[OF assms(1)] F]
  have ne: "0 < q_count (sem_wait_queue m) \<longleftrightarrow> ws \<noteq> []"
    using queue_rep_empty_iff(3)[OF rep] assms(9) by (simp add: qitems_def)
  have it: "qitems (qelems ?s1) (sem_wait_queue m1) = ws" by (simp add: m1 assms(9))
  show ?thesis
  proof (cases "0 < c \<and> ws \<noteq> []")
    case False
    then have "Kernel_Semaphore_Give s = Some ?s1" using G ne assms(11) by auto
    moreover have "k = 0 \<or> ws = []" using False assms(12) by auto
    ultimately show ?thesis using False kwf1 it m1(1) assms(11) by (auto simp: amounts_def)
  next
    case True
    have "queue_peek_ptr (qelems s) (sem_wait_queue m) = Some (hd ws)"
      using queue_peek_int_rep(2)[OF rep] True assms(9)
      by (cases "qnodes (qelems s) (sem_wait_queue m)") (auto simp: qitems_def)
    then have give: "Kernel_Semaphore_Give s = get_from_queue p (hd ws) ?s1"
      using G True ne assms(11) r1 by (simp add: Kernel_Semaphore_Get_From_Queue_def m1(2))
    have k: "k = served (sint (sem_count m1)) (amounts (pds ?s1) ws)"
      using True assms(11,12) m1(1) by simp
    have W: "waiters_ok (pds ?s1) ws" "ws \<noteq> []" "0 \<le> sint (sem_count m1)"
      using assms(10,11) True m1(1) by simp_all
    from get_from_queue_spec[OF kwf1 r1 it W(2,1,3) k] True show ?thesis
      by (auto simp: woke_def give m1(1) assms(11))
  qed
qed

text \<open>C7: \<open>Kernel_Semaphore_Give\<close>: with \<open>c\<close> the new count (at most 1 for a binary semaphore) and
  \<open>k\<close> the number of waiting tasks that \<open>c\<close> covers in queue order, the first \<open>k\<close> waiting tasks
  become READY and leave the queue, no other task changes, the rest of the queue keeps its
  order, and the count is \<open>c\<close> less the amounts of the tasks served (nothing is lost); except
  that when every waiting task is covered the loop reads the request of a task through the null
  pointer that peeking the empty queue returns, so the call has no defined result.\<close>

theorem semaphore_give_serves_prefix:
  assumes "kwf s" "req_arg 0 s = Some (sem_id m)" "req_arg 1 s = Some n"
    and "p \<in> set (sems s)" "semaphores s p = Some m"
    and "0 \<le> sint (sem_count m)" "0 \<le> sint n" "sint (sem_count m) + sint n \<le> 32767"
    and "ws = qitems (qelems s) (sem_wait_queue m)" "waiters_ok (pds s) ws"
    and "c = given m (sint n)" "k = (if 0 < c then served c (amounts (pds s) ws) else 0)"
  shows "if 0 < c \<and> ws \<noteq> [] \<and> k = length ws then Kernel_Semaphore_Give s = None
    else \<exists>s' m'. Kernel_Semaphore_Give s = Some s' \<and> kwf s' \<and>
      pds s' = ready_all (take k ws) (pds s) \<and> semaphores s' p = Some m' \<and>
      (\<forall>q. q \<noteq> p \<longrightarrow> semaphores s' q = semaphores s q) \<and>
      qitems (qelems s') (sem_wait_queue m') = drop k ws \<and>
      sint (sem_count m') + sum_list (take k (amounts (pds s) ws)) = c"
  by (rule give_result[OF assms])

text \<open>The tasks 2 and 3 wait for 1 and 4 units of a semaphore with count 0; task 1 gives \<open>n\<close>.\<close>

definition ex_sem_state :: "u16 \<Rightarrow> kstate" where
  "ex_sem_state n = ex_state (ex_PD 1 5 RUNNING (\<lambda>i. if i = 0 then 1 else n) 0)
     (ex_PD 2 5 WAIT_SEMAPHORE (\<lambda>i. 1) 0) (ex_PD 3 5 WAIT_SEMAPHORE (\<lambda>i. if i = 0 then 1 else 4) 0)
     ex_elems ex_EV ex_EG (ex_MUT 0 0 new_ptr_queue new_int_queue) (ex_SEM 0 ex_queue)"

lemma ex_sem_state_kwf: "kwf (ex_sem_state n)"
  unfolding ex_sem_state_def
proof (rule ex_state_kwf)
  show "queues_inv ex_elems (queues_in [40 \<mapsto> ex_SEM 0 ex_queue]
      [50 \<mapsto> ex_MUT 0 0 new_ptr_queue new_int_queue] Map.empty)
      (key_target [20 \<mapsto> ex_PD 1 5 RUNNING (\<lambda>i. if i = 0 then 1 else n) 0,
         21 \<mapsto> ex_PD 2 5 WAIT_SEMAPHORE (\<lambda>i. 1) 0,
         22 \<mapsto> ex_PD 3 5 WAIT_SEMAPHORE (\<lambda>i. if i = 0 then 1 else 4) 0] Map.empty)"
    by (rule ex_queues_inv[where xs = "[(80, 21), (81, 22)]" and ys = "[]" and zs = "[]"])
      (auto simp: ex_SEM_def ex_MUT_def ex_queue_rep, simp_all add: ex_queue_def new_ptr_queue_def new_int_queue_def)
qed (simp_all add: ex_PD_def ex_EV_def ex_EG_def ex_MUT_def ex_SEM_def ex_elems_fresh)

lemma ex_sem_state_sel [simp]:
  "nodes (ex_sem_state n) = ex_nodes_k" "semaphores (ex_sem_state n) = [40 \<mapsto> ex_SEM 0 ex_queue]"
  "qelems (ex_sem_state n) = ex_elems" "Current_Process (ex_sem_state n) = 20"
  "pds (ex_sem_state n) = [20 \<mapsto> ex_PD 1 5 RUNNING (\<lambda>i. if i = 0 then 1 else n) 0,
     21 \<mapsto> ex_PD 2 5 WAIT_SEMAPHORE (\<lambda>i. 1) 0,
     22 \<mapsto> ex_PD 3 5 WAIT_SEMAPHORE (\<lambda>i. if i = 0 then 1 else 4) 0]"
  by (simp_all add: ex_sem_state_def ex_state_def)

lemma ex_sem_state_args: "req_arg 0 (ex_sem_state n) = Some 1" "req_arg 1 (ex_sem_state n) = Some n"
  "req_arg (Suc 0) (ex_sem_state n) = Some n"
  by (simp_all add: req_arg_def cur_pd_def rd_def ex_PD_def)

theorem semaphore_give_serves_prefix_witness:
  "\<exists>s' m'. Kernel_Semaphore_Give (ex_sem_state 3) = Some s' \<and> semaphores s' 40 = Some m' \<and>
     sint (sem_count m') = 2 \<and> qitems (qelems s') (sem_wait_queue m') = [22] \<and>
     Kernel_Semaphore_Give (ex_sem_state 5) = None"
proof -
  have ok: "waiters_ok (pds (ex_sem_state n)) [21, 22]" for n
    by (simp add: waiters_ok_def ex_PD_def)
  show ?thesis
    using semaphore_give_serves_prefix[where s = "ex_sem_state 3" and m = "ex_SEM 0 ex_queue" and n = 3
        and p = 40 and ws = "[21, 22]", OF ex_sem_state_kwf _ _ _ _ _ _ _ _ ok refl refl]
      semaphore_give_serves_prefix[where s = "ex_sem_state 5" and m = "ex_SEM 0 ex_queue" and n = 5
        and p = 40 and ws = "[21, 22]", OF ex_sem_state_kwf _ _ _ _ _ _ _ _ ok refl refl]
    by (simp add: ex_sem_state_args) (simp add: ex_SEM_def given_def amounts_def ex_PD_def, blast)
qed

text \<open>A caller of \<open>Kernel_Semaphore_Get\<close> asks for \<open>asked m d\<close> units; \<open>asking\<close> is the state once this amount has been
  stored back into its arguments, which happens for binary semaphores.\<close>

definition asked :: "SEMAPHORE_TYPE \<Rightarrow> PD \<Rightarrow> u16" where
  "asked m d = (if is_binary m \<noteq> 0 then clip_amount (request_args d 1) else request_args d 1)"

definition asking :: "SEMAPHORE_TYPE \<Rightarrow> PD \<Rightarrow> kstate \<Rightarrow> kstate" where
  "asking m d s = s\<lparr>pds := (pds s)(Current_Process s \<mapsto>
     if is_binary m \<noteq> 0 then d\<lparr>request_args := (request_args d)(1 := asked m d)\<rparr> else d)\<rparr>"

lemma asking_sel [simp]:
  "semaphores (asking m d s) = semaphores s" "alloc (asking m d s) = alloc s" "qelems (asking m d s) = qelems s"
  "Current_Process (asking m d s) = Current_Process s" "Kernel_Request_Cswitch (asking m d s) = Kernel_Request_Cswitch s"
  by (simp_all add: asking_def)

lemma asking_states: "pds s (Current_Process s) = Some d \<Longrightarrow> map_option state \<circ> pds (asking m d s) = map_option state \<circ> pds s"
  by (auto simp: asking_def fun_eq_iff)

lemma kwf_asking:
  assumes "kwf s" "cur_pd s = Some d"
  shows "kwf (asking m d s)"
proof -
  have "pds s (Current_Process s) = Some d" using assms(2) by (simp add: cur_pd_def rd_Some_iff)
  from kwf_pds[OF assms(1) this, of "if is_binary m \<noteq> 0 then d\<lparr>request_args := (request_args d)(1 := asked m d)\<rparr> else d"]
  show ?thesis by (simp add: asking_def)
qed

lemma get_reaches_test:
  assumes "kwf s" "cur_pd s = Some d" "request_args d 0 = sem_id m"
    and "p \<in> set (sems s)" "semaphores s p = Some m" "0 \<le> sint (sem_count m)" "0 \<le> sint (asked m d)"
  obtains e where "sint e = sint (sem_count m) - sint (asked m d)"
    and "Kernel_Semaphore_Get s = (if sint e < 0
       then do {
         (r, al, h, q) \<leftarrow> enqueue_ptr (alloc s) (qelems s) (sem_wait_queue m) (Current_Process s);
         s \<leftarrow> upd_sem p (\<lambda>m. m\<lparr>sem_wait_queue := q\<rparr>) ((asking m d s)\<lparr>alloc := al, qelems := h\<rparr>);
         s \<leftarrow> upd_cur (\<lambda>d. d\<lparr>state := WAIT_SEMAPHORE\<rparr>) s;
         Some (s\<lparr>Kernel_Request_Cswitch := 1\<rparr>)
       }
       else upd_sem p (\<lambda>m. m\<lparr>sem_count := e\<rparr>) (asking m d s))"
proof -
  have p0: "p \<noteq> NULL" using assms(4) contents_not_NULL by blast
  have r: "rd (semaphores s) p = Some m" using assms(5) p0 by (simp add: rd_SomeI)
  obtain e where e: "int_sub (sem_count m) (asked m d) = Some e" "sint e = sint (sem_count m) - sint (asked m d)"
    by (rule int_sub_nonneg[OF assms(6,7)])
  have cur: "Current_Process s \<noteq> NULL" "pds s (Current_Process s) = Some d"
    using assms(2) by (auto simp: cur_pd_def rd_Some_iff)
  have s1: "(if is_binary m \<noteq> 0
      then upd_cur (\<lambda>d. d\<lparr>request_args := (request_args d)(1 := clip_amount (request_args d 1))\<rparr>) s
      else Some s) = Some (asking m d s)"
    using assms(2) cur by (simp add: upd_cur_iff asking_def asked_def fun_upd_idem)
  have d1: "req_arg 1 (asking m d s) = Some (asked m d)"
    using cur by (simp add: req_arg_def cur_pd_def rd_def asking_def asked_def)
  have r1: "rd (semaphores (asking m d s)) p = Some m" using r by simp
  show ?thesis
    by (rule that[OF e(2)])
      (use assms(2,3) find_semaphore[OF assms(1,4,5)] p0 r s1 d1 e(1) in
        \<open>simp add: Kernel_Semaphore_Get_def req_arg_def\<close>)
qed

text \<open>The waiting half.\<close>

lemma get_waits:
  assumes kwf: "kwf s" and d: "cur_pd s = Some d" and m: "p \<in> set (sems s)" "semaphores s p = Some m"
    and get: "Kernel_Semaphore_Get s = do {
         (r, al, h, q) \<leftarrow> enqueue_ptr (alloc s) (qelems s) (sem_wait_queue m) (Current_Process s);
         s \<leftarrow> upd_sem p (\<lambda>m. m\<lparr>sem_wait_queue := q\<rparr>) ((asking m d s)\<lparr>alloc := al, qelems := h\<rparr>);
         s \<leftarrow> upd_cur (\<lambda>d. d\<lparr>state := WAIT_SEMAPHORE\<rparr>) s;
         Some (s\<lparr>Kernel_Request_Cswitch := 1\<rparr>)
       }"
  shows "if fst (malloc (alloc s)) = NULL then Kernel_Semaphore_Get s = None
    else \<exists>s' m'. Kernel_Semaphore_Get s = Some s' \<and> kwf s' \<and> semaphores s' p = Some m' \<and> sem_count m' = sem_count m \<and>
      qitems (qelems s') (sem_wait_queue m') = qitems (qelems s) (sem_wait_queue m) @ [Current_Process s] \<and>
      map_option state \<circ> pds s' = (map_option state \<circ> pds s)(Current_Process s \<mapsto> WAIT_SEMAPHORE) \<and>
      Kernel_Request_Cswitch s' = 1"
proof -
  have r: "rd (semaphores (asking m d s)) p = Some m" using m contents_not_NULL[OF m(1)] by (simp add: rd_SomeI)
  have cur: "Current_Process s \<noteq> NULL" "pds s (Current_Process s) = Some d" using d by (auto simp: cur_pd_def rd_Some_iff)
  have "queues_of s (SemWait p) = Some (sem_wait_queue m)" using m(2) by simp
  note at = queues_inv_at[OF kwf_parts(3)[OF kwf] this]
  have "fresh_above (alloc s) (qelems s)" using kwf by (simp add: kwf_defs)
  then have en: "enqueue_ptr (alloc s) (qelems s) (sem_wait_queue m) (Current_Process s) = None \<longleftrightarrow> fst (malloc (alloc s)) = NULL"
    using enqueue_new_None_iff[OF at(1)] at(2) by (simp add: enqueue_ptr_def)
  show ?thesis
  proof (cases "enqueue_ptr (alloc s) (qelems s) (sem_wait_queue m) (Current_Process s)")
    case None
    with get en show ?thesis by simp
  next
    case (Some x)
    then obtain r' al h q where E: "enqueue_ptr (alloc s) (qelems s) (sem_wait_queue m) (Current_Process s) = Some (r', al, h, q)"
      by (cases x) auto
    define s2 where "s2 = (asking m d s)\<lparr>alloc := al, qelems := h, semaphores := (semaphores s)(p \<mapsto> m\<lparr>sem_wait_queue := q\<rparr>)\<rparr>"
    have u: "upd_sem p (\<lambda>m. m\<lparr>sem_wait_queue := q\<rparr>) ((asking m d s)\<lparr>alloc := al, qelems := h\<rparr>) = Some s2"
      using r by (simp add: upd_sem_iff s2_def)
    have c1: "Current_Process (asking m d s) \<noteq> NULL" "Current_Process (asking m d s) \<in> dom (pds (asking m d s))"
      using cur by (auto simp: asking_def)
    note K = kwf_sem_enqueue[OF kwf_asking[OF kwf d] r _ c1 u, simplified asking_sel, OF E]
    obtain s3 where s3: "upd_cur (\<lambda>d. d\<lparr>state := WAIT_SEMAPHORE\<rparr>) s2 = Some s3" "qelems s3 = h"
      "semaphores s3 = semaphores s2" "map_option state \<circ> pds s3 = (map_option state \<circ> pds s)(Current_Process s \<mapsto> WAIT_SEMAPHORE)"
      using cur asking_states[OF cur(2), of m]
      by (auto simp: upd_cur_iff cur_pd_def rd_def s2_def fun_eq_iff asking_def)
    have G: "Kernel_Semaphore_Get s = Some (s3\<lparr>Kernel_Request_Cswitch := 1\<rparr>)" using get E u s3(1) by simp
    have "kwf (s3\<lparr>Kernel_Request_Cswitch := 1\<rparr>)" using G kwf_Kernel_Semaphore_Get[OF kwf] by blast
    with G en E K(2) s3 show ?thesis by (auto simp: s2_def)
  qed
qed

text \<open>C8: \<open>Kernel_Semaphore_Get\<close> of \<open>n\<close> units (0 or 1 of a binary semaphore): when the count covers
  them they are taken, the task keeps running and no task or queue changes; when it does not,
  the count stays, the task is appended to the wait queue, becomes WAIT_SEMAPHORE and a context
  switch is requested, provided \<open>malloc\<close> has memory for the queue element (the result of
  \<open>malloc\<close> is not checked, so the call is undefined otherwise).\<close>

theorem semaphore_get_takes_or_waits:
  assumes "kwf s" "cur_pd s = Some d" "request_args d 0 = sem_id m"
    and "p \<in> set (sems s)" "semaphores s p = Some m" "0 \<le> sint (sem_count m)" "0 \<le> sint (request_args d 1)"
    and "n = (if is_binary m \<noteq> 0 then min 1 (sint (request_args d 1)) else sint (request_args d 1))"
  shows "if n \<le> sint (sem_count m)
    then \<exists>s' m'. Kernel_Semaphore_Get s = Some s' \<and> kwf s' \<and> semaphores s' p = Some m' \<and>
      sint (sem_count m') = sint (sem_count m) - n \<and> sem_wait_queue m' = sem_wait_queue m \<and>
      qelems s' = qelems s \<and> map_option state \<circ> pds s' = map_option state \<circ> pds s \<and>
      Kernel_Request_Cswitch s' = Kernel_Request_Cswitch s
    else if fst (malloc (alloc s)) = NULL then Kernel_Semaphore_Get s = None
    else \<exists>s' m'. Kernel_Semaphore_Get s = Some s' \<and> kwf s' \<and> semaphores s' p = Some m' \<and>
      sem_count m' = sem_count m \<and>
      qitems (qelems s') (sem_wait_queue m') = qitems (qelems s) (sem_wait_queue m) @ [Current_Process s] \<and>
      map_option state \<circ> pds s' = (map_option state \<circ> pds s)(Current_Process s \<mapsto> WAIT_SEMAPHORE) \<and>
      Kernel_Request_Cswitch s' = 1"
proof -
  have v: "sint (asked m d) = n" using assms(7,8) by (auto simp: asked_def clip_amount_def)
  then have v0: "0 \<le> sint (asked m d)" using assms(7,8) by auto
  obtain e where e: "sint e = sint (sem_count m) - sint (asked m d)" and get: "Kernel_Semaphore_Get s = (if sint e < 0
       then do {
         (r, al, h, q) \<leftarrow> enqueue_ptr (alloc s) (qelems s) (sem_wait_queue m) (Current_Process s);
         s \<leftarrow> upd_sem p (\<lambda>m. m\<lparr>sem_wait_queue := q\<rparr>) ((asking m d s)\<lparr>alloc := al, qelems := h\<rparr>);
         s \<leftarrow> upd_cur (\<lambda>d. d\<lparr>state := WAIT_SEMAPHORE\<rparr>) s;
         Some (s\<lparr>Kernel_Request_Cswitch := 1\<rparr>)
       }
       else upd_sem p (\<lambda>m. m\<lparr>sem_count := e\<rparr>) (asking m d s))"
    by (rule get_reaches_test[OF assms(1-6) v0]) (rule that)
  show ?thesis
  proof (cases "n \<le> sint (sem_count m)")
    case True
    have cur: "pds s (Current_Process s) = Some d" using assms(2) by (simp add: cur_pd_def rd_Some_iff)
    have "rd (semaphores s) p = Some m" using assms(5) contents_not_NULL[OF assms(4)] by (simp add: rd_SomeI)
    then have u: "Kernel_Semaphore_Get s = Some ((asking m d s)\<lparr>semaphores := (semaphores s)(p \<mapsto> m\<lparr>sem_count := e\<rparr>)\<rparr>)"
      using get e v True by (simp add: upd_sem_iff)
    have "kwf ((asking m d s)\<lparr>semaphores := (semaphores s)(p \<mapsto> m\<lparr>sem_count := e\<rparr>)\<rparr>)"
      using u kwf_Kernel_Semaphore_Get[OF assms(1)] by blast
    with u True e v asking_states[OF cur, of m] show ?thesis by simp
  next
    case False
    with e v have "sint e < 0" by simp
    with get get_waits[OF assms(1,2,4,5)] False show ?thesis by simp
  qed
qed

theorem semaphore_get_takes_or_waits_witness:
  "\<exists>s' m'. Kernel_Semaphore_Get (ex_sem_state 3) = Some s' \<and> semaphores s' 40 = Some m' \<and>
     qitems (qelems s') (sem_wait_queue m') = [21, 22, 20] \<and> Kernel_Request_Cswitch s' = 1"
proof -
  have al: "fst (malloc (alloc (ex_sem_state 3))) \<noteq> NULL"
    by (simp add: ex_sem_state_def ex_state_def malloc_def Let_def)
  have cur: "cur_pd (ex_sem_state 3) = Some (ex_PD 1 5 RUNNING (\<lambda>i. if i = 0 then 1 else 3) 0)"
    by (simp add: cur_pd_def rd_def)
  show ?thesis
    using semaphore_get_takes_or_waits[where m = "ex_SEM 0 ex_queue" and p = 40, OF ex_sem_state_kwf cur _ _ _ _ _ refl] al
    by (simp add: ex_SEM_def ex_PD_def) blast
qed

text \<open>Destroying a semaphore: an existing one is freed and taken off the list, no other list,
  object or task changes; for an id that does not exist, where the code means to raise
  OBJECT_NOT_FOUND_ERR, the test is on the wrong variable and the call dereferences a null
  pointer.\<close>

theorem semaphore_destroy_correct:
  assumes "kwf s" "req_arg 0 s = Some i"
  shows "if i \<in> set (sem_ids s)
    then \<exists>p s'. Kernel_Destroy_Semaphore s = Some s' \<and> kwf s' \<and> p \<in> set (sems s) \<and>
      sem_id (the (semaphores s p)) = i \<and> sems s' = remove1 p (sems s) \<and>
      semaphores s' = (semaphores s)(p := None) \<and> err s' = err s
    else Kernel_Destroy_Semaphore s = None"
proof (cases "i \<in> set (sem_ids s)")
  case True
  then obtain p where p: "p \<in> set (sems s)" "sem_id (the (semaphores s p)) = i" by (auto simp: sem_ids_def)
  obtain s' where "Kernel_Destroy_Semaphore s = Some s'" "kwf s'" "sems s' = remove1 p (sems s)"
    "semaphores s' = (semaphores s)(p := None)" "err s' = err s"
    by (rule destroy_semaphore_found[OF assms p])
  with True p show ?thesis by auto
qed (simp add: destroy_semaphore_missing[OF assms])

theorem semaphore_destroy_correct_witness:
  "\<exists>s'. Kernel_Destroy_Semaphore (ex_sem_state 3) = Some s' \<and> sems s' = []"
  using semaphore_destroy_correct[OF ex_sem_state_kwf ex_sem_state_args(1), of 3]
  by (auto simp: sem_ids_def ex_SEM_def)

text \<open>Any number of semaphore creations in a row that succeed, as long as the 16-bit id counter
  does not wrap, hand out pairwise distinct ids, none of them the id of an existing semaphore,
  never more than the limit of 8 exist, and each can be looked up afterwards.\<close>

theorem semaphores_created_distinct:
  assumes "kwf s" "unat (Last_SemaphoreID s) + n < 65536"
    and "create_n (Kernel_Create_Semaphore_Direct c b) n s = Some (is, s')" "0 \<notin> set is"
  shows "distinct (sem_ids s @ is) \<and> length (sem_ids s) + n \<le> MAXSEMAPHORE \<and>
    (\<forall>i \<in> set is. \<exists>p. findSemaphoreByID i s' = Some p \<and> p \<noteq> NULL)"
  using sm.create_many_distinct[OF assms] by blast

theorem semaphores_created_distinct_witness:
  "\<exists>i j s'. create_n (Kernel_Create_Semaphore_Direct 1 0) 2 (ex_sem_state 3) = Some ([i, j], s') \<and>
     distinct [1, i, j] \<and> (\<exists>p. findSemaphoreByID j s' = Some p \<and> p \<noteq> NULL)"
proof -
  let ?s = "ex_sem_state 3"
  have l: "Last_SemaphoreID ?s = 1" "plenty (alloc ?s) (Suc (Suc (Suc (Suc 0))))" "length (sems ?s) < MAXSEMAPHORE"
    by (simp_all add: ex_sem_state_def ex_state_def plenty_def)
  obtain s1 where s1: "Kernel_Create_Semaphore_Direct 1 0 ?s = Some (2, s1)" "plenty (alloc s1) (Suc (Suc 0))"
    using create_semaphore_plenty[OF ex_sem_state_kwf l(3,2)] unfolding l(1) one_add_one by blast
  have "Last_SemaphoreID ?s \<noteq> - 1" "(2 :: u16) \<noteq> 0" by (simp_all add: l(1))
  note n = sm.create_new[OF ex_sem_state_kwf this(1) s1(1) this(2)]
  then have l1: "kwf s1" "Last_SemaphoreID s1 + 1 = 3" by simp_all
  have "length (sem_ids s1) = 2" using n by (simp add: sem_ids_def)
  then have "length (sems s1) < MAXSEMAPHORE" by (simp add: sem_ids_def)
  then obtain s' where s': "Kernel_Create_Semaphore_Direct 1 0 s1 = Some (3, s')"
    using create_semaphore_plenty[OF l1(1) _ s1(2)] unfolding l1(2) by blast
  have c: "create_n (Kernel_Create_Semaphore_Direct 1 0) 2 ?s = Some ([2, 3], s')"
    using s1(1) s' by (simp add: numeral_2_eq_2)
  have "unat (Last_SemaphoreID (ex_sem_state 3)) + 2 < 65536" by (simp add: ex_sem_state_def ex_state_def)
  from semaphores_created_distinct[OF ex_sem_state_kwf this c] c show ?thesis
    by (simp add: sem_ids_def ex_SEM_def)
qed

end
