(* ===== verification/Mutex.thy ===== *)
theory Mutex
  imports Examples
begin

text \<open>
  The mutex module, \<open>mutex/mutex.c\<close>: recursive mutexes with a queue of waiting tasks and a
  queue of the priorities they had when they began to wait. Each operation refines an abstract lock
  (\<open>lock_effect\<close>, \<open>unlock_effect\<close>); \<open>run_inv\<close> is the invariant of sequences of calls.
\<close>

section \<open>Operations\<close>

definition upd_mut :: "addr \<Rightarrow> (MUTEX_TYPE \<Rightarrow> MUTEX_TYPE) \<Rightarrow> kstate \<Rightarrow> kstate option" where
  "upd_mut p f s = do { h \<leftarrow> wr (mutexes s) p f; Some (s\<lparr>mutexes := h\<rparr>) }"

definition Mutex_Reset :: "kstate \<Rightarrow> kstate" where
  "Mutex_Reset s = s\<lparr>Mutex_Count := 0, Last_MutexID := 0,
     nodes := (nodes s)(MutexList \<mapsto> \<lparr>pl_ptr = NULL, pl_next = NULL\<rparr>)\<rparr>"

definition findMutexByMutexID :: "u16 \<Rightarrow> kstate \<Rightarrow> (addr \<times> kstate) option" where
  "findMutexByMutexID i s =
     (if i = 0 then Some (NULL, kernel_raise_error INVALID_ARG_ERR s)
      else do {
        p \<leftarrow> find_obj (nodes s) (mutexes s) (\<lambda>x. mut_id x = i) MutexList;
        Some (p, if p = NULL then kernel_raise_error OBJECT_NOT_FOUND_ERR s else s)
      })"

text \<open>\<open>owner_orig_priority\<close> of a new mutex is not initialised.\<close>

definition Kernel_Create_Mutex :: "kstate \<Rightarrow> (u16 \<times> kstate) option" where
  "Kernel_Create_Mutex s =
     (if MAXMUTEX \<le> unat (Mutex_Count s)
      then do {
        s \<leftarrow> (if KernelActive s \<noteq> 0 then upd_cur (\<lambda>d. d\<lparr>request_retval := 0\<rparr>) (kernel_raise_error MAX_OBJECT_ERR s)
              else Some (kernel_raise_error MAX_OBJECT_ERR s));
        Some (0, s)
      }
      else do {
        let (p, s) = malloc_k s;
        s \<leftarrow> add_to_list MutexList p (s\<lparr>mutexes := put_obj (mutexes s) p (junk_MUTEX s p)\<rparr>);
        let s = s\<lparr>Mutex_Count := Mutex_Count s + 1, Last_MutexID := Last_MutexID s + 1\<rparr>;
        s \<leftarrow> upd_mut p (\<lambda>m. m\<lparr>mut_id := Last_MutexID s, mut_owner := 0, lock_count := 0,
               highest_priority := of_nat LOWEST_PRIORITY, mut_wait_queue := new_ptr_queue,
               mut_orig_priority := new_int_queue\<rparr>) s;
        m \<leftarrow> rd (mutexes s) p;
        s \<leftarrow> (if KernelActive s \<noteq> 0 then upd_cur (\<lambda>d. d\<lparr>request_retval := mut_id m\<rparr>) s else Some s);
        Some (mut_id m, s)
      })"

definition Kernel_Destroy_Mutex :: "kstate \<Rightarrow> kstate option" where
  "Kernel_Destroy_Mutex s = do {
     a \<leftarrow> req_arg 0 s;
     (i, mut) \<leftarrow> find_node (nodes s) (mutexes s) (\<lambda>x. mut_id x = a) MutexList NULL;
     if mut = NULL then Some (kernel_raise_error OBJECT_NOT_FOUND_ERR s)
     else do {
       h \<leftarrow> free (mutexes s) mut;
       s \<leftarrow> remove_from_list MutexList i (s\<lparr>mutexes := h\<rparr>);
       Some (s\<lparr>Mutex_Count := Mutex_Count s - 1\<rparr>)
     }
   }"

text \<open>
  The second half of \<open>Kernel_Lock_Mutex\<close>, for a task \<open>d\<close> that finds the mutex \<open>m\<close> locked by
  another one. Storing the \<open>unsigned int\<close> \<open>highest_priority\<close> in a \<open>PRIORITY\<close> truncates it.
\<close>

definition mutex_wait :: "addr \<Rightarrow> MUTEX_TYPE \<Rightarrow> PD \<Rightarrow> kstate \<Rightarrow> kstate option" where
  "mutex_wait p m d s = do {
     (r, al, h, q) \<leftarrow> enqueue_ptr (alloc s) (qelems s) (mut_wait_queue m) (Current_Process s);
     s \<leftarrow> upd_mut p (\<lambda>m. m\<lparr>mut_wait_queue := q\<rparr>) (s\<lparr>alloc := al, qelems := h\<rparr>);
     (r, al, h, q) \<leftarrow> enqueue_int (alloc s) (qelems s) (mut_orig_priority m) (ucast (pri d));
     s \<leftarrow> upd_mut p (\<lambda>m. m\<lparr>mut_orig_priority := q\<rparr>) (s\<lparr>alloc := al, qelems := h\<rparr>);
     s \<leftarrow> (if highest_priority m < ucast (pri d)
           then upd_cur (\<lambda>d. d\<lparr>pri := ucast (highest_priority m)\<rparr>) s
           else if ucast (pri d) < highest_priority m
           then upd_mut p (\<lambda>m. m\<lparr>highest_priority := ucast (pri d)\<rparr>) s
           else Some s);
     s \<leftarrow> upd_cur (\<lambda>d. d\<lparr>state := WAIT_MUTEX\<rparr>) s;
     Some (s\<lparr>Kernel_Request_Cswitch := 1\<rparr>)
   }"

definition Kernel_Lock_Mutex :: "kstate \<Rightarrow> kstate option" where
  "Kernel_Lock_Mutex s = do {
     a \<leftarrow> req_arg 0 s;
     (p, s) \<leftarrow> findMutexByMutexID a s;
     if p = NULL then Some s
     else do {
       m \<leftarrow> rd (mutexes s) p;
       d \<leftarrow> cur_pd s;
       if mut_owner m = 0
       then upd_mut p (\<lambda>m. m\<lparr>mut_owner := pid d, owner_orig_priority := pri d,
              highest_priority := ucast (pri d), lock_count := lock_count m + 1\<rparr>) s
       else if mut_owner m = pid d
       then upd_mut p (\<lambda>m. m\<lparr>lock_count := lock_count m + 1\<rparr>) s
       else mutex_wait p m d s
     }
   }"

definition Kernel_Lock_Mutex_From_Queue :: "addr \<Rightarrow> kstate \<Rightarrow> kstate option" where
  "Kernel_Lock_Mutex_From_Queue mp s = do {
     m \<leftarrow> rd (mutexes s) mp;
     (p, h, q) \<leftarrow> dequeue_ptr (qelems s) (mut_wait_queue m);
     s \<leftarrow> upd_mut mp (\<lambda>m. m\<lparr>mut_wait_queue := q\<rparr>) (s\<lparr>qelems := h\<rparr>);
     d \<leftarrow> rd (pds s) p;
     (v, h, q) \<leftarrow> dequeue_int (qelems s) (mut_orig_priority m);
     s \<leftarrow> upd_mut mp (\<lambda>m. m\<lparr>mut_owner := pid d, mut_orig_priority := q,
            owner_orig_priority := ucast v, lock_count := lock_count m + 1\<rparr>) (s\<lparr>qelems := h\<rparr>);
     if state d \<noteq> WAIT_MUTEX then Some s
     else do {
       s \<leftarrow> upd_pd p (\<lambda>d. d\<lparr>state := READY, pri := ucast (highest_priority m)\<rparr>) s;
       s \<leftarrow> upd_cur (\<lambda>d. d\<lparr>state := READY\<rparr>) s;
       Some (s\<lparr>Kernel_Request_Cswitch := 1\<rparr>)
     }
   }"

definition Kernel_Unlock_Mutex :: "kstate \<Rightarrow> kstate option" where
  "Kernel_Unlock_Mutex s = do {
     a \<leftarrow> req_arg 0 s;
     (p, s) \<leftarrow> findMutexByMutexID a s;
     if p = NULL then Some s
     else do {
       m \<leftarrow> rd (mutexes s) p;
       d \<leftarrow> cur_pd s;
       if mut_owner m \<noteq> pid d then Some (kernel_raise_error OBJECT_NOT_FOUND_ERR s)
       else do {
         s \<leftarrow> upd_mut p (\<lambda>m. m\<lparr>lock_count := lock_count m - 1\<rparr>) s;
         if lock_count m - 1 > 0 then Some s
         else do {
           s \<leftarrow> upd_cur (\<lambda>d. d\<lparr>pri := owner_orig_priority m\<rparr>) s;
           s \<leftarrow> upd_mut p (\<lambda>m. m\<lparr>lock_count := 0\<rparr>) s;
           if q_count (mut_wait_queue m) = 0 then upd_mut p (\<lambda>m. m\<lparr>mut_owner := 0\<rparr>) s
           else Kernel_Lock_Mutex_From_Queue p s
         }
       }
     }
   }"

section \<open>The table of mutexes\<close>

abbreviation muts :: "kstate \<Rightarrow> addr list" where
  "muts s \<equiv> contents (nodes s) MutexList"

definition mut_ids :: "kstate \<Rightarrow> u16 list" where
  "mut_ids s = map (\<lambda>p. mut_id (the (mutexes s p))) (muts s)"

lemma upd_mut_iff: "upd_mut p f s = Some s' \<longleftrightarrow>
    (\<exists>m. rd (mutexes s) p = Some m \<and> s' = s\<lparr>mutexes := (mutexes s)(p \<mapsto> f m)\<rparr>)"
  by (cases "rd (mutexes s) p") (auto simp: upd_mut_def wr_def)

text \<open>The mutex a creation makes.\<close>

definition new_mutex :: "u16 \<Rightarrow> MUTEX_TYPE \<Rightarrow> MUTEX_TYPE" where
  "new_mutex i m = m\<lparr>mut_id := i, mut_owner := 0, lock_count := 0,
     highest_priority := of_nat LOWEST_PRIORITY, mut_wait_queue := new_ptr_queue,
     mut_orig_priority := new_int_queue\<rparr>"

definition with_mutex :: "addr \<Rightarrow> MUTEX_TYPE \<Rightarrow> allocator \<Rightarrow> PtrList heap \<Rightarrow> kstate \<Rightarrow> kstate" where
  "with_mutex p m al h s = s\<lparr>alloc := al, nodes := h,
     Mutex_Count := Mutex_Count s + 1, Last_MutexID := Last_MutexID s + 1, mutexes := (mutexes s)(p \<mapsto> m)\<rparr>"

lemma create_mutex_full:
  assumes "kwf s" "length (muts s) = MAXMUTEX"
  shows "Kernel_Create_Mutex s = map_option (Pair 0) (set_retval 0 (s\<lparr>err := MAX_OBJECT_ERR\<rparr>))"
  using table_wf_count[OF kwf_tables(4)[OF assms(1)]] assms(2)
  by (cases "upd_cur (\<lambda>d. d\<lparr>request_retval := 0\<rparr>) (s\<lparr>err := MAX_OBJECT_ERR\<rparr>)")
    (simp_all add: Kernel_Create_Mutex_def set_retval_def)

lemma create_mutex_new:
  assumes kwf: "kwf s" and room: "length (muts s) < MAXMUTEX"
    and cr: "Kernel_Create_Mutex s = Some (i, s')"
  obtains p al h where "i = Last_MutexID s + 1" and "link_new MutexList p s al h"
    and "set_retval i (with_mutex p (new_mutex i (junk_MUTEX s p)) al h s) = Some s'"
proof -
  have "\<not> MAXMUTEX \<le> unat (Mutex_Count s)"
    using room table_wf_count[OF kwf_tables(4)[OF kwf]] by simp
  moreover obtain p s1 where m: "malloc_k s = (p, s1)" by fastforce
  moreover obtain al1 where s1: "s1 = s\<lparr>alloc := al1\<rparr>" using m by (auto simp: malloc_k_iff)
  moreover have p: "p \<noteq> NULL"
    using cr calculation
    by (auto simp: Kernel_Create_Mutex_def put_obj_def upd_mut_iff elim!: bind_SomeE)
  moreover from calculation cr obtain s3 where
    s3: "add_to_list MutexList p (s1\<lparr>mutexes := (mutexes s)(p \<mapsto> junk_MUTEX s p)\<rparr>) = Some s3"
    by (auto simp: Kernel_Create_Mutex_def put_obj_def elim!: bind_SomeE)
  moreover from malloc_add[OF kwf_parts(1)[OF kwf] _ m p s3] s1
  obtain al h where h: "s3 = s1\<lparr>mutexes := (mutexes s)(p \<mapsto> junk_MUTEX s p), alloc := al, nodes := h\<rparr>"
    "link_new MutexList p s al h"
    by auto
  ultimately show ?thesis
    using cr
    by (intro that[of p al h])
      (auto simp: Kernel_Create_Mutex_def put_obj_def upd_mut_def wr_def rd_def set_retval_def
        new_mutex_def with_mutex_def elim!: bind_SomeE split: if_splits)
qed

lemma kwf_with_mutex:
  assumes kwf: "kwf s" and room: "length (muts s) < MAXMUTEX" and lst: "Last_MutexID s \<noteq> - 1"
    and lnk: "link_new MutexList p s al h" and m: "mut_id m = Last_MutexID s + 1"
    "mut_wait_queue m = new_ptr_queue" "mut_orig_priority m = new_int_queue"
  shows "kwf (with_mutex p m al h s)"
    and "mut_ids (with_mutex p m al h s) = mut_ids s @ [Last_MutexID s + 1]"
proof -
  note M = link_new_mem[OF lnk kwf_parts(1)[OF kwf]] and C = link_new_contents[OF lnk]
  have new: "mutexes s p = None"
    using kwf by (intro link_new_fresh[OF lnk]) (simp add: kwf_defs)
  then have p: "p \<notin> set (muts s)" using table_wf_obj[OF kwf_tables(4)[OF kwf], of p] by auto
  have t: "table_wf (muts s @ [p]) ((mutexes s)(p \<mapsto> m)) mut_id (Mutex_Count s + 1)
      (Last_MutexID s + 1) MAXMUTEX"
    by (rule table_wf_add[OF kwf_tables(4)[OF kwf] p room _ lst m(1)]) simp
  have n: "queues_of s (MutWait p) = None" "((queues_of s)(MutWait p \<mapsto> mut_wait_queue m)) (MutPri p) = None"
    using new by simp_all
  have "queues_inv (qelems s) ((queues_of s)(MutWait p \<mapsto> mut_wait_queue m)) (key_target (pds s) (mail_objs s))"
    by (rule queues_inv_new[OF kwf_parts(3)[OF kwf] n(1)]) (simp_all add: m new_ptr_queue_def queue_rep_def)
  from queues_inv_new[OF this n(2), of "mut_orig_priority m"]
  have q: "queues_inv (qelems s) ((queues_of s)(MutWait p \<mapsto> mut_wait_queue m, MutPri p \<mapsto> mut_orig_priority m))
      (key_target (pds s) (mail_objs s))"
    by (simp_all add: m new_int_queue_def queue_rep_def del: fun_upd_apply)
  show "kwf (with_mutex p m al h s)"
    using kwf_tables[OF kwf] kwf_parts(4)[OF kwf] M t q
    by (simp add: kwf_defs with_mutex_def C queues_in_mut)
  have "map (\<lambda>q. mut_id (the (((mutexes s)(p \<mapsto> m)) q))) (muts s) = mut_ids s"
    using p by (auto simp: mut_ids_def)
  then show "mut_ids (with_mutex p m al h s) = mut_ids s @ [Last_MutexID s + 1]"
    by (simp add: mut_ids_def with_mutex_def C m)
qed

lemma create_mutex_kwf:
  assumes kwf: "kwf s" and lst: "Last_MutexID s \<noteq> - 1" and cr: "Kernel_Create_Mutex s = Some (i, s')"
  shows "kwf s' \<and> (if length (muts s) = MAXMUTEX then i = 0 \<and> mut_ids s' = mut_ids s \<and> Last_MutexID s' = Last_MutexID s
    else i = Last_MutexID s + 1 \<and> Last_MutexID s' = i \<and> mut_ids s' = mut_ids s @ [i])"
proof (cases "length (muts s) = MAXMUTEX")
  case True
  with create_mutex_full[OF kwf] cr have i: "i = 0" "set_retval 0 (s\<lparr>err := MAX_OBJECT_ERR\<rparr>) = Some s'"
    by (cases "set_retval 0 (s\<lparr>err := MAX_OBJECT_ERR\<rparr>)"; simp)+
  with kwf_set_retval[OF i(2)] kwf set_retval_frame[OF i(2)] True show ?thesis by (simp add: mut_ids_def)
next
  case False
  then have room: "length (muts s) < MAXMUTEX" using table_wf_count[OF kwf_tables(4)[OF kwf]] by simp
  obtain p al h where n: "i = Last_MutexID s + 1" "link_new MutexList p s al h"
    "set_retval i (with_mutex p (new_mutex i (junk_MUTEX s p)) al h s) = Some s'"
    by (rule create_mutex_new[OF kwf room cr])
  have "mut_id (new_mutex i (junk_MUTEX s p)) = Last_MutexID s + 1"
    "mut_wait_queue (new_mutex i (junk_MUTEX s p)) = new_ptr_queue"
    "mut_orig_priority (new_mutex i (junk_MUTEX s p)) = new_int_queue" by (simp_all add: new_mutex_def n(1))
  note W = kwf_with_mutex[OF kwf room lst n(2) this]
  with False n(1) kwf_set_retval[OF n(3)] set_retval_frame[OF n(3)] show ?thesis
    by (simp add: mut_ids_def) (simp add: with_mutex_def)
qed

interpretation mt: kernel_objects kwf mut_ids Last_MutexID MAXMUTEX "\<lambda>i. i \<noteq> 0"
  "\<lambda>i s. map_option fst (findMutexByMutexID i s)" Kernel_Create_Mutex
proof
  fix s i s'
  assume kwf: "kwf s"
  note t = kwf_tables(4)[OF kwf] and L = kwf_lists[OF kwf]
  show "0 < i \<and> i \<le> Last_MutexID s" if "i \<in> set (mut_ids s)"
    using ids_bounds[OF t] that by (simp add: mut_ids_def)
  show "sorted_wrt (<) (mut_ids s)" using table_wf_sorted[OF t] by (simp add: mut_ids_def)
  show "length (mut_ids s) \<le> MAXMUTEX" using table_wf_count[OF t] by (simp add: mut_ids_def)
  show "\<exists>s'. Kernel_Create_Mutex s = Some (0, s') \<and> kwf s' \<and> mut_ids s' = mut_ids s \<and>
      Last_MutexID s' = Last_MutexID s" if l: "length (mut_ids s) = MAXMUTEX"
  proof -
    have "kwf (s\<lparr>err := MAX_OBJECT_ERR\<rparr>)" using kwf by simp
    from set_retval_ex[OF this, of 0] obtain s1 where s1: "set_retval 0 (s\<lparr>err := MAX_OBJECT_ERR\<rparr>) = Some s1" by blast
    with create_mutex_full[OF kwf] l kwf_set_retval[OF s1] kwf set_retval_frame[OF s1]
    show ?thesis by (simp add: mut_ids_def)
  qed
  show "kwf s' \<and> i = Last_MutexID s + 1 \<and> Last_MutexID s' = i \<and> mut_ids s' = mut_ids s @ [i]"
    if "Last_MutexID s \<noteq> - 1" "Kernel_Create_Mutex s = Some (i, s')" "i \<noteq> 0"
    using create_mutex_kwf[OF kwf that(1,2)] that(3) by (auto split: if_splits)
  show "\<exists>p. map_option fst (findMutexByMutexID i s) = Some p \<and> (p \<noteq> NULL \<longleftrightarrow> i \<in> set (mut_ids s))"
    if "mut_ids s \<noteq> []" "i \<noteq> 0"
    using find_obj_ids[OF L _ t, of i] that by (auto simp: findMutexByMutexID_def mut_ids_def)
  show "map_option fst (findMutexByMutexID i s) = None" if "mut_ids s = []" "i \<noteq> 0"
    using find_obj_table(1)[OF L _ t] that by (simp add: findMutexByMutexID_def mut_ids_def)
qed

section \<open>The operations keep the invariant\<close>

abbreviation mut_family :: "kstate \<Rightarrow> addr \<Rightarrow> MUTEX_TYPE \<Rightarrow> qkey \<rightharpoonup> Queue" where
  "mut_family s p m \<equiv> (queues_of s)(MutWait p \<mapsto> mut_wait_queue m, MutPri p \<mapsto> mut_orig_priority m)"

lemma kwf_mut:
  assumes kwf: "kwf s" and m: "mutexes s p = Some m"
    and q: "queues_inv h (mut_family s p m') (key_target (pds s) (mail_objs s))"
    and al: "fresh_above al h" "brk (alloc s) \<le> brk al" and id: "mut_id m' = mut_id m"
  shows "kwf (s\<lparr>alloc := al, qelems := h, mutexes := (mutexes s)(p \<mapsto> m')\<rparr>)"
proof -
  have t: "table_wf (muts s) ((mutexes s)(p \<mapsto> m')) mut_id (Mutex_Count s) (Last_MutexID s) MAXMUTEX"
    by (rule table_wf_upd[OF kwf_tables(4)[OF kwf]]) (simp add: m id)
  have "fresh_above (alloc s) ((mutexes s)(p \<mapsto> m'))"
    by (rule fresh_above_upd[where w = m]) (use kwf m in \<open>simp_all add: kwf_defs\<close>)
  then have f: "fresh_above al ((mutexes s)(p \<mapsto> m'))" by (rule fresh_above_mono[OF _ al(2)])
  show ?thesis
    using kwf t q f al by (auto simp: kwf_defs queues_in_mut intro: fresh_above_mono)
qed

lemma kwf_upd_mut:
  assumes u: "upd_mut p f s = Some s'" and kwf: "kwf s"
    and f: "\<And>m. mut_id (f m) = mut_id m" "\<And>m. mut_wait_queue (f m) = mut_wait_queue m"
      "\<And>m. mut_orig_priority (f m) = mut_orig_priority m"
  shows "kwf s'"
proof -
  obtain m where m: "mutexes s p = Some m" "s' = s\<lparr>mutexes := (mutexes s)(p \<mapsto> f m)\<rparr>"
    using u by (auto simp: upd_mut_iff rd_Some_iff)
  have "mut_family s p (f m) = queues_of s" using m by (auto simp: f fun_upd_idem_iff)
  then have "queues_inv (qelems s) (mut_family s p (f m)) (key_target (pds s) (mail_objs s))"
    using kwf_parts(3)[OF kwf] by simp
  from kwf_mut[OF kwf m(1) this, of "alloc s"] kwf m(2) f show ?thesis by (simp add: kwf_defs)
qed

text \<open>Updates of one of the two queues of a mutex.\<close>

lemma mut_family_wait: "mutexes s p = Some m \<Longrightarrow> mut_family s p (m\<lparr>mut_wait_queue := q\<rparr>) = (queues_of s)(MutWait p \<mapsto> q)"
  by (auto simp: fun_eq_iff)

lemma mut_family_pri: "mutexes s p = Some m \<Longrightarrow> mut_family s p (m\<lparr>mut_orig_priority := q\<rparr>) = (queues_of s)(MutPri p \<mapsto> q)"
  by (auto simp: fun_eq_iff)

lemma kwf_mut_enqueue:
  assumes kwf: "kwf s" and m: "rd (mutexes s) p = Some m"
    and en: "enqueue_ptr (alloc s) (qelems s) (mut_wait_queue m) v = Some (r, al, h, q)"
    and v: "v \<noteq> NULL" "v \<in> dom (pds s)"
    and u: "upd_mut p (\<lambda>m. m\<lparr>mut_wait_queue := q\<rparr>) (s\<lparr>alloc := al, qelems := h\<rparr>) = Some s'"
  shows "kwf s'" and "qitems h q = qitems (qelems s) (mut_wait_queue m) @ [v]"
    and "qitems h (mut_orig_priority m) = qitems (qelems s) (mut_orig_priority m)"
proof -
  have m': "mutexes s p = Some m" using m by (simp add: rd_Some_iff)
  then have F: "queues_of s (MutWait p) = Some (mut_wait_queue m)" "queues_of s (MutPri p) = Some (mut_orig_priority m)"
    by simp_all
  have ty: "is_ptr_queue (mut_wait_queue m)"
    using queues_inv_at(2)[OF kwf_parts(3)[OF kwf] F(1)] by simp
  then have en': "enqueue_new (alloc s) (qelems s) (mut_wait_queue m) v = Some (r, al, h, q)"
    using en by (simp add: enqueue_ptr_def)
  have fr: "fresh_above (alloc s) (qelems s)" using kwf by (simp add: kwf_defs)
  have T: "key_target (pds s) (mail_objs s) (MutWait p) v" using v by simp
  note E = queues_inv_enqueue[OF kwf_parts(3)[OF kwf] F(1) fr en' T disjI1[OF not_mails(2)]]
  show "qitems h q = qitems (qelems s) (mut_wait_queue m) @ [v]" by (rule E)
  show "qitems h (mut_orig_priority m) = qitems (qelems s) (mut_orig_priority m)" by (rule E(6)[OF _ F(2)]) simp
  have "kwf (s\<lparr>alloc := al, qelems := h, mutexes := (mutexes s)(p \<mapsto> m\<lparr>mut_wait_queue := q\<rparr>)\<rparr>)"
    by (rule kwf_mut[OF kwf m'], subst mut_family_wait[OF m']) (use E in simp_all)
  with u m show "kwf s'" by (auto simp: upd_mut_iff)
qed

lemma kwf_mut_enqueue_pri:
  assumes kwf: "kwf s" and m: "rd (mutexes s) p = Some m"
    and en: "enqueue_int (alloc s) (qelems s) (mut_orig_priority m) v = Some (r, al, h, q)"
    and u: "upd_mut p (\<lambda>m. m\<lparr>mut_orig_priority := q\<rparr>) (s\<lparr>alloc := al, qelems := h\<rparr>) = Some s'"
  shows "kwf s'" and "qitems h q = qitems (qelems s) (mut_orig_priority m) @ [v]"
    and "qitems h (mut_wait_queue m) = qitems (qelems s) (mut_wait_queue m)"
proof -
  have m': "mutexes s p = Some m" using m by (simp add: rd_Some_iff)
  then have F: "queues_of s (MutWait p) = Some (mut_wait_queue m)" "queues_of s (MutPri p) = Some (mut_orig_priority m)"
    by simp_all
  have ty: "\<not> is_ptr_queue (mut_orig_priority m)"
    using queues_inv_at(2)[OF kwf_parts(3)[OF kwf] F(2)] by simp
  then have en': "enqueue_new (alloc s) (qelems s) (mut_orig_priority m) v = Some (r, al, h, q)"
    using en by (simp add: enqueue_int_def)
  have fr: "fresh_above (alloc s) (qelems s)" using kwf by (simp add: kwf_defs)
  have T: "key_target (pds s) (mail_objs s) (MutPri p) v" by simp
  note E = queues_inv_enqueue[OF kwf_parts(3)[OF kwf] F(2) fr en' T disjI1[OF not_mails(3)]]
  show "qitems h q = qitems (qelems s) (mut_orig_priority m) @ [v]" by (rule E)
  show "qitems h (mut_wait_queue m) = qitems (qelems s) (mut_wait_queue m)" by (rule E(6)[OF _ F(1)]) simp
  have "kwf (s\<lparr>alloc := al, qelems := h, mutexes := (mutexes s)(p \<mapsto> m\<lparr>mut_orig_priority := q\<rparr>)\<rparr>)"
    by (rule kwf_mut[OF kwf m'], subst mut_family_pri[OF m']) (use E in simp_all)
  with u m show "kwf s'" by (auto simp: upd_mut_iff)
qed

lemma kwf_mut_dequeue:
  assumes u: "upd_mut p (\<lambda>m. m\<lparr>mut_wait_queue := q\<rparr>) (s\<lparr>qelems := h\<rparr>) = Some s'"
    and dq: "dequeue_ptr (qelems s) (mut_wait_queue m) = Some (v, h, q)"
    and m: "rd (mutexes s) p = Some m" and kwf: "kwf s"
  shows "kwf s'"
proof -
  have m': "mutexes s p = Some m" using m by (simp add: rd_Some_iff)
  then have F: "queues_of s (MutWait p) = Some (mut_wait_queue m)" by simp
  note D = queues_inv_dequeue_any[OF kwf_parts(3)[OF kwf] F dq[unfolded dequeue_ptr_int]]
  have "kwf (s\<lparr>alloc := alloc s, qelems := h, mutexes := (mutexes s)(p \<mapsto> m\<lparr>mut_wait_queue := q\<rparr>)\<rparr>)"
    by (rule kwf_mut[OF kwf m'], subst mut_family_wait[OF m']) (use D kwf in \<open>simp_all add: kwf_defs\<close>)
  with u m show ?thesis by (auto simp: upd_mut_iff)
qed

lemma kwf_mut_dequeue_pri:
  assumes u: "upd_mut p (\<lambda>m. m\<lparr>mut_owner := ow, mut_orig_priority := q, owner_orig_priority := op,
      lock_count := lock_count m + 1\<rparr>) (s\<lparr>qelems := h\<rparr>) = Some s'"
    and dq: "dequeue_int (qelems s) (mut_orig_priority m) = Some (v, h, q)"
    and m: "rd (mutexes s) p = Some m1" "mut_orig_priority m1 = mut_orig_priority m" and kwf: "kwf s"
  shows "kwf s'"
proof -
  have m': "mutexes s p = Some m1" using m by (simp add: rd_Some_iff)
  then have F: "queues_of s (MutPri p) = Some (mut_orig_priority m)" by (simp add: m(2))
  note D = queues_inv_dequeue_any[OF kwf_parts(3)[OF kwf] F dq]
  let ?m = "m1\<lparr>mut_owner := ow, mut_orig_priority := q, owner_orig_priority := op, lock_count := lock_count m1 + 1\<rparr>"
  have f: "mut_family s p ?m = (queues_of s)(MutPri p \<mapsto> q)" using mut_family_pri[OF m', of q] by simp
  have "kwf (s\<lparr>alloc := alloc s, qelems := h, mutexes := (mutexes s)(p \<mapsto> ?m)\<rparr>)"
    by (rule kwf_mut[OF kwf m'], subst f) (use D kwf in \<open>simp_all add: kwf_defs\<close>)
  with u m show ?thesis by (auto simp: upd_mut_iff)
qed

lemma findMutex_frame:
  "findMutexByMutexID i s = Some (p, s') \<Longrightarrow> kwf s \<Longrightarrow> kwf s'"
  by (auto simp: findMutexByMutexID_def elim!: bind_SomeE split: if_splits)

lemma kwf_Kernel_Lock_Mutex_From_Queue:
  assumes "Kernel_Lock_Mutex_From_Queue mp s = Some s'" "kwf s"
  shows "kwf s'"
proof -
  from assms(1) obtain m p h q s1 d v h2 q2 s2 where
    1: "rd (mutexes s) mp = Some m" "dequeue_ptr (qelems s) (mut_wait_queue m) = Some (p, h, q)"
    "upd_mut mp (\<lambda>m. m\<lparr>mut_wait_queue := q\<rparr>) (s\<lparr>qelems := h\<rparr>) = Some s1"
    and 2: "dequeue_int (qelems s1) (mut_orig_priority m) = Some (v, h2, q2)"
    "upd_mut mp (\<lambda>m. m\<lparr>mut_owner := pid (d :: PD), mut_orig_priority := q2, owner_orig_priority := ucast v,
      lock_count := lock_count m + 1\<rparr>) (s1\<lparr>qelems := h2\<rparr>) = Some s2"
    and 3: "(if state d \<noteq> WAIT_MUTEX then Some s2
     else do {
       s \<leftarrow> upd_pd p (\<lambda>d. d\<lparr>state := READY, pri := ucast (highest_priority m)\<rparr>) s2;
       s \<leftarrow> upd_cur (\<lambda>d. d\<lparr>state := READY\<rparr>) s;
       Some (s\<lparr>Kernel_Request_Cswitch := 1\<rparr>)
     }) = Some s'"
    by (auto simp: Kernel_Lock_Mutex_From_Queue_def elim!: bind_SomeE)
  have "kwf s1" by (rule kwf_mut_dequeue[OF 1(3,2,1) assms(2)])
  moreover have "rd (mutexes s1) mp = Some (m\<lparr>mut_wait_queue := q\<rparr>)"
    using 1(1,3) by (auto simp: upd_mut_iff rd_Some_iff)
  ultimately have "kwf s2" using kwf_mut_dequeue_pri[OF 2(2,1)] by fastforce
  with 3 show ?thesis
    by (auto elim!: bind_SomeE split: if_splits) (erule kwf_steps | simp)+
qed

lemma kwf_Kernel_Unlock_Mutex: "Kernel_Unlock_Mutex s = Some s' \<Longrightarrow> kwf s \<Longrightarrow> kwf s'"
  by (auto simp: Kernel_Unlock_Mutex_def elim!: bind_SomeE split: if_splits)
    (erule kwf_upd_mut kwf_steps kwf_Kernel_Lock_Mutex_From_Queue findMutex_frame | simp)+

lemma kwf_mutex_wait:
  assumes w: "mutex_wait p m d s = Some s'" and m: "rd (mutexes s) p = Some m" and c: "cur_pd s = Some d" and kwf: "kwf s"
  shows "kwf s'"
proof -
  from w obtain r al h q s2 r' al' h' q' s3 s4 s5 where
    1: "enqueue_ptr (alloc s) (qelems s) (mut_wait_queue m) (Current_Process s) = Some (r, al, h, q)"
    "upd_mut p (\<lambda>m. m\<lparr>mut_wait_queue := q\<rparr>) (s\<lparr>alloc := al, qelems := h\<rparr>) = Some s2"
    "enqueue_int (alloc s2) (qelems s2) (mut_orig_priority m) (ucast (pri d)) = Some (r', al', h', q')"
    "upd_mut p (\<lambda>m. m\<lparr>mut_orig_priority := q'\<rparr>) (s2\<lparr>alloc := al', qelems := h'\<rparr>) = Some s3"
    and 2: "(if highest_priority m < ucast (pri d)
           then upd_cur (\<lambda>d. d\<lparr>pri := ucast (highest_priority m)\<rparr>) s3
           else if ucast (pri d) < highest_priority m
           then upd_mut p (\<lambda>m. m\<lparr>highest_priority := ucast (pri d)\<rparr>) s3
           else Some s3) = Some s4"
    "upd_cur (\<lambda>d. d\<lparr>state := WAIT_MUTEX\<rparr>) s4 = Some s5" "Some (s5\<lparr>Kernel_Request_Cswitch := 1\<rparr>) = Some s'"
    unfolding mutex_wait_def by (elim bind_SomeEs) (rule that)
  have "kwf s2" by (rule kwf_mut_enqueue(1)[OF kwf m 1(1) _ _ 1(2)]) (use cur_pd_dom[OF c] in auto)
  moreover have "rd (mutexes s2) p = Some (m\<lparr>mut_wait_queue := q\<rparr>)" using m 1(2) by (auto simp: upd_mut_iff rd_Some_iff)
  ultimately have "kwf s3" using kwf_mut_enqueue_pri(1)[OF _ _ _ 1(4), of "m\<lparr>mut_wait_queue := q\<rparr>"] 1(3) by simp
  then have "kwf s4" using 2(1) by (auto split: if_splits) (erule kwf_steps kwf_upd_mut | simp)+
  then have "kwf s5" by (rule kwf_upd_cur[OF 2(2)]) simp
  with 2(3) show ?thesis by auto
qed

lemma kwf_Kernel_Lock_Mutex: "Kernel_Lock_Mutex s = Some s' \<Longrightarrow> kwf s \<Longrightarrow> kwf s'"
  by (auto simp: Kernel_Lock_Mutex_def elim!: bind_SomeE split: if_splits)
    (erule (2) kwf_mutex_wait | erule kwf_upd_mut findMutex_frame | simp)+

text \<open>Destroying an existing mutex removes it; with an unknown id the result is undefined.\<close>

lemma destroy_mutex_found:
  assumes kwf: "kwf s" and a: "req_arg 0 s = Some i" and p: "p \<in> set (muts s)"
    and i: "mut_id (the (mutexes s p)) = i"
  obtains s' where "Kernel_Destroy_Mutex s = Some s'" and "kwf s'" and "muts s' = remove1 p (muts s)"
    and "mutexes s' = (mutexes s)(p := None)" and "err s' = err s"
proof -
  note t = kwf_tables(4)[OF kwf]
  obtain n h where R: "find_node (nodes s) (mutexes s) (\<lambda>x. mut_id x = i) MutexList NULL = Some (n, p)"
    "ptrlist_remove (nodes s) MutexList n = Some (1, h)" "lists_wf LISTS h"
    "contents h MutexList = remove1 p (muts s)"
    "\<And>M. M \<in> LISTS \<Longrightarrow> M \<noteq> MutexList \<Longrightarrow> contents h M = contents (nodes s) M"
    "\<And>al. fresh_above al (nodes s) \<Longrightarrow> fresh_above al h"
    by (rule find_node_remove[OF kwf_lists[OF kwf] _ t p i]) (simp, rule that)
  have p0: "p \<noteq> NULL" using p contents_not_NULL by blast
  obtain m where m: "mutexes s p = Some m" using table_wf_obj[OF t p] by blast
  let ?s' = "s\<lparr>mutexes := (mutexes s)(p := None), nodes := h, Mutex_Count := Mutex_Count s - 1\<rparr>"
  have d: "Kernel_Destroy_Mutex s = Some ?s'"
    using R(1,2) a p0 m by (simp add: Kernel_Destroy_Mutex_def remove_from_list_def free_def)
  have t': "table_wf (remove1 p (muts s)) ((mutexes s)(p := None)) mut_id (Mutex_Count s - 1)
      (Last_MutexID s) MAXMUTEX"
    by (rule table_wf_new[OF table_wf_remove[OF t p]]) (simp add: table_wf_distinct(2)[OF t])
  have "queues_inv (qelems s) ((queues_of s)(MutWait p := None, MutPri p := None)) (key_target (pds s) (mail_objs s))"
    by (intro queues_inv_del kwf_parts(3)[OF kwf])
  then have "kwf ?s'"
    using kwf t' R(3-6) fresh_above_del[of _ "mutexes s"]
    by (simp add: kwf_defs queues_in_mut_del)
  from that[OF d this] R(4) show ?thesis by simp
qed

lemma destroy_mutex_missing:
  assumes kwf: "kwf s" and a: "req_arg 0 s = Some i" and i: "i \<notin> set (mut_ids s)"
  shows "Kernel_Destroy_Mutex s = None"
proof (cases "muts s = []")
  case True
  with find_node_missing(1)[OF kwf_lists[OF kwf] _ kwf_tables(4)[OF kwf], of i] a i show ?thesis
    by (simp add: Kernel_Destroy_Mutex_def mut_ids_def)
next
  case False
  have "last (muts s) \<in> set (muts s)" using False by simp
  moreover from this obtain m where "mutexes s (last (muts s)) = Some m"
    using table_wf_obj[OF kwf_tables(4)[OF kwf]] by blast
  ultimately show ?thesis
    using find_node_missing(2,3)[OF kwf_lists[OF kwf] _ kwf_tables(4)[OF kwf], of i] a i False
      contents_not_NULL[of "last (muts s)" "nodes s" MutexList]
    by (simp add: Kernel_Destroy_Mutex_def mut_ids_def remove_from_list_def free_def)
qed

lemma kwf_Kernel_Destroy_Mutex:
  assumes d: "Kernel_Destroy_Mutex s = Some s'" and "kwf s"
  shows "kwf s'"
proof -
  obtain i where i: "req_arg 0 s = Some i" using d by (auto simp: Kernel_Destroy_Mutex_def elim: bind_SomeE)
  have "i \<in> set (mut_ids s)" using destroy_mutex_missing[OF assms(2) i] d by auto
  then obtain p where p: "p \<in> set (muts s)" "mut_id (the (mutexes s p)) = i" by (auto simp: mut_ids_def)
  from destroy_mutex_found[OF assms(2) i p] d show ?thesis by (metis option.inject)
qed

section \<open>The lock as a specification\<close>

text \<open>
  The abstract lock: its owner (0 when it is free), how many times the owner has locked it, and
  the tasks that wait for it, in order. \<open>mutex_ok\<close> is the invariant of a mutex that the operations
  need and keep: a free mutex is not locked and nobody waits for it, a locked one is locked at
  least once, and the two queues have one entry for each waiting task.
\<close>

record lock_spec =
  holder :: u16
  depth :: nat
  waiting :: "addr list"

definition spec_lock :: "u16 \<Rightarrow> addr \<Rightarrow> lock_spec \<Rightarrow> lock_spec" where
  "spec_lock t p a =
     (if holder a = 0 then a\<lparr>holder := t, depth := depth a + 1\<rparr>
      else if holder a = t then a\<lparr>depth := depth a + 1\<rparr>
      else a\<lparr>waiting := waiting a @ [p]\<rparr>)"

definition spec_unlock :: "(addr \<Rightarrow> u16) \<Rightarrow> u16 \<Rightarrow> lock_spec \<Rightarrow> lock_spec" where
  "spec_unlock pid_of t a =
     (if holder a \<noteq> t then a
      else if depth a > 1 then a\<lparr>depth := depth a - 1\<rparr>
      else case waiting a of
          [] \<Rightarrow> a\<lparr>holder := 0, depth := 0\<rparr>
        | p # ps \<Rightarrow> \<lparr>holder = pid_of p, depth = 1, waiting = ps\<rparr>)"

definition lock_of :: "QElement heap \<Rightarrow> MUTEX_TYPE \<Rightarrow> lock_spec" where
  "lock_of h m = \<lparr>holder = mut_owner m, depth = unat (lock_count m), waiting = qitems h (mut_wait_queue m)\<rparr>"

definition mutex_ok :: "QElement heap \<Rightarrow> MUTEX_TYPE \<Rightarrow> bool" where
  "mutex_ok h m \<longleftrightarrow> length (qitems h (mut_orig_priority m)) = length (qitems h (mut_wait_queue m)) \<and>
     (if mut_owner m = 0 then lock_count m = 0 \<and> qitems h (mut_wait_queue m) = [] else lock_count m \<noteq> 0)"

lemma find_mutex:
  assumes "kwf s" "p \<in> set (muts s)" "mutexes s p = Some m"
  shows "findMutexByMutexID (mut_id m) s = Some (p, s)"
proof -
  have "0 < mut_id m" using table_wf_key[OF kwf_tables(4)[OF assms(1)] assms(2)] assms(3) by simp
  moreover have "p \<noteq> NULL" using assms(2) contents_not_NULL by blast
  ultimately show ?thesis
    using find_obj_iff[OF kwf_lists[OF assms(1)] _ kwf_tables(4)[OF assms(1)] assms(2)] assms(3)
    by (simp add: findMutexByMutexID_def)
qed

lemma lock_count_Suc: "(x :: u16) \<noteq> - 1 \<Longrightarrow> x + 1 \<noteq> 0"
  by (metis add.inverse_inverse add_eq_0_iff2)

text \<open>Locking a free mutex, or one's own.\<close>

lemma lock_now:
  assumes kwf: "kwf s" and d: "cur_pd s = Some d" "request_args d 0 = mut_id m"
    and p: "p \<in> set (muts s)" "mutexes s p = Some m" and o: "mut_owner m = 0 \<or> mut_owner m = pid d"
  shows "Kernel_Lock_Mutex s = Some (s\<lparr>mutexes := (mutexes s)(p \<mapsto> if mut_owner m = 0
      then m\<lparr>mut_owner := pid d, owner_orig_priority := pri d, highest_priority := ucast (pri d),
        lock_count := lock_count m + 1\<rparr>
      else m\<lparr>lock_count := lock_count m + 1\<rparr>)\<rparr>)"
  using o d p contents_not_NULL[OF p(1)] find_mutex[OF kwf p]
  by (auto simp: Kernel_Lock_Mutex_def req_arg_def upd_mut_def wr_def rd_def)

text \<open>Waiting for a mutex that another task holds.\<close>

definition waits :: "addr \<Rightarrow> MUTEX_TYPE \<Rightarrow> PD \<Rightarrow> kstate \<Rightarrow> kstate \<Rightarrow> bool" where
  "waits p m d s s' \<longleftrightarrow> kwf s' \<and> Kernel_Request_Cswitch s' = 1 \<and> Current_Process s' = Current_Process s \<and> nodes s' = nodes s \<and>
     pds s' = (pds s)(Current_Process s \<mapsto> d\<lparr>state := WAIT_MUTEX,
       pri := (if highest_priority m < ucast (pri d) then ucast (highest_priority m) else pri d)\<rparr>) \<and>
     (\<exists>m'. mutexes s' = (mutexes s)(p \<mapsto> m') \<and> mut_id m' = mut_id m \<and> mut_owner m' = mut_owner m \<and>
       lock_count m' = lock_count m \<and> owner_orig_priority m' = owner_orig_priority m \<and>
       highest_priority m' = min (highest_priority m) (ucast (pri d)) \<and>
       qitems (qelems s') (mut_wait_queue m') = qitems (qelems s) (mut_wait_queue m) @ [Current_Process s] \<and>
       qitems (qelems s') (mut_orig_priority m') = qitems (qelems s) (mut_orig_priority m) @ [ucast (pri d)])"

lemma inherit_priority:
  assumes "cur_pd s = Some d" "rd (mutexes s) p = Some m" "highest_priority m = k"
  shows "(if k < ucast (pri d) then upd_cur (\<lambda>d. d\<lparr>pri := ucast k\<rparr>) s
           else if ucast (pri d) < k then upd_mut p (\<lambda>m. m\<lparr>highest_priority := ucast (pri d)\<rparr>) s
           else Some s) =
    Some (s\<lparr>mutexes := (mutexes s)(p \<mapsto> m\<lparr>highest_priority := min k (ucast (pri d))\<rparr>),
      pds := (pds s)(Current_Process s \<mapsto> d\<lparr>pri := (if k < ucast (pri d) then ucast k else pri d)\<rparr>)\<rparr>)"
proof -
  have "pds s (Current_Process s) = Some d" "mutexes s p = Some m"
    using assms by (auto simp: cur_pd_def rd_Some_iff)
  then have id: "(pds s)(Current_Process s \<mapsto> d) = pds s" "(mutexes s)(p \<mapsto> m) = mutexes s" "m\<lparr>highest_priority := k\<rparr> = m"
    using assms(3) by (simp_all add: fun_upd_idem)
  consider "k < ucast (pri d)" | "ucast (pri d) < k" | "ucast (pri d) = k" by (metis linorder_less_linear)
  then show ?thesis
    using assms by cases (simp_all add: upd_cur_iff upd_mut_iff min_def id)
qed

lemma mutex_wait_effect:
  assumes kwf: "kwf s" and m: "mutexes s p = Some m" "p \<noteq> NULL" and c: "cur_pd s = Some d"
    and w: "mutex_wait p m d s = Some s'"
  shows "waits p m d s s'"
proof -
  have rm: "rd (mutexes s) p = Some m" using m by (simp add: rd_SomeI)
  from w obtain r al h q s2 r' al' h' q' s3 s4 s5 where
    1: "enqueue_ptr (alloc s) (qelems s) (mut_wait_queue m) (Current_Process s) = Some (r, al, h, q)"
    "upd_mut p (\<lambda>m. m\<lparr>mut_wait_queue := q\<rparr>) (s\<lparr>alloc := al, qelems := h\<rparr>) = Some s2"
    "enqueue_int (alloc s2) (qelems s2) (mut_orig_priority m) (ucast (pri d)) = Some (r', al', h', q')"
    "upd_mut p (\<lambda>m. m\<lparr>mut_orig_priority := q'\<rparr>) (s2\<lparr>alloc := al', qelems := h'\<rparr>) = Some s3"
    and 2: "(if highest_priority m < ucast (pri d)
           then upd_cur (\<lambda>d. d\<lparr>pri := ucast (highest_priority m)\<rparr>) s3
           else if ucast (pri d) < highest_priority m
           then upd_mut p (\<lambda>m. m\<lparr>highest_priority := ucast (pri d)\<rparr>) s3
           else Some s3) = Some s4"
    "upd_cur (\<lambda>d. d\<lparr>state := WAIT_MUTEX\<rparr>) s4 = Some s5" "Some (s5\<lparr>Kernel_Request_Cswitch := 1\<rparr>) = Some s'"
    unfolding mutex_wait_def by (elim bind_SomeEs) (rule that)
  have v: "Current_Process s \<noteq> NULL" "Current_Process s \<in> dom (pds s)" using cur_pd_dom[OF c] by auto
  note A = kwf_mut_enqueue[OF kwf rm 1(1) v 1(2)]
  let ?m2 = "m\<lparr>mut_wait_queue := q\<rparr>"
  have s2: "s2 = s\<lparr>alloc := al, qelems := h, mutexes := (mutexes s)(p \<mapsto> ?m2)\<rparr>" "rd (mutexes s2) p = Some ?m2"
    using rm 1(2) m(2) by (auto simp: upd_mut_iff rd_upd)
  have en2: "enqueue_int (alloc s2) (qelems s2) (mut_orig_priority ?m2) (ucast (pri d)) = Some (r', al', h', q')"
    using 1(3) by simp
  note B = kwf_mut_enqueue_pri[OF A(1) s2(2) en2 1(4)]
  let ?m3 = "?m2\<lparr>mut_orig_priority := q'\<rparr>"
  have s3: "s3 = s\<lparr>alloc := al', qelems := h', mutexes := (mutexes s)(p \<mapsto> ?m3)\<rparr>" "rd (mutexes s3) p = Some ?m3"
    using s2 1(4) m(2) by (auto simp: upd_mut_iff rd_upd)
  have q: "qitems h' q = qitems (qelems s) (mut_wait_queue m) @ [Current_Process s]"
    "qitems h' q' = qitems (qelems s) (mut_orig_priority m) @ [ucast (pri d)]"
    using A(2,3) B(2,3) s2(1) by simp_all
  have k: "kwf s'" by (rule kwf_mutex_wait[OF w rm c kwf])
  let ?m4 = "?m3\<lparr>highest_priority := min (highest_priority m) (ucast (pri d))\<rparr>"
  let ?d4 = "d\<lparr>pri := (if highest_priority m < ucast (pri d) then ucast (highest_priority m) else pri d)\<rparr>"
  have c3: "cur_pd s3 = Some d" using c by (simp add: s3 cur_pd_def)
  have "s4 = s\<lparr>alloc := al', qelems := h', mutexes := (mutexes s)(p \<mapsto> ?m4), pds := (pds s)(Current_Process s \<mapsto> ?d4)\<rparr>"
    using inherit_priority[OF c3 s3(2), of "highest_priority m"] 2(1) by (simp add: s3(1))
  with 2(2,3) k q v show ?thesis
    by (auto simp: waits_def upd_cur_iff cur_pd_def rd_def intro!: exI[of _ ?m4])
qed


text \<open>Handing the mutex to the head of the wait queue.\<close>

lemma lock_from_queue_effect:
  assumes kwf: "kwf s" and m: "mutexes s p = Some m" "p \<noteq> NULL" and c: "cur_pd s = Some d"
    and w: "qitems (qelems s) (mut_wait_queue m) = w # ws" "qitems (qelems s) (mut_orig_priority m) = v # vs"
    and dw: "pds s w = Some dw" "state dw = WAIT_MUTEX" and ne: "w \<noteq> Current_Process s"
  obtains s' m' where "Kernel_Lock_Mutex_From_Queue p s = Some s'" and "kwf s'"
    and "mutexes s' = (mutexes s)(p \<mapsto> m')" and "mut_owner m' = pid dw" and "lock_count m' = lock_count m + 1"
    and "owner_orig_priority m' = ucast v" and "highest_priority m' = highest_priority m" and "mut_id m' = mut_id m"
    and "qitems (qelems s') (mut_wait_queue m') = ws" and "qitems (qelems s') (mut_orig_priority m') = vs"
    and "pds s' = (pds s)(w \<mapsto> dw\<lparr>state := READY, pri := ucast (highest_priority m)\<rparr>, Current_Process s \<mapsto> d\<lparr>state := READY\<rparr>)"
    and "nodes s' = nodes s" and "Current_Process s' = Current_Process s" and "err s' = err s"
proof -
  have F: "queues_of s (MutWait p) = Some (mut_wait_queue m)" using m by simp
  have w0: "w \<noteq> NULL" using queues_inv_at(3)[OF kwf_parts(3)[OF kwf] F] w by simp
  obtain h q where dq: "dequeue_int (qelems s) (mut_wait_queue m) = Some (w, h, q)" "qitems h q = ws"
    and Q: "queues_inv h ((queues_of s)(MutWait p \<mapsto> q)) (key_target (pds s) (mail_objs s))"
    and fr: "\<And>k' p'. k' \<noteq> MutWait p \<Longrightarrow> queues_of s k' = Some p' \<Longrightarrow> qitems h p' = qitems (qelems s) p'"
    by (rule queues_inv_dequeue[OF kwf_parts(3)[OF kwf] F w(1)]) (rule that)
  have F2: "((queues_of s)(MutWait p \<mapsto> q)) (MutPri p) = Some (mut_orig_priority m)" using m by simp
  have w2: "qitems h (mut_orig_priority m) = v # vs" using fr[of "MutPri p"] m w(2) by simp
  obtain h2 q2 where dq2: "dequeue_int h (mut_orig_priority m) = Some (v, h2, q2)" "qitems h2 q2 = vs"
    and fr2: "\<And>k' p'. k' \<noteq> MutPri p \<Longrightarrow> ((queues_of s)(MutWait p \<mapsto> q)) k' = Some p' \<Longrightarrow> qitems h2 p' = qitems h p'"
    by (rule queues_inv_dequeue[OF Q F2 w2]) (rule that)
  have w3: "qitems h2 q = ws" using fr2[of "MutWait p"] dq(2) by simp
  let ?m' = "m\<lparr>mut_wait_queue := q, mut_owner := pid dw, mut_orig_priority := q2, owner_orig_priority := ucast v,
    lock_count := lock_count m + 1\<rparr>"
  let ?s' = "s\<lparr>qelems := h2, mutexes := (mutexes s)(p \<mapsto> ?m'),
    pds := (pds s)(w \<mapsto> dw\<lparr>state := READY, pri := ucast (highest_priority m)\<rparr>, Current_Process s \<mapsto> d\<lparr>state := READY\<rparr>),
    Kernel_Request_Cswitch := 1\<rparr>"
  have cp: "Current_Process s \<noteq> NULL" "pds s (Current_Process s) = Some d" using c by (auto simp: cur_pd_def rd_Some_iff)
  have e: "Kernel_Lock_Mutex_From_Queue p s = Some ?s'"
    using m w0 dw dq(1) dq2(1) cp ne
    by (simp add: Kernel_Lock_Mutex_From_Queue_def dequeue_ptr_int upd_mut_def upd_pd_def upd_cur_def wr_def rd_def)
  show ?thesis
    by (rule that[OF e kwf_Kernel_Lock_Mutex_From_Queue[OF e kwf], of ?m']) (simp_all add: w3 dq2(2))
qed

section \<open>Lock and unlock as one step\<close>

lemma lock_effect:
  assumes "kwf s" "cur_pd s = Some d" "request_args d 0 = mut_id m" "0 < pid d"
    and "p \<in> set (muts s)" "mutexes s p = Some m" "mutex_ok (qelems s) m" "lock_count m \<noteq> - 1"
    and "Kernel_Lock_Mutex s = Some s'"
  shows "\<exists>m'. kwf s' \<and> nodes s' = nodes s \<and> mutexes s' = (mutexes s)(p \<mapsto> m') \<and> mutex_ok (qelems s') m' \<and> mut_id m' = mut_id m \<and>
    lock_of (qelems s') m' = spec_lock (pid d) (Current_Process s) (lock_of (qelems s) m) \<and>
    (if mut_owner m = 0 \<or> mut_owner m = pid d then pds s' = pds s
     else Kernel_Request_Cswitch s' = 1 \<and>
       pds s' = (pds s)(Current_Process s \<mapsto> d\<lparr>state := WAIT_MUTEX,
         pri := (if highest_priority m < ucast (pri d) then ucast (highest_priority m) else pri d)\<rparr>))"
proof (cases "mut_owner m = 0 \<or> mut_owner m = pid d")
  case True
  from lock_now[OF assms(1-3,5,6) True] assms(9) have
    s': "s' = s\<lparr>mutexes := (mutexes s)(p \<mapsto> if mut_owner m = 0
      then m\<lparr>mut_owner := pid d, owner_orig_priority := pri d, highest_priority := ucast (pri d),
        lock_count := lock_count m + 1\<rparr>
      else m\<lparr>lock_count := lock_count m + 1\<rparr>)\<rparr>" (is "s' = s\<lparr>mutexes := (mutexes s)(p \<mapsto> ?m')\<rparr>") by simp
  show ?thesis
    using True assms(4,7,8) kwf_Kernel_Lock_Mutex[OF assms(9,1)] lock_count_Suc[OF assms(8)] unat_Suc_word(1)[OF assms(8)]
    unfolding s' by (intro exI[of _ ?m']) (auto simp: mutex_ok_def lock_of_def spec_lock_def split: if_splits)
next
  case False
  have p0: "p \<noteq> NULL" using assms(5) contents_not_NULL by blast
  have "mutex_wait p m d s = Some s'"
    using False assms(2,3,6,9) p0 find_mutex[OF assms(1,5,6)]
    by (auto simp: Kernel_Lock_Mutex_def req_arg_def rd_def)
  from mutex_wait_effect[OF assms(1,6) p0 assms(2) this] have W: "waits p m d s s'" .
  from W obtain m' where m': "mutexes s' = (mutexes s)(p \<mapsto> m')" "mut_id m' = mut_id m" "mut_owner m' = mut_owner m"
    "lock_count m' = lock_count m"
    "qitems (qelems s') (mut_wait_queue m') = qitems (qelems s) (mut_wait_queue m) @ [Current_Process s]"
    "qitems (qelems s') (mut_orig_priority m') = qitems (qelems s) (mut_orig_priority m) @ [ucast (pri d)]"
    unfolding waits_def by blast
  have "kwf s'" "nodes s' = nodes s" "Kernel_Request_Cswitch s' = 1" "pds s' = (pds s)(Current_Process s \<mapsto> d\<lparr>state := WAIT_MUTEX,
         pri := (if highest_priority m < ucast (pri d) then ucast (highest_priority m) else pri d)\<rparr>)"
    using W unfolding waits_def by blast+
  with m' False assms(7) show ?thesis
    by (intro exI[of _ m']) (simp add: mutex_ok_def lock_of_def spec_lock_def)
qed

text \<open>The branches of \<open>Kernel_Unlock_Mutex\<close>; \<open>given_up\<close> is the state in which the holder has given the mutex
  up and has its priority back.\<close>

definition given_up :: "addr \<Rightarrow> MUTEX_TYPE \<Rightarrow> PD \<Rightarrow> kstate \<Rightarrow> kstate" where
  "given_up p m d s = s\<lparr>pds := (pds s)(Current_Process s \<mapsto> d\<lparr>pri := owner_orig_priority m\<rparr>),
     mutexes := (mutexes s)(p \<mapsto> m\<lparr>lock_count := 0\<rparr>)\<rparr>"

lemma unlock_branches:
  assumes "kwf s" "cur_pd s = Some d" "request_args d 0 = mut_id m" "p \<in> set (muts s)" "mutexes s p = Some m"
  shows "mut_owner m \<noteq> pid d \<Longrightarrow> Kernel_Unlock_Mutex s = Some (s\<lparr>err := OBJECT_NOT_FOUND_ERR\<rparr>)"
    and "mut_owner m = pid d \<Longrightarrow> lock_count m \<noteq> 1 \<Longrightarrow>
      Kernel_Unlock_Mutex s = Some (s\<lparr>mutexes := (mutexes s)(p \<mapsto> m\<lparr>lock_count := lock_count m - 1\<rparr>)\<rparr>)"
    and "mut_owner m = pid d \<Longrightarrow> lock_count m = 1 \<Longrightarrow> Kernel_Unlock_Mutex s =
      (if q_count (mut_wait_queue m) = 0 then upd_mut p (\<lambda>m. m\<lparr>mut_owner := 0\<rparr>) (given_up p m d s)
       else Kernel_Lock_Mutex_From_Queue p (given_up p m d s))"
proof -
  have p0: "p \<noteq> NULL" using assms(4) contents_not_NULL by blast
  have rm: "rd (mutexes s) p = Some m" using assms(5) p0 by (simp add: rd_SomeI)
  have cp: "Current_Process s \<noteq> NULL" "pds s (Current_Process s) = Some d" using assms(2) by (auto simp: cur_pd_def rd_Some_iff)
  note start = find_mutex[OF assms(1,4,5)] rm assms(2,3) p0
  show "mut_owner m \<noteq> pid d \<Longrightarrow> Kernel_Unlock_Mutex s = Some (s\<lparr>err := OBJECT_NOT_FOUND_ERR\<rparr>)"
    using start by (simp add: Kernel_Unlock_Mutex_def req_arg_def)
  show "Kernel_Unlock_Mutex s = Some (s\<lparr>mutexes := (mutexes s)(p \<mapsto> m\<lparr>lock_count := lock_count m - 1\<rparr>)\<rparr>)"
    if "mut_owner m = pid d" "lock_count m \<noteq> 1"
    using that start by (simp add: Kernel_Unlock_Mutex_def req_arg_def upd_mut_def wr_Some word_gt_0)
  show "Kernel_Unlock_Mutex s =
      (if q_count (mut_wait_queue m) = 0 then upd_mut p (\<lambda>m. m\<lparr>mut_owner := 0\<rparr>) (given_up p m d s)
       else Kernel_Lock_Mutex_From_Queue p (given_up p m d s))"
    if "mut_owner m = pid d" "lock_count m = 1"
    using that start cp
    by (simp add: Kernel_Unlock_Mutex_def req_arg_def upd_mut_def wr_def rd_def upd_cur_def upd_pd_def given_up_def)
qed

lemma kwf_given_up:
  assumes "kwf s" "cur_pd s = Some d" "rd (mutexes s) p = Some m"
  shows "kwf (given_up p m d s)"
proof -
  let ?s = "s\<lparr>pds := (pds s)(Current_Process s \<mapsto> d\<lparr>pri := owner_orig_priority m\<rparr>)\<rparr>"
  have "upd_cur (\<lambda>d. d\<lparr>pri := owner_orig_priority m\<rparr>) s = Some ?s" using assms(2) by (simp add: upd_cur_iff)
  then have "kwf ?s" by (rule kwf_upd_cur) (simp_all add: assms(1))
  moreover have "upd_mut p (\<lambda>m. m\<lparr>lock_count := 0\<rparr>) ?s = Some (given_up p m d s)"
    using assms(3) by (simp add: upd_mut_iff given_up_def)
  ultimately show ?thesis using kwf_upd_mut by fastforce
qed

lemma wait_queue_empty:
  assumes "kwf s" "mutexes s p = Some m"
  shows "q_count (mut_wait_queue m) = 0 \<longleftrightarrow> qitems (qelems s) (mut_wait_queue m) = []"
proof -
  have "queues_of s (MutWait p) = Some (mut_wait_queue m)" using assms(2) by simp
  from queue_rep_count[OF queues_inv_at(1)[OF kwf_parts(3)[OF assms(1)] this]] show ?thesis
    by (auto simp: qitems_def unat_eq_zero)
qed

lemma unlock_hands_over:
  assumes kwf: "kwf s" and d: "cur_pd s = Some d" "request_args d 0 = mut_id m"
    and p: "p \<in> set (muts s)" "mutexes s p = Some m" and own: "mut_owner m = pid d" "lock_count m = 1"
    and q: "qitems (qelems s) (mut_wait_queue m) = w # ws" "qitems (qelems s) (mut_orig_priority m) = v # vs"
    and w: "w \<noteq> Current_Process s" "state (the (pds s w)) = WAIT_MUTEX"
  obtains s' m' where "Kernel_Unlock_Mutex s = Some s'" and "kwf s'" and "mutexes s' = (mutexes s)(p \<mapsto> m')"
    and "mut_owner m' = pid (the (pds s w))" and "lock_count m' = 1"
    and "qitems (qelems s') (mut_wait_queue m') = ws" and "qitems (qelems s') (mut_orig_priority m') = vs"
    and "err s' = err s" and "nodes s' = nodes s" and "mut_id m' = mut_id m"
    and "pds s' = (pds s)(w \<mapsto> (the (pds s w))\<lparr>state := READY, pri := ucast (highest_priority m)\<rparr>,
      Current_Process s \<mapsto> d\<lparr>pri := owner_orig_priority m, state := READY\<rparr>)"
proof -
  have p0: "p \<noteq> NULL" using p(1) contents_not_NULL by blast
  have cp: "Current_Process s \<noteq> NULL" using d by (auto simp: cur_pd_def rd_Some_iff)
  have F: "queues_of s (MutWait p) = Some (mut_wait_queue m)" using p(2) by simp
  obtain dw where dw: "pds s w = Some dw" using queues_inv_at(3)[OF kwf_parts(3)[OF kwf] F, of w] q by auto
  let ?s = "given_up p m d s"
  have k1: "kwf ?s" using kwf_given_up[OF kwf d(1)] p p0 by (simp add: rd_SomeI)
  have g: "mutexes ?s p = Some (m\<lparr>lock_count := 0\<rparr>)" "cur_pd ?s = Some (d\<lparr>pri := owner_orig_priority m\<rparr>)"
    "Current_Process ?s = Current_Process s" "qelems ?s = qelems s" "err ?s = err s"
    using cp by (simp_all add: given_up_def cur_pd_def rd_def)
  obtain s' m' where E: "Kernel_Lock_Mutex_From_Queue p ?s = Some s'" "kwf s'"
    "mutexes s' = (mutexes ?s)(p \<mapsto> m')" "mut_owner m' = pid dw" "lock_count m' = lock_count (m\<lparr>lock_count := 0\<rparr>) + 1"
    "qitems (qelems s') (mut_wait_queue m') = ws" "qitems (qelems s') (mut_orig_priority m') = vs"
    "pds s' = (pds ?s)(w \<mapsto> dw\<lparr>state := READY, pri := ucast (highest_priority (m\<lparr>lock_count := 0\<rparr>))\<rparr>,
       Current_Process ?s \<mapsto> d\<lparr>pri := owner_orig_priority m, state := READY\<rparr>)" "err s' = err ?s"
    "nodes s' = nodes ?s" "mut_id m' = mut_id m"
    by (rule lock_from_queue_effect[OF k1 g(1) p0 g(2), of w ws v vs dw])
      (use q dw w in \<open>simp_all add: g(3,4)\<close>, simp_all add: given_up_def)
  have e: "Kernel_Unlock_Mutex s = Some s'"
    using unlock_branches(3)[OF kwf d p own] wait_queue_empty[OF kwf p(2)] q E(1) by simp
  show ?thesis
    by (rule that[OF e E(2), of m']) (use E w dw in \<open>simp_all add: given_up_def\<close>)
qed

lemma unlock_effect:
  assumes "kwf s" "cur_pd s = Some d" "request_args d 0 = mut_id m" "0 < pid d"
    and "p \<in> set (muts s)" "mutexes s p = Some m" "mutex_ok (qelems s) m"
    and "\<forall>w \<in> set (qitems (qelems s) (mut_wait_queue m)). w \<noteq> Current_Process s \<and>
      state (the (pds s w)) = WAIT_MUTEX \<and> pid (the (pds s w)) \<noteq> 0"
  shows "\<exists>s' m'. Kernel_Unlock_Mutex s = Some s' \<and> kwf s' \<and> nodes s' = nodes s \<and> mut_id m' = mut_id m \<and> mutexes s' = (mutexes s)(p \<mapsto> m') \<and>
    mutex_ok (qelems s') m' \<and>
    lock_of (qelems s') m' = spec_unlock (\<lambda>w. pid (the (pds s w))) (pid d) (lock_of (qelems s) m) \<and>
    err s' = (if mut_owner m = pid d then err s else OBJECT_NOT_FOUND_ERR) \<and>
    pds s' = (if mut_owner m = pid d \<and> lock_count m = 1 then
      case qitems (qelems s) (mut_wait_queue m) of
        [] \<Rightarrow> (pds s)(Current_Process s \<mapsto> d\<lparr>pri := owner_orig_priority m\<rparr>)
      | w # ws \<Rightarrow> (pds s)(w \<mapsto> (the (pds s w))\<lparr>state := READY, pri := ucast (highest_priority m)\<rparr>,
          Current_Process s \<mapsto> d\<lparr>pri := owner_orig_priority m, state := READY\<rparr>)
      else pds s)"
proof (cases "mut_owner m = pid d")
  case False
  have "mutexes s = (mutexes s)(p \<mapsto> m)" using assms(6) by auto
  with False assms(1,7) unlock_branches(1)[OF assms(1-3,5,6) False] show ?thesis
    by (intro exI[of _ "s\<lparr>err := OBJECT_NOT_FOUND_ERR\<rparr>"] exI[of _ m]) (simp add: lock_of_def spec_unlock_def)
next
  case own: True
  have lc: "lock_count m \<noteq> 0" using assms(4,7) own by (auto simp: mutex_ok_def)
  show ?thesis
  proof (cases "lock_count m = 1")
    case False
    note e = unlock_branches(2)[OF assms(1-3,5,6) own False]
    have "1 < unat (lock_count m)" using lc False word_unat_eq_iff[of "lock_count m" 1] word_unat_eq_iff[of "lock_count m" 0] by simp
    with e own False assms(4,7) unat_dec[OF lc] kwf_Kernel_Unlock_Mutex[OF e assms(1)] show ?thesis
      by (intro exI[of _ "s\<lparr>mutexes := (mutexes s)(p \<mapsto> m\<lparr>lock_count := lock_count m - 1\<rparr>)\<rparr>"]
          exI[of _ "m\<lparr>lock_count := lock_count m - 1\<rparr>"]) (auto simp: lock_of_def spec_unlock_def mutex_ok_def)
  next
    case one: True
    show ?thesis
    proof (cases "qitems (qelems s) (mut_wait_queue m)")
      case Nil
      let ?m' = "m\<lparr>lock_count := 0, mut_owner := 0\<rparr>"
      let ?s' = "(given_up p m d s)\<lparr>mutexes := (mutexes s)(p \<mapsto> ?m')\<rparr>"
      have "p \<noteq> NULL" using assms(5) contents_not_NULL by blast
      then have e: "Kernel_Unlock_Mutex s = Some ?s'"
        using unlock_branches(3)[OF assms(1-3,5,6) own one] wait_queue_empty[OF assms(1,6)] Nil
        by (simp add: upd_mut_def wr_def rd_def given_up_def)
      show ?thesis
        using e kwf_Kernel_Unlock_Mutex[OF e assms(1)] Nil own one assms(7)
        by (intro exI[of _ ?s'] exI[of _ ?m']) (simp add: lock_of_def spec_unlock_def mutex_ok_def given_up_def)
    next
      case (Cons w ws)
      then obtain v vs where vs: "qitems (qelems s) (mut_orig_priority m) = v # vs" "length vs = length ws"
        using assms(7) by (cases "qitems (qelems s) (mut_orig_priority m)") (auto simp: mutex_ok_def)
      have w: "w \<noteq> Current_Process s" "state (the (pds s w)) = WAIT_MUTEX" "pid (the (pds s w)) \<noteq> 0"
        using assms(8) Cons by auto
      from unlock_hands_over[OF assms(1-3,5,6) own one Cons vs(1) w(1,2)] obtain s' m' where
        "Kernel_Unlock_Mutex s = Some s'" "kwf s'" "mutexes s' = (mutexes s)(p \<mapsto> m')"
        "mut_owner m' = pid (the (pds s w))" "lock_count m' = 1" "qitems (qelems s') (mut_wait_queue m') = ws"
        "qitems (qelems s') (mut_orig_priority m') = vs" "err s' = err s"
        "nodes s' = nodes s" "mut_id m' = mut_id m"
        "pds s' = (pds s)(w \<mapsto> (the (pds s w))\<lparr>state := READY, pri := ucast (highest_priority m)\<rparr>,
          Current_Process s \<mapsto> d\<lparr>pri := owner_orig_priority m, state := READY\<rparr>)" .
      with own one w Cons vs assms(7) show ?thesis
        by (intro exI[of _ s'] exI[of _ m']) (simp add: lock_of_def spec_unlock_def mutex_ok_def)
    qed
  qed
qed

section \<open>Sequences of calls\<close>

text \<open>
  A call of lock or unlock for the mutex \<open>i\<close> by the task \<open>c\<close>, and a run: calls by tasks of the task list
  that do not wait for a mutex, with anything between two calls that leaves the mutexes, the
  queues and the task list alone and neither makes a task wait for a mutex nor ends such a wait (a
  context switch, for instance). \<open>locks_held\<close> counts, from the calls alone, how often a task has locked
  the mutex and not yet unlocked it, a lock call in which it still waits included.
\<close>

definition mutex_call :: "u16 \<Rightarrow> bool \<times> addr \<Rightarrow> kstate \<Rightarrow> kstate option" where
  "mutex_call i bc s = do {
     s \<leftarrow> upd_cur (\<lambda>d. d\<lparr>request_args := (request_args d)(0 := i)\<rparr>) (s\<lparr>Current_Process := snd bc\<rparr>);
     if fst bc then Kernel_Lock_Mutex s else Kernel_Unlock_Mutex s
   }"

definition blocked_on_mutex :: "kstate \<Rightarrow> addr \<Rightarrow> bool" where
  "blocked_on_mutex s c \<longleftrightarrow> state (the (pds s c)) = WAIT_MUTEX"

inductive mutex_run :: "u16 \<Rightarrow> (bool \<times> addr) list \<Rightarrow> kstate \<Rightarrow> kstate \<Rightarrow> bool" for i where
  start: "mutex_run i [] s s"
| call: "mutex_run i cs s s1 \<Longrightarrow> c \<in> set (procs s1) \<Longrightarrow> \<not> blocked_on_mutex s1 c \<Longrightarrow> mutex_call i (b, c) s1 = Some s2 \<Longrightarrow>
    mutex_run i (cs @ [(b, c)]) s s2"
| between: "mutex_run i cs s s1 \<Longrightarrow> kwf s2 \<Longrightarrow> nodes s2 = nodes s1 \<Longrightarrow> mutexes s2 = mutexes s1 \<Longrightarrow> qelems s2 = qelems s1 \<Longrightarrow>
    \<forall>q \<in> set (procs s1). pid (the (pds s2 q)) = pid (the (pds s1 q)) \<and> blocked_on_mutex s2 q = blocked_on_mutex s1 q \<Longrightarrow>
    mutex_run i cs s s2"

definition locks_held :: "(bool \<times> addr) list \<Rightarrow> addr \<Rightarrow> nat" where
  "locks_held cs c = fold (\<lambda>(b, c') n. if c' = c then (if b then Suc n else n - 1) else n) cs 0"

lemma locks_held_Nil [simp]: "locks_held [] c = 0"
  by (simp add: locks_held_def)

lemma locks_held_snoc [simp]: "locks_held (cs @ [(b, c')]) =
    (locks_held cs)(c' := if b then Suc (locks_held cs c') else locks_held cs c' - 1)"
  by (simp add: locks_held_def fun_eq_iff)

text \<open>
  The invariant of a run over the abstract lock, for the tasks \<open>ps\<close>, their process ids \<open>pd\<close>, those \<open>B\<close>
  that wait for a mutex and the counts \<open>f\<close>.
\<close>

definition held_by :: "addr list \<Rightarrow> (addr \<Rightarrow> u16) \<Rightarrow> (addr \<Rightarrow> bool) \<Rightarrow> (addr \<Rightarrow> nat) \<Rightarrow> lock_spec \<Rightarrow> bool" where
  "held_by ps pd B f a \<longleftrightarrow> distinct (waiting a) \<and>
     (\<forall>w \<in> set (waiting a). w \<in> set ps \<and> B w \<and> f w = 1) \<and>
     (\<forall>c \<in> set ps - set (waiting a). f c = (if pd c = holder a then depth a else 0)) \<and>
     (if holder a = 0 then depth a = 0 \<and> waiting a = []
      else 0 < depth a \<and> (\<exists>c \<in> set ps. pd c = holder a \<and> \<not> B c))"

lemma held_by_lock:
  assumes h: "held_by ps pd B f a" and inj: "inj_on pd (set ps)" and c: "c \<in> set ps" "\<not> B c" "pd c \<noteq> 0"
  shows "held_by ps pd (\<lambda>q. B q \<or> q = c \<and> holder a \<noteq> 0 \<and> holder a \<noteq> pd c) (f(c := Suc (f c))) (spec_lock (pd c) c a)"
proof -
  have "c \<notin> set (waiting a)" using h c(2) by (auto simp: held_by_def)
  moreover have "pd q = pd c \<longleftrightarrow> q = c" if "q \<in> set ps" for q using inj c(1) that by (auto dest: inj_onD)
  ultimately show ?thesis using h c by (auto simp: held_by_def spec_lock_def)
qed

lemma held_by_unlock:
  assumes h: "held_by ps pd B f a" and inj: "inj_on pd (set ps)" and c: "c \<in> set ps" "\<not> B c" "pd c \<noteq> 0"
    and nz: "\<forall>q \<in> set ps. pd q \<noteq> 0"
  shows "held_by ps pd (\<lambda>q. B q \<and> \<not> (holder a = pd c \<and> depth a = 1 \<and> waiting a \<noteq> [] \<and> q = hd (waiting a)))
    (f(c := f c - 1)) (spec_unlock pd (pd c) a)"
proof -
  have "c \<notin> set (waiting a)" using h c(2) by (auto simp: held_by_def)
  moreover have "pd q = pd c \<longleftrightarrow> q = c" if "q \<in> set ps" for q using inj c(1) that by (auto dest: inj_onD)
  moreover have "pd q = pd w \<longleftrightarrow> q = w" if "q \<in> set ps" "w \<in> set (waiting a)" for q w
    using inj h that by (auto simp: held_by_def dest: inj_onD)
  moreover have "0 < depth a" if "holder a = pd c" using h c(3) that by (auto simp: held_by_def)
  ultimately show ?thesis using h c nz
    by (cases "holder a = pd c"; cases "waiting a") (auto simp: held_by_def spec_unlock_def)
qed

text \<open>At most one task has the mutex, and when one wants it, one has it.\<close>

lemma held_by_one:
  assumes h: "held_by ps pd B f a" and inj: "inj_on pd (set ps)" and nz: "\<forall>q \<in> set ps. pd q \<noteq> 0"
  shows "(\<forall>c \<in> set ps. f c = 0) \<or> (\<exists>!c. c \<in> set ps \<and> 0 < f c \<and> \<not> B c)"
proof (cases "holder a = 0")
  case True
  then show ?thesis using h nz by (auto simp: held_by_def)
next
  case False
  then obtain c where c: "c \<in> set ps" "pd c = holder a" "\<not> B c" "0 < depth a" using h by (auto simp: held_by_def)
  have "c \<notin> set (waiting a)" using h c(3) by (auto simp: held_by_def)
  then have "0 < f c" using h c by (auto simp: held_by_def)
  moreover have "q = c" if q: "q \<in> set ps" "0 < f q" "\<not> B q" for q
  proof -
    have "q \<notin> set (waiting a)" using h q(3) by (auto simp: held_by_def)
    then have "pd q = holder a" using h q(1,2) by (auto simp: held_by_def split: if_splits)
    then show ?thesis using inj c(1,2) q(1) by (metis inj_onD)
  qed
  ultimately show ?thesis using c by blast
qed

definition run_inv :: "addr \<Rightarrow> u16 \<Rightarrow> (bool \<times> addr) list \<Rightarrow> kstate \<Rightarrow> bool" where
  "run_inv p i cs s \<longleftrightarrow> kwf s \<and> p \<in> set (muts s) \<and> (\<exists>m. mutexes s p = Some m \<and> mut_id m = i \<and>
     mutex_ok (qelems s) m \<and> unat (lock_count m) \<le> length cs \<and>
     held_by (procs s) (\<lambda>q. pid (the (pds s q))) (blocked_on_mutex s) (locks_held cs) (lock_of (qelems s) m))"

lemma pid_facts:
  assumes "kwf s"
  shows "inj_on (\<lambda>q. pid (the (pds s q))) (set (procs s))" and "\<forall>q \<in> set (procs s). pid (the (pds s q)) \<noteq> 0"
proof -
  note t = kwf_tables(1)[OF assms]
  show "inj_on (\<lambda>q. pid (the (pds s q))) (set (procs s))"
    by (rule inj_onI) (rule table_wf_key_inj[OF t])
  show "\<forall>q \<in> set (procs s). pid (the (pds s q)) \<noteq> 0"
    using table_wf_key[OF t] by fastforce
qed

text \<open>A call starts in the state in which \<open>c\<close> is current and has the request in its descriptor.\<close>

lemma call_start:
  assumes kwf: "kwf s" and c: "c \<in> set (procs s)" and call: "mutex_call i (b, c) s = Some s'"
  obtains d s0 where "s0 = s\<lparr>Current_Process := c, pds := (pds s)(c \<mapsto> d)\<rparr>" and "kwf s0" and "cur_pd s0 = Some d"
    and "request_args d 0 = i" and "pid d = pid (the (pds s c))" and "state d = state (the (pds s c))"
    and "(if b then Kernel_Lock_Mutex s0 else Kernel_Unlock_Mutex s0) = Some s'"
proof -
  obtain e where e: "pds s c = Some e" using table_wf_obj[OF kwf_tables(1)[OF kwf] c] by blast
  have c0: "c \<noteq> NULL" using c contents_not_NULL by blast
  let ?d = "e\<lparr>request_args := (request_args e)(0 := i)\<rparr>"
  let ?s = "s\<lparr>Current_Process := c, pds := (pds s)(c \<mapsto> ?d)\<rparr>"
  have u: "upd_cur (\<lambda>d. d\<lparr>request_args := (request_args d)(0 := i)\<rparr>) (s\<lparr>Current_Process := c\<rparr>) = Some ?s"
    using e c0 by (simp add: upd_cur_iff cur_pd_def rd_def)
  have "kwf (s\<lparr>Current_Process := c\<rparr>)" using kwf e c0 by (auto simp: kwf_defs)
  then have "kwf ?s" by (rule kwf_upd_cur[OF u]) simp
  moreover have "(if b then Kernel_Lock_Mutex ?s else Kernel_Unlock_Mutex ?s) = Some s'"
    using call unfolding mutex_call_def fst_conv snd_conv u by simp
  ultimately show ?thesis using e c0 by (intro that[of ?s ?d]) (simp_all add: cur_pd_def rd_def)
qed

lemma run_inv_call:
  assumes inv: "run_inv p i cs s" "length cs < 65535" and c: "c \<in> set (procs s)" "\<not> blocked_on_mutex s c"
    and call: "mutex_call i (b, c) s = Some s'"
  shows "run_inv p i (cs @ [(b, c)]) s'"
proof -
  let ?pid = "\<lambda>q. pid (the (pds s q))" and ?B = "blocked_on_mutex s" and ?f = "locks_held cs"
  from inv(1) obtain m where k: "kwf s" and p: "p \<in> set (muts s)" and m: "mutexes s p = Some m" "mut_id m = i"
    "mutex_ok (qelems s) m" "unat (lock_count m) \<le> length cs" and h: "held_by (procs s) ?pid ?B ?f (lock_of (qelems s) m)"
    unfolding run_inv_def by blast
  let ?a = "lock_of (qelems s) m"
  note P = pid_facts[OF k]
  have c0: "?pid c \<noteq> 0" using P(2) c(1) by blast
  obtain d s0 where s0: "s0 = s\<lparr>Current_Process := c, pds := (pds s)(c \<mapsto> d)\<rparr>" "kwf s0" "cur_pd s0 = Some d"
    "request_args d 0 = i" "pid d = ?pid c" "state d = state (the (pds s c))"
    "(if b then Kernel_Lock_Mutex s0 else Kernel_Unlock_Mutex s0) = Some s'"
    by (rule call_start[OF k c(1) call]) (rule that)
  have pre: "request_args d 0 = mut_id m" "0 < pid d" "p \<in> set (muts s0)" "mutexes s0 p = Some m" "mutex_ok (qelems s0) m"
    using s0(1,4,5) m p c0 by (simp_all add: word_gt_0)
  have sB: "state d \<noteq> WAIT_MUTEX" using c(2) s0(6) by (simp add: blocked_on_mutex_def)
  have "\<exists>m'. kwf s' \<and> nodes s' = nodes s \<and> mutexes s' p = Some m' \<and> mut_id m' = i \<and> mutex_ok (qelems s') m' \<and>
    (\<lambda>q. pid (the (pds s' q))) = ?pid \<and> depth (lock_of (qelems s') m') \<le> Suc (depth ?a) \<and>
    held_by (procs s) ?pid (blocked_on_mutex s') (locks_held (cs @ [(b, c)])) (lock_of (qelems s') m')"
  proof (cases b)
    case True
    have l: "lock_count m \<noteq> - 1" by (rule below_max) (use m(4) inv(2) in simp)
    from lock_effect[OF s0(2,3) pre l] s0(7) True obtain m' where m': "kwf s'" "nodes s' = nodes s0"
      "mutexes s' = (mutexes s0)(p \<mapsto> m')" "mutex_ok (qelems s') m'" "mut_id m' = mut_id m"
      "lock_of (qelems s') m' = spec_lock (pid d) (Current_Process s0) (lock_of (qelems s0) m)"
      and E: "if mut_owner m = 0 \<or> mut_owner m = pid d then pds s' = pds s0
       else Kernel_Request_Cswitch s' = 1 \<and>
         pds s' = (pds s0)(Current_Process s0 \<mapsto> d\<lparr>state := WAIT_MUTEX,
           pri := (if highest_priority m < ucast (pri d) then ucast (highest_priority m) else pri d)\<rparr>)"
      by auto
    have L: "lock_of (qelems s') m' = spec_lock (?pid c) c ?a" using m'(6) s0(1,5) by simp
    have "blocked_on_mutex s' = (\<lambda>q. ?B q \<or> q = c \<and> holder ?a \<noteq> 0 \<and> holder ?a \<noteq> ?pid c)"
      using E s0(1,5,6) sB by (auto simp: fun_eq_iff blocked_on_mutex_def lock_of_def split: if_splits)
    moreover have "(\<lambda>q. pid (the (pds s' q))) = ?pid"
      using E s0(1,5) by (auto simp: fun_eq_iff split: if_splits)
    ultimately show ?thesis
      using m' s0(1) m(2) held_by_lock[OF h P(1) c c0] True L by (intro exI[of _ m']) (simp add: spec_lock_def)
  next
    case False
    have w: "\<forall>w \<in> set (qitems (qelems s0) (mut_wait_queue m)). w \<noteq> Current_Process s0 \<and>
      state (the (pds s0 w)) = WAIT_MUTEX \<and> pid (the (pds s0 w)) \<noteq> 0"
      using h c(2) P(2) s0(1) by (auto simp: held_by_def lock_of_def blocked_on_mutex_def)
    from unlock_effect[OF s0(2,3) pre w] s0(7) False obtain m' where m': "kwf s'" "nodes s' = nodes s0"
      "mutexes s' = (mutexes s0)(p \<mapsto> m')" "mutex_ok (qelems s') m'" "mut_id m' = mut_id m"
      "lock_of (qelems s') m' = spec_unlock (\<lambda>w. pid (the (pds s0 w))) (pid d) (lock_of (qelems s0) m)"
      and E: "pds s' = (if mut_owner m = pid d \<and> lock_count m = 1 then
      case qitems (qelems s0) (mut_wait_queue m) of
        [] \<Rightarrow> (pds s0)(Current_Process s0 \<mapsto> d\<lparr>pri := owner_orig_priority m\<rparr>)
      | w # ws \<Rightarrow> (pds s0)(w \<mapsto> (the (pds s0 w))\<lparr>state := READY, pri := ucast (highest_priority m)\<rparr>,
          Current_Process s0 \<mapsto> d\<lparr>pri := owner_orig_priority m, state := READY\<rparr>)
      else pds s0)"
      by auto
    have pid0: "(\<lambda>q. pid (the (pds s0 q))) = ?pid" using s0(1,5) by (auto simp: fun_eq_iff)
    have one: "lock_count m = 1 \<longleftrightarrow> depth ?a = 1"
      using word_unat_eq_iff[of "lock_count m" 1] by (simp add: lock_of_def)
    have L: "lock_of (qelems s') m' = spec_unlock ?pid (?pid c) ?a" using m'(6) s0(1,5) pid0 by simp
    have "blocked_on_mutex s' = (\<lambda>q. ?B q \<and> \<not> (holder ?a = ?pid c \<and> depth ?a = 1 \<and> waiting ?a \<noteq> [] \<and> q = hd (waiting ?a)))"
      unfolding one[symmetric]
      using E s0(1,5,6) sB by (auto simp: fun_eq_iff blocked_on_mutex_def lock_of_def split: if_splits list.splits)
    moreover have "(\<lambda>q. pid (the (pds s' q))) = ?pid"
      unfolding pid0[symmetric] using E s0(1,3,5) by (auto simp: fun_eq_iff split: if_splits list.splits)
    ultimately show ?thesis
      using m' s0(1) m(2) held_by_unlock[OF h P(1) c c0 P(2)] False L
      by (intro exI[of _ m']) (auto simp: spec_unlock_def split: list.splits)
  qed
  then show ?thesis using p m(4) by (auto simp: run_inv_def lock_of_def)
qed

lemma run_inv_run:
  "mutex_run i cs s s' \<Longrightarrow> run_inv p i [] s \<Longrightarrow> length cs < 65536 \<Longrightarrow> run_inv p i cs s'"
proof (induction rule: mutex_run.induct)
  case (call cs s s1 c b s2)
  then show ?case using run_inv_call[of p i cs s1 c b s2] by simp
next
  case (between cs s s1 s2)
  then have "run_inv p i cs s1" by blast
  with between.hyps show ?case by (auto simp: run_inv_def held_by_def)
qed

lemma run_one_holder:
  assumes "kwf s" "p \<in> set (muts s)" "mutexes s p = Some m" "mut_owner m = 0" "mutex_ok (qelems s) m"
    and "mutex_run (mut_id m) cs s s'" "length cs < 65535"
  shows "(\<forall>c \<in> set (procs s'). locks_held cs c = 0) \<or>
    (\<exists>!c. c \<in> set (procs s') \<and> 0 < locks_held cs c \<and> \<not> blocked_on_mutex s' c)"
proof -
  have e: "qitems (qelems s) (mut_wait_queue m) = []" "lock_count m = 0" using assms(4,5) by (simp_all add: mutex_ok_def)
  have "held_by (procs s) (\<lambda>q. pid (the (pds s q))) (blocked_on_mutex s) (locks_held []) (lock_of (qelems s) m)"
    using assms(4) e by (simp add: held_by_def lock_of_def)
  then have "run_inv p (mut_id m) [] s" using assms(1-5) e by (simp add: run_inv_def)
  from run_inv_run[OF assms(6) this] assms(7) have "run_inv p (mut_id m) cs s'" by simp
  then show ?thesis unfolding run_inv_def using held_by_one[OF _ pid_facts] by blast
qed

section \<open>Properties\<close>

text \<open>C19: \<open>Kernel_Lock_Mutex\<close> refines the abstract lock: whenever it returns, the mutex has gone
  through \<open>spec_lock\<close> for the calling task (a free mutex is taken, one's own is locked once more,
  otherwise the caller is queued), no other mutex changed, and the invariant is kept; a caller
  that gets the lock keeps running, one that does not waits with a context switch requested, and
  its own priority is raised to the best among the owner and the waiting tasks; the
  priority of the task that holds the mutex is never raised.\<close>

theorem lock_refines_spec:
  assumes "kwf s" "cur_pd s = Some d" "request_args d 0 = mut_id m" "0 < pid d"
    and "p \<in> set (muts s)" "mutexes s p = Some m" "mutex_ok (qelems s) m" "lock_count m \<noteq> - 1"
    and "Kernel_Lock_Mutex s = Some s'"
  shows "\<exists>m'. kwf s' \<and> mutexes s' = (mutexes s)(p \<mapsto> m') \<and> mutex_ok (qelems s') m' \<and> mut_id m' = mut_id m \<and>
    lock_of (qelems s') m' = spec_lock (pid d) (Current_Process s) (lock_of (qelems s) m) \<and>
    (if mut_owner m = 0 \<or> mut_owner m = pid d then pds s' = pds s
     else Kernel_Request_Cswitch s' = 1 \<and>
       pds s' = (pds s)(Current_Process s \<mapsto> d\<lparr>state := WAIT_MUTEX,
         pri := (if highest_priority m < ucast (pri d) then ucast (highest_priority m) else pri d)\<rparr>))"
  using lock_effect[OF assms] by blast

text \<open>C20: \<open>Kernel_Unlock_Mutex\<close> refines the abstract lock: a task that does not hold the mutex only
  gets an error; the holder's lock count goes down; at zero the holder gets the priority back
  that it had when it took the mutex, and the mutex becomes free, or, when tasks wait, is handed to
  the one that has waited longest, locked once; that task becomes READY.\<close>

theorem unlock_refines_spec:
  assumes "kwf s" "cur_pd s = Some d" "request_args d 0 = mut_id m" "0 < pid d"
    and "p \<in> set (muts s)" "mutexes s p = Some m" "mutex_ok (qelems s) m"
    and "\<forall>w \<in> set (qitems (qelems s) (mut_wait_queue m)). w \<noteq> Current_Process s \<and>
      state (the (pds s w)) = WAIT_MUTEX \<and> pid (the (pds s w)) \<noteq> 0"
  shows "\<exists>s' m'. Kernel_Unlock_Mutex s = Some s' \<and> kwf s' \<and> mutexes s' = (mutexes s)(p \<mapsto> m') \<and>
    mutex_ok (qelems s') m' \<and>
    lock_of (qelems s') m' = spec_unlock (\<lambda>w. pid (the (pds s w))) (pid d) (lock_of (qelems s) m) \<and>
    err s' = (if mut_owner m = pid d then err s else OBJECT_NOT_FOUND_ERR) \<and>
    (mut_owner m = pid d \<and> lock_count m = 1 \<longrightarrow> pri (the (pds s' (Current_Process s))) = owner_orig_priority m \<and>
      (\<forall>w ws. qitems (qelems s) (mut_wait_queue m) = w # ws \<longrightarrow> state (the (pds s' w)) = READY))"
proof -
  from unlock_effect[OF assms] obtain s' m' where "Kernel_Unlock_Mutex s = Some s'" "kwf s'"
    "mutexes s' = (mutexes s)(p \<mapsto> m')" "mutex_ok (qelems s') m'"
    "lock_of (qelems s') m' = spec_unlock (\<lambda>w. pid (the (pds s w))) (pid d) (lock_of (qelems s) m)"
    "err s' = (if mut_owner m = pid d then err s else OBJECT_NOT_FOUND_ERR)"
    and "pds s' = (if mut_owner m = pid d \<and> lock_count m = 1 then
      case qitems (qelems s) (mut_wait_queue m) of
        [] \<Rightarrow> (pds s)(Current_Process s \<mapsto> d\<lparr>pri := owner_orig_priority m\<rparr>)
      | w # ws \<Rightarrow> (pds s)(w \<mapsto> (the (pds s w))\<lparr>state := READY, pri := ucast (highest_priority m)\<rparr>,
          Current_Process s \<mapsto> d\<lparr>pri := owner_orig_priority m, state := READY\<rparr>)
      else pds s)" by blast
  with assms(8) show ?thesis by (intro exI[of _ s'] exI[of _ m']) (simp split: list.splits)
qed

text \<open>C21: Mutual exclusion, for every sequence of lock and unlock calls for a mutex that starts free, by any
  tasks that do not wait for a mutex, the holder included: when a task has locked the mutex and not
  yet unlocked it, exactly one such task is not waiting. (The lock count of the
  code is 16 bits wide, so fewer than 65535 calls.)\<close>

theorem mutex_exclusive:
  assumes "kwf s" "p \<in> set (muts s)" "mutexes s p = Some m" "mut_owner m = 0" "mutex_ok (qelems s) m"
    and "mutex_run (mut_id m) cs s s'" "length cs < 65535"
  shows "(\<forall>c \<in> set (procs s'). locks_held cs c = 0) \<or>
    (\<exists>!c. c \<in> set (procs s') \<and> 0 < locks_held cs c \<and> \<not> blocked_on_mutex s' c)"
  by (rule run_one_holder[OF assms])

text \<open>A state with a mutex: its owner, its depth and its waiting tasks are parameters.\<close>

definition ex_mut_state :: "(nat \<Rightarrow> u16) \<Rightarrow> u16 \<Rightarrow> u16 \<Rightarrow> kstate" where
  "ex_mut_state args ow n = ex_state (ex_PD 1 5 RUNNING args 0) (ex_PD 2 7 READY args 0) (ex_PD 3 4 READY args 0)
     Map.empty ex_EV ex_EG (ex_MUT ow n new_ptr_queue new_int_queue) (ex_SEM 0 new_ptr_queue)"

lemma ex_mut_state_kwf: "kwf (ex_mut_state args ow n)"
  unfolding ex_mut_state_def
proof (rule ex_state_kwf)
  show "queues_inv Map.empty (queues_in [40 \<mapsto> ex_SEM 0 new_ptr_queue] [50 \<mapsto> ex_MUT ow n new_ptr_queue new_int_queue] Map.empty)
      (key_target [20 \<mapsto> ex_PD 1 5 RUNNING args 0, 21 \<mapsto> ex_PD 2 7 READY args 0, 22 \<mapsto> ex_PD 3 4 READY args 0] Map.empty)"
    by (rule ex_queues_inv[where xs = "[]" and ys = "[]" and zs = "[]"])
      (simp_all add: ex_SEM_def ex_MUT_def new_ptr_queue_def new_int_queue_def queue_rep_def)
qed (simp_all add: ex_PD_def ex_EV_def ex_EG_def ex_MUT_def ex_SEM_def fresh_above_def)

lemma ex_mut_facts:
  "muts (ex_mut_state args ow n) = [50]" "mutexes (ex_mut_state args ow n) 50 = Some (ex_MUT ow n new_ptr_queue new_int_queue)"
  "cur_pd (ex_mut_state args ow n) = Some (ex_PD 1 5 RUNNING args 0)" "procs (ex_mut_state args ow n) = [20, 21, 22]"
  "Current_Process (ex_mut_state args ow n) = 20" "qelems (ex_mut_state args ow n) = Map.empty"
  "pds (ex_mut_state args ow n) = [20 \<mapsto> ex_PD 1 5 RUNNING args 0, 21 \<mapsto> ex_PD 2 7 READY args 0, 22 \<mapsto> ex_PD 3 4 READY args 0]"
  by (simp_all add: ex_mut_state_def ex_state_def cur_pd_def rd_def)

lemma ex_mut_ok: "mutex_ok Map.empty (ex_MUT ow n new_ptr_queue new_int_queue) \<longleftrightarrow> (if ow = 0 then n = 0 else n \<noteq> 0)"
  by (simp add: mutex_ok_def ex_MUT_def qitems_rep[OF queue_rep_new(1)] qitems_rep[OF queue_rep_new(2)])

theorem lock_refines_spec_witness:
  "\<exists>s' m'. Kernel_Lock_Mutex (ex_mut_state (\<lambda>_. 1) 2 1) = Some s' \<and> mutexes s' 50 = Some m' \<and>
     lock_of (qelems s') m' = \<lparr>holder = 2, depth = 1, waiting = [20]\<rparr>"
proof -
  let ?s = "ex_mut_state (\<lambda>_. 1) 2 1"
  let ?m = "ex_MUT 2 1 new_ptr_queue new_int_queue"
  let ?d = "ex_PD 1 5 RUNNING (\<lambda>_. 1) 0"
  have "findMutexByMutexID (mut_id ?m) ?s = Some (50, ?s)"
    by (rule find_mutex[OF ex_mut_state_kwf]) (simp_all add: ex_mut_facts)
  moreover have v: "mut_id ?m = 1" "mut_owner ?m = 2" "request_args ?d 0 = 1" "pid ?d = 1" by (simp_all add: ex_MUT_def ex_PD_def)
  ultimately have f: "findMutexByMutexID 1 ?s = Some (50, ?s)" by simp
  have "\<exists>s'. Kernel_Lock_Mutex ?s = Some s'"
    by (simp add: Kernel_Lock_Mutex_def req_arg_def ex_mut_facts mutex_wait_def f v rd_def)
      (simp add: ex_mut_state_def ex_state_def ex_MUT_def ex_PD_def enqueue_ptr_def enqueue_int_def enqueue_new_def
        new_element_def malloc_def enqueue_def new_ptr_queue_def new_int_queue_def upd_mut_def upd_cur_def upd_pd_def
        cur_pd_def wr_def rd_def Let_def)
  then obtain s' where s': "Kernel_Lock_Mutex ?s = Some s'" by blast
  have "request_args ?d 0 = mut_id ?m" "0 < pid ?d" "50 \<in> set (muts ?s)" "mutex_ok (qelems ?s) ?m" "lock_count ?m \<noteq> - 1"
    by (simp_all add: ex_mut_facts ex_mut_ok) (simp_all add: ex_PD_def ex_MUT_def)
  from lock_refines_spec[OF ex_mut_state_kwf ex_mut_facts(3) this(1-3) ex_mut_facts(2) this(4,5) s'] s' show ?thesis
    by (auto simp: ex_mut_facts lock_of_def spec_lock_def qitems_rep[OF queue_rep_new(1)] ex_MUT_def ex_PD_def)
qed

theorem unlock_refines_spec_witness:
  "\<exists>s' m'. Kernel_Unlock_Mutex (ex_mut_state (\<lambda>_. 1) 1 2) = Some s' \<and> mutexes s' 50 = Some m' \<and>
     lock_of (qelems s') m' = \<lparr>holder = 1, depth = 1, waiting = []\<rparr>"
proof -
  let ?s = "ex_mut_state (\<lambda>_. 1) 1 2"
  let ?m = "ex_MUT 1 2 new_ptr_queue new_int_queue"
  let ?d = "ex_PD 1 5 RUNNING (\<lambda>_. 1) 0"
  have "request_args ?d 0 = mut_id ?m" "0 < pid ?d" "50 \<in> set (muts ?s)" "mutex_ok (qelems ?s) ?m"
    "\<forall>w \<in> set (qitems (qelems ?s) (mut_wait_queue ?m)). w \<noteq> Current_Process ?s \<and>
      state (the (pds ?s w)) = WAIT_MUTEX \<and> pid (the (pds ?s w)) \<noteq> 0"
    by (simp_all add: ex_mut_facts ex_mut_ok) (simp_all add: ex_PD_def ex_MUT_def qitems_rep[OF queue_rep_new(1)])
  from unlock_refines_spec[OF ex_mut_state_kwf ex_mut_facts(3) this(1-3) ex_mut_facts(2) this(4,5)] show ?thesis
    by (auto simp: ex_mut_facts lock_of_def spec_unlock_def qitems_rep[OF queue_rep_new(1)] ex_MUT_def ex_PD_def)
qed


text \<open>The calls of a list in turn, for runs that can be computed.\<close>

definition mutex_calls :: "u16 \<Rightarrow> (bool \<times> addr) list \<Rightarrow> kstate \<Rightarrow> kstate option" where
  "mutex_calls i = foldM (\<lambda>bc s. if snd bc \<in> set (procs s) \<and> \<not> blocked_on_mutex s (snd bc) then mutex_call i bc s else None)"

lemma mutex_calls_run: "mutex_calls i cs s1 = Some s2 \<Longrightarrow> mutex_run i cs0 s s1 \<Longrightarrow> mutex_run i (cs0 @ cs) s s2"
proof (induction cs arbitrary: cs0 s1)
  case (Cons bc cs)
  obtain b c where bc: "bc = (b, c)" by fastforce
  with Cons.prems(1) obtain s3 where s3: "c \<in> set (procs s1)" "\<not> blocked_on_mutex s1 c" "mutex_call i (b, c) s1 = Some s3"
    "mutex_calls i cs s3 = Some s2" by (auto simp: mutex_calls_def elim!: bind_SomeE split: if_splits)
  from Cons.IH[OF s3(4) mutex_run.call[OF Cons.prems(2) s3(1-3)]] show ?case by (simp add: bc)
qed (simp add: mutex_calls_def)

text \<open>Task 20 locks the mutex twice, 21 waits for it, 22 tries to unlock it, and 20 unlocks it twice.\<close>

theorem mutex_exclusive_witness:
  "\<exists>s'. mutex_run 1 [(True, 20), (True, 20), (True, 21), (False, 22), (False, 20), (False, 20)] (ex_mut_state (\<lambda>_. 1) 0 0) s' \<and>
     (\<exists>!c. c \<in> set (procs s') \<and> 0 < locks_held [(True, 20), (True, 20), (True, 21), (False, 22), (False, 20), (False, 20)] c \<and>
       \<not> blocked_on_mutex s' c)"
proof -
  let ?s = "ex_mut_state (\<lambda>_. 1) 0 0"
  let ?m = "ex_MUT 0 0 new_ptr_queue new_int_queue"
  let ?cs = "[(True, 20), (True, 20), (True, 21), (False, 22), (False, 20), (False, 20)] :: (bool \<times> addr) list"
  have f: "find_obj ex_nodes_k [50 \<mapsto> m] (\<lambda>x. mut_id x = 1) MutexList = Some 50" if "mut_id m = 1" for m
    using that by (subst find_obj.simps) (simp add: ex_nodes_k_def rd_def list_heads)
  have "\<exists>s'. mutex_calls 1 ?cs ?s = Some s' \<and> 21 \<in> set (procs s')"
    by (simp add: mutex_calls_def blocked_on_mutex_def mutex_call_def Kernel_Lock_Mutex_def Kernel_Unlock_Mutex_def
        Kernel_Lock_Mutex_From_Queue_def mutex_wait_def findMutexByMutexID_def f req_arg_def cur_pd_def upd_cur_def upd_pd_def
        upd_mut_def wr_def rd_def enqueue_ptr_def enqueue_int_def enqueue_new_def enqueue_def new_element_def malloc_def
        dequeue_ptr_def dequeue_int_def dequeue_def free_def new_ptr_queue_def new_int_queue_def
        ex_mut_state_def ex_state_def ex_PD_def ex_MUT_def)
  then obtain s' where s': "mutex_calls 1 ?cs ?s = Some s'" "21 \<in> set (procs s')" by blast
  have i: "mut_id ?m = 1" by (simp add: ex_MUT_def)
  have r: "mutex_run (mut_id ?m) ?cs ?s s'" using mutex_calls_run[OF s'(1) mutex_run.start] unfolding i append_Nil .
  have "50 \<in> set (muts ?s)" "mut_owner ?m = 0" "mutex_ok (qelems ?s) ?m" "length ?cs < 65535"
    by (simp_all add: ex_mut_facts ex_mut_ok) (simp add: ex_MUT_def)
  note one = mutex_exclusive[OF ex_mut_state_kwf this(1) ex_mut_facts(2) this(2,3) r this(4)]
  have "\<not> (\<forall>c \<in> set (procs s'). locks_held ?cs c = 0)"
  proof
    assume "\<forall>c \<in> set (procs s'). locks_held ?cs c = 0"
    from bspec[OF this s'(2)] show False by (simp add: locks_held_def)
  qed
  from mp[OF disj_imp[THEN iffD1, OF one] this] show ?thesis by (intro exI[of _ s'] conjI) (rule r[unfolded i])
qed

end
