(* ===== verification/Event.thy ===== *)
theory Event
  imports Examples
begin

text \<open>
  The event module, \<open>event/event.c\<close>: one-shot events that one task waits for.
\<close>

section \<open>Operations\<close>

definition upd_ev :: "addr \<Rightarrow> (EVENT_TYPE \<Rightarrow> EVENT_TYPE) \<Rightarrow> kstate \<Rightarrow> kstate option" where
  "upd_ev p f s = do { h \<leftarrow> wr (events s) p f; Some (s\<lparr>events := h\<rparr>) }"

definition Event_Reset :: "kstate \<Rightarrow> kstate" where
  "Event_Reset s = s\<lparr>Event_Count := 0, Last_EventID := 0,
     nodes := (nodes s)(EventList \<mapsto> \<lparr>pl_ptr = NULL, pl_next = NULL\<rparr>)\<rparr>"

definition findEventByEventID :: "u16 \<Rightarrow> kstate \<Rightarrow> (addr \<times> kstate) option" where
  "findEventByEventID i s =
     (if i = 0 then Some (NULL, kernel_raise_error INVALID_ARG_ERR s)
      else do {
        p \<leftarrow> find_obj (nodes s) (events s) (\<lambda>x. ev_id x = i) EventList;
        Some (p, if p = NULL then kernel_raise_error OBJECT_NOT_FOUND_ERR s else s)
      })"

text \<open>The field \<open>count\<close> of a new event is not initialised.\<close>

definition Kernel_Create_Event :: "kstate \<Rightarrow> (u16 \<times> kstate) option" where
  "Kernel_Create_Event s =
     (if MAXEVENT \<le> unat (Event_Count s)
      then do {
        s \<leftarrow> (if KernelActive s \<noteq> 0 then upd_cur (\<lambda>d. d\<lparr>request_retval := 0\<rparr>) (kernel_raise_error MAX_OBJECT_ERR s)
              else Some (kernel_raise_error MAX_OBJECT_ERR s));
        Some (0, s)
      }
      else do {
        let (p, s) = malloc_k s;
        s \<leftarrow> add_to_list EventList p (s\<lparr>events := put_obj (events s) p (junk_EVENT s p)\<rparr>);
        let s = s\<lparr>Event_Count := Event_Count s + 1, Last_EventID := Last_EventID s + 1\<rparr>;
        s \<leftarrow> upd_ev p (\<lambda>e. e\<lparr>ev_id := Last_EventID s, ev_owner := 0\<rparr>) s;
        e \<leftarrow> rd (events s) p;
        s \<leftarrow> (if KernelActive s \<noteq> 0 then upd_cur (\<lambda>d. d\<lparr>request_retval := ev_id e\<rparr>) s else Some s);
        Some (ev_id e, s)
      })"

text \<open>The node is searched by the pointer of the event that has just been freed.\<close>

definition Kernel_Destroy_Event_Internal :: "addr \<Rightarrow> kstate \<Rightarrow> kstate option" where
  "Kernel_Destroy_Event_Internal e s = do {
     s \<leftarrow> upd_ev e (\<lambda>x. x\<lparr>ev_owner := 0, ev_count := 0, ev_id := 0\<rparr>) s;
     h \<leftarrow> free (events s) e;
     n \<leftarrow> ptrlist_find (nodes s) EventList e;
     s \<leftarrow> remove_from_list EventList n (s\<lparr>events := h\<rparr>);
     Some (s\<lparr>Event_Count := Event_Count s - 1\<rparr>)
   }"

definition Kernel_Wait_Event :: "kstate \<Rightarrow> kstate option" where
  "Kernel_Wait_Event s = do {
     a \<leftarrow> req_arg 0 s;
     (p, s) \<leftarrow> findEventByEventID a s;
     if p = NULL then Some s
     else do {
       e \<leftarrow> rd (events s) p;
       d \<leftarrow> cur_pd s;
       if 0 < ev_owner e \<and> ev_owner e \<noteq> pid d then Some (kernel_raise_error OBJECT_NOT_FOUND_ERR s)
       else if 0 < ev_count e then Kernel_Destroy_Event_Internal p s
       else do {
         s \<leftarrow> upd_ev p (\<lambda>e. e\<lparr>ev_owner := pid d\<rparr>) s;
         s \<leftarrow> upd_cur (\<lambda>d. d\<lparr>state := WAIT_EVENT\<rparr>) s;
         Some (s\<lparr>Kernel_Request_Cswitch := 1\<rparr>)
       }
     }
   }"

definition Kernel_Signal_Event :: "kstate \<Rightarrow> kstate option" where
  "Kernel_Signal_Event s = do {
     a \<leftarrow> req_arg 0 s;
     (p, s) \<leftarrow> findEventByEventID a s;
     if p = NULL then Some s
     else do {
       e \<leftarrow> rd (events s) p;
       s \<leftarrow> (if MAX_EVENT_SIG_MISS = 0 \<or> unat (ev_count e) < MAX_EVENT_SIG_MISS
             then upd_ev p (\<lambda>e. e\<lparr>ev_count := ev_count e + 1\<rparr>) s else Some s);
       if ev_owner e = 0 then Some s
       else do {
         w \<leftarrow> findProcessByPID (ev_owner e) s;
         s \<leftarrow> upd_pd w (\<lambda>d. d\<lparr>state := READY\<rparr>) s;
         s \<leftarrow> Kernel_Destroy_Event_Internal p s;
         Some (s\<lparr>Kernel_Request_Cswitch := 1\<rparr>)
       }
     }
   }"

section \<open>The table of events\<close>

abbreviation evs :: "kstate \<Rightarrow> addr list" where
  "evs s \<equiv> contents (nodes s) EventList"

definition ev_ids :: "kstate \<Rightarrow> u16 list" where
  "ev_ids s = map (\<lambda>p. ev_id (the (events s p))) (evs s)"

lemma upd_ev_iff: "upd_ev p f s = Some s' \<longleftrightarrow>
    (\<exists>m. rd (events s) p = Some m \<and> s' = s\<lparr>events := (events s)(p \<mapsto> f m)\<rparr>)"
  by (cases "rd (events s) p") (auto simp: upd_ev_def wr_def)

text \<open>The event a creation makes.\<close>

definition new_event :: "u16 \<Rightarrow> EVENT_TYPE \<Rightarrow> EVENT_TYPE" where
  "new_event i m = m\<lparr>ev_id := i, ev_owner := 0\<rparr>"

definition with_event :: "addr \<Rightarrow> EVENT_TYPE \<Rightarrow> allocator \<Rightarrow> PtrList heap \<Rightarrow> kstate \<Rightarrow> kstate" where
  "with_event p m al h s = s\<lparr>alloc := al, nodes := h,
     Event_Count := Event_Count s + 1, Last_EventID := Last_EventID s + 1, events := (events s)(p \<mapsto> m)\<rparr>"

lemma create_event_full:
  assumes "kwf s" "length (evs s) = MAXEVENT"
  shows "Kernel_Create_Event s = map_option (Pair 0) (set_retval 0 (s\<lparr>err := MAX_OBJECT_ERR\<rparr>))"
  using table_wf_count[OF kwf_tables(2)[OF assms(1)]] assms(2)
  by (cases "upd_cur (\<lambda>d. d\<lparr>request_retval := 0\<rparr>) (s\<lparr>err := MAX_OBJECT_ERR\<rparr>)")
    (simp_all add: Kernel_Create_Event_def set_retval_def)

lemma create_event_new:
  assumes kwf: "kwf s" and room: "length (evs s) < MAXEVENT"
    and cr: "Kernel_Create_Event s = Some (i, s')"
  obtains p al h where "i = Last_EventID s + 1" and "link_new EventList p s al h"
    and "set_retval i (with_event p (new_event i (junk_EVENT s p)) al h s) = Some s'"
proof -
  have "\<not> MAXEVENT \<le> unat (Event_Count s)"
    using room table_wf_count[OF kwf_tables(2)[OF kwf]] by simp
  moreover obtain p s1 where m: "malloc_k s = (p, s1)" by fastforce
  moreover obtain al1 where s1: "s1 = s\<lparr>alloc := al1\<rparr>" using m by (auto simp: malloc_k_iff)
  moreover have p: "p \<noteq> NULL"
    using cr calculation
    by (auto simp: Kernel_Create_Event_def put_obj_def upd_ev_iff elim!: bind_SomeE)
  moreover from calculation cr obtain s3 where
    s3: "add_to_list EventList p (s1\<lparr>events := (events s)(p \<mapsto> junk_EVENT s p)\<rparr>) = Some s3"
    by (auto simp: Kernel_Create_Event_def put_obj_def elim!: bind_SomeE)
  moreover from malloc_add[OF kwf_parts(1)[OF kwf] _ m p s3] s1
  obtain al h where h: "s3 = s1\<lparr>events := (events s)(p \<mapsto> junk_EVENT s p), alloc := al, nodes := h\<rparr>"
    "link_new EventList p s al h"
    by auto
  ultimately show ?thesis
    using cr
    by (intro that[of p al h])
      (auto simp: Kernel_Create_Event_def put_obj_def upd_ev_def wr_def rd_def set_retval_def
        new_event_def with_event_def elim!: bind_SomeE split: if_splits)
qed

lemma kwf_with_event:
  assumes kwf: "kwf s" and room: "length (evs s) < MAXEVENT" and lst: "Last_EventID s \<noteq> - 1"
    and lnk: "link_new EventList p s al h" and m: "ev_id m = Last_EventID s + 1"
  shows "kwf (with_event p m al h s)"
    and "ev_ids (with_event p m al h s) = ev_ids s @ [Last_EventID s + 1]"
proof -
  note M = link_new_mem[OF lnk kwf_parts(1)[OF kwf]] and C = link_new_contents[OF lnk]
  have new: "events s p = None"
    using kwf by (intro link_new_fresh[OF lnk]) (simp add: kwf_defs)
  then have p: "p \<notin> set (evs s)" using table_wf_obj[OF kwf_tables(2)[OF kwf], of p] by auto
  have t: "table_wf (evs s @ [p]) ((events s)(p \<mapsto> m)) ev_id (Event_Count s + 1)
      (Last_EventID s + 1) MAXEVENT"
    by (rule table_wf_add[OF kwf_tables(2)[OF kwf] p room _ lst m]) simp
  show "kwf (with_event p m al h s)"
    using kwf_tables[OF kwf] kwf_parts(4)[OF kwf] M t kwf_parts(3)[OF kwf]
    by (simp add: kwf_defs with_event_def C)
  have "map (\<lambda>q. ev_id (the (((events s)(p \<mapsto> m)) q))) (evs s) = ev_ids s"
    using p by (auto simp: ev_ids_def)
  then show "ev_ids (with_event p m al h s) = ev_ids s @ [Last_EventID s + 1]"
    by (simp add: ev_ids_def with_event_def C m)
qed

lemma create_event_kwf:
  assumes kwf: "kwf s" and lst: "Last_EventID s \<noteq> - 1" and cr: "Kernel_Create_Event s = Some (i, s')"
  shows "kwf s' \<and> (if length (evs s) = MAXEVENT then i = 0 \<and> ev_ids s' = ev_ids s \<and> Last_EventID s' = Last_EventID s
    else i = Last_EventID s + 1 \<and> Last_EventID s' = i \<and> ev_ids s' = ev_ids s @ [i])"
proof (cases "length (evs s) = MAXEVENT")
  case True
  with create_event_full[OF kwf] cr have i: "i = 0" "set_retval 0 (s\<lparr>err := MAX_OBJECT_ERR\<rparr>) = Some s'"
    by (cases "set_retval 0 (s\<lparr>err := MAX_OBJECT_ERR\<rparr>)"; simp)+
  with kwf_set_retval[OF i(2)] kwf set_retval_frame[OF i(2)] True show ?thesis by (simp add: ev_ids_def)
next
  case False
  then have room: "length (evs s) < MAXEVENT" using table_wf_count[OF kwf_tables(2)[OF kwf]] by simp
  obtain p al h where n: "i = Last_EventID s + 1" "link_new EventList p s al h"
    "set_retval i (with_event p (new_event i (junk_EVENT s p)) al h s) = Some s'"
    by (rule create_event_new[OF kwf room cr])
  have "ev_id (new_event i (junk_EVENT s p)) = Last_EventID s + 1" by (simp add: new_event_def n(1))
  note W = kwf_with_event[OF kwf room lst n(2) this]
  with False n(1) kwf_set_retval[OF n(3)] set_retval_frame[OF n(3)] show ?thesis
    by (simp add: ev_ids_def) (simp add: with_event_def)
qed

interpretation evt: kernel_objects kwf ev_ids Last_EventID MAXEVENT "\<lambda>i. i \<noteq> 0"
  "\<lambda>i s. map_option fst (findEventByEventID i s)" Kernel_Create_Event
proof
  fix s i s'
  assume kwf: "kwf s"
  note t = kwf_tables(2)[OF kwf] and L = kwf_lists[OF kwf]
  show "0 < i \<and> i \<le> Last_EventID s" if "i \<in> set (ev_ids s)"
    using ids_bounds[OF t] that by (simp add: ev_ids_def)
  show "sorted_wrt (<) (ev_ids s)" using table_wf_sorted[OF t] by (simp add: ev_ids_def)
  show "length (ev_ids s) \<le> MAXEVENT" using table_wf_count[OF t] by (simp add: ev_ids_def)
  show "\<exists>s'. Kernel_Create_Event s = Some (0, s') \<and> kwf s' \<and> ev_ids s' = ev_ids s \<and>
      Last_EventID s' = Last_EventID s" if l: "length (ev_ids s) = MAXEVENT"
  proof -
    have "kwf (s\<lparr>err := MAX_OBJECT_ERR\<rparr>)" using kwf by simp
    from set_retval_ex[OF this, of 0] obtain s1 where s1: "set_retval 0 (s\<lparr>err := MAX_OBJECT_ERR\<rparr>) = Some s1" by blast
    with create_event_full[OF kwf] l kwf_set_retval[OF s1] kwf set_retval_frame[OF s1]
    show ?thesis by (simp add: ev_ids_def)
  qed
  show "kwf s' \<and> i = Last_EventID s + 1 \<and> Last_EventID s' = i \<and> ev_ids s' = ev_ids s @ [i]"
    if "Last_EventID s \<noteq> - 1" "Kernel_Create_Event s = Some (i, s')" "i \<noteq> 0"
    using create_event_kwf[OF kwf that(1,2)] that(3) by (auto split: if_splits)
  show "\<exists>p. map_option fst (findEventByEventID i s) = Some p \<and> (p \<noteq> NULL \<longleftrightarrow> i \<in> set (ev_ids s))"
    if "ev_ids s \<noteq> []" "i \<noteq> 0"
    using find_obj_ids[OF L _ t, of i] that by (auto simp: findEventByEventID_def ev_ids_def)
  show "map_option fst (findEventByEventID i s) = None" if "ev_ids s = []" "i \<noteq> 0"
    using find_obj_table(1)[OF L _ t] that by (simp add: findEventByEventID_def ev_ids_def)
qed

section \<open>The operations keep the invariant\<close>

lemma kwf_ev:
  assumes kwf: "kwf s" and e: "events s p = Some e" and id: "ev_id e' = ev_id e"
  shows "kwf (s\<lparr>events := (events s)(p \<mapsto> e')\<rparr>)"
proof -
  have t: "table_wf (evs s) ((events s)(p \<mapsto> e')) ev_id (Event_Count s) (Last_EventID s) MAXEVENT"
    by (rule table_wf_upd[OF kwf_tables(2)[OF kwf]]) (simp add: e id)
  have "fresh_above (alloc s) ((events s)(p \<mapsto> e'))"
    by (rule fresh_above_upd[where w = e]) (use kwf e in \<open>simp_all add: kwf_defs\<close>)
  then show ?thesis using kwf t by (simp add: kwf_defs)
qed

lemma kwf_upd_ev:
  "upd_ev p f s = Some s' \<Longrightarrow> kwf s \<Longrightarrow> (\<And>e. ev_id (f e) = ev_id e) \<Longrightarrow> kwf s'"
  using kwf_ev[of s p] by (auto simp: upd_ev_iff rd_Some_iff)

lemma find_event:
  assumes "kwf s" "p \<in> set (evs s)" "events s p = Some e"
  shows "findEventByEventID (ev_id e) s = Some (p, s)"
proof -
  have "0 < ev_id e" using table_wf_key[OF kwf_tables(2)[OF assms(1)] assms(2)] assms(3) by simp
  moreover have "p \<noteq> NULL" using assms(2) contents_not_NULL by blast
  ultimately show ?thesis
    using find_obj_iff[OF kwf_lists[OF assms(1)] _ kwf_tables(2)[OF assms(1)] assms(2)] assms(3)
    by (simp add: findEventByEventID_def)
qed

lemma findEvent_found:
  assumes "findEventByEventID i s = Some (p, s')" "kwf s"
  shows "kwf s'" and "p \<noteq> NULL \<Longrightarrow> s' = s \<and> p \<in> set (evs s)"
proof -
  have "i = 0 \<and> p = NULL \<and> s' = s\<lparr>err := INVALID_ARG_ERR\<rparr> \<or>
    find_obj (nodes s) (events s) (\<lambda>x. ev_id x = i) EventList = Some p \<and> s' = (if p = NULL then s\<lparr>err := OBJECT_NOT_FOUND_ERR\<rparr> else s)"
    using assms(1) by (auto simp: findEventByEventID_def elim!: bind_SomeE split: if_splits)
  moreover have "p \<in> set (evs s)" if "find_obj (nodes s) (events s) (\<lambda>x. ev_id x = i) EventList = Some p" "p \<noteq> NULL"
    by (rule find_obj_found[OF kwf_lists[OF assms(2)] _ kwf_tables(2)[OF assms(2)] that]) simp_all
  ultimately have "kwf s' \<and> (p \<noteq> NULL \<longrightarrow> s' = s \<and> p \<in> set (evs s))" using assms(2) by auto
  then show "kwf s'" and "p \<noteq> NULL \<Longrightarrow> s' = s \<and> p \<in> set (evs s)" by blast+
qed

text \<open>The event \<open>p\<close> is gone: it is freed and off the list, nothing else changes.\<close>

definition event_gone :: "addr \<Rightarrow> kstate \<Rightarrow> kstate \<Rightarrow> bool" where
  "event_gone p s s' \<longleftrightarrow> kwf s' \<and> evs s' = remove1 p (evs s) \<and> events s' = (events s)(p := None) \<and>
     procs s' = procs s \<and> pds s' = pds s \<and> Current_Process s' = Current_Process s \<and> err s' = err s \<and>
     Kernel_Request_Cswitch s' = Kernel_Request_Cswitch s"

lemma destroy_event:
  assumes kwf: "kwf s" and p: "p \<in> set (evs s)"
  obtains s' where "Kernel_Destroy_Event_Internal p s = Some s'" and "event_gone p s s'"
proof -
  note t = kwf_tables(2)[OF kwf]
  have p0: "p \<noteq> NULL" using p contents_not_NULL by blast
  obtain e where e: "events s p = Some e" using table_wf_obj[OF t p] by blast
  obtain n h where R: "ptrlist_find (nodes s) EventList p = Some n" "ptrlist_remove (nodes s) EventList n = Some (1, h)"
    "lists_wf LISTS h" "contents h EventList = remove1 p (evs s)"
    "\<And>M. M \<in> LISTS \<Longrightarrow> M \<noteq> EventList \<Longrightarrow> entries h M = entries (nodes s) M"
    "\<And>al. fresh_above al (nodes s) \<Longrightarrow> fresh_above al h"
    by (rule ptrlist_find_remove[OF kwf_lists[OF kwf] _ p]) (simp, rule that)
  let ?s' = "s\<lparr>events := (events s)(p := None), nodes := h, Event_Count := Event_Count s - 1\<rparr>"
  have d: "Kernel_Destroy_Event_Internal p s = Some ?s'"
    using R(1,2) e p0 by (simp add: Kernel_Destroy_Event_Internal_def upd_ev_def wr_def rd_def free_def remove_from_list_def)
  have t': "table_wf (remove1 p (evs s)) ((events s)(p := None)) ev_id (Event_Count s - 1) (Last_EventID s) MAXEVENT"
    by (rule table_wf_new[OF table_wf_remove[OF t p]]) (simp add: table_wf_distinct(2)[OF t])
  have "kwf ?s'"
    using kwf t' R(3-6) fresh_above_del[of _ "events s"] by (simp add: kwf_defs contents_def)
  with R show ?thesis by (intro that[OF d]) (simp add: event_gone_def contents_def)
qed

lemma kwf_destroy_event:
  "Kernel_Destroy_Event_Internal p s = Some s' \<Longrightarrow> kwf s \<Longrightarrow> p \<in> set (evs s) \<Longrightarrow> kwf s'"
  by (rule destroy_event[of s p]) (auto simp: event_gone_def)

lemma kwf_Kernel_Wait_Event:
  assumes "Kernel_Wait_Event s = Some s'" "kwf s"
  shows "kwf s'"
  using assms(1) unfolding Kernel_Wait_Event_def
proof (elim bind_SomeEs)
  fix a p s1
  assume f: "findEventByEventID a s = Some (p, s1)" and
    b: "(if p = NULL then Some s1 else do {
       e \<leftarrow> rd (events s1) p;
       d \<leftarrow> cur_pd s1;
       if 0 < ev_owner e \<and> ev_owner e \<noteq> pid d then Some (kernel_raise_error OBJECT_NOT_FOUND_ERR s1)
       else if 0 < ev_count e then Kernel_Destroy_Event_Internal p s1
       else do {
         s \<leftarrow> upd_ev p (\<lambda>e. e\<lparr>ev_owner := pid d\<rparr>) s1;
         s \<leftarrow> upd_cur (\<lambda>d. d\<lparr>state := WAIT_EVENT\<rparr>) s;
         Some (s\<lparr>Kernel_Request_Cswitch := 1\<rparr>)
       }}) = Some s'"
  note F = findEvent_found[OF f assms(2)]
  show "kwf s'"
    using b F by (auto elim!: bind_SomeE split: if_splits)
      (erule (1) kwf_destroy_event, assumption | erule kwf_upd_ev kwf_steps | simp)+
qed

lemma kwf_Kernel_Signal_Event:
  assumes "Kernel_Signal_Event s = Some s'" "kwf s"
  shows "kwf s'"
  using assms(1) unfolding Kernel_Signal_Event_def
proof (elim bind_SomeEs)
  fix a p s1
  assume f: "findEventByEventID a s = Some (p, s1)" and
    b: "(if p = NULL then Some s1 else do {
       e \<leftarrow> rd (events s1) p;
       s \<leftarrow> (if MAX_EVENT_SIG_MISS = 0 \<or> unat (ev_count e) < MAX_EVENT_SIG_MISS
             then upd_ev p (\<lambda>e. e\<lparr>ev_count := ev_count e + 1\<rparr>) s1 else Some s1);
       if ev_owner e = 0 then Some s
       else do {
         w \<leftarrow> findProcessByPID (ev_owner e) s;
         s \<leftarrow> upd_pd w (\<lambda>d. d\<lparr>state := READY\<rparr>) s;
         s \<leftarrow> Kernel_Destroy_Event_Internal p s;
         Some (s\<lparr>Kernel_Request_Cswitch := 1\<rparr>)
       }}) = Some s'"
  note F = findEvent_found[OF f assms(2)]
  show "kwf s'"
  proof (cases "p = NULL")
    case True
    with b F show ?thesis by simp
  next
    case False
    with b obtain e s2 where e: "(if MAX_EVENT_SIG_MISS = 0 \<or> unat (ev_count e) < MAX_EVENT_SIG_MISS
             then upd_ev p (\<lambda>e. e\<lparr>ev_count := ev_count e + 1\<rparr>) s1 else Some s1) = Some s2"
      and r: "(if ev_owner (e :: EVENT_TYPE) = 0 then Some s2
       else do {
         w \<leftarrow> findProcessByPID (ev_owner e) s2;
         s \<leftarrow> upd_pd w (\<lambda>d. d\<lparr>state := READY\<rparr>) s2;
         s \<leftarrow> Kernel_Destroy_Event_Internal p s;
         Some (s\<lparr>Kernel_Request_Cswitch := 1\<rparr>)
       }) = Some s'"
      by (simp only: if_False) (elim bind_SomeE, rule that)
    have k: "kwf s2" "p \<in> set (evs s2)"
      using e F False kwf_upd_ev[of p "\<lambda>e. e\<lparr>ev_count := ev_count e + 1\<rparr>" s1 s2]
      by (auto simp: upd_ev_iff split: if_splits)
    have "kwf s4" if "upd_pd w (\<lambda>d. d\<lparr>state := READY\<rparr>) s2 = Some s3" "Kernel_Destroy_Event_Internal p s3 = Some s4" for w s3 s4
      using that k kwf_upd_pd[OF that(1) k(1)] kwf_destroy_event[OF that(2)] by (auto simp: upd_pd_iff)
    with r k show ?thesis by (auto elim!: bind_SomeE split: if_splits)
  qed
qed

section \<open>Properties\<close>

lemma wait_event_eval:
  assumes kwf: "kwf s" and d: "cur_pd s = Some d" "request_args d 0 = ev_id e" and p: "p \<in> set (evs s)" "events s p = Some e"
  shows "Kernel_Wait_Event s = (if 0 < ev_owner e \<and> ev_owner e \<noteq> pid d then Some (s\<lparr>err := OBJECT_NOT_FOUND_ERR\<rparr>)
    else if 0 < ev_count e then Kernel_Destroy_Event_Internal p s
    else Some (s\<lparr>events := (events s)(p \<mapsto> e\<lparr>ev_owner := pid d\<rparr>),
      pds := (pds s)(Current_Process s \<mapsto> d\<lparr>state := WAIT_EVENT\<rparr>), Kernel_Request_Cswitch := 1\<rparr>))"
proof -
  have p0: "p \<noteq> NULL" using p(1) contents_not_NULL by blast
  have c: "Current_Process s \<noteq> NULL" "pds s (Current_Process s) = Some d" using d(1) by (auto simp: cur_pd_def rd_Some_iff)
  show ?thesis
    using find_event[OF kwf p] d p(2) p0 c
    by (simp add: Kernel_Wait_Event_def req_arg_def upd_ev_def upd_cur_def upd_pd_def wr_def rd_def)
qed

lemma signal_event_eval:
  assumes kwf: "kwf s" and a: "req_arg 0 s = Some (ev_id e)" and p: "p \<in> set (evs s)" "events s p = Some e"
  defines "e' \<equiv> e\<lparr>ev_count := (if ev_count e = 0 then 1 else ev_count e)\<rparr>"
  shows "Kernel_Signal_Event s = (if ev_owner e = 0 then Some (s\<lparr>events := (events s)(p \<mapsto> e')\<rparr>)
    else do {
         w \<leftarrow> findProcessByPID (ev_owner e) s;
         s \<leftarrow> upd_pd w (\<lambda>d. d\<lparr>state := READY\<rparr>) (s\<lparr>events := (events s)(p \<mapsto> e')\<rparr>);
         s \<leftarrow> Kernel_Destroy_Event_Internal p s;
         Some (s\<lparr>Kernel_Request_Cswitch := 1\<rparr>)
       })" and "kwf (s\<lparr>events := (events s)(p \<mapsto> e')\<rparr>)"
proof -
  have p0: "p \<noteq> NULL" using p(1) contents_not_NULL by blast
  have c: "unat (ev_count e) < 1 \<longleftrightarrow> ev_count e = 0" by (simp add: unat_eq_zero)
  have same: "s\<lparr>events := (events s)(p \<mapsto> e)\<rparr> = s" using p(2) by (simp add: fun_upd_idem)
  have u: "(if MAX_EVENT_SIG_MISS = 0 \<or> unat (ev_count e) < MAX_EVENT_SIG_MISS
             then upd_ev p (\<lambda>e. e\<lparr>ev_count := ev_count e + 1\<rparr>) s else Some s) = Some (s\<lparr>events := (events s)(p \<mapsto> e')\<rparr>)"
    using p(2) p0 same c by (auto simp: upd_ev_def wr_def rd_def e'_def)
  have r: "rd (events s) p = Some e" using p0 p(2) by (simp add: rd_SomeI)
  show "Kernel_Signal_Event s = (if ev_owner e = 0 then Some (s\<lparr>events := (events s)(p \<mapsto> e')\<rparr>)
    else do {
         w \<leftarrow> findProcessByPID (ev_owner e) s;
         s \<leftarrow> upd_pd w (\<lambda>d. d\<lparr>state := READY\<rparr>) (s\<lparr>events := (events s)(p \<mapsto> e')\<rparr>);
         s \<leftarrow> Kernel_Destroy_Event_Internal p s;
         Some (s\<lparr>Kernel_Request_Cswitch := 1\<rparr>)
       })"
    unfolding Kernel_Signal_Event_def a bind.bind_lunit find_event[OF kwf p] prod.case if_not_P[OF p0] r u
    by (simp add: findProcessByPID_def)
  show "kwf (s\<lparr>events := (events s)(p \<mapsto> e')\<rparr>)" by (rule kwf_ev[OF kwf p(2)]) (simp add: e'_def)
qed

text \<open>C29: \<open>Kernel_Signal_Event\<close>: signalling an event for which a task waits makes that task READY and
  consumes the event (it is destroyed) with a context switch requested; signalling an event for
  which nobody waits records one signal, so that its count is at least 1 afterwards, and wakes
  nobody.\<close>

theorem event_signal_wakes_owner:
  assumes "kwf s" "req_arg 0 s = Some (ev_id e)" "p \<in> set (evs s)" "events s p = Some e"
    and "ev_owner e \<noteq> 0 \<longrightarrow> w \<in> set (procs s) \<and> pds s w = Some d \<and> pid d = ev_owner e \<and> 0 < sint (pid d)"
  shows "\<exists>s'. Kernel_Signal_Event s = Some s' \<and> kwf s' \<and>
    (if ev_owner e = 0 then pds s' = pds s \<and> (\<exists>e'. events s' = (events s)(p \<mapsto> e') \<and> 0 < ev_count e' \<and> ev_owner e' = 0)
     else pds s' = (pds s)(w \<mapsto> d\<lparr>state := READY\<rparr>) \<and> events s' = (events s)(p := None) \<and>
       evs s' = remove1 p (evs s) \<and> Kernel_Request_Cswitch s' = 1)"
proof (cases "ev_owner e = 0")
  case True
  note E = signal_event_eval[OF assms(1-4)]
  let ?e' = "e\<lparr>ev_count := (if ev_count e = 0 then 1 else ev_count e)\<rparr>"
  have "0 < ev_count ?e'" by (simp add: word_gt_0)
  with E True show ?thesis by (intro exI[of _ "s\<lparr>events := (events s)(p \<mapsto> ?e')\<rparr>"]) (auto intro!: exI[of _ ?e'])
next
  case False
  let ?e' = "e\<lparr>ev_count := (if ev_count e = 0 then 1 else ev_count e)\<rparr>"
  let ?s1 = "s\<lparr>events := (events s)(p \<mapsto> ?e')\<rparr>"
  note E = signal_event_eval[OF assms(1-4)]
  have w: "w \<in> set (procs s)" "pds s w = Some d" "pid d = ev_owner e" "0 < sint (pid d)" "w \<noteq> NULL"
    using False assms(5) contents_not_NULL by blast+
  have f: "findProcessByPID (ev_owner e) s = Some w"
    using findProcess_iff[OF assms(1) w(1)] w(2-4) by simp
  let ?s2 = "?s1\<lparr>pds := (pds s)(w \<mapsto> d\<lparr>state := READY\<rparr>)\<rparr>"
  have u: "upd_pd w (\<lambda>d. d\<lparr>state := READY\<rparr>) ?s1 = Some ?s2" using w by (simp add: upd_pd_def wr_def rd_def)
  have k: "kwf ?s2" by (rule kwf_upd_pd[OF u E(2)]) simp
  have "p \<in> set (evs ?s2)" using assms(3) by simp
  then obtain s3 where s3: "Kernel_Destroy_Event_Internal p ?s2 = Some s3" "event_gone p ?s2 s3"
    by (rule destroy_event[OF k])
  have "Kernel_Signal_Event s = Some (s3\<lparr>Kernel_Request_Cswitch := 1\<rparr>)"
    using E(1) False f u s3(1) by simp
  with False s3(2) show ?thesis
    by (intro exI[of _ "s3\<lparr>Kernel_Request_Cswitch := 1\<rparr>"]) (simp add: event_gone_def)
qed

text \<open>C30: \<open>Kernel_Wait_Event\<close>: a task that waits for an event reserved by another task gets an error;
  a recorded signal is consumed and the task goes on; otherwise the task becomes WAIT_EVENT and
  the owner of the event, with a context switch requested.\<close>

theorem event_wait_consumes_or_blocks:
  assumes "kwf s" "cur_pd s = Some d" "request_args d 0 = ev_id e" "p \<in> set (evs s)" "events s p = Some e"
  shows "\<exists>s'. Kernel_Wait_Event s = Some s' \<and> kwf s' \<and>
    (if ev_owner e \<noteq> 0 \<and> ev_owner e \<noteq> pid d then s' = s\<lparr>err := OBJECT_NOT_FOUND_ERR\<rparr>
     else if ev_count e \<noteq> 0 then pds s' = pds s \<and> events s' = (events s)(p := None) \<and> evs s' = remove1 p (evs s)
     else pds s' = (pds s)(Current_Process s \<mapsto> d\<lparr>state := WAIT_EVENT\<rparr>) \<and>
       events s' = (events s)(p \<mapsto> e\<lparr>ev_owner := pid d\<rparr>) \<and> Kernel_Request_Cswitch s' = 1)"
proof -
  note W = wait_event_eval[OF assms]
  have g: "0 < ev_owner e \<longleftrightarrow> ev_owner e \<noteq> 0" "0 < ev_count e \<longleftrightarrow> ev_count e \<noteq> 0" by (simp_all add: word_gt_0)
  obtain s1 where s1: "Kernel_Destroy_Event_Internal p s = Some s1" "event_gone p s s1"
    by (rule destroy_event[OF assms(1,4)])
  have "\<exists>s'. Kernel_Wait_Event s = Some s'" using W s1 by simp
  then obtain s' where s': "Kernel_Wait_Event s = Some s'" by blast
  with W s1 kwf_Kernel_Wait_Event[OF s' assms(1)] show ?thesis
    by (intro exI[of _ s']) (auto simp: g event_gone_def split: if_splits)
qed

text \<open>The count of a new event is never initialised, so whether the first wait for it blocks
  depends on what the memory held: when it was not zero, the wait returns at once and destroys the
  event although it was never signalled.\<close>

theorem fresh_event_may_not_block:
  assumes "kwf s" "length (evs s) < MAXEVENT" "Last_EventID s \<noteq> - 1" "Kernel_Create_Event s = Some (i, s1)"
    and "\<forall>a. ev_count (junk_EVENT s a) \<noteq> 0" "Current_Process s \<noteq> NULL" "cur_pd s = Some d"
    and "s2 = s1\<lparr>pds := (pds s1)(Current_Process s \<mapsto> d\<lparr>request_args := (\<lambda>_. i)\<rparr>)\<rparr>"
  shows "\<exists>s'. Kernel_Wait_Event s2 = Some s' \<and> cur_pd s' = Some (d\<lparr>request_args := (\<lambda>_. i)\<rparr>) \<and> i \<notin> set (ev_ids s')"
proof -
  obtain p al h where n: "i = Last_EventID s + 1" "link_new EventList p s al h"
    "set_retval i (with_event p (new_event i (junk_EVENT s p)) al h s) = Some s1"
    by (rule create_event_new[OF assms(1,2,4)])
  note C = create_event_kwf[OF assms(1,3,4)]
  have k1: "kwf s1" using C by blast
  have cp: "Current_Process s1 = Current_Process s" using n(3) by (auto simp: set_retval_def with_event_def upd_cur_iff split: if_splits)
  have ev: "events s1 = (events s)(p \<mapsto> new_event i (junk_EVENT s p))" "nodes s1 = h"
    using set_retval_frame[OF n(3)] by (simp_all add: with_event_def)
  have p: "p \<in> set (evs s1)" using link_new_contents[OF n(2), of EventList] ev(2) by simp
  obtain d1 where d1: "pds s1 (Current_Process s) = Some d1" "pid d1 = pid d"
    using n(3) assms(6,7) by (auto simp: set_retval_def with_event_def upd_cur_iff cur_pd_def rd_Some_iff split: if_splits)
  let ?d = "d\<lparr>request_args := (\<lambda>_. i)\<rparr>"
  have k2: "kwf s2" unfolding assms(8) by (rule kwf_pds[OF k1 d1(1)]) (simp add: d1(2))
  have c2: "cur_pd s2 = Some ?d" using assms(6) cp by (simp add: assms(8) cur_pd_def rd_def)
  let ?e = "new_event i (junk_EVENT s p)"
  have e: "events s2 p = Some ?e" "request_args ?d 0 = ev_id ?e" "p \<in> set (evs s2)" "ev_owner ?e = 0" "0 < ev_count ?e"
    using ev p assms(5) by (simp_all add: assms(8) new_event_def word_gt_0)
  obtain s' where s': "Kernel_Destroy_Event_Internal p s2 = Some s'" "event_gone p s2 s'"
    by (rule destroy_event[OF k2 e(3)])
  have w: "Kernel_Wait_Event s2 = Some s'" using wait_event_eval[OF k2 c2 e(2,3,1)] e(4,5) s'(1) by simp
  have "i \<notin> set (ev_ids s')"
  proof
    assume "i \<in> set (ev_ids s')"
    then obtain q where q: "q \<in> set (remove1 p (evs s2))" "ev_id (the (events s' q)) = i"
      using s'(2) by (auto simp: ev_ids_def event_gone_def)
    have dis: "distinct (evs s2)" by (rule table_wf_distinct(2)[OF kwf_tables(2)[OF k2]])
    with q(1) have "q \<noteq> p" "q \<in> set (evs s2)" by auto
    with q(2) s'(2) e have "ev_id (the (events s2 q)) = ev_id (the (events s2 p))" by (simp add: event_gone_def new_event_def)
    with table_wf_key_inj[OF kwf_tables(2)[OF k2] \<open>q \<in> set (evs s2)\<close> e(3)] \<open>q \<noteq> p\<close> show False by simp
  qed
  with w c2 s'(2) show ?thesis by (auto simp: cur_pd_def event_gone_def)
qed

text \<open>States with an event: its owner and its count are parameters. The second task waits.\<close>

definition ex_ev_state :: "u16 \<Rightarrow> u16 \<Rightarrow> kstate" where
  "ex_ev_state ow n = ex_state (ex_PD 1 5 RUNNING (\<lambda>_. 1) 0) (ex_PD 2 7 WAIT_EVENT (\<lambda>_. 1) 0) (ex_PD 3 4 READY (\<lambda>_. 1) 0)
     Map.empty \<lparr>ev_id = 1, ev_owner = ow, ev_count = n\<rparr> ex_EG (ex_MUT 0 0 new_ptr_queue new_int_queue) (ex_SEM 0 new_ptr_queue)"

lemma ex_ev_state_kwf: "kwf (ex_ev_state ow n)"
  unfolding ex_ev_state_def
proof (rule ex_state_kwf)
  show "queues_inv Map.empty (queues_in [40 \<mapsto> ex_SEM 0 new_ptr_queue] [50 \<mapsto> ex_MUT 0 0 new_ptr_queue new_int_queue] Map.empty)
      (key_target [20 \<mapsto> ex_PD 1 5 RUNNING (\<lambda>_. 1) 0, 21 \<mapsto> ex_PD 2 7 WAIT_EVENT (\<lambda>_. 1) 0, 22 \<mapsto> ex_PD 3 4 READY (\<lambda>_. 1) 0] Map.empty)"
    by (rule ex_queues_inv[where xs = "[]" and ys = "[]" and zs = "[]"])
      (simp_all add: ex_SEM_def ex_MUT_def new_ptr_queue_def new_int_queue_def queue_rep_def)
qed (simp_all add: ex_PD_def ex_EG_def ex_MUT_def ex_SEM_def fresh_above_def)

lemma ex_ev_facts:
  "evs (ex_ev_state ow n) = [60]" "events (ex_ev_state ow n) 60 = Some \<lparr>ev_id = 1, ev_owner = ow, ev_count = n\<rparr>"
  "cur_pd (ex_ev_state ow n) = Some (ex_PD 1 5 RUNNING (\<lambda>_. 1) 0)" "procs (ex_ev_state ow n) = [20, 21, 22]"
  "req_arg 0 (ex_ev_state ow n) = Some 1" "Current_Process (ex_ev_state ow n) = 20"
  "pds (ex_ev_state ow n) = [20 \<mapsto> ex_PD 1 5 RUNNING (\<lambda>_. 1) 0, 21 \<mapsto> ex_PD 2 7 WAIT_EVENT (\<lambda>_. 1) 0, 22 \<mapsto> ex_PD 3 4 READY (\<lambda>_. 1) 0]"
  by (simp_all add: ex_ev_state_def ex_state_def cur_pd_def rd_def req_arg_def) (simp add: ex_PD_def)

theorem event_signal_wakes_owner_witness:
  "\<exists>s'. Kernel_Signal_Event (ex_ev_state 2 0) = Some s' \<and> evs s' = [] \<and> map_option state (pds s' 21) = Some READY"
proof -
  let ?e = "\<lparr>ev_id = 1, ev_owner = 2, ev_count = 0\<rparr> :: EVENT_TYPE"
  have "req_arg 0 (ex_ev_state 2 0) = Some (ev_id ?e)" "60 \<in> set (evs (ex_ev_state 2 0))"
    "ev_owner ?e \<noteq> 0 \<longrightarrow> 21 \<in> set (procs (ex_ev_state 2 0)) \<and> pds (ex_ev_state 2 0) 21 = Some (ex_PD 2 7 WAIT_EVENT (\<lambda>_. 1) 0) \<and>
      pid (ex_PD 2 7 WAIT_EVENT (\<lambda>_. 1) 0) = ev_owner ?e \<and> 0 < sint (pid (ex_PD 2 7 WAIT_EVENT (\<lambda>_. 1) 0))"
    by (simp_all add: ex_ev_facts) (simp add: ex_PD_def)
  from event_signal_wakes_owner[OF ex_ev_state_kwf this(1,2) ex_ev_facts(2) this(3)] show ?thesis
    by (auto simp: ex_ev_facts)
qed

theorem event_wait_consumes_or_blocks_witness:
  "\<exists>s'. Kernel_Wait_Event (ex_ev_state 0 0) = Some s' \<and> map_option state (pds s' 20) = Some WAIT_EVENT"
proof -
  have "request_args (ex_PD 1 5 RUNNING (\<lambda>_. 1) 0) 0 = ev_id \<lparr>ev_id = 1, ev_owner = 0, ev_count = 0\<rparr>" "60 \<in> set (evs (ex_ev_state 0 0))"
    by (simp_all add: ex_ev_facts) (simp add: ex_PD_def)
  from event_wait_consumes_or_blocks[OF ex_ev_state_kwf ex_ev_facts(3) this ex_ev_facts(2)] show ?thesis
    by (auto simp: ex_ev_facts)
qed

theorem fresh_event_may_not_block_witness:
  "\<exists>i s1. Kernel_Create_Event (ex_ev_state 0 0) = Some (i, s1) \<and>
     (\<exists>s'. Kernel_Wait_Event (s1\<lparr>pds := (pds s1)(20 \<mapsto> ex_PD 1 5 RUNNING (\<lambda>_. i) 0)\<rparr>) = Some s' \<and>
       map_option state (cur_pd s') = Some RUNNING)"
proof -
  let ?s = "ex_ev_state 0 0" and ?d = "ex_PD 1 5 RUNNING (\<lambda>_. 1) 0"
  have "\<exists>i s1. Kernel_Create_Event ?s = Some (i, s1)"
    by (simp add: Kernel_Create_Event_def upd_ev_def upd_cur_def upd_pd_def ex_ev_state_def ex_tasks_eval)
  then obtain i s1 where c: "Kernel_Create_Event ?s = Some (i, s1)" by blast
  have h: "length (evs ?s) < MAXEVENT" "Last_EventID ?s \<noteq> - 1" "\<forall>a. ev_count (junk_EVENT ?s a) \<noteq> 0"
    "Current_Process ?s \<noteq> NULL"
    by (simp_all add: ex_ev_facts) (simp_all add: ex_ev_state_def ex_state_def)
  have "?d\<lparr>request_args := (\<lambda>_. i)\<rparr> = ex_PD 1 5 RUNNING (\<lambda>_. i) 0" by (simp add: ex_PD_def)
  with fresh_event_may_not_block[OF ex_ev_state_kwf h(1,2) c h(3,4) ex_ev_facts(3) refl] c show ?thesis
    by (auto simp: ex_ev_facts ex_PD_def)
qed

end
