(* ===== verification/Event_Group.thy ===== *)
theory Event_Group
  imports Examples
begin

text \<open>
  The event group module, \<open>event/event_group.c\<close>: 16 event bits that any number of tasks wait
  for, each for some or for all of its bits.
\<close>

section \<open>Operations\<close>

definition upd_eg :: "addr \<Rightarrow> (EVENT_GROUP_TYPE \<Rightarrow> EVENT_GROUP_TYPE) \<Rightarrow> kstate \<Rightarrow> kstate option" where
  "upd_eg p f s = do { h \<leftarrow> wr (event_groups s) p f; Some (s\<lparr>event_groups := h\<rparr>) }"

definition findEventGroupByID :: "u16 \<Rightarrow> kstate \<Rightarrow> addr option" where
  "findEventGroupByID i s = find_obj (nodes s) (event_groups s) (\<lambda>x. eg_id x = i) EventGroupList"

definition Event_Group_Reset :: "kstate \<Rightarrow> kstate" where
  "Event_Group_Reset s = s\<lparr>Event_Group_Count := 0, Last_Event_Group_ID := 0,
     nodes := (nodes s)(EventGroupList \<mapsto> \<lparr>pl_ptr = NULL, pl_next = NULL\<rparr>)\<rparr>"

text \<open>Both fields of a new event group are written.\<close>

definition Kernel_Create_Event_Group :: "kstate \<Rightarrow> (u16 \<times> kstate) option" where
  "Kernel_Create_Event_Group s =
     (if MAXEVENTGROUP \<le> unat (Event_Group_Count s)
      then do {
        s \<leftarrow> (if KernelActive s \<noteq> 0 then upd_cur (\<lambda>d. d\<lparr>request_retval := 0\<rparr>) (kernel_raise_error MAX_OBJECT_ERR s)
              else Some (kernel_raise_error MAX_OBJECT_ERR s));
        Some (0, s)
      }
      else do {
        let (p, s) = malloc_k s;
        s \<leftarrow> add_to_list EventGroupList p
              (s\<lparr>event_groups := put_obj (event_groups s) p \<lparr>eg_id = 0, eg_events = 0\<rparr>\<rparr>);
        let s = s\<lparr>Event_Group_Count := Event_Group_Count s + 1,
                  Last_Event_Group_ID := Last_Event_Group_ID s + 1\<rparr>;
        s \<leftarrow> upd_eg p (\<lambda>g. g\<lparr>eg_id := Last_Event_Group_ID s, eg_events := 0\<rparr>) s;
        g \<leftarrow> rd (event_groups s) p;
        s \<leftarrow> (if KernelActive s \<noteq> 0 then upd_cur (\<lambda>d. d\<lparr>request_retval := eg_id g\<rparr>) s else Some s);
        Some (eg_id g, s)
      })"

definition Kernel_Destroy_Event_Group :: "kstate \<Rightarrow> kstate option" where
  "Kernel_Destroy_Event_Group s = do {
     a \<leftarrow> req_arg 0 s;
     (i, eg) \<leftarrow> find_node (nodes s) (event_groups s) (\<lambda>x. eg_id x = a) EventGroupList NULL;
     if eg = NULL then Some (kernel_raise_error OBJECT_NOT_FOUND_ERR s)
     else do {
       h \<leftarrow> free (event_groups s) eg;
       s \<leftarrow> remove_from_list EventGroupList i (s\<lparr>event_groups := h\<rparr>);
       Some (s\<lparr>Event_Group_Count := Event_Group_Count s - 1\<rparr>)
     }
   }"

text \<open>When the wait of a task for the bits \<open>want\<close> is over, the group having the bits \<open>ev\<close>.\<close>

definition bits_ready :: "u16 \<Rightarrow> u16 \<Rightarrow> u16 \<Rightarrow> bool" where
  "bits_ready ev want wait_all =
     (let current_events = want AND ev
      in 0 < current_events \<and> wait_all = 0 \<or> current_events = want)"

text \<open>The body of the wake-up loop of \<open>Kernel_Event_Group_Set_Bits\<close>.\<close>

definition wake_bits :: "addr \<Rightarrow> addr \<Rightarrow> kstate \<Rightarrow> kstate option" where
  "wake_bits eg p s = do {
     d \<leftarrow> rd (pds s) p;
     g \<leftarrow> rd (event_groups s) eg;
     if state d = WAIT_EVENTG \<and> request_args d 0 = eg_id g
     then if bits_ready (eg_events g) (request_args d 1) (request_args d 2)
       then upd_pd p (\<lambda>d. d\<lparr>state := READY\<rparr>) s else Some s
     else Some s
   }"

definition Kernel_Event_Group_Set_Bits :: "kstate \<Rightarrow> kstate option" where
  "Kernel_Event_Group_Set_Bits s = do {
     a \<leftarrow> req_arg 0 s;
     eg \<leftarrow> findEventGroupByID a s;
     if eg = NULL then Some (kernel_raise_error OBJECT_NOT_FOUND_ERR s)
     else do {
       b \<leftarrow> req_arg 1 s;
       s \<leftarrow> upd_eg eg (\<lambda>g. g\<lparr>eg_events := eg_events g OR b\<rparr>) s;
       for_list pl_next pl_ptr (nodes s) ProcessList (wake_bits eg) s
     }
   }"

definition Kernel_Event_Group_Clear_Bits :: "kstate \<Rightarrow> kstate option" where
  "Kernel_Event_Group_Clear_Bits s = do {
     a \<leftarrow> req_arg 0 s;
     eg \<leftarrow> findEventGroupByID a s;
     if eg = NULL then Some (kernel_raise_error OBJECT_NOT_FOUND_ERR s)
     else do {
       b \<leftarrow> req_arg 1 s;
       upd_eg eg (\<lambda>g. g\<lparr>eg_events := eg_events g AND NOT b\<rparr>) s
     }
   }"

definition Kernel_Event_Group_Wait_Bits :: "kstate \<Rightarrow> kstate option" where
  "Kernel_Event_Group_Wait_Bits s = do {
     a \<leftarrow> req_arg 0 s;
     eg \<leftarrow> findEventGroupByID a s;
     if eg = NULL then Some s
     else do {
       g \<leftarrow> rd (event_groups s) eg;
       b \<leftarrow> req_arg 1 s;
       wait_all \<leftarrow> req_arg 2 s;
       let current_events = eg_events g AND b;
       if 0 < current_events \<and> wait_all = 0 then Some s
       else if current_events = b then Some s
       else do {
         s \<leftarrow> upd_cur (\<lambda>d. d\<lparr>state := WAIT_EVENTG\<rparr>) s;
         Some (s\<lparr>Kernel_Request_Cswitch := 1\<rparr>)
       }
     }
   }"

definition Kernel_Event_Group_Get_Bits :: "kstate \<Rightarrow> (u16 \<times> kstate) option" where
  "Kernel_Event_Group_Get_Bits s = do {
     a \<leftarrow> req_arg 0 s;
     eg \<leftarrow> findEventGroupByID a s;
     if eg = NULL then Some (0, kernel_raise_error OBJECT_NOT_FOUND_ERR s)
     else do {
       g \<leftarrow> rd (event_groups s) eg;
       s \<leftarrow> upd_cur (\<lambda>d. d\<lparr>request_retval := eg_events g\<rparr>) s;
       Some (eg_events g, s)
     }
   }"

section \<open>The table of event_groups\<close>

abbreviation egs :: "kstate \<Rightarrow> addr list" where
  "egs s \<equiv> contents (nodes s) EventGroupList"

definition eg_ids :: "kstate \<Rightarrow> u16 list" where
  "eg_ids s = map (\<lambda>p. eg_id (the (event_groups s p))) (egs s)"

lemma upd_eg_iff: "upd_eg p f s = Some s' \<longleftrightarrow>
    (\<exists>m. rd (event_groups s) p = Some m \<and> s' = s\<lparr>event_groups := (event_groups s)(p \<mapsto> f m)\<rparr>)"
  by (cases "rd (event_groups s) p") (auto simp: upd_eg_def wr_def)

text \<open>The event group a creation makes.\<close>

definition new_event_group :: "u16 \<Rightarrow> EVENT_GROUP_TYPE" where
  "new_event_group i = \<lparr>eg_id = i, eg_events = 0\<rparr>"

definition with_event_group :: "addr \<Rightarrow> EVENT_GROUP_TYPE \<Rightarrow> allocator \<Rightarrow> PtrList heap \<Rightarrow> kstate \<Rightarrow> kstate" where
  "with_event_group p m al h s = s\<lparr>alloc := al, nodes := h,
     Event_Group_Count := Event_Group_Count s + 1, Last_Event_Group_ID := Last_Event_Group_ID s + 1, event_groups := (event_groups s)(p \<mapsto> m)\<rparr>"

lemma create_event_group_full:
  assumes "kwf s" "length (egs s) = MAXEVENTGROUP"
  shows "Kernel_Create_Event_Group s = map_option (Pair 0) (set_retval 0 (s\<lparr>err := MAX_OBJECT_ERR\<rparr>))"
  using table_wf_count[OF kwf_tables(3)[OF assms(1)]] assms(2)
  by (cases "upd_cur (\<lambda>d. d\<lparr>request_retval := 0\<rparr>) (s\<lparr>err := MAX_OBJECT_ERR\<rparr>)")
    (simp_all add: Kernel_Create_Event_Group_def set_retval_def)

lemma create_event_group_new:
  assumes kwf: "kwf s" and room: "length (egs s) < MAXEVENTGROUP"
    and cr: "Kernel_Create_Event_Group s = Some (i, s')"
  obtains p al h where "i = Last_Event_Group_ID s + 1" and "link_new EventGroupList p s al h"
    and "set_retval i (with_event_group p (new_event_group i) al h s) = Some s'"
proof -
  have "\<not> MAXEVENTGROUP \<le> unat (Event_Group_Count s)"
    using room table_wf_count[OF kwf_tables(3)[OF kwf]] by simp
  moreover obtain p s1 where m: "malloc_k s = (p, s1)" by fastforce
  moreover obtain al1 where s1: "s1 = s\<lparr>alloc := al1\<rparr>" using m by (auto simp: malloc_k_iff)
  moreover have p: "p \<noteq> NULL"
    using cr calculation
    by (auto simp: Kernel_Create_Event_Group_def put_obj_def upd_eg_iff elim!: bind_SomeE)
  moreover from calculation cr obtain s3 where
    s3: "add_to_list EventGroupList p (s1\<lparr>event_groups := (event_groups s)(p \<mapsto> \<lparr>eg_id = 0, eg_events = 0\<rparr>)\<rparr>) = Some s3"
    by (auto simp: Kernel_Create_Event_Group_def put_obj_def elim!: bind_SomeE)
  moreover from malloc_add[OF kwf_parts(1)[OF kwf] _ m p s3] s1
  obtain al h where h: "s3 = s1\<lparr>event_groups := (event_groups s)(p \<mapsto> \<lparr>eg_id = 0, eg_events = 0\<rparr>), alloc := al, nodes := h\<rparr>"
    "link_new EventGroupList p s al h"
    by auto
  ultimately show ?thesis
    using cr
    by (intro that[of p al h])
      (auto simp: Kernel_Create_Event_Group_def put_obj_def upd_eg_def wr_def rd_def set_retval_def
        new_event_group_def with_event_group_def elim!: bind_SomeE split: if_splits)
qed

lemma kwf_with_event_group:
  assumes kwf: "kwf s" and room: "length (egs s) < MAXEVENTGROUP" and lst: "Last_Event_Group_ID s \<noteq> - 1"
    and lnk: "link_new EventGroupList p s al h" and m: "eg_id m = Last_Event_Group_ID s + 1"
  shows "kwf (with_event_group p m al h s)"
    and "eg_ids (with_event_group p m al h s) = eg_ids s @ [Last_Event_Group_ID s + 1]"
proof -
  note M = link_new_mem[OF lnk kwf_parts(1)[OF kwf]] and C = link_new_contents[OF lnk]
  have new: "event_groups s p = None"
    using kwf by (intro link_new_fresh[OF lnk]) (simp add: kwf_defs)
  then have p: "p \<notin> set (egs s)" using table_wf_obj[OF kwf_tables(3)[OF kwf], of p] by auto
  have t: "table_wf (egs s @ [p]) ((event_groups s)(p \<mapsto> m)) eg_id (Event_Group_Count s + 1)
      (Last_Event_Group_ID s + 1) MAXEVENTGROUP"
    by (rule table_wf_add[OF kwf_tables(3)[OF kwf] p room _ lst m]) simp
  show "kwf (with_event_group p m al h s)"
    using kwf_tables[OF kwf] kwf_parts(4)[OF kwf] M t kwf_parts(3)[OF kwf]
    by (simp add: kwf_defs with_event_group_def C)
  have "map (\<lambda>q. eg_id (the (((event_groups s)(p \<mapsto> m)) q))) (egs s) = eg_ids s"
    using p by (auto simp: eg_ids_def)
  then show "eg_ids (with_event_group p m al h s) = eg_ids s @ [Last_Event_Group_ID s + 1]"
    by (simp add: eg_ids_def with_event_group_def C m)
qed

lemma create_event_group_kwf:
  assumes kwf: "kwf s" and lst: "Last_Event_Group_ID s \<noteq> - 1" and cr: "Kernel_Create_Event_Group s = Some (i, s')"
  shows "kwf s' \<and> (if length (egs s) = MAXEVENTGROUP then i = 0 \<and> eg_ids s' = eg_ids s \<and> Last_Event_Group_ID s' = Last_Event_Group_ID s
    else i = Last_Event_Group_ID s + 1 \<and> Last_Event_Group_ID s' = i \<and> eg_ids s' = eg_ids s @ [i])"
proof (cases "length (egs s) = MAXEVENTGROUP")
  case True
  with create_event_group_full[OF kwf] cr have i: "i = 0" "set_retval 0 (s\<lparr>err := MAX_OBJECT_ERR\<rparr>) = Some s'"
    by (cases "set_retval 0 (s\<lparr>err := MAX_OBJECT_ERR\<rparr>)"; simp)+
  with kwf_set_retval[OF i(2)] kwf set_retval_frame[OF i(2)] True show ?thesis by (simp add: eg_ids_def)
next
  case False
  then have room: "length (egs s) < MAXEVENTGROUP" using table_wf_count[OF kwf_tables(3)[OF kwf]] by simp
  obtain p al h where n: "i = Last_Event_Group_ID s + 1" "link_new EventGroupList p s al h"
    "set_retval i (with_event_group p (new_event_group i) al h s) = Some s'"
    by (rule create_event_group_new[OF kwf room cr])
  have "eg_id (new_event_group i) = Last_Event_Group_ID s + 1" by (simp add: new_event_group_def n(1))
  note W = kwf_with_event_group[OF kwf room lst n(2) this]
  with False n(1) kwf_set_retval[OF n(3)] set_retval_frame[OF n(3)] show ?thesis
    by (simp add: eg_ids_def) (simp add: with_event_group_def)
qed

interpretation egr: kernel_objects kwf eg_ids Last_Event_Group_ID MAXEVENTGROUP "\<lambda>_. True"
  findEventGroupByID Kernel_Create_Event_Group
proof
  fix s i s'
  assume kwf: "kwf s"
  note t = kwf_tables(3)[OF kwf] and L = kwf_lists[OF kwf]
  show "0 < i \<and> i \<le> Last_Event_Group_ID s" if "i \<in> set (eg_ids s)"
    using ids_bounds[OF t] that by (simp add: eg_ids_def)
  show "sorted_wrt (<) (eg_ids s)" using table_wf_sorted[OF t] by (simp add: eg_ids_def)
  show "length (eg_ids s) \<le> MAXEVENTGROUP" using table_wf_count[OF t] by (simp add: eg_ids_def)
  show "\<exists>s'. Kernel_Create_Event_Group s = Some (0, s') \<and> kwf s' \<and> eg_ids s' = eg_ids s \<and>
      Last_Event_Group_ID s' = Last_Event_Group_ID s" if l: "length (eg_ids s) = MAXEVENTGROUP"
  proof -
    have "kwf (s\<lparr>err := MAX_OBJECT_ERR\<rparr>)" using kwf by simp
    from set_retval_ex[OF this, of 0] obtain s1 where s1: "set_retval 0 (s\<lparr>err := MAX_OBJECT_ERR\<rparr>) = Some s1" by blast
    with create_event_group_full[OF kwf] l kwf_set_retval[OF s1] kwf set_retval_frame[OF s1]
    show ?thesis by (simp add: eg_ids_def)
  qed
  show "kwf s' \<and> i = Last_Event_Group_ID s + 1 \<and> Last_Event_Group_ID s' = i \<and> eg_ids s' = eg_ids s @ [i]"
    if "Last_Event_Group_ID s \<noteq> - 1" "Kernel_Create_Event_Group s = Some (i, s')" "i \<noteq> 0"
    using create_event_group_kwf[OF kwf that(1,2)] that(3) by (auto split: if_splits)
  show "\<exists>p. findEventGroupByID i s = Some p \<and> (p \<noteq> NULL \<longleftrightarrow> i \<in> set (eg_ids s))" if "eg_ids s \<noteq> []"
    using find_obj_ids[OF L _ t, of i] that by (simp add: findEventGroupByID_def eg_ids_def)
  show "findEventGroupByID i s = None" if "eg_ids s = []"
    using find_obj_table(1)[OF L _ t] that by (simp add: findEventGroupByID_def eg_ids_def)
qed

section \<open>The operations keep the invariant\<close>

text \<open>Destroying an existing event group removes it; with an unknown id the result is undefined.\<close>

lemma destroy_event_group_found:
  assumes kwf: "kwf s" and a: "req_arg 0 s = Some i" and p: "p \<in> set (egs s)"
    and i: "eg_id (the (event_groups s p)) = i"
  obtains s' where "Kernel_Destroy_Event_Group s = Some s'" and "kwf s'" and "egs s' = remove1 p (egs s)"
    and "event_groups s' = (event_groups s)(p := None)" and "err s' = err s"
proof -
  note t = kwf_tables(3)[OF kwf]
  obtain n h where R: "find_node (nodes s) (event_groups s) (\<lambda>x. eg_id x = i) EventGroupList NULL = Some (n, p)"
    "ptrlist_remove (nodes s) EventGroupList n = Some (1, h)" "lists_wf LISTS h"
    "contents h EventGroupList = remove1 p (egs s)"
    "\<And>M. M \<in> LISTS \<Longrightarrow> M \<noteq> EventGroupList \<Longrightarrow> contents h M = contents (nodes s) M"
    "\<And>al. fresh_above al (nodes s) \<Longrightarrow> fresh_above al h"
    by (rule find_node_remove[OF kwf_lists[OF kwf] _ t p i]) (simp, rule that)
  have p0: "p \<noteq> NULL" using p contents_not_NULL by blast
  obtain m where m: "event_groups s p = Some m" using table_wf_obj[OF t p] by blast
  let ?s' = "s\<lparr>event_groups := (event_groups s)(p := None), nodes := h, Event_Group_Count := Event_Group_Count s - 1\<rparr>"
  have d: "Kernel_Destroy_Event_Group s = Some ?s'"
    using R(1,2) a p0 m by (simp add: Kernel_Destroy_Event_Group_def remove_from_list_def free_def)
  have t': "table_wf (remove1 p (egs s)) ((event_groups s)(p := None)) eg_id (Event_Group_Count s - 1)
      (Last_Event_Group_ID s) MAXEVENTGROUP"
    by (rule table_wf_new[OF table_wf_remove[OF t p]]) (simp add: table_wf_distinct(2)[OF t])
  have "kwf ?s'"
    using kwf t' R(3-6) fresh_above_del[of _ "event_groups s"]
    by (simp add: kwf_defs)
  from that[OF d this] R(4) show ?thesis by simp
qed

lemma destroy_event_group_missing:
  assumes kwf: "kwf s" and a: "req_arg 0 s = Some i" and i: "i \<notin> set (eg_ids s)"
  shows "Kernel_Destroy_Event_Group s = None"
proof (cases "egs s = []")
  case True
  with find_node_missing(1)[OF kwf_lists[OF kwf] _ kwf_tables(3)[OF kwf], of i] a i show ?thesis
    by (simp add: Kernel_Destroy_Event_Group_def eg_ids_def)
next
  case False
  have "last (egs s) \<in> set (egs s)" using False by simp
  moreover from this obtain m where "event_groups s (last (egs s)) = Some m"
    using table_wf_obj[OF kwf_tables(3)[OF kwf]] by blast
  ultimately show ?thesis
    using find_node_missing(2,3)[OF kwf_lists[OF kwf] _ kwf_tables(3)[OF kwf], of i] a i False
      contents_not_NULL[of "last (egs s)" "nodes s" EventGroupList]
    by (simp add: Kernel_Destroy_Event_Group_def eg_ids_def remove_from_list_def free_def)
qed

lemma kwf_Kernel_Destroy_Event_Group:
  assumes d: "Kernel_Destroy_Event_Group s = Some s'" and "kwf s"
  shows "kwf s'"
proof -
  obtain i where i: "req_arg 0 s = Some i" using d by (auto simp: Kernel_Destroy_Event_Group_def elim: bind_SomeE)
  have "i \<in> set (eg_ids s)" using destroy_event_group_missing[OF assms(2) i] d by auto
  then obtain p where p: "p \<in> set (egs s)" "eg_id (the (event_groups s p)) = i" by (auto simp: eg_ids_def)
  from destroy_event_group_found[OF assms(2) i p] d show ?thesis by (metis option.inject)
qed

section \<open>Setting, clearing and waiting for bits\<close>

lemma kwf_eg:
  assumes kwf: "kwf s" and e: "event_groups s p = Some g" and id: "eg_id g' = eg_id g"
  shows "kwf (s\<lparr>event_groups := (event_groups s)(p \<mapsto> g')\<rparr>)"
proof -
  have t: "table_wf (egs s) ((event_groups s)(p \<mapsto> g')) eg_id (Event_Group_Count s) (Last_Event_Group_ID s) MAXEVENTGROUP"
    by (rule table_wf_upd[OF kwf_tables(3)[OF kwf]]) (simp add: e id)
  have "fresh_above (alloc s) ((event_groups s)(p \<mapsto> g'))"
    by (rule fresh_above_upd[where w = g]) (use kwf e in \<open>simp_all add: kwf_defs\<close>)
  then show ?thesis using kwf t by (simp add: kwf_defs)
qed

lemma findEventGroup_found:
  assumes "findEventGroupByID i s = Some p" "kwf s" "p \<noteq> NULL"
  obtains g where "p \<in> set (egs s)" and "event_groups s p = Some g" and "eg_id g = i"
  using assms(1,3) find_obj_found[OF kwf_lists[OF assms(2)] _ kwf_tables(3)[OF assms(2)]]
  by (auto simp: findEventGroupByID_def)

lemma find_event_group:
  assumes "kwf s" "p \<in> set (egs s)" "event_groups s p = Some g"
  shows "findEventGroupByID (eg_id g) s = Some p"
  using assms find_obj_iff[OF kwf_lists[OF assms(1)] _ kwf_tables(3)[OF assms(1)], of p "eg_id g"]
  by (simp add: findEventGroupByID_def)

text \<open>What the wake-up loop does to one descriptor.\<close>

definition wake_PD :: "EVENT_GROUP_TYPE \<Rightarrow> PD \<Rightarrow> PD" where
  "wake_PD g d = (if state d = WAIT_EVENTG \<and> request_args d 0 = eg_id g \<and>
       bits_ready (eg_events g) (request_args d 1) (request_args d 2)
     then d\<lparr>state := READY\<rparr> else d)"

lemma wake_PD_pid [simp]: "pid (wake_PD g d) = pid d"
  by (simp add: wake_PD_def)

lemma wake_bits_upd:
  assumes "event_groups s eg = Some g" "eg \<noteq> NULL" "p \<noteq> NULL" "pds s p = Some d"
  shows "wake_bits eg p s = upd_pd p (wake_PD g) s"
  using assms by (simp add: wake_bits_def wake_PD_def rd_def upd_pd_def wr_def fun_upd_idem)

lemma wake_loop:
  "distinct ps \<Longrightarrow> \<forall>p \<in> set ps. p \<noteq> NULL \<and> p \<in> dom (pds s) \<Longrightarrow> event_groups s eg = Some g \<Longrightarrow> eg \<noteq> NULL \<Longrightarrow>
   foldM (wake_bits eg) ps s = foldM (\<lambda>p. upd_pd p (wake_PD g)) ps s"
proof (induction ps arbitrary: s)
  case (Cons p ps)
  then obtain d where d: "pds s p = Some d" "p \<noteq> NULL" by auto
  let ?s = "s\<lparr>pds := (pds s)(p \<mapsto> wake_PD g d)\<rparr>"
  have u: "upd_pd p (wake_PD g) s = Some ?s" using d by (simp add: upd_pd_Some rd_SomeI)
  have q: "\<forall>q \<in> set ps. q \<noteq> NULL \<and> q \<in> dom (pds ?s)" using Cons.prems(2) by auto
  have "foldM (wake_bits eg) ps ?s = foldM (\<lambda>p. upd_pd p (wake_PD g)) ps ?s"
    by (rule Cons.IH[OF _ q]) (use Cons.prems in simp_all)
  with wake_bits_upd[OF Cons.prems(3,4) d(2,1)] u show ?case by simp
qed simp

lemma set_bits_eval:
  assumes kwf: "kwf s" and d: "cur_pd s = Some d" "request_args d 0 = eg_id g" and p: "p \<in> set (egs s)" "event_groups s p = Some g"
    and ne: "procs s \<noteq> []"
  defines "g' \<equiv> g\<lparr>eg_events := eg_events g OR request_args d 1\<rparr>"
  shows "Kernel_Event_Group_Set_Bits s = Some (s\<lparr>event_groups := (event_groups s)(p \<mapsto> g'), pds := upd_all (wake_PD g') (procs s) (pds s)\<rparr>)"
    and "kwf (s\<lparr>event_groups := (event_groups s)(p \<mapsto> g'), pds := upd_all (wake_PD g') (procs s) (pds s)\<rparr>)"
proof -
  have p0: "p \<noteq> NULL" using p(1) contents_not_NULL by blast
  let ?s = "s\<lparr>event_groups := (event_groups s)(p \<mapsto> g')\<rparr>"
  have k: "kwf ?s" by (rule kwf_eg[OF kwf p(2)]) (simp add: g'_def)
  have ne': "procs ?s \<noteq> []" using ne by simp
  note P = kwf_procs[OF k ne']
  have w: "for_list pl_next pl_ptr (nodes ?s) ProcessList (wake_bits p) ?s =
      Some (?s\<lparr>pds := upd_all (wake_PD g') (procs ?s) (pds ?s)\<rparr>)"
    unfolding for_list_chain[OF P(4)] P(1) foldM_upd_pd[OF P(2,3), symmetric]
    by (rule wake_loop[OF P(2,3)]) (simp_all add: p0)
  have u: "upd_eg p (\<lambda>g. g\<lparr>eg_events := eg_events g OR request_args d 1\<rparr>) s = Some ?s"
    using p(2) p0 by (simp add: upd_eg_iff rd_def g'_def)
  have f: "findEventGroupByID (request_args d 0) s = Some p" using find_event_group[OF kwf p] d(2) by simp
  show "Kernel_Event_Group_Set_Bits s = Some (s\<lparr>event_groups := (event_groups s)(p \<mapsto> g'), pds := upd_all (wake_PD g') (procs s) (pds s)\<rparr>)"
    using w by (simp add: Kernel_Event_Group_Set_Bits_def req_arg_def d(1) f u[unfolded One_nat_def] p0)
  show "kwf (s\<lparr>event_groups := (event_groups s)(p \<mapsto> g'), pds := upd_all (wake_PD g') (procs s) (pds s)\<rparr>)"
    using kwf_upd_all[OF k, of "wake_PD g'" "procs s"] by simp
qed

text \<open>A call on the list of groups that finds nothing, or something.\<close>

lemma event_group_lookup:
  assumes "kwf s" "findEventGroupByID i s = Some p" "p = NULL \<Longrightarrow> thesis"
    "\<And>g. p \<noteq> NULL \<Longrightarrow> p \<in> set (egs s) \<Longrightarrow> event_groups s p = Some g \<Longrightarrow> eg_id g = i \<Longrightarrow> thesis"
  shows thesis
  using assms findEventGroup_found[OF assms(2,1)] by blast

lemma set_bits_no_tasks:
  assumes kwf: "kwf s" and "procs s = []" and i: "req_arg 0 s = Some i" "findEventGroupByID i s = Some p" "p \<noteq> NULL"
  shows "Kernel_Event_Group_Set_Bits s = None"
proof -
  have "entries (nodes s) ProcessList = [(ProcessList, NULL)]"
    using contents_Nil_iff(1)[OF kwf_lists[OF kwf], of ProcessList] assms(2) by simp
  with lists_wf_seg[OF kwf_lists[OF kwf] in_LISTS(1)]
  have c: "chain pl_next pl_ptr (nodes s) ProcessList [(ProcessList, NULL)] NULL" by simp
  have "for_list pl_next pl_ptr (nodes s1) ProcessList (wake_bits p) s1 = None" if "nodes s1 = nodes s" for s1
    unfolding that for_list_chain[OF c] by (simp add: wake_bits_def)
  with i show ?thesis
    by (cases "Kernel_Event_Group_Set_Bits s") (auto simp: Kernel_Event_Group_Set_Bits_def upd_eg_iff elim!: bind_SomeE)
qed

lemma event_group_arg:
  assumes "req_arg 0 s = Some i"
  obtains d where "cur_pd s = Some d" and "request_args d 0 = i"
  using assms by (auto simp: req_arg_def elim!: bind_SomeE)

text \<open>The two outcomes of setting bits.\<close>

lemma set_bits_cases:
  assumes "Kernel_Event_Group_Set_Bits s = Some s'" "kwf s"
  obtains (missing) "s' = s\<lparr>err := OBJECT_NOT_FOUND_ERR\<rparr>"
  | (found) p g g' d where "cur_pd s = Some d" "p \<in> set (egs s)" "event_groups s p = Some g" "eg_id g = request_args d 0"
    "g' = g\<lparr>eg_events := eg_events g OR request_args d 1\<rparr>"
    "s' = s\<lparr>event_groups := (event_groups s)(p \<mapsto> g'), pds := upd_all (wake_PD g') (procs s) (pds s)\<rparr>" "kwf s'"
proof -
  obtain i p where i: "req_arg 0 s = Some i" and f: "findEventGroupByID i s = Some p"
    using assms(1) unfolding Kernel_Event_Group_Set_Bits_def by (elim bind_SomeE) (rule that)
  obtain d where d: "cur_pd s = Some d" "request_args d 0 = i" using i by (rule event_group_arg)
  show thesis using assms(2) f
  proof (rule event_group_lookup)
    assume "p = NULL"
    with assms(1) i f show thesis by (intro missing) (simp add: Kernel_Event_Group_Set_Bits_def)
  next
    fix g assume g: "p \<noteq> NULL" "p \<in> set (egs s)" "event_groups s p = Some g" "eg_id g = i"
    have d': "request_args d 0 = eg_id g" using g(4) d(2) by simp
    have ne: "procs s \<noteq> []" using set_bits_no_tasks[OF assms(2) _ i f g(1)] assms(1) by auto
    from set_bits_eval[OF assms(2) d(1) d' g(2,3) ne] assms(1) d' show thesis
      by (intro found[OF d(1) g(2,3)]) simp_all
  qed
qed

lemma kwf_Kernel_Event_Group_Set_Bits:
  "Kernel_Event_Group_Set_Bits s = Some s' \<Longrightarrow> kwf s \<Longrightarrow> kwf s'"
  by (erule (1) set_bits_cases) simp_all

lemma kwf_Kernel_Event_Group_Clear_Bits:
  assumes "Kernel_Event_Group_Clear_Bits s = Some s'" "kwf s"
  shows "kwf s'"
  using assms by (auto simp: Kernel_Event_Group_Clear_Bits_def upd_eg_iff rd_Some_iff elim!: bind_SomeE split: if_splits)
    (rule kwf_eg, simp_all)

lemma kwf_Kernel_Event_Group_Wait_Bits:
  assumes "Kernel_Event_Group_Wait_Bits s = Some s'" "kwf s"
  shows "kwf s'"
  using assms by (auto simp: Kernel_Event_Group_Wait_Bits_def Let_def elim!: bind_SomeE split: if_splits)
    (erule kwf_steps | simp)+

lemma kwf_Kernel_Event_Group_Get_Bits:
  assumes "Kernel_Event_Group_Get_Bits s = Some (r, s')" "kwf s"
  shows "kwf s'"
  using assms by (auto simp: Kernel_Event_Group_Get_Bits_def elim!: bind_SomeE split: if_splits)
    (erule kwf_steps | simp)+


lemma clear_bits_cases:
  assumes "Kernel_Event_Group_Clear_Bits s = Some s'" "kwf s"
  obtains (missing) "s' = s\<lparr>err := OBJECT_NOT_FOUND_ERR\<rparr>"
  | (found) p g d where "cur_pd s = Some d" "p \<in> set (egs s)" "event_groups s p = Some g" "eg_id g = request_args d 0"
    "s' = s\<lparr>event_groups := (event_groups s)(p \<mapsto> g\<lparr>eg_events := eg_events g AND NOT (request_args d 1)\<rparr>)\<rparr>"
proof -
  obtain i p where i: "req_arg 0 s = Some i" and f: "findEventGroupByID i s = Some p"
    using assms(1) unfolding Kernel_Event_Group_Clear_Bits_def by (elim bind_SomeE) (rule that)
  obtain d where d: "cur_pd s = Some d" "request_args d 0 = i" using i by (rule event_group_arg)
  show thesis using assms(2) f
  proof (rule event_group_lookup)
    assume "p = NULL"
    with assms(1) i f show thesis by (intro missing) (simp add: Kernel_Event_Group_Clear_Bits_def)
  next
    fix g assume g: "p \<noteq> NULL" "p \<in> set (egs s)" "event_groups s p = Some g" "eg_id g = i"
    with assms(1) i f d show thesis
      by (intro found[OF d(1) g(2,3)])
        (auto simp: Kernel_Event_Group_Clear_Bits_def upd_eg_iff rd_Some_iff req_arg_def elim!: bind_SomeE)
  qed
qed

lemma wait_bits_eval:
  assumes kwf: "kwf s" and d: "cur_pd s = Some d" "request_args d 0 = eg_id g" and p: "p \<in> set (egs s)" "event_groups s p = Some g"
  shows "Kernel_Event_Group_Wait_Bits s = Some (if bits_ready (eg_events g) (request_args d 1) (request_args d 2) then s
    else s\<lparr>pds := (pds s)(Current_Process s \<mapsto> d\<lparr>state := WAIT_EVENTG\<rparr>), Kernel_Request_Cswitch := 1\<rparr>)"
proof -
  have p0: "p \<noteq> NULL" using p(1) contents_not_NULL by blast
  have f: "findEventGroupByID (request_args d 0) s = Some p" using find_event_group[OF kwf p] d(2) by simp
  show ?thesis
    by (simp add: Kernel_Event_Group_Wait_Bits_def req_arg_def d(1) f p0 rd_SomeI p(2) bits_ready_def and.commute Let_def
        upd_cur_Some[OF d(1)])
qed

lemma wait_bits_cases:
  assumes "Kernel_Event_Group_Wait_Bits s = Some s'" "kwf s"
  obtains (none) "s' = s"
  | (blocked) p g d where "cur_pd s = Some d" "p \<in> set (egs s)" "event_groups s p = Some g" "eg_id g = request_args d 0"
    "\<not> bits_ready (eg_events g) (request_args d 1) (request_args d 2)"
    "s' = s\<lparr>pds := (pds s)(Current_Process s \<mapsto> d\<lparr>state := WAIT_EVENTG\<rparr>), Kernel_Request_Cswitch := 1\<rparr>"
proof -
  obtain i p where i: "req_arg 0 s = Some i" and f: "findEventGroupByID i s = Some p"
    using assms(1) unfolding Kernel_Event_Group_Wait_Bits_def by (elim bind_SomeE) (rule that)
  obtain d where d: "cur_pd s = Some d" "request_args d 0 = i" using i by (rule event_group_arg)
  show thesis using assms(2) f
  proof (rule event_group_lookup)
    assume "p = NULL"
    with assms(1) i f show thesis by (intro none) (simp add: Kernel_Event_Group_Wait_Bits_def)
  next
    fix g assume g: "p \<noteq> NULL" "p \<in> set (egs s)" "event_groups s p = Some g" "eg_id g = i"
    then have d': "request_args d 0 = eg_id g" using d(2) by simp
    show thesis using wait_bits_eval[OF assms(2) d(1) d' g(2,3)] assms(1) none blocked[OF d(1) g(2,3) d'[symmetric]]
      by (auto split: if_splits)
  qed
qed


section \<open>No lost wake-up\<close>

text \<open>A task that waits for an existing group waits for bits the group does not have.\<close>

definition no_lost :: "kstate \<Rightarrow> bool" where
  "no_lost s \<longleftrightarrow> (\<forall>p \<in> set (procs s). \<forall>q \<in> set (egs s). \<forall>d g. pds s p = Some d \<longrightarrow> event_groups s q = Some g \<longrightarrow>
     state d = WAIT_EVENTG \<longrightarrow> request_args d 0 = eg_id g \<longrightarrow> \<not> bits_ready (eg_events g) (request_args d 1) (request_args d 2))"

lemma bits_ready_clear: "bits_ready (ev AND NOT b) w a \<Longrightarrow> bits_ready ev w a"
proof -
  have "w AND (ev AND NOT b) = (w AND ev) AND NOT b" by (simp add: and.assoc)
  moreover have "w AND ev = w" if "(w AND ev) AND NOT b = w"
    by (metis that and.assoc and.commute and.idem)
  ultimately show "bits_ready (ev AND NOT b) w a \<Longrightarrow> bits_ready ev w a"
    by (auto simp: bits_ready_def Let_def word_gt_0)
qed

text \<open>A call on event groups by a task that is not waiting for bits.\<close>

datatype eg_op = SetB | ClearB | WaitB | GetB

definition eg_call :: "eg_op \<times> addr \<times> (nat \<Rightarrow> u16) \<Rightarrow> kstate \<Rightarrow> kstate option" where
  "eg_call c s = (case c of (k, p, args) \<Rightarrow> do {
     d \<leftarrow> rd (pds s) p;
     if state d = WAIT_EVENTG then None
     else do {
       s \<leftarrow> upd_cur (\<lambda>d. d\<lparr>request_args := args\<rparr>) (s\<lparr>Current_Process := p\<rparr>);
       (case k of SetB \<Rightarrow> Kernel_Event_Group_Set_Bits s | ClearB \<Rightarrow> Kernel_Event_Group_Clear_Bits s
        | WaitB \<Rightarrow> Kernel_Event_Group_Wait_Bits s | GetB \<Rightarrow> map_option snd (Kernel_Event_Group_Get_Bits s))
     }
   })"

lemma no_lost_pd:
  assumes "no_lost s" "state d \<noteq> WAIT_EVENTG"
  shows "no_lost (s\<lparr>pds := (pds s)(p \<mapsto> d)\<rparr>)"
  using assms by (auto simp: no_lost_def)

lemma no_lost_set:
  assumes "Kernel_Event_Group_Set_Bits s = Some s'" "kwf s" "no_lost s"
  shows "no_lost s'"
  using assms(1,2)
proof (cases rule: set_bits_cases)
  case missing
  with assms(3) show ?thesis by (simp add: no_lost_def)
next
  case (found p g g' d)
  have w: "state (wake_PD h e) = WAIT_EVENTG \<Longrightarrow> wake_PD h e = e \<and>
      (request_args e 0 = eg_id h \<longrightarrow> \<not> bits_ready (eg_events h) (request_args e 1) (request_args e 2))" for h e
    by (auto simp: wake_PD_def split: if_splits)
  show ?thesis
    unfolding no_lost_def
  proof (intro ballI allI impI)
    fix x q e h
    assume x: "x \<in> set (procs s')" "q \<in> set (egs s')" "pds s' x = Some e" "event_groups s' q = Some h"
      "state e = WAIT_EVENTG" "request_args e 0 = eg_id h"
    from x(1,3) found(6) obtain e0 where e0: "pds s x = Some e0" "e = wake_PD g' e0" by (auto simp: upd_all_def)
    note W = w[of g' e0, folded e0(2), OF x(5)]
    show "\<not> bits_ready (eg_events h) (request_args e 1) (request_args e 2)"
    proof (cases "q = p")
      case True
      then have "h = g'" using x(4) found(6) by simp
      with W x(6) show ?thesis by simp
    next
      case False
      then have "event_groups s q = Some h" using x(4) found(6) by simp
      with assms(3) x e0 W found(6) show ?thesis by (simp add: no_lost_def)
    qed
  qed
qed

lemma no_lost_clear:
  assumes "Kernel_Event_Group_Clear_Bits s = Some s'" "kwf s" "no_lost s"
  shows "no_lost s'"
  using assms(1,2)
proof (cases rule: clear_bits_cases)
  case missing
  with assms(3) show ?thesis by (simp add: no_lost_def)
next
  case (found p g d)
  show ?thesis
    unfolding no_lost_def found(5)
    using assms(3) found(3) by (auto simp: no_lost_def dest!: bits_ready_clear)
qed

lemma no_lost_wait:
  assumes "Kernel_Event_Group_Wait_Bits s = Some s'" "kwf s" "no_lost s"
  shows "no_lost s'"
  using assms(1,2)
proof (cases rule: wait_bits_cases)
  case none
  with assms(3) show ?thesis by simp
next
  case (blocked p g d)
  have same: "q = p" if "q \<in> set (egs s)" "event_groups s q = Some h" "eg_id h = eg_id g" for q h
    using table_wf_key_inj[OF kwf_tables(3)[OF assms(2)] that(1) blocked(2)] that blocked(3) by simp
  show ?thesis
    unfolding no_lost_def
  proof (intro ballI allI impI)
    fix x q e h
    assume x: "x \<in> set (procs s')" "q \<in> set (egs s')" "pds s' x = Some e" "event_groups s' q = Some h"
      "state e = WAIT_EVENTG" "request_args e 0 = eg_id h"
    show "\<not> bits_ready (eg_events h) (request_args e 1) (request_args e 2)"
    proof (cases "x = Current_Process s")
      case True
      then have e: "e = d\<lparr>state := WAIT_EVENTG\<rparr>" using x(3) blocked(6) by simp
      with same[of q h] x blocked have "q = p" by simp
      with x(4) blocked(3,5,6) e show ?thesis by simp
    next
      case False
      with assms(3) x blocked(6) show ?thesis by (simp add: no_lost_def)
    qed
  qed
qed

lemma no_lost_get:
  assumes "Kernel_Event_Group_Get_Bits s = Some (r, s')" "no_lost s" "cur_pd s = Some d" "state d \<noteq> WAIT_EVENTG"
  shows "no_lost s'"
proof -
  have "s' = s\<lparr>err := OBJECT_NOT_FOUND_ERR\<rparr> \<or>
     s' = s\<lparr>pds := (pds s)(Current_Process s \<mapsto> d\<lparr>request_retval := r\<rparr>)\<rparr>"
    using assms(1,3) by (auto simp: Kernel_Event_Group_Get_Bits_def upd_cur_iff elim!: bind_SomeE split: if_splits)
  with no_lost_pd[OF assms(2), of "d\<lparr>request_retval := r\<rparr>" "Current_Process s"] assms(2,4) show ?thesis by (auto simp: no_lost_def)
qed

lemma eg_call_keeps:
  assumes "eg_call c s = Some s'" "kwf s" "no_lost s"
  shows "kwf s'" and "no_lost s'"
proof -
  obtain k p args where c: "c = (k, p, args)" by (cases c) auto
  from assms(1) obtain d where d: "rd (pds s) p = Some d" "state d \<noteq> WAIT_EVENTG"
    by (auto simp: eg_call_def c elim!: bind_SomeE split: if_splits)
  let ?d = "d\<lparr>request_args := args\<rparr>"
  let ?s = "s\<lparr>Current_Process := p, pds := (pds s)(p \<mapsto> ?d)\<rparr>"
  have u: "upd_cur (\<lambda>d. d\<lparr>request_args := args\<rparr>) (s\<lparr>Current_Process := p\<rparr>) = Some ?s"
    using d by (simp add: upd_cur_iff cur_pd_def)
  have k: "kwf ?s" by (rule kwf_become[OF assms(2) d(1)]) simp
  have n: "no_lost ?s"
    using no_lost_pd[OF assms(3), of ?d p] d(2) by (simp add: no_lost_def)
  have cur: "cur_pd ?s = Some ?d" using d(1) by (simp add: cur_pd_def rd_Some_iff)
  have "(case k of SetB \<Rightarrow> Kernel_Event_Group_Set_Bits ?s | ClearB \<Rightarrow> Kernel_Event_Group_Clear_Bits ?s
        | WaitB \<Rightarrow> Kernel_Event_Group_Wait_Bits ?s | GetB \<Rightarrow> map_option snd (Kernel_Event_Group_Get_Bits ?s)) = Some s'"
    using assms(1) d unfolding eg_call_def c prod.case d(1) by (simp add: u)
  then show "kwf s'" "no_lost s'"
    using k n no_lost_get[OF _ n cur] d(2)
      no_lost_set[OF _ k n] no_lost_clear[OF _ k n] no_lost_wait[OF _ k n]
      kwf_Kernel_Event_Group_Set_Bits[OF _ k] kwf_Kernel_Event_Group_Clear_Bits[OF _ k]
      kwf_Kernel_Event_Group_Wait_Bits[OF _ k] kwf_Kernel_Event_Group_Get_Bits[OF _ k]
    by (auto split: eg_op.splits)
qed

section \<open>Properties\<close>

text \<open>C22: No lost wake-up: in any sequence of calls on event groups (set, clear, wait and get bits, with
  any arguments, by any tasks that are not waiting for bits) no task is ever left waiting for bits
  of an existing group that would already end its wait.\<close>

theorem event_group_no_lost_wakeup:
  assumes "kwf s" "no_lost s" "foldM eg_call cs s = Some s'"
  shows "kwf s' \<and> no_lost s'"
  by (rule foldM_invariant[where P = "\<lambda>s. kwf s \<and> no_lost s", OF _ _ assms(3)]) (use assms(1,2) eg_call_keeps in blast)+

text \<open>C23: \<open>Kernel_Event_Group_Set_Bits\<close> adds the bits to the group and makes READY exactly those tasks
  that wait for this group and for which a \<open>Kernel_Event_Group_Wait_Bits\<close> with the same arguments
  would now return at once; every other descriptor is unchanged.\<close>

theorem set_bits_wakes_exactly:
  assumes "kwf s" "cur_pd s = Some d" "request_args d 0 = eg_id g" "q \<in> set (egs s)" "event_groups s q = Some g"
    and "p \<in> set (procs s)" "pds s p = Some e"
  shows "\<exists>s'. Kernel_Event_Group_Set_Bits s = Some s' \<and> kwf s' \<and>
    event_groups s' = (event_groups s)(q \<mapsto> g\<lparr>eg_events := eg_events g OR request_args d 1\<rparr>) \<and>
    pds s' p = Some (if state e = WAIT_EVENTG \<and> request_args e 0 = eg_id g \<and>
         map_option Kernel_Request_Cswitch
           (Kernel_Event_Group_Wait_Bits (s'\<lparr>Current_Process := p, Kernel_Request_Cswitch := 0\<rparr>)) = Some 0
       then e\<lparr>state := READY\<rparr> else e)"
proof -
  have "procs s \<noteq> []" using assms(6) by auto
  note S = set_bits_eval[OF assms(1-5) this]
  let ?g = "g\<lparr>eg_events := eg_events g OR request_args d 1\<rparr>"
  let ?s = "s\<lparr>event_groups := (event_groups s)(q \<mapsto> ?g), pds := upd_all (wake_PD ?g) (procs s) (pds s)\<rparr>"
  let ?t = "?s\<lparr>Current_Process := p, Kernel_Request_Cswitch := 0\<rparr>"
  have p: "p \<noteq> NULL" "pds ?s p = Some (wake_PD ?g e)" using assms(6,7) contents_not_NULL by (blast, simp add: upd_all_def)
  then have "kwf (?s\<lparr>Current_Process := p\<rparr>)" by (intro kwf_set_current[OF S(2)]) (use assms(7) in auto)
  then have k: "kwf ?t" by simp
  have c: "cur_pd ?t = Some (wake_PD ?g e)" using p by (simp add: cur_pd_def rd_def)
  have a: "request_args (wake_PD ?g e) = request_args e" by (simp add: wake_PD_def)
  have "map_option Kernel_Request_Cswitch (Kernel_Event_Group_Wait_Bits ?t) = Some 0 \<longleftrightarrow> bits_ready (eg_events ?g) (request_args e 1) (request_args e 2)"
    if "state e = WAIT_EVENTG" "request_args e 0 = eg_id g"
  proof -
    have "request_args (wake_PD ?g e) 0 = eg_id ?g" using that a by simp
    from wait_bits_eval[OF k c this, of q] assms(4) a
    show ?thesis by simp
  qed
  with S p show ?thesis by (intro exI[of _ ?s]) (auto simp: wake_PD_def)
qed


lemma cleared_not_ready:
  assumes "a \<noteq> 0 \<and> w AND b \<noteq> 0 \<or> w \<noteq> 0 \<and> w AND NOT b = 0"
  shows "\<not> bits_ready (ev AND NOT b) w a"
proof -
  have e: "w AND (ev AND NOT b) = ev AND (w AND NOT b)" by (simp add: ac_simps)
  have "w AND b = 0" if "w AND (ev AND NOT b) = w"
  proof -
    have "w AND b = (w AND (ev AND NOT b)) AND b" by (simp only: that)
    also have "\<dots> = 0" by (simp add: bit_eq_iff bit_simps)
    finally show ?thesis .
  qed
  with assms e show ?thesis by (auto simp: bits_ready_def Let_def)
qed

text \<open>C28: \<open>Kernel_Event_Group_Wait_Bits\<close> returns at once, changing nothing, when the wanted bits are
  there (one of them, or all when all are wanted); otherwise the task becomes WAIT_EVENTG and a
  context switch is requested. \<open>Kernel_Event_Group_Clear_Bits\<close> takes exactly the bits of its argument off the group,
  and after it a task that waits for the group blocks when it wants all of its bits and one of them was
  cleared, or when it wants any of its bits and all of them were cleared.\<close>

theorem wait_bits_blocks_unless_ready:
  assumes "kwf s" "cur_pd s = Some d" "request_args d 0 = eg_id g" "q \<in> set (egs s)" "event_groups s q = Some g"
  shows "Kernel_Event_Group_Wait_Bits s = Some (if request_args d 1 AND eg_events g = request_args d 1 \<or>
        request_args d 2 = 0 \<and> request_args d 1 AND eg_events g \<noteq> 0 then s
      else s\<lparr>pds := (pds s)(Current_Process s \<mapsto> d\<lparr>state := WAIT_EVENTG\<rparr>), Kernel_Request_Cswitch := 1\<rparr>) \<and>
    (\<exists>s'. Kernel_Event_Group_Clear_Bits s = Some s' \<and> event_groups s' = (event_groups s)(q \<mapsto>
        g\<lparr>eg_events := eg_events g AND NOT (request_args d 1)\<rparr>) \<and>
      (\<forall>r e. rd (pds s) r = Some e \<and> request_args e 0 = eg_id g \<and>
        (request_args e 2 \<noteq> 0 \<and> request_args e 1 AND request_args d 1 \<noteq> 0 \<or>
         request_args e 1 \<noteq> 0 \<and> request_args e 1 AND NOT (request_args d 1) = 0) \<longrightarrow>
        Kernel_Event_Group_Wait_Bits (s'\<lparr>Current_Process := r\<rparr>) =
          Some (s'\<lparr>Current_Process := r, pds := (pds s)(r \<mapsto> e\<lparr>state := WAIT_EVENTG\<rparr>), Kernel_Request_Cswitch := 1\<rparr>)))"
proof -
  have q: "q \<noteq> NULL" using assms(4) contents_not_NULL by blast
  have W: "Kernel_Event_Group_Wait_Bits s = Some (if request_args d 1 AND eg_events g = request_args d 1 \<or>
        request_args d 2 = 0 \<and> request_args d 1 AND eg_events g \<noteq> 0 then s
      else s\<lparr>pds := (pds s)(Current_Process s \<mapsto> d\<lparr>state := WAIT_EVENTG\<rparr>), Kernel_Request_Cswitch := 1\<rparr>)"
    unfolding wait_bits_eval[OF assms] by (auto simp: bits_ready_def Let_def word_gt_0)
  let ?g = "g\<lparr>eg_events := eg_events g AND NOT (request_args d 1)\<rparr>"
  let ?s = "s\<lparr>event_groups := (event_groups s)(q \<mapsto> ?g)\<rparr>"
  have u: "upd_eg q (\<lambda>g. g\<lparr>eg_events := eg_events g AND NOT (request_args d 1)\<rparr>) s = Some ?s"
    using q assms(5) by (simp add: upd_eg_iff rd_def)
  have c: "Kernel_Event_Group_Clear_Bits s = Some ?s"
    using find_event_group[OF assms(1,4,5)] assms(2,3) u[unfolded One_nat_def] q
    by (simp add: Kernel_Event_Group_Clear_Bits_def req_arg_def)
  have k: "kwf ?s" by (rule kwf_eg[OF assms(1,5)]) simp
  have "Kernel_Event_Group_Wait_Bits (?s\<lparr>Current_Process := r\<rparr>) =
      Some (?s\<lparr>Current_Process := r, pds := (pds s)(r \<mapsto> e\<lparr>state := WAIT_EVENTG\<rparr>), Kernel_Request_Cswitch := 1\<rparr>)"
    if r: "rd (pds s) r = Some e" "request_args e 0 = eg_id g"
      and w: "request_args e 2 \<noteq> 0 \<and> request_args e 1 AND request_args d 1 \<noteq> 0 \<or>
         request_args e 1 \<noteq> 0 \<and> request_args e 1 AND NOT (request_args d 1) = 0" for r e
  proof -
    have kr: "kwf (?s\<lparr>Current_Process := r\<rparr>)" by (rule kwf_set_current[OF k]) (use r(1) in \<open>auto simp: rd_Some_iff\<close>)
    have "cur_pd (?s\<lparr>Current_Process := r\<rparr>) = Some e" "request_args e 0 = eg_id ?g" "q \<in> set (egs (?s\<lparr>Current_Process := r\<rparr>))"
      "event_groups (?s\<lparr>Current_Process := r\<rparr>) q = Some ?g"
      using r assms(4) by (simp_all add: cur_pd_def)
    from wait_bits_eval[OF kr this] cleared_not_ready[OF w, of "eg_events g"] show ?thesis by simp
  qed
  with W c show ?thesis by (intro conjI exI[of _ ?s] allI impI) auto
qed


text \<open>A state whose event group has the bits \<open>b\<close>; the second task waits for it as \<open>args2\<close> says.\<close>

definition ex_eg_state :: "(nat \<Rightarrow> u16) \<Rightarrow> u16 \<Rightarrow> PROCESS_STATE \<Rightarrow> (nat \<Rightarrow> u16) \<Rightarrow> kstate" where
  "ex_eg_state args b st args2 = ex_state (ex_PD 1 5 RUNNING args 0) (ex_PD 2 7 st args2 0) (ex_PD 3 4 READY args 0)
     Map.empty ex_EV \<lparr>eg_id = 1, eg_events = b\<rparr> (ex_MUT 0 0 new_ptr_queue new_int_queue) (ex_SEM 0 new_ptr_queue)"

lemma ex_eg_state_kwf: "kwf (ex_eg_state args b st args2)"
  unfolding ex_eg_state_def
proof (rule ex_state_kwf)
  show "queues_inv Map.empty (queues_in [40 \<mapsto> ex_SEM 0 new_ptr_queue] [50 \<mapsto> ex_MUT 0 0 new_ptr_queue new_int_queue] Map.empty)
      (key_target [20 \<mapsto> ex_PD 1 5 RUNNING args 0, 21 \<mapsto> ex_PD 2 7 st args2 0, 22 \<mapsto> ex_PD 3 4 READY args 0] Map.empty)"
    by (rule ex_queues_inv[where xs = "[]" and ys = "[]" and zs = "[]"])
      (simp_all add: ex_SEM_def ex_MUT_def new_ptr_queue_def new_int_queue_def queue_rep_def)
qed (simp_all add: ex_PD_def ex_EV_def ex_MUT_def ex_SEM_def fresh_above_def)

lemma ex_eg_facts:
  "egs (ex_eg_state args b st args2) = [70]" "event_groups (ex_eg_state args b st args2) 70 = Some \<lparr>eg_id = 1, eg_events = b\<rparr>"
  "event_groups (ex_eg_state args b st args2) = [70 \<mapsto> \<lparr>eg_id = 1, eg_events = b\<rparr>]"
  "cur_pd (ex_eg_state args b st args2) = Some (ex_PD 1 5 RUNNING args 0)" "procs (ex_eg_state args b st args2) = [20, 21, 22]"
  "Current_Process (ex_eg_state args b st args2) = 20" "nodes (ex_eg_state args b st args2) = ex_nodes_k"
  "pds (ex_eg_state args b st args2) = [20 \<mapsto> ex_PD 1 5 RUNNING args 0, 21 \<mapsto> ex_PD 2 7 st args2 0, 22 \<mapsto> ex_PD 3 4 READY args 0]"
  by (simp_all add: ex_eg_state_def ex_state_def cur_pd_def rd_def)

text \<open>The second task waits for both bits of 3, the first one sets bit 1 and then bit 2.\<close>

theorem event_group_no_lost_wakeup_witness:
  "\<exists>s'. foldM eg_call [(WaitB, 21, \<lambda>_. 1), (SetB, 20, (\<lambda>_. 0)(0 := 1, 1 := 1))] (ex_eg_state (\<lambda>_. 1) 0 READY (\<lambda>_. 1)) = Some s' \<and>
     map_option state (pds s' 21) \<noteq> Some WAIT_EVENTG"
proof -
  let ?s = "ex_eg_state (\<lambda>_. 1) 0 READY (\<lambda>_. 1)"
  have n: "no_lost ?s" by (simp add: no_lost_def ex_eg_facts) (simp add: ex_PD_def)
  define u where "u = ?s\<lparr>Current_Process := 21, pds := (pds ?s)(21 \<mapsto> ex_PD 2 7 READY (\<lambda>_. 1) 0)\<rparr>"
  have ku: "kwf u" unfolding u_def
    by (rule kwf_become[OF ex_eg_state_kwf, where d = "ex_PD 2 7 READY (\<lambda>_. 1) 0"]) (simp_all add: ex_eg_facts rd_def)
  have cu: "cur_pd u = Some (ex_PD 2 7 READY (\<lambda>_. 1) 0)" "request_args (ex_PD 2 7 READY (\<lambda>_. 1) 0) 0 = eg_id \<lparr>eg_id = 1, eg_events = 0\<rparr>"
    "70 \<in> set (egs u)" "event_groups u 70 = Some \<lparr>eg_id = 1, eg_events = 0\<rparr>"
    by (simp_all add: u_def cur_pd_def rd_def ex_eg_facts) (simp add: ex_PD_def)
  define v where "v = u\<lparr>pds := (pds u)(21 \<mapsto> ex_PD 2 7 WAIT_EVENTG (\<lambda>_. 1) 0), Kernel_Request_Cswitch := 1\<rparr>"
  have w: "Kernel_Event_Group_Wait_Bits u = Some v"
    unfolding wait_bits_eval[OF ku cu] by (simp add: bits_ready_def u_def v_def ex_PD_def)
  have cv: "eg_call (WaitB, 21, \<lambda>_. 1) ?s = Some v"
    by (simp add: eg_call_def rd_def ex_eg_facts upd_cur_def upd_pd_def wr_def)
      (use w in \<open>simp add: u_def ex_PD_def ex_eg_facts\<close>)
  have kv: "kwf v" using kwf_Kernel_Event_Group_Wait_Bits[OF w ku] .
  let ?a = "(\<lambda>_. 0)(0 := 1, 1 := 1) :: nat \<Rightarrow> u16"
  define x where "x = v\<lparr>Current_Process := 20, pds := (pds v)(20 \<mapsto> ex_PD 1 5 RUNNING ?a 0)\<rparr>"
  have kx: "kwf x" unfolding x_def
    by (rule kwf_become[OF kv, where d = "ex_PD 1 5 RUNNING (\<lambda>_. 1) 0"])
      (simp_all add: v_def u_def ex_eg_facts rd_def, simp add: ex_PD_def)
  have cx: "cur_pd x = Some (ex_PD 1 5 RUNNING ?a 0)" "70 \<in> set (egs x)" "event_groups x 70 = Some \<lparr>eg_id = 1, eg_events = 0\<rparr>"
    "procs x = [20, 21, 22]" "nodes x = ex_nodes_k" "pds x 21 = Some (ex_PD 2 7 WAIT_EVENTG (\<lambda>_. 1) 0)"
    by (simp_all add: x_def v_def u_def cur_pd_def rd_def ex_eg_facts)
  have ax: "request_args (ex_PD 1 5 RUNNING ?a 0) 0 = eg_id \<lparr>eg_id = 1, eg_events = 0\<rparr>" "procs x \<noteq> []"
    by (simp_all add: cx(4) ex_PD_def)
  define y where "y = x\<lparr>event_groups := (event_groups x)(70 \<mapsto> \<lparr>eg_id = 1, eg_events = 0\<rparr>
      \<lparr>eg_events := eg_events \<lparr>eg_id = 1, eg_events = 0\<rparr> OR request_args (ex_PD 1 5 RUNNING ?a 0) 1\<rparr>),
    pds := upd_all (wake_PD (\<lparr>eg_id = 1, eg_events = 0\<rparr>
      \<lparr>eg_events := eg_events \<lparr>eg_id = 1, eg_events = 0\<rparr> OR request_args (ex_PD 1 5 RUNNING ?a 0) 1\<rparr>)) (procs x) (pds x)\<rparr>"
  have y: "Kernel_Event_Group_Set_Bits x = Some y" unfolding y_def by (rule set_bits_eval(1)[OF kx cx(1) ax(1) cx(2,3) ax(2)])
  have "eg_call (SetB, 20, ?a) v = Some y"
    by (simp add: eg_call_def rd_def ex_eg_facts upd_cur_def upd_pd_def wr_def v_def u_def)
      (use y in \<open>simp add: x_def v_def u_def ex_PD_def ex_eg_facts\<close>)
  with cv have f: "foldM eg_call [(WaitB, 21, \<lambda>_. 1), (SetB, 20, ?a)] ?s = Some y" by simp
  have e: "event_groups y 70 = Some \<lparr>eg_id = 1, eg_events = 1\<rparr>" "nodes y = ex_nodes_k"
    by (simp_all add: y_def cx(5)) (simp add: ex_PD_def)
  have "\<exists>d. pds y 21 = Some d \<and> request_args d = (\<lambda>_. 1)"
    by (simp add: y_def cx(4,6) upd_all_def wake_PD_def) (simp add: ex_PD_def)
  then obtain d where d: "pds y 21 = Some d" "request_args d = (\<lambda>_. 1)" by blast
  from event_group_no_lost_wakeup[OF ex_eg_state_kwf n f] have "no_lost y" by blast
  with d e have "state d \<noteq> WAIT_EVENTG" by (auto simp: no_lost_def bits_ready_def)
  with f d show ?thesis by auto
qed

theorem set_bits_wakes_exactly_witness:
  "\<exists>s'. Kernel_Event_Group_Set_Bits (ex_eg_state ((\<lambda>_. 0)(0 := 1, 1 := 2)) 1 WAIT_EVENTG ((\<lambda>_. 1)(1 := 3))) = Some s' \<and>
     event_groups s' 70 = Some \<lparr>eg_id = 1, eg_events = 3\<rparr>"
proof -
  let ?s = "ex_eg_state ((\<lambda>_. 0)(0 := 1, 1 := 2)) 1 WAIT_EVENTG ((\<lambda>_. 1)(1 := 3))"
  have "request_args (ex_PD 1 5 RUNNING ((\<lambda>_. 0)(0 := 1, 1 := 2)) 0) 0 = eg_id \<lparr>eg_id = 1, eg_events = 1\<rparr>"
    "70 \<in> set (egs ?s)" "21 \<in> set (procs ?s)" "pds ?s 21 = Some (ex_PD 2 7 WAIT_EVENTG ((\<lambda>_. 1)(1 := 3)) 0)"
    by (simp_all add: ex_eg_facts) (simp add: ex_PD_def)
  from set_bits_wakes_exactly[OF ex_eg_state_kwf ex_eg_facts(4) this(1,2) ex_eg_facts(2) this(3,4)] show ?thesis
    by (auto simp: ex_PD_def)
qed

text \<open>The running task waits for the bits 0 and 1, of which the first is set; once the bits 0 and 1 are cleared the task 2, which
  wants any of bit 0, blocks as well.\<close>

theorem wait_bits_blocks_unless_ready_witness:
  "(\<exists>s'. Kernel_Event_Group_Wait_Bits (ex_eg_state ((\<lambda>_. 1)(1 := 3)) 1 READY (\<lambda>_. 0)) = Some s' \<and>
     map_option state (pds s' 20) = Some WAIT_EVENTG) \<and>
   (\<exists>s' s''. Kernel_Event_Group_Clear_Bits (ex_eg_state ((\<lambda>_. 1)(1 := 3)) 1 READY ((\<lambda>_. 0)(0 := 1, 1 := 1))) = Some s' \<and>
     Kernel_Event_Group_Wait_Bits (s'\<lparr>Current_Process := 21\<rparr>) = Some s'' \<and> map_option state (pds s'' 21) = Some WAIT_EVENTG)"
proof -
  let ?s = "\<lambda>a. ex_eg_state ((\<lambda>_. 1)(1 := 3)) 1 READY a"
  have h: "request_args (ex_PD 1 5 RUNNING ((\<lambda>_. 1)(1 := 3)) 0) 0 = eg_id \<lparr>eg_id = 1, eg_events = 1\<rparr>" "70 \<in> set (egs (?s a))" for a
    by (simp_all add: ex_eg_facts) (simp add: ex_PD_def)
  note T = wait_bits_blocks_unless_ready[OF ex_eg_state_kwf ex_eg_facts(4) h ex_eg_facts(2)]
  have 1: "\<exists>s'. Kernel_Event_Group_Wait_Bits (?s (\<lambda>_. 0)) = Some s' \<and> map_option state (pds s' 20) = Some WAIT_EVENTG"
    using T by (simp add: ex_PD_def ex_eg_facts)
  let ?a = "(\<lambda>_. 0)(0 := 1, 1 := 1 :: u16)"
  have "rd (pds (?s ?a)) 21 = Some (ex_PD 2 7 READY ?a 0)" by (simp add: ex_eg_facts rd_def)
  moreover have "request_args (ex_PD 2 7 READY ?a 0) 0 = 1" "request_args (ex_PD 2 7 READY ?a 0) 1 = 1"
    "request_args (ex_PD 1 5 RUNNING ((\<lambda>_. 1)(1 := 3)) 0) 1 = 3" by (simp_all add: ex_PD_def)
  moreover have "(1 :: u16) AND NOT 3 = 0" by simp
  ultimately have 2: "\<exists>s' s''. Kernel_Event_Group_Clear_Bits (?s ?a) = Some s' \<and>
     Kernel_Event_Group_Wait_Bits (s'\<lparr>Current_Process := 21\<rparr>) = Some s'' \<and> map_option state (pds s'' 21) = Some WAIT_EVENTG"
    using T[of ?a] by fastforce
  from 1 2 show ?thesis by blast
qed

end
