(* ===== verification/Mailbox.thy ===== *)
theory Mailbox
  imports Examples
begin

text \<open>
  The mailbox module, \<open>mailbox/mailbox.c\<close>: bounded queues of messages, with a queue of tasks
  waiting for room and one of tasks waiting for mail. Messages are byte blocks, named by the
  address of their block; a \<open>MAIL\<close> is a descriptor of a message, in the kernel's queue or in
  the receiver's memory.
\<close>

section \<open>Operations\<close>

definition upd_mb :: "addr \<Rightarrow> (MAILBOX_TYPE \<Rightarrow> MAILBOX_TYPE) \<Rightarrow> kstate \<Rightarrow> kstate option" where
  "upd_mb p f s = do { h \<leftarrow> wr (mailboxes s) p f; Some (s\<lparr>mailboxes := h\<rparr>) }"

definition upd_mail :: "addr \<Rightarrow> (MAIL \<Rightarrow> MAIL) \<Rightarrow> kstate \<Rightarrow> kstate option" where
  "upd_mail p f s = do { h \<leftarrow> wr (mail_objs s) p f; Some (s\<lparr>mail_objs := h\<rparr>) }"

definition Mailbox_Reset :: "kstate \<Rightarrow> kstate" where
  "Mailbox_Reset s = s\<lparr>Mailbox_Count := 0, Last_MailboxID := 0,
     nodes := (nodes s)(MailboxList \<mapsto> \<lparr>pl_ptr = NULL, pl_next = NULL\<rparr>)\<rparr>"

definition findMailboxByID :: "u16 \<Rightarrow> kstate \<Rightarrow> (addr \<times> kstate) option" where
  "findMailboxByID i s =
     (if i = 0 then Some (NULL, kernel_raise_error INVALID_ARG_ERR s)
      else do {
        p \<leftarrow> find_obj (nodes s) (mailboxes s) (\<lambda>x. mb_id x = i) MailboxList;
        Some (p, if p = NULL then kernel_raise_error OBJECT_NOT_FOUND_ERR s else s)
      })"

text \<open>Every field of a new mailbox is written.\<close>

definition Kernel_Create_Mailbox_Direct :: "u16 \<Rightarrow> kstate \<Rightarrow> (u16 \<times> kstate) option" where
  "Kernel_Create_Mailbox_Direct cap s =
     (if MAXMAILBOX \<le> unat (Mailbox_Count s) then Some (0, kernel_raise_error MAX_OBJECT_ERR s)
      else do {
        let (p, s) = malloc_k s;
        s \<leftarrow> add_to_list MailboxList p (s\<lparr>mailboxes := put_obj (mailboxes s) p
               \<lparr>mb_id = 0, capacity = 0, mails = new_ptr_queue, send_queue = new_ptr_queue,
                recv_queue = new_ptr_queue\<rparr>\<rparr>);
        let s = s\<lparr>Mailbox_Count := Mailbox_Count s + 1, Last_MailboxID := Last_MailboxID s + 1\<rparr>;
        s \<leftarrow> upd_mb p (\<lambda>b. b\<lparr>mb_id := Last_MailboxID s, capacity := cap, mails := new_ptr_queue,
               send_queue := new_ptr_queue, recv_queue := new_ptr_queue\<rparr>) s;
        b \<leftarrow> rd (mailboxes s) p;
        Some (mb_id b, s)
      })"

definition Kernel_Create_Mailbox :: "kstate \<Rightarrow> kstate option" where
  "Kernel_Create_Mailbox s = do {
     c \<leftarrow> req_arg 0 s;
     (r, s) \<leftarrow> Kernel_Create_Mailbox_Direct c s;
     upd_cur (\<lambda>d. d\<lparr>request_retval := r\<rparr>) s
   }"

definition Kernel_Destroy_Mailbox :: "kstate \<Rightarrow> kstate option" where
  "Kernel_Destroy_Mailbox s = do {
     a \<leftarrow> req_arg 0 s;
     (i, p) \<leftarrow> find_node (nodes s) (mailboxes s) (\<lambda>x. mb_id x = a) MailboxList NULL;
     if p = NULL then Some (kernel_raise_error OBJECT_NOT_FOUND_ERR s)
     else do {
       b \<leftarrow> rd (mailboxes s) p;
       (h, q1) \<leftarrow> free_queue (qelems s) (mails b);
       (h, q2) \<leftarrow> free_queue h (send_queue b);
       (h, q3) \<leftarrow> free_queue h (recv_queue b);
       (h, q4) \<leftarrow> free_queue h q1;
       s \<leftarrow> upd_mb p (\<lambda>b. b\<lparr>mails := q4, send_queue := q2, recv_queue := q3\<rparr>) (s\<lparr>qelems := h\<rparr>);
       h \<leftarrow> free (mailboxes s) p;
       s \<leftarrow> remove_from_list MailboxList i (s\<lparr>mailboxes := h\<rparr>);
       Some (s\<lparr>Mailbox_Count := Mailbox_Count s - 1\<rparr>)
     }
   }"

text \<open>The null test raises the error but does not return: the null pointer is dereferenced.\<close>

definition Kernel_Mailbox_Destroy_Mail :: "kstate \<Rightarrow> kstate option" where
  "Kernel_Mailbox_Destroy_Mail s = do {
     m \<leftarrow> req_arg 0 s;
     s \<leftarrow> (if m = NULL
           then upd_cur (\<lambda>d. d\<lparr>request_retval := 0\<rparr>) (kernel_raise_error OBJECT_NOT_FOUND_ERR s)
           else Some s);
     x \<leftarrow> rd (mail_objs s) m;
     b \<leftarrow> free (bytes s) (mail_ptr x);
     s \<leftarrow> upd_mail m (\<lambda>x. x\<lparr>mail_ptr := NULL, mail_size := 0, mail_source := 0\<rparr>) (s\<lparr>bytes := b\<rparr>);
     upd_cur (\<lambda>d. d\<lparr>request_retval := 1\<rparr>) s
   }"

section \<open>Sending and receiving\<close>

text \<open>
  The steps of the four internal functions: the calling task, resp. the sender, is put into the
  wait queue; a message is copied into the mailbox (\<open>False\<close> when there is no memory for its
  text); the oldest message is moved to the receiver; the head of a wait queue is taken.
\<close>

definition block_sender :: "addr \<Rightarrow> addr \<Rightarrow> kstate \<Rightarrow> kstate option" where
  "block_sender sender mb s = do {
     b \<leftarrow> rd (mailboxes s) mb;
     (r, al, h, q) \<leftarrow> enqueue_ptr (alloc s) (qelems s) (send_queue b) sender;
     s \<leftarrow> upd_mb mb (\<lambda>b. b\<lparr>send_queue := q\<rparr>) (s\<lparr>alloc := al, qelems := h\<rparr>);
     s \<leftarrow> upd_pd sender (\<lambda>d. d\<lparr>state := WAIT_MAILBOX\<rparr>) s;
     Some (s\<lparr>Kernel_Request_Cswitch := 1\<rparr>)
   }"

definition put_mail :: "addr \<Rightarrow> addr \<Rightarrow> addr \<Rightarrow> u16 \<Rightarrow> kstate \<Rightarrow> (bool \<times> kstate) option" where
  "put_mail sender mb msg_ptr msg_size s = do {
     let (m, s) = malloc_k s;
     d \<leftarrow> rd (pds s) sender;
     let s = s\<lparr>mail_objs := put_obj (mail_objs s) m \<lparr>mail_ptr = NULL, mail_size = 0, mail_source = 0\<rparr>\<rparr>;
     s \<leftarrow> upd_mail m (\<lambda>x. x\<lparr>mail_source := pid d, mail_size := msg_size\<rparr>) s;
     let (t, s) = malloc_k s;
     s \<leftarrow> upd_mail m (\<lambda>x. x\<lparr>mail_ptr := t\<rparr>) s;
     if t = NULL then Some (False, kernel_raise_error MALLOC_FAILED_ERR s)
     else do {
       src \<leftarrow> rd (bytes s) msg_ptr;
       s \<leftarrow> (if unat msg_size \<le> length src
             then Some (s\<lparr>bytes := (bytes s)(t \<mapsto> take (unat msg_size) src)\<rparr>) else None);
       b \<leftarrow> rd (mailboxes s) mb;
       (r, al, h, q) \<leftarrow> enqueue_ptr (alloc s) (qelems s) (mails b) m;
       s \<leftarrow> upd_mb mb (\<lambda>b. b\<lparr>mails := q\<rparr>) (s\<lparr>alloc := al, qelems := h\<rparr>);
       Some (True, s)
     }
   }"

definition block_receiver :: "addr \<Rightarrow> kstate \<Rightarrow> kstate option" where
  "block_receiver mb s = do {
     b \<leftarrow> rd (mailboxes s) mb;
     (r, al, h, q) \<leftarrow> enqueue_ptr (alloc s) (qelems s) (recv_queue b) (Current_Process s);
     s \<leftarrow> upd_mb mb (\<lambda>b. b\<lparr>recv_queue := q\<rparr>) (s\<lparr>alloc := al, qelems := h\<rparr>);
     s \<leftarrow> upd_cur (\<lambda>d. d\<lparr>state := WAIT_MAILBOX\<rparr>) s;
     Some (s\<lparr>Kernel_Request_Cswitch := 1\<rparr>)
   }"

definition take_mail :: "addr \<Rightarrow> addr \<Rightarrow> kstate \<Rightarrow> kstate option" where
  "take_mail mb dest s = do {
     b \<leftarrow> rd (mailboxes s) mb;
     (m, h, q) \<leftarrow> dequeue_ptr (qelems s) (mails b);
     s \<leftarrow> upd_mb mb (\<lambda>b. b\<lparr>mails := q\<rparr>) (s\<lparr>qelems := h\<rparr>);
     x \<leftarrow> rd (mail_objs s) m;
     s \<leftarrow> upd_mail dest (\<lambda>y. y\<lparr>mail_ptr := mail_ptr x, mail_size := mail_size x,
            mail_source := mail_source x\<rparr>) s;
     h \<leftarrow> free (mail_objs s) m;
     Some (s\<lparr>mail_objs := h\<rparr>)
   }"

definition next_sender :: "addr \<Rightarrow> kstate \<Rightarrow> (addr \<times> kstate) option" where
  "next_sender mb s = do {
     b \<leftarrow> rd (mailboxes s) mb;
     (p, h, q) \<leftarrow> dequeue_ptr (qelems s) (send_queue b);
     s \<leftarrow> upd_mb mb (\<lambda>b. b\<lparr>send_queue := q\<rparr>) (s\<lparr>qelems := h\<rparr>);
     Some (p, s)
   }"

definition next_receiver :: "addr \<Rightarrow> kstate \<Rightarrow> (addr \<times> kstate) option" where
  "next_receiver mb s = do {
     b \<leftarrow> rd (mailboxes s) mb;
     (p, h, q) \<leftarrow> dequeue_ptr (qelems s) (recv_queue b);
     s \<leftarrow> upd_mb mb (\<lambda>b. b\<lparr>recv_queue := q\<rparr>) (s\<lparr>qelems := h\<rparr>);
     Some (p, s)
   }"

text \<open>
  Sending wakes waiting receivers, receiving wakes waiting senders: the four internal functions
  call each other. They are one recursive function \<open>mailbox_call\<close> of the call to make. The
  \<open>int\<close> result is that of the two functions that have one (and 0 for the other two).
\<close>

datatype mb_call =
  Send_Internal addr addr addr u16 u16
| Recv_From_Queue addr
| Recv_Internal addr addr addr u16
| Send_From_Queue addr

partial_function (option) mailbox_call :: "mb_call \<Rightarrow> kstate \<Rightarrow> (int \<times> kstate) option" where
  "mailbox_call c s = (case c of
     Send_Internal sender mb msg_ptr msg_size blocking \<Rightarrow> do {
       b \<leftarrow> rd (mailboxes s) mb;
       if capacity b \<le> q_count (mails b)
       then if blocking = 0 then Some (0, s)
         else do { s \<leftarrow> block_sender sender mb s; Some (- 1, s) }
       else do {
         (ok, s) \<leftarrow> put_mail sender mb msg_ptr msg_size s;
         if \<not> ok then Some (0, s)
         else do {
           b \<leftarrow> rd (mailboxes s) mb;
           (r, s) \<leftarrow> (if 0 < q_count (recv_queue b) then mailbox_call (Recv_From_Queue mb) s else Some (0, s));
           Some (1, s)
         }
       }
     }
   | Recv_From_Queue mb \<Rightarrow> do {
       b \<leftarrow> rd (mailboxes s) mb;
       if 0 < q_count (recv_queue b) \<and> 0 < q_count (mails b)
       then do {
         (p, s) \<leftarrow> next_receiver mb s;
         d \<leftarrow> rd (pds s) p;
         if state d \<noteq> WAIT_MAILBOX then Some (0, kernel_raise_error UNPROCESSABLE_TASK_STATE_ERR s)
         else do {
           (r, s) \<leftarrow> mailbox_call (Recv_Internal p mb (request_args d 1) 0) s;
           s \<leftarrow> upd_pd p (\<lambda>d. d\<lparr>state := READY\<rparr>) s;
           mailbox_call (Recv_From_Queue mb) s
         }
       }
       else Some (0, s)
     }
   | Recv_Internal receiver mb dest blocking \<Rightarrow> do {
       b \<leftarrow> rd (mailboxes s) mb;
       if q_count (mails b) = 0
       then if blocking = 0 then do {
           s \<leftarrow> upd_mail dest (\<lambda>x. x\<lparr>mail_ptr := NULL, mail_size := 0, mail_source := 0\<rparr>) s;
           Some (0, s)
         }
         else do { s \<leftarrow> block_receiver mb s; Some (- 1, s) }
       else do {
         s \<leftarrow> take_mail mb dest s;
         b \<leftarrow> rd (mailboxes s) mb;
         (r, s) \<leftarrow> (if 0 < q_count (send_queue b) then mailbox_call (Send_From_Queue mb) s else Some (0, s));
         Some (1, s)
       }
     }
   | Send_From_Queue mb \<Rightarrow> do {
       b \<leftarrow> rd (mailboxes s) mb;
       if 0 < q_count (send_queue b) \<and> q_count (mails b) < capacity b
       then do {
         (p, s) \<leftarrow> next_sender mb s;
         d \<leftarrow> rd (pds s) p;
         if state d \<noteq> WAIT_MAILBOX then Some (0, kernel_raise_error UNPROCESSABLE_TASK_STATE_ERR s)
         else do {
           (r, s) \<leftarrow> mailbox_call (Send_Internal p mb (request_args d 1) (request_args d 2) 0) s;
           s \<leftarrow> upd_pd p (\<lambda>d. d\<lparr>state := READY\<rparr>) s;
           mailbox_call (Send_From_Queue mb) s
         }
       }
       else Some (0, s)
     })"

definition Kernel_Mailbox_Send :: "kstate \<Rightarrow> kstate option" where
  "Kernel_Mailbox_Send s = do {
     a \<leftarrow> req_arg 0 s;
     (mb, s) \<leftarrow> findMailboxByID a s;
     if mb = NULL
     then upd_cur (\<lambda>d. d\<lparr>request_retval := 0\<rparr>) (kernel_raise_error OBJECT_NOT_FOUND_ERR s)
     else do {
       msg_ptr \<leftarrow> req_arg 1 s;
       msg_size \<leftarrow> req_arg 2 s;
       blocking \<leftarrow> req_arg 3 s;
       (r, s) \<leftarrow> mailbox_call (Send_Internal (Current_Process s) mb msg_ptr msg_size blocking) s;
       if 0 \<le> r then upd_cur (\<lambda>d. d\<lparr>request_retval := word_of_int r\<rparr>) s else Some s
     }
   }"

definition Kernel_Mailbox_Recv :: "kstate \<Rightarrow> kstate option" where
  "Kernel_Mailbox_Recv s = do {
     a \<leftarrow> req_arg 0 s;
     (mb, s) \<leftarrow> findMailboxByID a s;
     if mb = NULL
     then upd_cur (\<lambda>d. d\<lparr>request_retval := 0\<rparr>) (kernel_raise_error OBJECT_NOT_FOUND_ERR s)
     else do {
       dest \<leftarrow> req_arg 1 s;
       blocking \<leftarrow> req_arg 2 s;
       (r, s) \<leftarrow> mailbox_call (Recv_Internal (Current_Process s) mb dest blocking) s;
       if 0 \<le> r then upd_cur (\<lambda>d. d\<lparr>request_retval := word_of_int r\<rparr>) s else Some s
     }
   }"

definition Kernel_Mailbox_Check :: "kstate \<Rightarrow> kstate option" where
  "Kernel_Mailbox_Check s = do {
     a \<leftarrow> req_arg 0 s;
     (mb, s) \<leftarrow> findMailboxByID a s;
     if mb = NULL
     then upd_cur (\<lambda>d. d\<lparr>request_retval := 0\<rparr>) (kernel_raise_error OBJECT_NOT_FOUND_ERR s)
     else do {
       b \<leftarrow> rd (mailboxes s) mb;
       upd_cur (\<lambda>d. d\<lparr>request_retval := q_count (mails b)\<rparr>) s
     }
   }"

section \<open>The table of mailboxes\<close>

abbreviation mbs :: "kstate \<Rightarrow> addr list" where
  "mbs s \<equiv> contents (nodes s) MailboxList"

definition mb_ids :: "kstate \<Rightarrow> u16 list" where
  "mb_ids s = map (\<lambda>p. mb_id (the (mailboxes s p))) (mbs s)"

lemma upd_mb_iff: "upd_mb p f s = Some s' \<longleftrightarrow>
    (\<exists>m. rd (mailboxes s) p = Some m \<and> s' = s\<lparr>mailboxes := (mailboxes s)(p \<mapsto> f m)\<rparr>)"
  by (cases "rd (mailboxes s) p") (auto simp: upd_mb_def wr_def)

lemma upd_mail_iff: "upd_mail p f s = Some s' \<longleftrightarrow>
    (\<exists>m. rd (mail_objs s) p = Some m \<and> s' = s\<lparr>mail_objs := (mail_objs s)(p \<mapsto> f m)\<rparr>)"
  by (cases "rd (mail_objs s) p") (auto simp: upd_mail_def wr_def)

text \<open>The mailbox a creation makes.\<close>

definition new_mailbox :: "u16 \<Rightarrow> u16 \<Rightarrow> MAILBOX_TYPE" where
  "new_mailbox i c = \<lparr>mb_id = i, capacity = c, mails = new_ptr_queue, send_queue = new_ptr_queue, recv_queue = new_ptr_queue\<rparr>"

definition with_mailbox :: "addr \<Rightarrow> MAILBOX_TYPE \<Rightarrow> allocator \<Rightarrow> PtrList heap \<Rightarrow> kstate \<Rightarrow> kstate" where
  "with_mailbox p m al h s = s\<lparr>alloc := al, nodes := h, mailboxes := (mailboxes s)(p \<mapsto> m),
     Mailbox_Count := Mailbox_Count s + 1, Last_MailboxID := Last_MailboxID s + 1\<rparr>"

lemma create_mailbox_full:
  "kwf s \<Longrightarrow> length (mbs s) = MAXMAILBOX \<Longrightarrow>
   Kernel_Create_Mailbox_Direct c s = Some (0, s\<lparr>err := MAX_OBJECT_ERR\<rparr>)"
  using table_wf_count[OF kwf_tables(6)[of s]] by (simp add: Kernel_Create_Mailbox_Direct_def)

lemma create_mailbox_new:
  assumes kwf: "kwf s" and room: "length (mbs s) < MAXMAILBOX"
    and cr: "Kernel_Create_Mailbox_Direct c s = Some (i, s')"
  obtains p al h where "i = Last_MailboxID s + 1" and "link_new MailboxList p s al h"
    and "s' = with_mailbox p (new_mailbox i c) al h s"
proof -
  let ?junk = "\<lparr>mb_id = 0, capacity = 0, mails = new_ptr_queue, send_queue = new_ptr_queue, recv_queue = new_ptr_queue\<rparr>"
  have "\<not> MAXMAILBOX \<le> unat (Mailbox_Count s)"
    using room table_wf_count[OF kwf_tables(6)[OF kwf]] by simp
  moreover obtain p s1 where m: "malloc_k s = (p, s1)" by fastforce
  moreover obtain al1 where s1: "s1 = s\<lparr>alloc := al1\<rparr>" using m by (auto simp: malloc_k_iff)
  moreover have p: "p \<noteq> NULL"
    using cr calculation
    by (auto simp: Kernel_Create_Mailbox_Direct_def put_obj_def upd_mb_iff elim!: bind_SomeE)
  moreover from calculation cr obtain s3 where
    s3: "add_to_list MailboxList p (s1\<lparr>mailboxes := (mailboxes s)(p \<mapsto> ?junk)\<rparr>) = Some s3"
    by (auto simp: Kernel_Create_Mailbox_Direct_def put_obj_def elim!: bind_SomeE)
  moreover from malloc_add[OF kwf_parts(1)[OF kwf] _ m p s3] s1
  obtain al h where h: "s3 = s1\<lparr>mailboxes := (mailboxes s)(p \<mapsto> ?junk), alloc := al, nodes := h\<rparr>" "link_new MailboxList p s al h"
    by auto
  ultimately show ?thesis
    using cr
    by (intro that[of p al h])
      (auto simp: Kernel_Create_Mailbox_Direct_def put_obj_def upd_mb_def wr_def rd_def
        new_mailbox_def with_mailbox_def split: if_splits)
qed

lemma kwf_with_mailbox:
  assumes kwf: "kwf s" and room: "length (mbs s) < MAXMAILBOX" and lst: "Last_MailboxID s \<noteq> - 1"
    and lnk: "link_new MailboxList p s al h"
  shows "kwf (with_mailbox p (new_mailbox (Last_MailboxID s + 1) c) al h s)"
    and "mb_ids (with_mailbox p (new_mailbox (Last_MailboxID s + 1) c) al h s) = mb_ids s @ [Last_MailboxID s + 1]"
proof -
  let ?m = "new_mailbox (Last_MailboxID s + 1) c"
  note M = link_new_mem[OF lnk kwf_parts(1)[OF kwf]] and C = link_new_contents[OF lnk]
  have new: "mailboxes s p = None"
    using kwf by (intro link_new_fresh[OF lnk]) (simp add: kwf_defs)
  then have p: "p \<notin> set (mbs s)" using table_wf_obj[OF kwf_tables(6)[OF kwf], of p] by auto
  have t: "table_wf (mbs s @ [p]) ((mailboxes s)(p \<mapsto> ?m)) mb_id (Mailbox_Count s + 1)
      (Last_MailboxID s + 1) MAXMAILBOX"
    by (rule table_wf_add[OF kwf_tables(6)[OF kwf] p room _ lst]) (simp_all add: new_mailbox_def)
  have "queues_inv (qelems s) ((queues_of s)(MbMails p \<mapsto> new_ptr_queue, MbSend p \<mapsto> new_ptr_queue, MbRecv p \<mapsto> new_ptr_queue))
      (key_target (pds s) (mail_objs s))"
    by (intro queues_inv_new[OF queues_inv_new[OF queues_inv_new[OF kwf_parts(3)[OF kwf]]]])
      (simp_all add: new new_ptr_queue_def queue_rep_def)
  then show "kwf (with_mailbox p ?m al h s)"
    using kwf_tables[OF kwf] kwf_parts(4)[OF kwf] M t
    by (simp add: kwf_defs with_mailbox_def C queues_in_mb) (simp add: new_mailbox_def)
  have "map (\<lambda>q. mb_id (the (((mailboxes s)(p \<mapsto> ?m)) q))) (mbs s) = mb_ids s"
    using p by (auto simp: mb_ids_def)
  then show "mb_ids (with_mailbox p ?m al h s) = mb_ids s @ [Last_MailboxID s + 1]"
    by (simp add: mb_ids_def with_mailbox_def C) (simp add: new_mailbox_def)
qed

lemma create_mailbox_kwf:
  assumes kwf: "kwf s" and lst: "Last_MailboxID s \<noteq> - 1" and cr: "Kernel_Create_Mailbox_Direct c s = Some (i, s')"
  shows "kwf s' \<and> (if length (mbs s) = MAXMAILBOX then i = 0 \<and> mb_ids s' = mb_ids s \<and> Last_MailboxID s' = Last_MailboxID s
    else i = Last_MailboxID s + 1 \<and> Last_MailboxID s' = i \<and> mb_ids s' = mb_ids s @ [i])"
proof (cases "length (mbs s) = MAXMAILBOX")
  case True
  with create_mailbox_full[OF kwf True, of c] cr kwf show ?thesis by (auto simp: mb_ids_def)
next
  case False
  then have room: "length (mbs s) < MAXMAILBOX" using table_wf_count[OF kwf_tables(6)[OF kwf]] by simp
  obtain p al h where n: "i = Last_MailboxID s + 1" "link_new MailboxList p s al h" "s' = with_mailbox p (new_mailbox i c) al h s"
    by (rule create_mailbox_new[OF kwf room cr])
  with False kwf_with_mailbox[OF kwf room lst n(2), of c] show ?thesis by (simp add: with_mailbox_def)
qed

interpretation mbx: kernel_objects kwf mb_ids Last_MailboxID MAXMAILBOX "\<lambda>i. i \<noteq> 0"
  "\<lambda>i s. map_option fst (findMailboxByID i s)" "Kernel_Create_Mailbox_Direct c" for c
proof
  fix s i s'
  assume kwf: "kwf s"
  note t = kwf_tables(6)[OF kwf] and L = kwf_lists[OF kwf]
  show "0 < i \<and> i \<le> Last_MailboxID s" if "i \<in> set (mb_ids s)"
    using ids_bounds[OF t] that by (simp add: mb_ids_def)
  show "sorted_wrt (<) (mb_ids s)" using table_wf_sorted[OF t] by (simp add: mb_ids_def)
  show "length (mb_ids s) \<le> MAXMAILBOX" using table_wf_count[OF t] by (simp add: mb_ids_def)
  show "\<exists>s'. Kernel_Create_Mailbox_Direct c s = Some (0, s') \<and> kwf s' \<and> mb_ids s' = mb_ids s \<and>
      Last_MailboxID s' = Last_MailboxID s" if "length (mb_ids s) = MAXMAILBOX"
    using create_mailbox_full[OF kwf, of c] that kwf by (simp add: mb_ids_def)
  show "kwf s' \<and> i = Last_MailboxID s + 1 \<and> Last_MailboxID s' = i \<and> mb_ids s' = mb_ids s @ [i]"
    if "Last_MailboxID s \<noteq> - 1" "Kernel_Create_Mailbox_Direct c s = Some (i, s')" "i \<noteq> 0"
    using create_mailbox_kwf[OF kwf that(1,2)] that(3) by (auto split: if_splits)
  show "\<exists>p. map_option fst (findMailboxByID i s) = Some p \<and> (p \<noteq> NULL \<longleftrightarrow> i \<in> set (mb_ids s))"
    if "mb_ids s \<noteq> []" "i \<noteq> 0"
    using find_obj_ids[OF L _ t, of i] that by (auto simp: findMailboxByID_def mb_ids_def)
  show "map_option fst (findMailboxByID i s) = None" if "mb_ids s = []" "i \<noteq> 0"
    using find_obj_table(1)[OF L _ t] that by (simp add: findMailboxByID_def mb_ids_def)
qed

lemma kwf_Kernel_Create_Mailbox:
  assumes "Kernel_Create_Mailbox s = Some s'" "kwf s" "Last_MailboxID s \<noteq> - 1"
  shows "kwf s'"
  using assms(1) unfolding Kernel_Create_Mailbox_def
proof (elim bind_SomeEs)
  fix c r s1
  assume "Kernel_Create_Mailbox_Direct c s = Some (r, s1)" and u: "upd_cur (\<lambda>d. d\<lparr>request_retval := r\<rparr>) s1 = Some s'"
  with create_mailbox_kwf[OF assms(2,3)] have "kwf s1" by blast
  then show "kwf s'" by (rule kwf_upd_cur[OF u]) simp
qed

lemma find_mailbox:
  assumes "kwf s" "p \<in> set (mbs s)" "mailboxes s p = Some b"
  shows "findMailboxByID (mb_id b) s = Some (p, s)"
proof -
  have "0 < mb_id b" using table_wf_key[OF kwf_tables(6)[OF assms(1)] assms(2)] assms(3) by simp
  moreover have "p \<noteq> NULL" using assms(2) contents_not_NULL by blast
  ultimately show ?thesis
    using find_obj_iff[OF kwf_lists[OF assms(1)] _ kwf_tables(6)[OF assms(1)] assms(2)] assms(3)
    by (simp add: findMailboxByID_def)
qed

lemma findMailbox_found:
  assumes "findMailboxByID i s = Some (p, s')" "kwf s"
  shows "kwf s'" and "p \<noteq> NULL \<Longrightarrow> s' = s \<and> p \<in> set (mbs s)"
proof -
  have "i = 0 \<and> p = NULL \<and> s' = s\<lparr>err := INVALID_ARG_ERR\<rparr> \<or>
    find_obj (nodes s) (mailboxes s) (\<lambda>x. mb_id x = i) MailboxList = Some p \<and> s' = (if p = NULL then s\<lparr>err := OBJECT_NOT_FOUND_ERR\<rparr> else s)"
    using assms(1) by (auto simp: findMailboxByID_def elim!: bind_SomeE split: if_splits)
  moreover have "p \<in> set (mbs s)" if "find_obj (nodes s) (mailboxes s) (\<lambda>x. mb_id x = i) MailboxList = Some p" "p \<noteq> NULL"
    by (rule find_obj_found[OF kwf_lists[OF assms(2)] _ kwf_tables(6)[OF assms(2)] that]) simp_all
  ultimately have "kwf s' \<and> (p \<noteq> NULL \<longrightarrow> s' = s \<and> p \<in> set (mbs s))" using assms(2) by auto
  then show "kwf s'" and "p \<noteq> NULL \<Longrightarrow> s' = s \<and> p \<in> set (mbs s)" by blast+
qed

section \<open>Well-formedness of the queues\<close>

lemma kwf_mb:
  assumes kwf: "kwf s" and m: "mailboxes s p = Some m"
    and q: "queues_inv h ((queues_of s)(MbMails p \<mapsto> mails m', MbSend p \<mapsto> send_queue m', MbRecv p \<mapsto> recv_queue m'))
      (key_target (pds s) (mail_objs s))"
    and al: "fresh_above al h" "brk (alloc s) \<le> brk al" and id: "mb_id m' = mb_id m"
  shows "kwf (s\<lparr>alloc := al, qelems := h, mailboxes := (mailboxes s)(p \<mapsto> m')\<rparr>)"
proof -
  have t: "table_wf (mbs s) ((mailboxes s)(p \<mapsto> m')) mb_id (Mailbox_Count s) (Last_MailboxID s) MAXMAILBOX"
    by (rule table_wf_upd[OF kwf_tables(6)[OF kwf]]) (simp add: m id)
  have "fresh_above (alloc s) ((mailboxes s)(p \<mapsto> m'))"
    by (rule fresh_above_upd[where w = m]) (use kwf m in \<open>simp_all add: kwf_defs\<close>)
  then have f: "fresh_above al ((mailboxes s)(p \<mapsto> m'))" by (rule fresh_above_mono[OF _ al(2)])
  show ?thesis
    using kwf t q f al by (auto simp: kwf_defs queues_in_mb intro: fresh_above_mono)
qed

text \<open>The family of queues when one queue of a mailbox changes.\<close>

lemma mb_family:
  assumes "F (MbMails p) = Some (mails m)" "F (MbSend p) = Some (send_queue m)" "F (MbRecv p) = Some (recv_queue m)"
  shows "F(MbMails p \<mapsto> q, MbSend p \<mapsto> send_queue m, MbRecv p \<mapsto> recv_queue m) = F(MbMails p \<mapsto> q)"
    and "F(MbMails p \<mapsto> mails m, MbSend p \<mapsto> q, MbRecv p \<mapsto> recv_queue m) = F(MbSend p \<mapsto> q)"
    and "F(MbMails p \<mapsto> mails m, MbSend p \<mapsto> send_queue m, MbRecv p \<mapsto> q) = F(MbRecv p \<mapsto> q)"
  by (rule ext; use assms in simp)+


lemma mb_keys:
  assumes "mailboxes s p = Some b"
  shows "queues_of s (MbMails p) = Some (mails b)" "queues_of s (MbSend p) = Some (send_queue b)" "queues_of s (MbRecv p) = Some (recv_queue b)"
  using assms by simp_all

text \<open>Enqueueing in, and dequeueing from, the three queues of a mailbox.\<close>

lemma mb_enqueue:
  assumes kwf: "kwf s" and F: "queues_of s k = Some q" and k: "key_is_ptr k"
    and en: "enqueue_ptr (alloc s) (qelems s) q v = Some (r, al, h, q')"
    and T: "key_target (pds s) (mail_objs s) k v" and N: "\<not> is_mails k \<or> v \<notin> all_mails (qelems s) (queues_of s)"
  shows "queues_inv h ((queues_of s)(k \<mapsto> q')) (key_target (pds s) (mail_objs s))" and "fresh_above al h" and "brk (alloc s) \<le> brk al"
    and "qitems h q' = qitems (qelems s) q @ [v]" and "r = 1"
    and "\<And>k' p. k' \<noteq> k \<Longrightarrow> queues_of s k' = Some p \<Longrightarrow> qitems h p = qitems (qelems s) p"
proof -
  have "is_ptr_queue q" using queues_inv_at(2)[OF kwf_parts(3)[OF kwf] F] k by simp
  then have en': "enqueue_new (alloc s) (qelems s) q v = Some (r, al, h, q')" using en by (simp add: enqueue_ptr_def)
  have fr: "fresh_above (alloc s) (qelems s)" using kwf by (simp add: kwf_defs)
  note E = queues_inv_enqueue[OF kwf_parts(3)[OF kwf] F fr en' T N]
  show "queues_inv h ((queues_of s)(k \<mapsto> q')) (key_target (pds s) (mail_objs s))" "fresh_above al h" "brk (alloc s) \<le> brk al"
    "qitems h q' = qitems (qelems s) q @ [v]" "r = 1"
    by (rule E)+
  show "qitems h p = qitems (qelems s) p" if "k' \<noteq> k" "queues_of s k' = Some p" for k' p by (rule E(6)[OF that])
qed

lemma mb_dequeue:
  assumes kwf: "kwf s" and F: "queues_of s k = Some q" and k: "key_is_ptr k"
    and dq: "dequeue_ptr (qelems s) q = Some (v, h, q')" and ne: "0 < q_count q"
  obtains vs where "qitems (qelems s) q = v # vs" and "qitems h q' = vs"
    and "queues_inv h ((queues_of s)(k \<mapsto> q')) (key_target (pds s) (mail_objs s))" and "\<And>al. fresh_above al (qelems s) \<Longrightarrow> fresh_above al h"
    and "\<And>k' p. k' \<noteq> k \<Longrightarrow> queues_of s k' = Some p \<Longrightarrow> qitems h p = qitems (qelems s) p"
proof -
  note at = queues_inv_at[OF kwf_parts(3)[OF kwf] F]
  have di: "dequeue_int (qelems s) q = Some (v, h, q')" using dq by (simp add: dequeue_ptr_int)
  have "qitems (qelems s) q \<noteq> []" using queue_rep_empty_iff(3)[OF at(1)] ne by (simp add: qitems_def)
  then obtain w vs where w: "qitems (qelems s) q = w # vs" by (cases "qitems (qelems s) q") auto
  show ?thesis
    by (rule queues_inv_dequeue[OF kwf_parts(3)[OF kwf] F w]) (rule that[OF _ _ _ _], use di w in simp_all)
qed

lemma kwf_send_enqueue:
  assumes u: "upd_mb p (\<lambda>b. b\<lparr>send_queue := q\<rparr>) (s\<lparr>alloc := al, qelems := h\<rparr>) = Some s'"
    and en: "enqueue_ptr (alloc s) (qelems s) (send_queue b) v = Some (r, al, h, q)" and b: "rd (mailboxes s) p = Some b"
    and kwf: "kwf s" and v: "v \<noteq> NULL" "v \<in> dom (pds s)"
  shows "kwf s'" and "qitems h q = qitems (qelems s) (send_queue b) @ [v]"
    and "\<And>k' p'. k' \<noteq> MbSend p \<Longrightarrow> queues_of s k' = Some p' \<Longrightarrow> qitems h p' = qitems (qelems s) p'"
proof -
  have b': "mailboxes s p = Some b" using b by (simp add: rd_Some_iff)
  note K = mb_keys[OF b']
  have T: "key_target (pds s) (mail_objs s) (MbSend p) v" "key_is_ptr (MbSend p)" using v by simp_all
  note E = mb_enqueue[OF kwf K(2) T(2) en T(1) disjI1[OF not_mails(4)]]
  have "kwf (s\<lparr>alloc := al, qelems := h, mailboxes := (mailboxes s)(p \<mapsto> b\<lparr>send_queue := q\<rparr>)\<rparr>)"
    by (rule kwf_mb[OF kwf b' _ E(2,3)]) (use mb_family(2)[OF K, of q] E(1) in simp_all)
  with u b show "kwf s'" by (auto simp: upd_mb_iff)
  show "qitems h q = qitems (qelems s) (send_queue b) @ [v]" by (rule E)
  show "qitems h p' = qitems (qelems s) p'" if "k' \<noteq> MbSend p" "queues_of s k' = Some p'" for k' p' by (rule E(6)[OF that])
qed

lemma kwf_send_dequeue:
  assumes u: "upd_mb p (\<lambda>b. b\<lparr>send_queue := q\<rparr>) (s\<lparr>qelems := h\<rparr>) = Some s'"
    and dq: "dequeue_ptr (qelems s) (send_queue b) = Some (v, h, q)" and b: "rd (mailboxes s) p = Some b"
    and kwf: "kwf s" and ne: "0 < q_count (send_queue b)"
  obtains vs where "kwf s'" and "qitems (qelems s) (send_queue b) = v # vs" and "qitems h q = vs"
    and "\<And>k' p'. k' \<noteq> MbSend p \<Longrightarrow> queues_of s k' = Some p' \<Longrightarrow> qitems h p' = qitems (qelems s) p'"
proof -
  have b': "mailboxes s p = Some b" using b by (simp add: rd_Some_iff)
  note K = mb_keys[OF b']
  obtain vs where D: "qitems (qelems s) (send_queue b) = v # vs" "qitems h q = vs"
    "queues_inv h ((queues_of s)(MbSend p \<mapsto> q)) (key_target (pds s) (mail_objs s))" "\<And>al. fresh_above al (qelems s) \<Longrightarrow> fresh_above al h"
    "\<And>k' p'. k' \<noteq> MbSend p \<Longrightarrow> queues_of s k' = Some p' \<Longrightarrow> qitems h p' = qitems (qelems s) p'"
    by (rule mb_dequeue[OF kwf K(2) _ dq ne]) (simp, rule that)
  have fr: "fresh_above (alloc s) h" using kwf D(4) by (simp add: kwf_defs)
  have "kwf (s\<lparr>alloc := alloc s, qelems := h, mailboxes := (mailboxes s)(p \<mapsto> b\<lparr>send_queue := q\<rparr>)\<rparr>)"
    by (rule kwf_mb[OF kwf b' _ fr order.refl]) (use mb_family(2)[OF K, of q] D(3) in simp_all)
  with u b have "kwf s'" by (auto simp: upd_mb_iff)
  from that[OF this D(1,2,5)] show ?thesis .
qed

lemma kwf_recv_enqueue:
  assumes u: "upd_mb p (\<lambda>b. b\<lparr>recv_queue := q\<rparr>) (s\<lparr>alloc := al, qelems := h\<rparr>) = Some s'"
    and en: "enqueue_ptr (alloc s) (qelems s) (recv_queue b) v = Some (r, al, h, q)" and b: "rd (mailboxes s) p = Some b"
    and kwf: "kwf s" and v: "v \<noteq> NULL" "v \<in> dom (pds s)"
  shows "kwf s'" and "qitems h q = qitems (qelems s) (recv_queue b) @ [v]"
    and "\<And>k' p'. k' \<noteq> MbRecv p \<Longrightarrow> queues_of s k' = Some p' \<Longrightarrow> qitems h p' = qitems (qelems s) p'"
proof -
  have b': "mailboxes s p = Some b" using b by (simp add: rd_Some_iff)
  note K = mb_keys[OF b']
  have T: "key_target (pds s) (mail_objs s) (MbRecv p) v" "key_is_ptr (MbRecv p)" using v by simp_all
  note E = mb_enqueue[OF kwf K(3) T(2) en T(1) disjI1[OF not_mails(5)]]
  have "kwf (s\<lparr>alloc := al, qelems := h, mailboxes := (mailboxes s)(p \<mapsto> b\<lparr>recv_queue := q\<rparr>)\<rparr>)"
    by (rule kwf_mb[OF kwf b' _ E(2,3)]) (use mb_family(3)[OF K, of q] E(1) in simp_all)
  with u b show "kwf s'" by (auto simp: upd_mb_iff)
  show "qitems h q = qitems (qelems s) (recv_queue b) @ [v]" by (rule E)
  show "qitems h p' = qitems (qelems s) p'" if "k' \<noteq> MbRecv p" "queues_of s k' = Some p'" for k' p' by (rule E(6)[OF that])
qed

lemma kwf_recv_dequeue:
  assumes u: "upd_mb p (\<lambda>b. b\<lparr>recv_queue := q\<rparr>) (s\<lparr>qelems := h\<rparr>) = Some s'"
    and dq: "dequeue_ptr (qelems s) (recv_queue b) = Some (v, h, q)" and b: "rd (mailboxes s) p = Some b"
    and kwf: "kwf s" and ne: "0 < q_count (recv_queue b)"
  obtains vs where "kwf s'" and "qitems (qelems s) (recv_queue b) = v # vs" and "qitems h q = vs"
    and "\<And>k' p'. k' \<noteq> MbRecv p \<Longrightarrow> queues_of s k' = Some p' \<Longrightarrow> qitems h p' = qitems (qelems s) p'"
proof -
  have b': "mailboxes s p = Some b" using b by (simp add: rd_Some_iff)
  note K = mb_keys[OF b']
  obtain vs where D: "qitems (qelems s) (recv_queue b) = v # vs" "qitems h q = vs"
    "queues_inv h ((queues_of s)(MbRecv p \<mapsto> q)) (key_target (pds s) (mail_objs s))" "\<And>al. fresh_above al (qelems s) \<Longrightarrow> fresh_above al h"
    "\<And>k' p'. k' \<noteq> MbRecv p \<Longrightarrow> queues_of s k' = Some p' \<Longrightarrow> qitems h p' = qitems (qelems s) p'"
    by (rule mb_dequeue[OF kwf K(3) _ dq ne]) (simp, rule that)
  have fr: "fresh_above (alloc s) h" using kwf D(4) by (simp add: kwf_defs)
  have "kwf (s\<lparr>alloc := alloc s, qelems := h, mailboxes := (mailboxes s)(p \<mapsto> b\<lparr>recv_queue := q\<rparr>)\<rparr>)"
    by (rule kwf_mb[OF kwf b' _ fr order.refl]) (use mb_family(3)[OF K, of q] D(3) in simp_all)
  with u b have "kwf s'" by (auto simp: upd_mb_iff)
  from that[OF this D(1,2,5)] show ?thesis .
qed

lemma kwf_mails_enqueue:
  assumes u: "upd_mb p (\<lambda>b. b\<lparr>mails := q\<rparr>) (s\<lparr>alloc := al, qelems := h\<rparr>) = Some s'"
    and en: "enqueue_ptr (alloc s) (qelems s) (mails b) v = Some (r, al, h, q)" and b: "rd (mailboxes s) p = Some b"
    and kwf: "kwf s" and v: "v \<noteq> NULL" "v \<in> dom (mail_objs s)"
    and N: "v \<notin> all_mails (qelems s) (queues_of s)"
  shows "kwf s'" and "qitems h q = qitems (qelems s) (mails b) @ [v]"
    and "\<And>k' p'. k' \<noteq> MbMails p \<Longrightarrow> queues_of s k' = Some p' \<Longrightarrow> qitems h p' = qitems (qelems s) p'"
proof -
  have b': "mailboxes s p = Some b" using b by (simp add: rd_Some_iff)
  note K = mb_keys[OF b']
  have T: "key_target (pds s) (mail_objs s) (MbMails p) v" "key_is_ptr (MbMails p)" using v by simp_all
  note E = mb_enqueue[OF kwf K(1) T(2) en T(1) disjI2[OF N]]
  have "kwf (s\<lparr>alloc := al, qelems := h, mailboxes := (mailboxes s)(p \<mapsto> b\<lparr>mails := q\<rparr>)\<rparr>)"
    by (rule kwf_mb[OF kwf b' _ E(2,3)]) (use mb_family(1)[OF K, of q] E(1) in simp_all)
  with u b show "kwf s'" by (auto simp: upd_mb_iff)
  show "qitems h q = qitems (qelems s) (mails b) @ [v]" by (rule E)
  show "qitems h p' = qitems (qelems s) p'" if "k' \<noteq> MbMails p" "queues_of s k' = Some p'" for k' p' by (rule E(6)[OF that])
qed

lemma kwf_mails_dequeue:
  assumes u: "upd_mb p (\<lambda>b. b\<lparr>mails := q\<rparr>) (s\<lparr>qelems := h\<rparr>) = Some s'"
    and dq: "dequeue_ptr (qelems s) (mails b) = Some (v, h, q)" and b: "rd (mailboxes s) p = Some b"
    and kwf: "kwf s" and ne: "0 < q_count (mails b)"
  obtains vs where "kwf s'" and "qitems (qelems s) (mails b) = v # vs" and "qitems h q = vs"
    and "\<And>k' p'. k' \<noteq> MbMails p \<Longrightarrow> queues_of s k' = Some p' \<Longrightarrow> qitems h p' = qitems (qelems s) p'"
proof -
  have b': "mailboxes s p = Some b" using b by (simp add: rd_Some_iff)
  note K = mb_keys[OF b']
  obtain vs where D: "qitems (qelems s) (mails b) = v # vs" "qitems h q = vs"
    "queues_inv h ((queues_of s)(MbMails p \<mapsto> q)) (key_target (pds s) (mail_objs s))" "\<And>al. fresh_above al (qelems s) \<Longrightarrow> fresh_above al h"
    "\<And>k' p'. k' \<noteq> MbMails p \<Longrightarrow> queues_of s k' = Some p' \<Longrightarrow> qitems h p' = qitems (qelems s) p'"
    by (rule mb_dequeue[OF kwf K(1) _ dq ne]) (simp, rule that)
  have fr: "fresh_above (alloc s) h" using kwf D(4) by (simp add: kwf_defs)
  have "kwf (s\<lparr>alloc := alloc s, qelems := h, mailboxes := (mailboxes s)(p \<mapsto> b\<lparr>mails := q\<rparr>)\<rparr>)"
    by (rule kwf_mb[OF kwf b' _ fr order.refl]) (use mb_family(1)[OF K, of q] D(3) in simp_all)
  with u b have "kwf s'" by (auto simp: upd_mb_iff)
  from that[OF this D(1,2,5)] show ?thesis .
qed

section \<open>Messages in memory\<close>

lemma kwf_mail_objs:
  assumes kwf: "kwf s" and fr: "fresh_above (alloc s) lh" and d: "dom (mail_objs s) \<subseteq> dom lh"
  shows "kwf (s\<lparr>mail_objs := lh\<rparr>)"
proof -
  have "queues_inv (qelems s) (queues_of s) (key_target (pds s) lh)"
    by (rule queues_inv_mono[OF kwf_parts(3)[OF kwf]]) (erule key_target_mono, simp_all add: d)
  then show ?thesis using kwf fr by (simp add: kwf_defs)
qed

lemma kwf_upd_mail: "upd_mail p f s = Some s' \<Longrightarrow> kwf s \<Longrightarrow> kwf s'"
  by (auto simp: upd_mail_iff rd_Some_iff intro!: kwf_mail_objs fresh_above_upd) (simp add: kwf_defs)

lemma all_mails_dom:
  assumes "kwf s" "v \<in> all_mails (qelems s) (queues_of s)"
  shows "v \<noteq> NULL" and "v \<in> dom (mail_objs s)"
proof -
  obtain k q where k: "is_mails k" "queues_of s k = Some q" "v \<in> set (qitems (qelems s) q)"
    using assms(2) by (auto simp: all_mails_def)
  from queues_inv_at(3)[OF kwf_parts(3)[OF assms(1)] k(2,3)] k(1) show "v \<noteq> NULL" "v \<in> dom (mail_objs s)"
    by (cases k; simp)+
qed

lemma kwf_new_mail:
  assumes kwf: "kwf s" and m: "malloc_k s = (m, s1)" "m \<noteq> NULL"
  shows "kwf (s1\<lparr>mail_objs := put_obj (mail_objs s1) m x\<rparr>)" and "m \<notin> all_mails (qelems s) (queues_of s)"
    and "mail_objs s m = None"
proof -
  obtain al where al: "malloc (alloc s) = (m, al)" "s1 = s\<lparr>alloc := al\<rparr>" using m by (auto simp: malloc_k_iff)
  have fr: "fresh_above (alloc s) (mail_objs s)" using kwf by (simp add: kwf_defs)
  show n: "mail_objs s m = None" by (rule malloc_fresh[OF al(1) m(2) fr])
  show "m \<notin> all_mails (qelems s) (queues_of s)" using all_mails_dom(2)[OF kwf] n by auto
  have "kwf s1" by (rule kwf_malloc_k[OF kwf m(1)])
  then show "kwf (s1\<lparr>mail_objs := put_obj (mail_objs s1) m x\<rparr>)"
    by (rule kwf_mail_objs) (use fresh_above_malloc_upd[OF al(1) m(2) fr] m(2) al(2) in \<open>auto simp: put_obj_def\<close>)
qed

lemma kwf_new_bytes:
  assumes kwf: "kwf s0" and t: "malloc_k s0 = (t, s1)" "t \<noteq> NULL" and s: "kwf s" "alloc s = alloc s1" "bytes s = bytes s1"
  shows "kwf (s\<lparr>bytes := (bytes s)(t \<mapsto> l)\<rparr>)" and "bytes s0 t = None"
proof -
  obtain al where al: "malloc (alloc s0) = (t, al)" "s1 = s0\<lparr>alloc := al\<rparr>" using t by (auto simp: malloc_k_iff)
  have fr: "fresh_above (alloc s0) (bytes s0)" using kwf by (simp add: kwf_defs)
  show "bytes s0 t = None" by (rule malloc_fresh[OF al(1) t(2) fr])
  show "kwf (s\<lparr>bytes := (bytes s)(t \<mapsto> l)\<rparr>)"
    by (rule kwf_bytes[OF s(1)]) (use fresh_above_malloc_upd[OF al(1) t(2) fr] s al(2) in simp)
qed

text \<open>A message that is in no mailbox is freed.\<close>

lemma kwf_free_mail:
  assumes kwf: "kwf s" and m: "m \<notin> all_mails (qelems s) (queues_of s)"
  shows "kwf (s\<lparr>mail_objs := (mail_objs s)(m := None)\<rparr>)"
proof -
  let ?lh = "(mail_objs s)(m := None)"
  have "key_target (pds s) ?lh k v" if "queues_of s k = Some q" "v \<in> set (qitems (qelems s) q)" for k q v
    by (rule key_target_del[OF queues_inv_at(3)[OF kwf_parts(3)[OF kwf] that]]) (use m that in \<open>auto simp: all_mails_def\<close>)
  then have "queues_inv (qelems s) (queues_of s) (key_target (pds s) ?lh)"
    using kwf_parts(3)[OF kwf] unfolding queues_inv_def by blast
  moreover have "fresh_above (alloc s) ?lh" using kwf by (simp add: kwf_defs fresh_above_del del: fun_upd_apply)
  ultimately show ?thesis using kwf by (simp add: kwf_defs)
qed

text \<open>The message taken from a mailbox is in none any more.\<close>

lemma dequeued_mail:
  assumes kwf: "kwf s" and b: "mailboxes s p = Some b" and it: "qitems (qelems s) (mails b) = m # ms" "qitems h q = ms"
    and same: "\<And>k' p'. k' \<noteq> MbMails p \<Longrightarrow> queues_of s k' = Some p' \<Longrightarrow> qitems h p' = qitems (qelems s) p'"
    and s': "qelems s' = h" "semaphores s' = semaphores s" "mutexes s' = mutexes s" "mailboxes s' = (mailboxes s)(p \<mapsto> b\<lparr>mails := q\<rparr>)"
  shows "m \<notin> all_mails (qelems s') (queues_of s')"
proof
  note K = mb_keys[OF b] and S = queues_inv_sep[OF kwf_parts(3)[OF kwf]]
  assume "m \<in> all_mails (qelems s') (queues_of s')"
  then obtain k q2 where k: "is_mails k" "queues_of s' k = Some q2" "m \<in> set (qitems h q2)"
    by (auto simp: all_mails_def s'(1))
  show False
  proof (cases "k = MbMails p")
    case True
    with k s' have "m \<in> set ms" by (simp add: it(2)[symmetric])
    moreover have "distinct (m # ms)" using S K(1) it(1) unfolding mails_sep_def by (metis is_mails.simps(1))
    ultimately show False by simp
  next
    case False
    then have F: "queues_of s k = Some q2" using k(1,2) s' by (cases k) auto
    have "set (qitems (qelems s) (mails b)) \<inter> set (qitems (qelems s) q2) = {}"
      by (rule mails_sep_sub(2)[OF S K(1) _ k(1) False F]) simp
    moreover have "m \<in> set (qitems (qelems s) q2)" using k(3) same[OF False F] by simp
    ultimately show False using it(1) by auto
  qed
qed

section \<open>Sending and receiving keep the invariant\<close>

lemma kwf_block_sender:
  assumes "block_sender p mb s = Some s'" "kwf s"
  shows "kwf s'"
  using assms(1) unfolding block_sender_def
proof (elim bind_SomeEs)
  fix b r al h q s1 s2
  assume 1: "rd (mailboxes s) mb = Some b" "enqueue_ptr (alloc s) (qelems s) (send_queue b) p = Some (r, al, h, q)"
    "upd_mb mb (\<lambda>b. b\<lparr>send_queue := q\<rparr>) (s\<lparr>alloc := al, qelems := h\<rparr>) = Some s1"
    "upd_pd p (\<lambda>d. d\<lparr>state := WAIT_MAILBOX\<rparr>) s1 = Some s2" "Some (s2\<lparr>Kernel_Request_Cswitch := 1\<rparr>) = Some s'"
  have "p \<noteq> NULL" "p \<in> dom (pds s)" using 1(3,4) by (auto simp: upd_mb_iff upd_pd_iff rd_Some_iff)
  from kwf_upd_pd[OF 1(4) kwf_send_enqueue(1)[OF 1(3,2,1) assms(2) this]] 1(5) show "kwf s'" by auto
qed

lemma kwf_block_receiver:
  assumes "block_receiver mb s = Some s'" "kwf s"
  shows "kwf s'"
  using assms(1) unfolding block_receiver_def
proof (elim bind_SomeEs)
  fix b r al h q s1 s2
  assume 1: "rd (mailboxes s) mb = Some b" "enqueue_ptr (alloc s) (qelems s) (recv_queue b) (Current_Process s) = Some (r, al, h, q)"
    "upd_mb mb (\<lambda>b. b\<lparr>recv_queue := q\<rparr>) (s\<lparr>alloc := al, qelems := h\<rparr>) = Some s1"
    "upd_cur (\<lambda>d. d\<lparr>state := WAIT_MAILBOX\<rparr>) s1 = Some s2" "Some (s2\<lparr>Kernel_Request_Cswitch := 1\<rparr>) = Some s'"
  have "Current_Process s \<noteq> NULL" "Current_Process s \<in> dom (pds s)"
    using 1(3,4) by (auto simp: upd_mb_iff upd_cur_iff cur_pd_def rd_Some_iff)
  from kwf_upd_cur[OF 1(4) kwf_recv_enqueue(1)[OF 1(3,2,1) assms(2) this]] 1(5) show "kwf s'" by auto
qed

lemma kwf_put_mail:
  assumes "put_mail p mb msg n s = Some (ok, s')" "kwf s"
  shows "kwf s'"
proof -
  obtain m s1 where m: "malloc_k s = (m, s1)" by fastforce
  let ?s2 = "s1\<lparr>mail_objs := put_obj (mail_objs s1) m \<lparr>mail_ptr = NULL, mail_size = 0, mail_source = 0\<rparr>\<rparr>"
  obtain d s3 t s4 s5 where 1: "upd_mail m (\<lambda>x. x\<lparr>mail_source := pid (d :: PD), mail_size := n\<rparr>) ?s2 = Some s3"
    "malloc_k s3 = (t, s4)" "upd_mail m (\<lambda>x. x\<lparr>mail_ptr := t\<rparr>) s4 = Some s5"
    and 2: "(if t = NULL then Some (False, kernel_raise_error MALLOC_FAILED_ERR s5)
     else do {
       src \<leftarrow> rd (bytes s5) msg;
       s \<leftarrow> (if unat n \<le> length src
             then Some (s5\<lparr>bytes := (bytes s5)(t \<mapsto> take (unat n) src)\<rparr>) else None);
       b \<leftarrow> rd (mailboxes s) mb;
       (r, al, h, q) \<leftarrow> enqueue_ptr (alloc s) (qelems s) (mails b) m;
       s \<leftarrow> upd_mb mb (\<lambda>b. b\<lparr>mails := q\<rparr>) (s\<lparr>alloc := al, qelems := h\<rparr>);
       Some (True, s)
     }) = Some (ok, s')"
    using assms(1) unfolding put_mail_def m Let_def prod.case
    by (elim bind_SomeE case_SomeE) (rule that)
  have m0: "m \<noteq> NULL" using 1(1) by (auto simp: upd_mail_iff rd_Some_iff)
  note N = kwf_new_mail[OF assms(2) m m0]
  have k3: "kwf s3" by (rule kwf_upd_mail[OF 1(1) N(1)])
  have k5: "kwf s5" by (rule kwf_upd_mail[OF 1(3) kwf_malloc_k[OF k3 1(2)]])
  have same: "qelems s5 = qelems s" "mailboxes s5 = mailboxes s" "semaphores s5 = semaphores s" "mutexes s5 = mutexes s"
    "alloc s5 = alloc s4" "bytes s5 = bytes s4" "m \<in> dom (mail_objs s5)"
    using 1 m by (auto simp: upd_mail_iff malloc_k_iff)
  show ?thesis
  proof (cases "t = NULL")
    case True
    with 2 k5 show ?thesis by auto
  next
    case False
    with 2 obtain src b r al h q s7 where src: "unat n \<le> length (src :: u8 list)" and
      e: "rd (mailboxes s5) mb = Some b" "enqueue_ptr (alloc s5) (qelems s5) (mails b) m = Some (r, al, h, q)"
      "upd_mb mb (\<lambda>b. b\<lparr>mails := q\<rparr>) (s5\<lparr>bytes := (bytes s5)(t \<mapsto> take (unat n) src), alloc := al, qelems := h\<rparr>) = Some s7"
      "s' = s7"
      by (auto elim!: bind_SomeEs split: if_splits)
    let ?s6 = "s5\<lparr>bytes := (bytes s5)(t \<mapsto> take (unat n) src)\<rparr>"
    have k6: "kwf ?s6" by (rule kwf_new_bytes(1)[OF k3 1(2) False k5 same(5,6)])
    have "kwf s7"
      by (rule kwf_mails_enqueue(1)[where s = ?s6]) (use e k6 m0 same N(2) in simp_all)
    with e(4) show ?thesis by simp
  qed
qed

lemma kwf_take_mail:
  assumes "take_mail mb dest s = Some s'" "kwf s" "rd (mailboxes s) mb = Some b" "q_count (mails b) \<noteq> 0"
  shows "kwf s'"
proof -
  obtain m h q s1 x s2 lh where
    1: "dequeue_ptr (qelems s) (mails b) = Some (m, h, q)" "upd_mb mb (\<lambda>b. b\<lparr>mails := q\<rparr>) (s\<lparr>qelems := h\<rparr>) = Some s1"
    "upd_mail dest (\<lambda>y. y\<lparr>mail_ptr := mail_ptr (x :: MAIL), mail_size := mail_size x, mail_source := mail_source x\<rparr>) s1 = Some s2"
    "free (mail_objs s2) m = Some lh" "Some (s2\<lparr>mail_objs := lh\<rparr>) = Some s'"
    using assms(1) unfolding take_mail_def assms(3) bind.bind_lunit by (elim bind_SomeEs) (rule that)
  have ne: "0 < q_count (mails b)" using assms(4) by (simp add: word_gt_0)
  obtain ms where D: "kwf s1" "qitems (qelems s) (mails b) = m # ms" "qitems h q = ms"
    "\<And>k' p'. k' \<noteq> MbMails mb \<Longrightarrow> queues_of s k' = Some p' \<Longrightarrow> qitems h p' = qitems (qelems s) p'"
    by (rule kwf_mails_dequeue[OF 1(2,1) assms(3,2) ne]) (rule that)
  have b: "mailboxes s mb = Some b" using assms(3) by (simp add: rd_Some_iff)
  have k2: "kwf s2" by (rule kwf_upd_mail[OF 1(3) D(1)])
  have same: "qelems s2 = h" "semaphores s2 = semaphores s" "mutexes s2 = mutexes s" "mailboxes s2 = (mailboxes s)(mb \<mapsto> b\<lparr>mails := q\<rparr>)"
    using 1(2,3) b by (auto simp: upd_mb_iff upd_mail_iff rd_Some_iff)
  have m: "m \<notin> all_mails (qelems s2) (queues_of s2)" by (rule dequeued_mail[OF assms(2) b D(2-4) same])
  have "lh = (mail_objs s2)(m := None) \<or> lh = mail_objs s2" using 1(4) by (auto simp: free_def split: if_splits option.splits)
  with kwf_free_mail[OF k2 m] k2 1(5) show ?thesis by auto
qed

lemma next_sender_kwf:
  assumes "next_sender mb s = Some (p, s')" "kwf s" "rd (mailboxes s) mb = Some b" "0 < q_count (send_queue b)"
  shows "kwf s'"
proof -
  obtain p' h q s1 where 1: "dequeue_ptr (qelems s) (send_queue b) = Some (p', h, q)"
    "upd_mb mb (\<lambda>b. b\<lparr>send_queue := q\<rparr>) (s\<lparr>qelems := h\<rparr>) = Some s1" "Some (p', s1) = Some (p, s')"
    using assms(1) unfolding next_sender_def assms(3) bind.bind_lunit by (elim bind_SomeEs) (rule that)
  have "kwf s1" by (rule kwf_send_dequeue[OF 1(2,1) assms(3,2,4)])
  with 1(3) show ?thesis by simp
qed

lemma next_receiver_kwf:
  assumes "next_receiver mb s = Some (p, s')" "kwf s" "rd (mailboxes s) mb = Some b" "0 < q_count (recv_queue b)"
  shows "kwf s'"
proof -
  obtain p' h q s1 where 1: "dequeue_ptr (qelems s) (recv_queue b) = Some (p', h, q)"
    "upd_mb mb (\<lambda>b. b\<lparr>recv_queue := q\<rparr>) (s\<lparr>qelems := h\<rparr>) = Some s1" "Some (p', s1) = Some (p, s')"
    using assms(1) unfolding next_receiver_def assms(3) bind.bind_lunit by (elim bind_SomeEs) (rule that)
  have "kwf s1" by (rule kwf_recv_dequeue[OF 1(2,1) assms(3,2,4)])
  with 1(3) show ?thesis by simp
qed

text \<open>One lemma for each of the four functions, for any \<open>f\<close> in place of the recursive calls.\<close>

lemma kwf_wake_body:
  assumes IH: "\<And>c s y. f c s = Some y \<Longrightarrow> kwf s \<longrightarrow> kwf (snd y)" and k: "kwf s"
    and body: "(if st \<noteq> WAIT_MAILBOX then Some (0, kernel_raise_error UNPROCESSABLE_TASK_STATE_ERR s)
         else do {
           (r, s) \<leftarrow> f c1 s;
           s \<leftarrow> upd_pd p (\<lambda>d. d\<lparr>state := READY\<rparr>) s;
           f c2 s
         }) = Some y"
  shows "kwf (snd y)"
proof (cases "st = WAIT_MAILBOX")
  case True
  with body obtain r s1 s2 where 1: "f c1 s = Some (r, s1)" "upd_pd p (\<lambda>d. d\<lparr>state := READY\<rparr>) s1 = Some s2" "f c2 s2 = Some y"
    by (auto elim!: bind_SomeEs)
  have "kwf s1" using IH[OF 1(1)] k by simp
  then have "kwf s2" by (rule kwf_upd_pd[OF 1(2)]) simp
  with IH[OF 1(3)] show ?thesis by simp
qed (use body k in auto)

lemma kwf_send_from_queue_body:
  assumes IH: "\<And>c s y. f c s = Some y \<Longrightarrow> kwf s \<longrightarrow> kwf (snd y)" and k: "kwf s"
    and body: "do {
       b \<leftarrow> rd (mailboxes s) mb;
       if 0 < q_count (send_queue b) \<and> q_count (mails b) < capacity b
       then do {
         (p, s) \<leftarrow> next_sender mb s;
         d \<leftarrow> rd (pds s) p;
         if state d \<noteq> WAIT_MAILBOX then Some (0, kernel_raise_error UNPROCESSABLE_TASK_STATE_ERR s)
         else do {
           (r, s) \<leftarrow> f (Send_Internal p mb (request_args d 1) (request_args d 2) 0) s;
           s \<leftarrow> upd_pd p (\<lambda>d. d\<lparr>state := READY\<rparr>) s;
           f (Send_From_Queue mb) s
         }
       }
       else Some (0, s)
     } = Some y"
  shows "kwf (snd y)"
proof -
  obtain b where b: "rd (mailboxes s) mb = Some b" using body by (rule bind_SomeE)
  show ?thesis
  proof (cases "0 < q_count (send_queue b) \<and> q_count (mails b) < capacity b")
    case True
    with body obtain p s1 where n: "next_sender mb s = Some (p, s1)" unfolding b by (auto elim!: bind_SomeEs)
    have k1: "kwf s1" by (rule next_sender_kwf[OF n k b conjunct1[OF True]])
    from body show ?thesis
      unfolding b n bind.bind_lunit if_P[OF True] prod.case by (elim bind_SomeE) (rule kwf_wake_body[OF IH k1], assumption+)
  qed (use body b k in auto)
qed

lemma kwf_recv_from_queue_body:
  assumes IH: "\<And>c s y. f c s = Some y \<Longrightarrow> kwf s \<longrightarrow> kwf (snd y)" and k: "kwf s"
    and body: "do {
       b \<leftarrow> rd (mailboxes s) mb;
       if 0 < q_count (recv_queue b) \<and> 0 < q_count (mails b)
       then do {
         (p, s) \<leftarrow> next_receiver mb s;
         d \<leftarrow> rd (pds s) p;
         if state d \<noteq> WAIT_MAILBOX then Some (0, kernel_raise_error UNPROCESSABLE_TASK_STATE_ERR s)
         else do {
           (r, s) \<leftarrow> f (Recv_Internal p mb (request_args d 1) 0) s;
           s \<leftarrow> upd_pd p (\<lambda>d. d\<lparr>state := READY\<rparr>) s;
           f (Recv_From_Queue mb) s
         }
       }
       else Some (0, s)
     } = Some y"
  shows "kwf (snd y)"
proof -
  obtain b where b: "rd (mailboxes s) mb = Some b" using body by (rule bind_SomeE)
  show ?thesis
  proof (cases "0 < q_count (recv_queue b) \<and> 0 < q_count (mails b)")
    case True
    with body obtain p s1 where n: "next_receiver mb s = Some (p, s1)" unfolding b by (auto elim!: bind_SomeEs)
    have k1: "kwf s1" by (rule next_receiver_kwf[OF n k b conjunct1[OF True]])
    from body show ?thesis
      unfolding b n bind.bind_lunit if_P[OF True] prod.case by (elim bind_SomeE) (rule kwf_wake_body[OF IH k1], assumption+)
  qed (use body b k in auto)
qed

lemma kwf_send_internal_body:
  assumes IH: "\<And>c s y. f c s = Some y \<Longrightarrow> kwf s \<longrightarrow> kwf (snd y)" and k: "kwf s"
    and body: "do {
       b \<leftarrow> rd (mailboxes s) mb;
       if capacity b \<le> q_count (mails b)
       then if blocking = 0 then Some (0, s)
         else do { s \<leftarrow> block_sender sender mb s; Some (- 1, s) }
       else do {
         (ok, s) \<leftarrow> put_mail sender mb msg_ptr msg_size s;
         if \<not> ok then Some (0, s)
         else do {
           b \<leftarrow> rd (mailboxes s) mb;
           (r, s) \<leftarrow> (if 0 < q_count (recv_queue b) then f (Recv_From_Queue mb) s else Some (0, s));
           Some (1, s)
         }
       }
     } = Some (y :: int \<times> kstate)"
  shows "kwf (snd y)"
proof -
  obtain b where b: "rd (mailboxes s) mb = Some b" using body by (rule bind_SomeE)
  show ?thesis
  proof (cases "capacity b \<le> q_count (mails b)")
    case True
    with body b k kwf_block_sender[of sender mb s] show ?thesis by (auto elim!: bind_SomeE split: if_splits)
  next
    case False
    with body obtain ok s1 where n: "put_mail sender mb msg_ptr msg_size s = Some (ok, s1)" unfolding b by (auto elim!: bind_SomeEs)
    have k1: "kwf s1" by (rule kwf_put_mail[OF n k])
    with body IH show ?thesis
      unfolding b n bind.bind_lunit if_not_P[OF False] prod.case by (cases ok) (fastforce elim!: bind_SomeEs split: if_splits)+
  qed
qed

lemma kwf_recv_internal_body:
  assumes IH: "\<And>c s y. f c s = Some y \<Longrightarrow> kwf s \<longrightarrow> kwf (snd y)" and k: "kwf s"
    and body: "do {
       b \<leftarrow> rd (mailboxes s) mb;
       if q_count (mails b) = 0
       then if blocking = 0 then do {
           s \<leftarrow> upd_mail dest (\<lambda>x. x\<lparr>mail_ptr := NULL, mail_size := 0, mail_source := 0\<rparr>) s;
           Some (0, s)
         }
         else do { s \<leftarrow> block_receiver mb s; Some (- 1, s) }
       else do {
         s \<leftarrow> take_mail mb dest s;
         b \<leftarrow> rd (mailboxes s) mb;
         (r, s) \<leftarrow> (if 0 < q_count (send_queue b) then f (Send_From_Queue mb) s else Some (0, s));
         Some (1, s)
       }
     } = Some (y :: int \<times> kstate)"
  shows "kwf (snd y)"
proof -
  obtain b where b: "rd (mailboxes s) mb = Some b" using body by (rule bind_SomeE)
  show ?thesis
  proof (cases "q_count (mails b) = 0")
    case True
    with body b k kwf_block_receiver[of mb s] kwf_upd_mail[of dest _ s] show ?thesis by (auto elim!: bind_SomeE split: if_splits)
  next
    case False
    with body obtain s1 where n: "take_mail mb dest s = Some s1" unfolding b by (auto elim!: bind_SomeEs)
    have k1: "kwf s1" by (rule kwf_take_mail[OF n k b False])
    with body IH show ?thesis
      unfolding b n bind.bind_lunit if_not_P[OF False] by (fastforce elim!: bind_SomeEs split: if_splits)
  qed
qed

lemma kwf_mailbox_call:
  assumes "mailbox_call c s = Some y"
  shows "kwf s \<longrightarrow> kwf (snd y)"
  apply (rule mailbox_call.raw_induct[of "\<lambda>c s y. kwf s \<longrightarrow> kwf (snd y)", OF _ assms])
  apply (rename_tac f c s y, case_tac c)
     apply (simp_all only: mb_call.case)
  subgoal by (intro impI, rule kwf_send_internal_body, assumption+)
  subgoal by (intro impI, rule kwf_recv_from_queue_body, assumption+)
  subgoal by (intro impI, rule kwf_recv_internal_body, assumption+)
  subgoal by (intro impI, rule kwf_send_from_queue_body, assumption+)
  done

lemma kwf_mailbox_call': "mailbox_call c s = Some (r, s') \<Longrightarrow> kwf s \<Longrightarrow> kwf s'"
  using kwf_mailbox_call[of c s "(r, s')"] by simp

lemma kwf_Kernel_Mailbox_Send:
  assumes "Kernel_Mailbox_Send s = Some s'" "kwf s"
  shows "kwf s'"
proof -
  obtain a p s1 where f: "findMailboxByID a s = Some (p, s1)" and
    b: "(if p = NULL then upd_cur (\<lambda>d. d\<lparr>request_retval := 0\<rparr>) (kernel_raise_error OBJECT_NOT_FOUND_ERR s1)
     else do {
       msg_ptr \<leftarrow> req_arg 1 s1;
       msg_size \<leftarrow> req_arg 2 s1;
       blocking \<leftarrow> req_arg 3 s1;
       (r, s) \<leftarrow> mailbox_call (Send_Internal (Current_Process s1) p msg_ptr msg_size blocking) s1;
       if 0 \<le> r then upd_cur (\<lambda>d. d\<lparr>request_retval := word_of_int r\<rparr>) s else Some s
     }) = Some s'"
    using assms(1) unfolding Kernel_Mailbox_Send_def by (elim bind_SomeEs) (rule that)
  have k: "kwf s1" by (rule findMailbox_found(1)[OF f assms(2)])
  show ?thesis
    using b k by (auto elim!: bind_SomeEs split: if_splits dest!: kwf_mailbox_call'[OF _ k])
      (erule kwf_upd_cur, simp_all)+
qed

lemma kwf_Kernel_Mailbox_Recv:
  assumes "Kernel_Mailbox_Recv s = Some s'" "kwf s"
  shows "kwf s'"
proof -
  obtain a p s1 where f: "findMailboxByID a s = Some (p, s1)" and
    b: "(if p = NULL then upd_cur (\<lambda>d. d\<lparr>request_retval := 0\<rparr>) (kernel_raise_error OBJECT_NOT_FOUND_ERR s1)
     else do {
       dest \<leftarrow> req_arg 1 s1;
       blocking \<leftarrow> req_arg 2 s1;
       (r, s) \<leftarrow> mailbox_call (Recv_Internal (Current_Process s1) p dest blocking) s1;
       if 0 \<le> r then upd_cur (\<lambda>d. d\<lparr>request_retval := word_of_int r\<rparr>) s else Some s
     }) = Some s'"
    using assms(1) unfolding Kernel_Mailbox_Recv_def by (elim bind_SomeEs) (rule that)
  have k: "kwf s1" by (rule findMailbox_found(1)[OF f assms(2)])
  show ?thesis
    using b k by (auto elim!: bind_SomeEs split: if_splits dest!: kwf_mailbox_call'[OF _ k])
      (erule kwf_upd_cur, simp_all)+
qed

lemma kwf_Kernel_Mailbox_Check:
  assumes "Kernel_Mailbox_Check s = Some s'" "kwf s"
  shows "kwf s'"
proof -
  obtain a p s1 where f: "findMailboxByID a s = Some (p, s1)" and
    b: "(if p = NULL then upd_cur (\<lambda>d. d\<lparr>request_retval := 0\<rparr>) (kernel_raise_error OBJECT_NOT_FOUND_ERR s1)
     else do {
       b \<leftarrow> rd (mailboxes s1) p;
       upd_cur (\<lambda>d. d\<lparr>request_retval := q_count (mails b)\<rparr>) s1
     }) = Some s'"
    using assms(1) unfolding Kernel_Mailbox_Check_def by (elim bind_SomeEs) (rule that)
  have k: "kwf s1" by (rule findMailbox_found(1)[OF f assms(2)])
  show ?thesis
    using b k by (auto elim!: bind_SomeEs split: if_splits) (erule kwf_upd_cur, simp_all)+
qed

lemma kwf_Kernel_Mailbox_Destroy_Mail:
  assumes "Kernel_Mailbox_Destroy_Mail s = Some s'" "kwf s"
  shows "kwf s'"
proof -
  obtain m x h s1 s2 where m: "req_arg 0 s = Some m" and 1: "(if m = NULL
           then upd_cur (\<lambda>d. d\<lparr>request_retval := 0\<rparr>) (kernel_raise_error OBJECT_NOT_FOUND_ERR s)
           else Some s) = Some s1" "rd (mail_objs s1) m = Some x" "free (bytes s1) (mail_ptr x) = Some h"
    "upd_mail m (\<lambda>x. x\<lparr>mail_ptr := NULL, mail_size := 0, mail_source := 0\<rparr>) (s1\<lparr>bytes := h\<rparr>) = Some s2"
    "upd_cur (\<lambda>d. d\<lparr>request_retval := 1\<rparr>) s2 = Some s'"
    using assms(1) unfolding Kernel_Mailbox_Destroy_Mail_def by (elim bind_SomeEs) (rule that)
  have "m \<noteq> NULL" using 1(2) by (auto simp: rd_Some_iff)
  then have s1: "s1 = s" using 1(1) by simp
  have "fresh_above (alloc s) h"
    using 1(3) assms(2) fresh_above_del[of "alloc s" "bytes s"] unfolding s1
    by (auto simp: free_def kwf_defs split: if_splits option.splits)
  then have "kwf (s1\<lparr>bytes := h\<rparr>)" using assms(2) s1 by (intro kwf_bytes) simp_all
  then have "kwf s2" by (rule kwf_upd_mail[OF 1(4)])
  then show ?thesis by (rule kwf_upd_cur[OF 1(5)]) simp
qed

text \<open>
  Destroying an existing mailbox unlinks and frees it. Its messages and their texts stay
  allocated, and the waiting tasks stay WAIT_MAILBOX.
\<close>

lemma destroy_mailbox_found:
  assumes kwf: "kwf s" and a: "req_arg 0 s = Some i" and p: "p \<in> set (mbs s)"
    and i: "mb_id (the (mailboxes s p)) = i"
  obtains h where "Kernel_Destroy_Mailbox s =
      Some (s\<lparr>mailboxes := (mailboxes s)(p := None), nodes := h, Mailbox_Count := Mailbox_Count s - 1\<rparr>)"
    and "kwf (s\<lparr>mailboxes := (mailboxes s)(p := None), nodes := h, Mailbox_Count := Mailbox_Count s - 1\<rparr>)"
    and "contents h MailboxList = remove1 p (mbs s)"
proof -
  note t = kwf_tables(6)[OF kwf]
  obtain n h where R: "find_node (nodes s) (mailboxes s) (\<lambda>x. mb_id x = i) MailboxList NULL = Some (n, p)"
    "ptrlist_remove (nodes s) MailboxList n = Some (1, h)" "lists_wf LISTS h"
    "contents h MailboxList = remove1 p (mbs s)"
    "\<And>M. M \<in> LISTS \<Longrightarrow> M \<noteq> MailboxList \<Longrightarrow> contents h M = contents (nodes s) M"
    "\<And>al. fresh_above al (nodes s) \<Longrightarrow> fresh_above al h"
    by (rule find_node_remove[OF kwf_lists[OF kwf] _ t p i]) (simp, rule that)
  have p0: "p \<noteq> NULL" using p contents_not_NULL by blast
  obtain b where b: "mailboxes s p = Some b" using table_wf_obj[OF t p] by blast
  note F = queues_inv_at(1)[OF kwf_parts(3)[OF kwf]] and K = mb_keys[OF b]
  obtain q1 q2 q3 where q: "free_queue (qelems s) (mails b) = Some (qelems s, q1)" "queue_rep (qelems s) q1 []"
    "free_queue (qelems s) (send_queue b) = Some (qelems s, q2)" "free_queue (qelems s) (recv_queue b) = Some (qelems s, q3)"
    using free_queue_rep[OF F[OF K(1)]] free_queue_rep[OF F[OF K(2)]] free_queue_rep[OF F[OF K(3)]] by blast
  obtain q4 where q4: "free_queue (qelems s) q1 = Some (qelems s, q4)" using free_queue_rep[OF q(2)] by blast
  let ?s' = "s\<lparr>mailboxes := (mailboxes s)(p := None), nodes := h, Mailbox_Count := Mailbox_Count s - 1\<rparr>"
  have d: "Kernel_Destroy_Mailbox s = Some ?s'"
    using R(1,2) a p0 b q q4 by (simp add: Kernel_Destroy_Mailbox_def remove_from_list_def free_def upd_mb_def wr_def rd_def)
  have t': "table_wf (remove1 p (mbs s)) ((mailboxes s)(p := None)) mb_id (Mailbox_Count s - 1)
      (Last_MailboxID s) MAXMAILBOX"
    by (rule table_wf_new[OF table_wf_remove[OF t p]]) (simp add: table_wf_distinct(2)[OF t])
  have "queues_inv (qelems s) ((queues_of s)(MbMails p := None, MbSend p := None, MbRecv p := None)) (key_target (pds s) (mail_objs s))"
    by (intro queues_inv_del kwf_parts(3)[OF kwf])
  then have "kwf ?s'"
    using kwf t' R(3-6) fresh_above_del[of _ "mailboxes s"]
    by (simp add: kwf_defs queues_in_mb_del)
  from that[OF d this R(4)] show ?thesis .
qed

lemma destroy_mailbox_missing:
  assumes kwf: "kwf s" and a: "req_arg 0 s = Some i" and i: "i \<notin> set (mb_ids s)"
  shows "Kernel_Destroy_Mailbox s = None"
proof (cases "mbs s = []")
  case True
  with find_node_missing(1)[OF kwf_lists[OF kwf] _ kwf_tables(6)[OF kwf], of i] a i show ?thesis
    by (simp add: Kernel_Destroy_Mailbox_def mb_ids_def)
next
  case False
  note t = kwf_tables(6)[OF kwf]
  let ?p = "last (mbs s)"
  have p: "?p \<in> set (mbs s)" using False by simp
  then have p0: "?p \<noteq> NULL" using contents_not_NULL by blast
  obtain b where b: "mailboxes s ?p = Some b" using table_wf_obj[OF t p] by blast
  have "find_node (nodes s) (mailboxes s) (\<lambda>x. mb_id x = i) MailboxList NULL = Some (NULL, ?p)"
    using find_node_missing(2)[OF kwf_lists[OF kwf] _ t, of i] i False by (simp add: mb_ids_def)
  moreover have "remove_from_list MailboxList NULL s1 = None" if "nodes s1 = nodes s" for s1
    using find_node_missing(3)[OF kwf_lists[OF kwf] _ t, of i] i False that by (simp add: mb_ids_def remove_from_list_def)
  ultimately show ?thesis
    using a p0 by (cases "Kernel_Destroy_Mailbox s") (auto simp: Kernel_Destroy_Mailbox_def upd_mb_iff elim!: bind_SomeE)
qed

lemma kwf_Kernel_Destroy_Mailbox:
  assumes d: "Kernel_Destroy_Mailbox s = Some s'" and "kwf s"
  shows "kwf s'"
proof -
  obtain i where i: "req_arg 0 s = Some i" using d by (auto simp: Kernel_Destroy_Mailbox_def elim: bind_SomeE)
  have "i \<in> set (mb_ids s)" using destroy_mailbox_missing[OF assms(2) i] d by auto
  then obtain p where p: "p \<in> set (mbs s)" "mb_id (the (mailboxes s p)) = i" by (auto simp: mb_ids_def)
  from destroy_mailbox_found[OF assms(2) i p] d show ?thesis by (metis option.inject)
qed

section \<open>Effects of the steps\<close>

text \<open>The mailbox at \<open>mb\<close> has room for \<open>c\<close> messages, holds \<open>ms\<close>, and the tasks \<open>ws\<close> (senders) and \<open>rs\<close>
  (receivers) wait for it.\<close>

definition mb_state :: "kstate \<Rightarrow> addr \<Rightarrow> nat \<Rightarrow> addr list \<Rightarrow> addr list \<Rightarrow> addr list \<Rightarrow> bool" where
  "mb_state s mb c ms ws rs \<longleftrightarrow> kwf s \<and> mb \<noteq> NULL \<and> (\<exists>b. mailboxes s mb = Some b \<and> unat (capacity b) = c \<and>
     qitems (qelems s) (mails b) = ms \<and> qitems (qelems s) (send_queue b) = ws \<and> qitems (qelems s) (recv_queue b) = rs)"

lemma mb_state_kwf: "mb_state s mb c ms ws rs \<Longrightarrow> kwf s"
  by (simp add: mb_state_def)

lemma mb_stateE:
  assumes "mb_state s mb c ms ws rs"
  obtains b where "rd (mailboxes s) mb = Some b" and "mailboxes s mb = Some b" and "unat (capacity b) = c"
    and "qitems (qelems s) (mails b) = ms" and "qitems (qelems s) (send_queue b) = ws" and "qitems (qelems s) (recv_queue b) = rs"
    and "capacity b \<le> q_count (mails b) \<longleftrightarrow> c \<le> length ms" and "q_count (mails b) < capacity b \<longleftrightarrow> length ms < c"
    and "q_count (mails b) = 0 \<longleftrightarrow> ms = []" and "0 < q_count (mails b) \<longleftrightarrow> ms \<noteq> []"
    and "0 < q_count (send_queue b) \<longleftrightarrow> ws \<noteq> []" and "0 < q_count (recv_queue b) \<longleftrightarrow> rs \<noteq> []"
proof -
  obtain b where b: "mailboxes s mb = Some b" "unat (capacity b) = c" "qitems (qelems s) (mails b) = ms"
    "qitems (qelems s) (send_queue b) = ws" "qitems (qelems s) (recv_queue b) = rs" "mb \<noteq> NULL" "kwf s"
    using assms by (auto simp: mb_state_def)
  note K = mb_keys[OF b(1)] and R = queues_inv_at(1)[OF kwf_parts(3)[OF b(7)]]
  have n: "unat (q_count (mails b)) = length ms" using queue_rep_count[OF R[OF K(1)]] b(3) by (metis length_map qitems_def)
  have e: "0 < q_count (mails b) \<longleftrightarrow> ms \<noteq> []" "q_count (mails b) = 0 \<longleftrightarrow> ms = []"
    "0 < q_count (send_queue b) \<longleftrightarrow> ws \<noteq> []" "0 < q_count (recv_queue b) \<longleftrightarrow> rs \<noteq> []"
    using queue_rep_empty_iff[OF R[OF K(1)]] queue_rep_empty_iff[OF R[OF K(2)]] queue_rep_empty_iff[OF R[OF K(3)]]
    by (simp_all add: b(3-5)[symmetric] qitems_def)
  show ?thesis
    by (rule that[of b]) (use b n e in \<open>simp_all add: rd_def word_le_nat_alt word_less_nat_alt\<close>)
qed

text \<open>What all steps leave alone.\<close>

definition mb_frame :: "kstate \<Rightarrow> kstate \<Rightarrow> bool" where
  "mb_frame s s' \<longleftrightarrow> nodes s' = nodes s \<and> Current_Process s' = Current_Process s \<and> err s' = err s \<and>
     (\<forall>a. map_option mb_id (mailboxes s' a) = map_option mb_id (mailboxes s a))"

lemma mb_frame_trans: "mb_frame s s' \<Longrightarrow> mb_frame s' s'' \<Longrightarrow> mb_frame s s''"
  by (simp add: mb_frame_def)

lemma mb_frame_refl: "mb_frame s s"
  by (simp add: mb_frame_def)

lemma mb_state_change:
  assumes st: "mb_state s mb c ms ws rs" and b: "mailboxes s mb = Some b" and k: "kwf s'"
    and s': "mailboxes s' = (mailboxes s)(mb \<mapsto> b')" "capacity b' = capacity b"
    and it: "qitems (qelems s') (mails b') = ms'" "qitems (qelems s') (send_queue b') = ws'" "qitems (qelems s') (recv_queue b') = rs'"
  shows "mb_state s' mb c ms' ws' rs'"
  using assms by (auto simp: mb_state_def)

lemma mb_state_upd:
  assumes "mb_state s mb c ms ws rs" "kwf s'" "mailboxes s' = mailboxes s" "qelems s' = qelems s"
  shows "mb_state s' mb c ms ws rs"
  using assms by (simp add: mb_state_def)

lemma enqueue_ptr_plenty:
  assumes kwf: "kwf s" and F: "queues_of s k = Some q" and k: "key_is_ptr k" and pl: "plenty (alloc s) (Suc n)"
  obtains al h q' where "enqueue_ptr (alloc s) (qelems s) q v = Some (1, al, h, q')" and "plenty al n"
proof -
  note at = queues_inv_at[OF kwf_parts(3)[OF kwf] F]
  have ty: "is_ptr_queue q" using at(2) k by simp
  have fr: "fresh_above (alloc s) (qelems s)" using kwf by (simp add: kwf_defs)
  obtain e al where m: "malloc (alloc s) = (e, al)" "e \<noteq> NULL" "plenty al n" by (rule plenty_malloc[OF pl])
  have "enqueue_new (alloc s) (qelems s) q v \<noteq> None" using enqueue_new_None_iff[OF at(1) fr, of v] m by simp
  then obtain r al' h q' where en: "enqueue_new (alloc s) (qelems s) q v = Some (r, al', h, q')" by (metis option.exhaust prod_cases4)
  obtain e' where "r = 1" "malloc (alloc s) = (e', al')" by (rule enqueue_new_spec[OF at(1) fr en]) (rule that)
  with m en ty show ?thesis by (intro that[of al h q']) (simp_all add: enqueue_ptr_def)
qed

lemma block_sender_effect:
  assumes st: "mb_state s mb c ms ws rs" and d: "rd (pds s) p = Some d" and pl: "plenty (alloc s) (Suc n)"
  obtains s' where "block_sender p mb s = Some s'" and "mb_state s' mb c ms (ws @ [p]) rs" and "mb_frame s s'"
    and "pds s' = (pds s)(p \<mapsto> d\<lparr>state := WAIT_MAILBOX\<rparr>)" and "mail_objs s' = mail_objs s" and "bytes s' = bytes s"
    and "Kernel_Request_Cswitch s' = 1"
proof -
  obtain b where b: "rd (mailboxes s) mb = Some b" "mailboxes s mb = Some b" "qitems (qelems s) (mails b) = ms"
    "qitems (qelems s) (send_queue b) = ws" "qitems (qelems s) (recv_queue b) = rs"
    by (rule mb_stateE[OF st]) (rule that)
  note k = mb_state_kwf[OF st] and K = mb_keys[OF b(2)]
  obtain al h q where en: "enqueue_ptr (alloc s) (qelems s) (send_queue b) p = Some (1, al, h, q)"
    by (rule enqueue_ptr_plenty[OF k K(2) _ pl]) (simp, rule that)
  let ?s1 = "s\<lparr>alloc := al, qelems := h, mailboxes := (mailboxes s)(mb \<mapsto> b\<lparr>send_queue := q\<rparr>)\<rparr>"
  have u: "upd_mb mb (\<lambda>b. b\<lparr>send_queue := q\<rparr>) (s\<lparr>alloc := al, qelems := h\<rparr>) = Some ?s1"
    using b by (simp add: upd_mb_iff)
  have p: "p \<noteq> NULL" "p \<in> dom (pds s)" using d by (auto simp: rd_Some_iff)
  note E = kwf_send_enqueue[OF u en b(1) k p]
  let ?s' = "?s1\<lparr>pds := (pds s)(p \<mapsto> d\<lparr>state := WAIT_MAILBOX\<rparr>), Kernel_Request_Cswitch := 1\<rparr>"
  have w: "upd_pd p (\<lambda>d. d\<lparr>state := WAIT_MAILBOX\<rparr>) ?s1 = Some (?s1\<lparr>pds := (pds s)(p \<mapsto> d\<lparr>state := WAIT_MAILBOX\<rparr>)\<rparr>)"
    using d by (simp add: upd_pd_iff)
  have bs: "block_sender p mb s = Some ?s'" using b(1) en u w by (simp add: block_sender_def)
  have "kwf ?s'" by (rule kwf_block_sender[OF bs k])
  then have "mb_state ?s' mb c ms (ws @ [p]) rs"
    by (rule mb_state_change[OF st b(2), where b' = "b\<lparr>send_queue := q\<rparr>"]) (use E(2) E(3)[OF _ K(1)] E(3)[OF _ K(3)] b in simp_all)
  from that[OF bs this] show ?thesis by (simp add: mb_frame_def b(2))
qed

lemma block_receiver_effect:
  assumes st: "mb_state s mb c ms ws rs" and d: "cur_pd s = Some d" and pl: "plenty (alloc s) (Suc n)"
  obtains s' where "block_receiver mb s = Some s'" and "mb_state s' mb c ms ws (rs @ [Current_Process s])" and "mb_frame s s'"
    and "pds s' = (pds s)(Current_Process s \<mapsto> d\<lparr>state := WAIT_MAILBOX\<rparr>)" and "mail_objs s' = mail_objs s" and "bytes s' = bytes s"
    and "Kernel_Request_Cswitch s' = 1"
proof -
  obtain b where b: "rd (mailboxes s) mb = Some b" "mailboxes s mb = Some b" "qitems (qelems s) (mails b) = ms"
    "qitems (qelems s) (send_queue b) = ws" "qitems (qelems s) (recv_queue b) = rs"
    by (rule mb_stateE[OF st]) (rule that)
  note k = mb_state_kwf[OF st] and K = mb_keys[OF b(2)]
  let ?p = "Current_Process s"
  obtain al h q where en: "enqueue_ptr (alloc s) (qelems s) (recv_queue b) ?p = Some (1, al, h, q)"
    by (rule enqueue_ptr_plenty[OF k K(3) _ pl]) (simp, rule that)
  let ?s1 = "s\<lparr>alloc := al, qelems := h, mailboxes := (mailboxes s)(mb \<mapsto> b\<lparr>recv_queue := q\<rparr>)\<rparr>"
  have u: "upd_mb mb (\<lambda>b. b\<lparr>recv_queue := q\<rparr>) (s\<lparr>alloc := al, qelems := h\<rparr>) = Some ?s1"
    using b by (simp add: upd_mb_iff)
  have p: "?p \<noteq> NULL" "?p \<in> dom (pds s)" using d by (auto simp: cur_pd_def rd_Some_iff)
  note E = kwf_recv_enqueue[OF u en b(1) k p]
  let ?s' = "?s1\<lparr>pds := (pds s)(?p \<mapsto> d\<lparr>state := WAIT_MAILBOX\<rparr>), Kernel_Request_Cswitch := 1\<rparr>"
  have w: "upd_cur (\<lambda>d. d\<lparr>state := WAIT_MAILBOX\<rparr>) ?s1 = Some (?s1\<lparr>pds := (pds s)(?p \<mapsto> d\<lparr>state := WAIT_MAILBOX\<rparr>)\<rparr>)"
    using d by (simp add: upd_cur_iff cur_pd_def)
  have bs: "block_receiver mb s = Some ?s'" using b(1) en u w by (simp add: block_receiver_def)
  have "kwf ?s'" by (rule kwf_block_receiver[OF bs k])
  then have "mb_state ?s' mb c ms ws (rs @ [?p])"
    by (rule mb_state_change[OF st b(2), where b' = "b\<lparr>recv_queue := q\<rparr>"]) (use E(2) E(3)[OF _ K(1)] E(3)[OF _ K(2)] b in simp_all)
  from that[OF bs this] show ?thesis by (simp add: mb_frame_def b(2))
qed


lemma dequeue_ptr_Cons:
  assumes kwf: "kwf s" and F: "queues_of s k = Some q" and it: "qitems (qelems s) q = v # vs"
  obtains h q' where "dequeue_ptr (qelems s) q = Some (v, h, q')"
  using queues_inv_dequeue[OF kwf_parts(3)[OF kwf] F it] by (metis dequeue_ptr_int)

lemma next_sender_effect:
  assumes st: "mb_state s mb c ms (p # ws) rs"
  obtains s' where "next_sender mb s = Some (p, s')" and "mb_state s' mb c ms ws rs" and "mb_frame s s'"
    and "pds s' = pds s" and "mail_objs s' = mail_objs s" and "bytes s' = bytes s" and "alloc s' = alloc s"
proof -
  obtain b where b: "rd (mailboxes s) mb = Some b" "mailboxes s mb = Some b" "qitems (qelems s) (mails b) = ms"
    "qitems (qelems s) (send_queue b) = p # ws" "qitems (qelems s) (recv_queue b) = rs" "0 < q_count (send_queue b) \<longleftrightarrow> p # ws \<noteq> []"
    by (rule mb_stateE[OF st]) (rule that)
  note k = mb_state_kwf[OF st] and K = mb_keys[OF b(2)]
  obtain h q where dq: "dequeue_ptr (qelems s) (send_queue b) = Some (p, h, q)"
    by (rule dequeue_ptr_Cons[OF k K(2) b(4)])
  let ?s' = "s\<lparr>qelems := h, mailboxes := (mailboxes s)(mb \<mapsto> b\<lparr>send_queue := q\<rparr>)\<rparr>"
  have u: "upd_mb mb (\<lambda>b. b\<lparr>send_queue := q\<rparr>) (s\<lparr>qelems := h\<rparr>) = Some ?s'" using b by (simp add: upd_mb_iff)
  have n: "next_sender mb s = Some (p, ?s')" using b(1) dq u by (simp add: next_sender_def)
  have ne: "0 < q_count (send_queue b)" using b(6) by simp
  obtain vs where D: "kwf ?s'" "qitems (qelems s) (send_queue b) = p # vs" "qitems h q = vs"
    "\<And>k' p'. k' \<noteq> MbSend mb \<Longrightarrow> queues_of s k' = Some p' \<Longrightarrow> qitems h p' = qitems (qelems s) p'"
    by (rule kwf_send_dequeue[OF u dq b(1) k ne]) (rule that)
  have "mb_state ?s' mb c ms ws rs"
    by (rule mb_state_change[OF st b(2) D(1), where b' = "b\<lparr>send_queue := q\<rparr>"]) (use D(2,3) D(4)[OF _ K(1)] D(4)[OF _ K(3)] b in simp_all)
  from that[OF n this] show ?thesis by (simp add: mb_frame_def b(2))
qed

lemma next_receiver_effect:
  assumes st: "mb_state s mb c ms ws (p # rs)"
  obtains s' where "next_receiver mb s = Some (p, s')" and "mb_state s' mb c ms ws rs" and "mb_frame s s'"
    and "pds s' = pds s" and "mail_objs s' = mail_objs s" and "bytes s' = bytes s" and "alloc s' = alloc s"
proof -
  obtain b where b: "rd (mailboxes s) mb = Some b" "mailboxes s mb = Some b" "qitems (qelems s) (mails b) = ms"
    "qitems (qelems s) (send_queue b) = ws" "qitems (qelems s) (recv_queue b) = p # rs" "0 < q_count (recv_queue b) \<longleftrightarrow> p # rs \<noteq> []"
    by (rule mb_stateE[OF st]) (rule that)
  note k = mb_state_kwf[OF st] and K = mb_keys[OF b(2)]
  obtain h q where dq: "dequeue_ptr (qelems s) (recv_queue b) = Some (p, h, q)"
    by (rule dequeue_ptr_Cons[OF k K(3) b(5)])
  let ?s' = "s\<lparr>qelems := h, mailboxes := (mailboxes s)(mb \<mapsto> b\<lparr>recv_queue := q\<rparr>)\<rparr>"
  have u: "upd_mb mb (\<lambda>b. b\<lparr>recv_queue := q\<rparr>) (s\<lparr>qelems := h\<rparr>) = Some ?s'" using b by (simp add: upd_mb_iff)
  have n: "next_receiver mb s = Some (p, ?s')" using b(1) dq u by (simp add: next_receiver_def)
  have ne: "0 < q_count (recv_queue b)" using b(6) by simp
  obtain vs where D: "kwf ?s'" "qitems (qelems s) (recv_queue b) = p # vs" "qitems h q = vs"
    "\<And>k' p'. k' \<noteq> MbRecv mb \<Longrightarrow> queues_of s k' = Some p' \<Longrightarrow> qitems h p' = qitems (qelems s) p'"
    by (rule kwf_recv_dequeue[OF u dq b(1) k ne]) (rule that)
  have "mb_state ?s' mb c ms ws rs"
    by (rule mb_state_change[OF st b(2) D(1), where b' = "b\<lparr>recv_queue := q\<rparr>"]) (use D(2,3) D(4)[OF _ K(1)] D(4)[OF _ K(2)] b in simp_all)
  from that[OF n this] show ?thesis by (simp add: mb_frame_def b(2))
qed

lemma copy_mail: "y\<lparr>mail_ptr := mail_ptr x, mail_size := mail_size x, mail_source := mail_source x\<rparr> = (x :: MAIL)"
  by (cases x; cases y) simp

lemma take_mail_effect:
  assumes st: "mb_state s mb c (m # ms) ws rs" and dest: "dest \<noteq> NULL" "dest \<in> dom (mail_objs s)" "dest \<noteq> m"
    and x: "mail_objs s m = Some x"
  obtains s' where "take_mail mb dest s = Some s'" and "mb_state s' mb c ms ws rs" and "mb_frame s s'"
    and "pds s' = pds s" and "mail_objs s' = (mail_objs s)(dest \<mapsto> x, m := None)" and "bytes s' = bytes s" and "alloc s' = alloc s"
proof -
  obtain b where b: "rd (mailboxes s) mb = Some b" "mailboxes s mb = Some b" "qitems (qelems s) (mails b) = m # ms"
    "qitems (qelems s) (send_queue b) = ws" "qitems (qelems s) (recv_queue b) = rs" "0 < q_count (mails b) \<longleftrightarrow> m # ms \<noteq> []"
    by (rule mb_stateE[OF st]) (rule that)
  note k = mb_state_kwf[OF st] and K = mb_keys[OF b(2)]
  have m0: "m \<noteq> NULL" using queues_inv_at(3)[OF kwf_parts(3)[OF k] K(1), of m] b(3) by simp
  obtain h q where dq: "dequeue_ptr (qelems s) (mails b) = Some (m, h, q)"
    by (rule dequeue_ptr_Cons[OF k K(1) b(3)])
  let ?s1 = "s\<lparr>qelems := h, mailboxes := (mailboxes s)(mb \<mapsto> b\<lparr>mails := q\<rparr>)\<rparr>"
  have u: "upd_mb mb (\<lambda>b. b\<lparr>mails := q\<rparr>) (s\<lparr>qelems := h\<rparr>) = Some ?s1" using b by (simp add: upd_mb_iff)
  have ne: "0 < q_count (mails b)" using b(6) by simp
  obtain vs where D: "kwf ?s1" "qitems (qelems s) (mails b) = m # vs" "qitems h q = vs"
    "\<And>k' p'. k' \<noteq> MbMails mb \<Longrightarrow> queues_of s k' = Some p' \<Longrightarrow> qitems h p' = qitems (qelems s) p'"
    by (rule kwf_mails_dequeue[OF u dq b(1) k ne]) (rule that)
  have w: "upd_mail dest (\<lambda>y. y\<lparr>mail_ptr := mail_ptr x, mail_size := mail_size x, mail_source := mail_source x\<rparr>) ?s1 =
      Some (?s1\<lparr>mail_objs := (mail_objs s)(dest \<mapsto> x)\<rparr>)"
    using dest(1,2) by (auto simp: upd_mail_iff rd_def copy_mail)
  let ?s' = "?s1\<lparr>mail_objs := (mail_objs s)(dest \<mapsto> x, m := None)\<rparr>"
  have t: "take_mail mb dest s = Some ?s'"
    using b(1) dq u w x m0 dest(3) by (simp add: take_mail_def rd_def free_def)
  have "kwf ?s'" by (rule kwf_take_mail[OF t k b(1)]) (use ne in auto)
  then have "mb_state ?s' mb c ms ws rs"
    by (rule mb_state_change[OF st b(2), where b' = "b\<lparr>mails := q\<rparr>"]) (use D(2,3) D(4)[OF _ K(2)] D(4)[OF _ K(3)] b in simp_all)
  from that[OF t this] show ?thesis by (simp add: mb_frame_def b(2))
qed

lemma put_mail_effect:
  assumes st: "mb_state s mb c ms ws rs" and d: "rd (pds s) p = Some d"
    and src: "rd (bytes s) msg = Some src" "unat n \<le> length src" and pl: "plenty (alloc s) (Suc (Suc (Suc k)))"
  obtains s' m t where "put_mail p mb msg n s = Some (True, s')" and "mb_state s' mb c (ms @ [m]) ws rs" and "mb_frame s s'"
    and "pds s' = pds s" and "mail_objs s' = (mail_objs s)(m \<mapsto> \<lparr>mail_ptr = t, mail_size = n, mail_source = pid d\<rparr>)"
    and "mail_objs s m = None" and "m \<noteq> NULL" and "bytes s' = (bytes s)(t \<mapsto> take (unat n) src)" and "bytes s t = None" and "t \<noteq> NULL"
    and "plenty (alloc s') k"
proof -
  obtain b where b: "rd (mailboxes s) mb = Some b" "mailboxes s mb = Some b" "qitems (qelems s) (mails b) = ms"
    "qitems (qelems s) (send_queue b) = ws" "qitems (qelems s) (recv_queue b) = rs"
    by (rule mb_stateE[OF st]) (rule that)
  note kwf = mb_state_kwf[OF st] and K = mb_keys[OF b(2)]
  obtain m al1 where m: "malloc (alloc s) = (m, al1)" "m \<noteq> NULL" "plenty al1 (Suc (Suc k))" by (rule plenty_malloc[OF pl])
  obtain t al2 where t: "malloc al1 = (t, al2)" "t \<noteq> NULL" "plenty al2 (Suc k)" by (rule plenty_malloc[OF m(3)])
  have mk: "malloc_k s = (m, s\<lparr>alloc := al1\<rparr>)" using m(1) by (simp add: malloc_k_def)
  note N = kwf_new_mail[OF kwf mk m(2)]
  let ?x = "\<lparr>mail_ptr = t, mail_size = n, mail_source = pid d\<rparr>"
  let ?s5 = "s\<lparr>alloc := al2, mail_objs := (mail_objs s)(m \<mapsto> ?x)\<rparr>"
  let ?s6 = "?s5\<lparr>bytes := (bytes s)(t \<mapsto> take (unat n) src)\<rparr>"
  have k3: "kwf (s\<lparr>alloc := al1, mail_objs := (mail_objs s)(m \<mapsto> y)\<rparr>)" for y
    using kwf_new_mail(1)[OF kwf mk m(2), of y] m(2) by (simp add: put_obj_def)
  let ?s3 = "s\<lparr>alloc := al1, mail_objs := (mail_objs s)(m \<mapsto> ?x)\<rparr>"
  have mk2: "malloc_k ?s3 = (t, ?s5)" using t(1) by (simp add: malloc_k_def)
  have k5: "kwf ?s5" by (rule kwf_malloc_k[OF k3 mk2])
  have k6: "kwf ?s6" and nt: "bytes s t = None" using kwf_new_bytes[OF k3 mk2 t(2) k5] by simp_all
  have F6: "queues_of ?s6 (MbMails mb) = Some (mails b)" using K(1) by simp
  have p6: "plenty (alloc ?s6) (Suc k)" using t(3) by simp
  obtain al3 h q where en: "enqueue_ptr (alloc ?s6) (qelems ?s6) (mails b) m = Some (1, al3, h, q)" "plenty al3 k"
    by (rule enqueue_ptr_plenty[OF k6 F6 _ p6]) (simp, rule that)
  let ?s' = "?s6\<lparr>alloc := al3, qelems := h, mailboxes := (mailboxes s)(mb \<mapsto> b\<lparr>mails := q\<rparr>)\<rparr>"
  have u: "upd_mb mb (\<lambda>b. b\<lparr>mails := q\<rparr>) (?s6\<lparr>alloc := al3, qelems := h\<rparr>) = Some ?s'" using b by (simp add: upd_mb_iff)
  have b6: "rd (mailboxes ?s6) mb = Some b" using b by simp
  have m6: "m \<in> dom (mail_objs ?s6)" by simp
  have N6: "m \<notin> all_mails (qelems ?s6) (queues_of ?s6)" using N(2) by simp
  note E = kwf_mails_enqueue[OF u en(1) b6 k6 m(2) m6 N6]
  have "t \<noteq> msg" using src(1) nt by (auto simp: rd_Some_iff)
  then have pm: "put_mail p mb msg n s = Some (True, ?s')"
    using d[unfolded rd_Some_iff] src[unfolded rd_Some_iff] m t b en(1) by (simp add: put_mail_def malloc_k_def put_obj_def upd_mail_def upd_mb_def wr_def rd_def)
  have "mb_state ?s' mb c (ms @ [m]) ws rs"
    by (rule mb_state_change[OF st b(2) E(1), where b' = "b\<lparr>mails := q\<rparr>"])
      (use E(2) E(3)[of "MbSend mb"] E(3)[of "MbRecv mb"] K b in simp_all)
  from that[OF pm this] show ?thesis using N(3) m(2) nt t(2) en(2) by (simp add: mb_frame_def b(2))
qed

section \<open>Sending and receiving one message\<close>

lemma recv_from_queue_stop:
  assumes "mb_state s mb c ms ws rs" "rs = [] \<or> ms = []"
  shows "mailbox_call (Recv_From_Queue mb) s = Some (0, s)"
  by (rule mb_stateE[OF assms(1)]) (use assms(2) in \<open>subst mailbox_call.simps, auto\<close>)

lemma send_from_queue_stop:
  assumes "mb_state s mb c ms ws rs" "ws = [] \<or> c \<le> length ms"
  shows "mailbox_call (Send_From_Queue mb) s = Some (0, s)"
  by (rule mb_stateE[OF assms(1)]) (use assms(2) in \<open>subst mailbox_call.simps, auto\<close>)

lemma recv_one:
  assumes st: "mb_state s mb c (m # ms) [] rs" and t: "take_mail mb dest s = Some s'" and st': "mb_state s' mb c ms [] rs"
  shows "mailbox_call (Recv_Internal r mb dest blk) s = Some (1, s')"
proof -
  obtain b where b: "rd (mailboxes s) mb = Some b" "q_count (mails b) = 0 \<longleftrightarrow> m # ms = []"
    by (rule mb_stateE[OF st]) (rule that)
  obtain b' where b': "rd (mailboxes s') mb = Some b'" "0 < q_count (send_queue b') \<longleftrightarrow> ([] :: addr list) \<noteq> []"
    by (rule mb_stateE[OF st']) (rule that)
  have ne: "q_count (mails b) \<noteq> 0" "\<not> 0 < q_count (send_queue b')" using b(2) b'(2) by simp_all
  show ?thesis by (subst mailbox_call.simps) (simp add: b(1) b'(1) ne t)
qed

lemma send_one:
  assumes st: "mb_state s mb c ms ws []" and l: "length ms < c" and t: "put_mail p mb msg n s = Some (True, s')" and st': "mb_state s' mb c ms' ws []"
  shows "mailbox_call (Send_Internal p mb msg n blk) s = Some (1, s')"
proof -
  obtain b where b: "rd (mailboxes s) mb = Some b" "capacity b \<le> q_count (mails b) \<longleftrightarrow> c \<le> length ms"
    by (rule mb_stateE[OF st]) (rule that)
  obtain b' where b': "rd (mailboxes s') mb = Some b'" "0 < q_count (recv_queue b') \<longleftrightarrow> ([] :: addr list) \<noteq> []"
    by (rule mb_stateE[OF st']) (rule that)
  have ne: "\<not> capacity b \<le> q_count (mails b)" "\<not> 0 < q_count (recv_queue b')" using b(2) b'(2) l by simp_all
  show ?thesis by (subst mailbox_call.simps) (simp add: b(1) b'(1) ne t)
qed

text \<open>The message that has just arrived goes to the first waiting receiver.\<close>

lemma deliver:
  assumes st: "mb_state s mb c [m] [] (r # rs)" and d: "rd (pds s) r = Some d" "state d = WAIT_MAILBOX"
    and dest: "request_args d 1 \<noteq> NULL" "request_args d 1 \<in> dom (mail_objs s)" "request_args d 1 \<noteq> m" and x: "mail_objs s m = Some x"
  obtains s' where "mailbox_call (Recv_From_Queue mb) s = Some (0, s')" and "mb_state s' mb c [] [] rs" and "mb_frame s s'"
    and "pds s' = (pds s)(r \<mapsto> d\<lparr>state := READY\<rparr>)" and "mail_objs s' = (mail_objs s)(request_args d 1 \<mapsto> x, m := None)"
    and "bytes s' = bytes s" and "alloc s' = alloc s"
proof -
  obtain b where b: "rd (mailboxes s) mb = Some b" "0 < q_count (recv_queue b) \<longleftrightarrow> r # rs \<noteq> []" "0 < q_count (mails b) \<longleftrightarrow> [m] \<noteq> []"
    by (rule mb_stateE[OF st]) (rule that)
  have ne: "0 < q_count (recv_queue b)" "0 < q_count (mails b)" using b(2,3) by simp_all
  obtain s1 where s1: "next_receiver mb s = Some (r, s1)" "mb_state s1 mb c [m] [] rs" "mb_frame s s1" "pds s1 = pds s"
    "mail_objs s1 = mail_objs s" "bytes s1 = bytes s" "alloc s1 = alloc s"
    by (rule next_receiver_effect[OF st]) (rule that)
  have dest1: "request_args d 1 \<in> dom (mail_objs s1)" "mail_objs s1 m = Some x" using dest(2) x s1(5) by simp_all
  obtain s2 where s2: "take_mail mb (request_args d 1) s1 = Some s2" "mb_state s2 mb c [] [] rs" "mb_frame s1 s2" "pds s2 = pds s1"
    "mail_objs s2 = (mail_objs s1)(request_args d 1 \<mapsto> x, m := None)" "bytes s2 = bytes s1" "alloc s2 = alloc s1"
    by (rule take_mail_effect[OF s1(2) dest(1) dest1(1) dest(3) dest1(2)]) (rule that)
  note c1 = recv_one[OF s1(2) s2(1,2), of r 0]
  let ?s3 = "s2\<lparr>pds := (pds s)(r \<mapsto> d\<lparr>state := READY\<rparr>)\<rparr>"
  have u: "upd_pd r (\<lambda>d. d\<lparr>state := READY\<rparr>) s2 = Some ?s3" using d(1) s1(4) s2(4) by (simp add: upd_pd_iff)
  have "kwf ?s3" by (rule kwf_upd_pd[OF u mb_state_kwf[OF s2(2)]]) simp
  then have st3: "mb_state ?s3 mb c [] [] rs" by (rule mb_state_upd[OF s2(2)]) simp_all
  have stop: "mailbox_call (Recv_From_Queue mb) ?s3 = Some (0, ?s3)" by (rule recv_from_queue_stop[OF st3]) simp
  have "mailbox_call (Recv_From_Queue mb) s = Some (0, ?s3)"
    by (subst mailbox_call.simps) (use b(1) ne s1(1,4) d c1 u stop in simp)
  from that[OF this st3] show ?thesis using s1 s2 by (simp add: mb_frame_def)
qed

text \<open>The free place goes to the first waiting sender.\<close>

lemma accept_sender:
  assumes st: "mb_state s mb c ms (p # ws) []" and l: "Suc (length ms) = c" and d: "rd (pds s) p = Some d" "state d = WAIT_MAILBOX"
    and src: "rd (bytes s) (request_args d 1) = Some src" "unat (request_args d 2) \<le> length src" and pl: "plenty (alloc s) (Suc (Suc (Suc k)))"
  obtains s' m t where "mailbox_call (Send_From_Queue mb) s = Some (0, s')" and "mb_state s' mb c (ms @ [m]) ws []" and "mb_frame s s'"
    and "pds s' = (pds s)(p \<mapsto> d\<lparr>state := READY\<rparr>)"
    and "mail_objs s' = (mail_objs s)(m \<mapsto> \<lparr>mail_ptr = t, mail_size = request_args d 2, mail_source = pid d\<rparr>)"
    and "mail_objs s m = None" and "bytes s' = (bytes s)(t \<mapsto> take (unat (request_args d 2)) src)" and "bytes s t = None" and "t \<noteq> NULL"
proof -
  obtain b where b: "rd (mailboxes s) mb = Some b" "0 < q_count (send_queue b) \<longleftrightarrow> p # ws \<noteq> []" "q_count (mails b) < capacity b \<longleftrightarrow> length ms < c"
    by (rule mb_stateE[OF st]) (rule that)
  have ne: "0 < q_count (send_queue b)" "q_count (mails b) < capacity b" using b(2,3) l by simp_all
  obtain s1 where s1: "next_sender mb s = Some (p, s1)" "mb_state s1 mb c ms ws []" "mb_frame s s1" "pds s1 = pds s"
    "mail_objs s1 = mail_objs s" "bytes s1 = bytes s" "alloc s1 = alloc s"
    by (rule next_sender_effect[OF st]) (rule that)
  have h: "rd (pds s1) p = Some d" "rd (bytes s1) (request_args d 1) = Some src" "plenty (alloc s1) (Suc (Suc (Suc k)))"
    using d(1) src(1) pl s1 by simp_all
  obtain s2 m t where s2: "put_mail p mb (request_args d 1) (request_args d 2) s1 = Some (True, s2)" "mb_state s2 mb c (ms @ [m]) ws []"
    "mb_frame s1 s2" "pds s2 = pds s1" "mail_objs s2 = (mail_objs s1)(m \<mapsto> \<lparr>mail_ptr = t, mail_size = request_args d 2, mail_source = pid d\<rparr>)"
    "mail_objs s1 m = None" "m \<noteq> NULL" "bytes s2 = (bytes s1)(t \<mapsto> take (unat (request_args d 2)) src)" "bytes s1 t = None" "t \<noteq> NULL"
    "plenty (alloc s2) k"
    by (rule put_mail_effect[OF s1(2) h(1,2) src(2) h(3)]) (rule that)
  have lt: "length ms < c" using l by simp
  note c1 = send_one[OF s1(2) lt s2(1,2), of 0]
  let ?s3 = "s2\<lparr>pds := (pds s)(p \<mapsto> d\<lparr>state := READY\<rparr>)\<rparr>"
  have u: "upd_pd p (\<lambda>d. d\<lparr>state := READY\<rparr>) s2 = Some ?s3" using d(1) s1(4) s2(4) by (simp add: upd_pd_iff)
  have "kwf ?s3" by (rule kwf_upd_pd[OF u mb_state_kwf[OF s2(2)]]) simp
  then have st3: "mb_state ?s3 mb c (ms @ [m]) ws []" by (rule mb_state_upd[OF s2(2)]) simp_all
  have stop: "mailbox_call (Send_From_Queue mb) ?s3 = Some (0, ?s3)" by (rule send_from_queue_stop[OF st3]) (simp add: l)
  have "mailbox_call (Send_From_Queue mb) s = Some (0, ?s3)"
    by (subst mailbox_call.simps) (use b(1) ne s1(1,4) d c1 u stop in simp)
  from that[OF this st3] show ?thesis using s1 s2 by (simp add: mb_frame_def)
qed

section \<open>The mailbox as a specification\<close>

text \<open>
  A message is its sender's pid, its size and its text. The abstract mailbox: its limit, its
  messages, the waiting senders and the waiting receivers, each in order.
\<close>

type_synonym message = "u16 \<times> u16 \<times> u8 list"

record mb_spec =
  limit :: nat
  msgs :: "message list"
  senders :: "addr list"
  receivers :: "addr list"

definition msg :: "kstate \<Rightarrow> addr \<Rightarrow> message" where
  "msg s m = (let x = the (mail_objs s m) in (mail_source x, mail_size x, the (bytes s (mail_ptr x))))"

text \<open>The message that the request arguments of the task \<open>p\<close> describe.\<close>

definition out_msg :: "kstate \<Rightarrow> addr \<Rightarrow> message" where
  "out_msg s p = (let d = the (pds s p) in
     (pid d, request_args d 2, take (unat (request_args d 2)) (the (bytes s (request_args d 1)))))"

definition mb_view :: "kstate \<Rightarrow> addr \<Rightarrow> mb_spec" where
  "mb_view s mb = (let b = the (mailboxes s mb) in
     \<lparr>limit = unat (capacity b), msgs = map (msg s) (qitems (qelems s) (mails b)),
      senders = qitems (qelems s) (send_queue b), receivers = qitems (qelems s) (recv_queue b)\<rparr>)"

definition spec_send :: "bool \<Rightarrow> addr \<Rightarrow> message \<Rightarrow> mb_spec \<Rightarrow> mb_spec" where
  "spec_send blk p x v =
     (if limit v \<le> length (msgs v) then if blk then v\<lparr>senders := senders v @ [p]\<rparr> else v
      else case receivers v of
          [] \<Rightarrow> v\<lparr>msgs := msgs v @ [x]\<rparr>
        | r # rs \<Rightarrow> v\<lparr>receivers := rs\<rparr>)"

definition spec_recv :: "bool \<Rightarrow> addr \<Rightarrow> (addr \<Rightarrow> message) \<Rightarrow> mb_spec \<Rightarrow> mb_spec" where
  "spec_recv blk p out v = (case msgs v of
       [] \<Rightarrow> if blk then v\<lparr>receivers := receivers v @ [p]\<rparr> else v
     | x # xs \<Rightarrow> (case senders v of
           [] \<Rightarrow> v\<lparr>msgs := xs\<rparr>
         | q # qs \<Rightarrow> v\<lparr>msgs := xs @ [out q], senders := qs\<rparr>))"

lemma mb_state_view:
  "mb_state s mb c ms ws rs \<Longrightarrow> mb_view s mb = \<lparr>limit = c, msgs = map (msg s) ms, senders = ws, receivers = rs\<rparr>"
  by (auto simp: mb_state_def mb_view_def)

text \<open>
  The invariant of a mailbox: it is not over its limit, nobody waits for a message while there is
  one, nobody waits for room while there is room, a task waits once, and the waiting tasks have
  valid requests.
\<close>

definition text_ok :: "kstate \<Rightarrow> addr \<Rightarrow> bool" where
  "text_ok s m \<longleftrightarrow> (\<exists>x. mail_objs s m = Some x \<and> mail_ptr x \<in> dom (bytes s))"

definition sender_ok :: "kstate \<Rightarrow> addr \<Rightarrow> bool" where
  "sender_ok s p \<longleftrightarrow> (\<exists>d src. rd (pds s) p = Some d \<and> state d = WAIT_MAILBOX \<and>
     rd (bytes s) (request_args d 1) = Some src \<and> unat (request_args d 2) \<le> length src)"

definition receiver_ok :: "kstate \<Rightarrow> addr \<Rightarrow> bool" where
  "receiver_ok s p \<longleftrightarrow> (\<exists>d. rd (pds s) p = Some d \<and> state d = WAIT_MAILBOX \<and>
     request_args d 1 \<noteq> NULL \<and> request_args d 1 \<in> dom (mail_objs s))"

definition mb_ok :: "kstate \<Rightarrow> nat \<Rightarrow> addr list \<Rightarrow> addr list \<Rightarrow> addr list \<Rightarrow> bool" where
  "mb_ok s c ms ws rs \<longleftrightarrow> length ms \<le> c \<and> (ms \<noteq> [] \<longrightarrow> rs = []) \<and> (length ms < c \<longrightarrow> ws = []) \<and> distinct (ws @ rs) \<and>
     (\<forall>m \<in> set ms. text_ok s m) \<and> (\<forall>p \<in> set ws. sender_ok s p) \<and> (\<forall>p \<in> set rs. receiver_ok s p)"

definition mailbox_ok :: "kstate \<Rightarrow> addr \<Rightarrow> bool" where
  "mailbox_ok s mb \<longleftrightarrow> (\<exists>c ms ws rs. mb_state s mb c ms ws rs \<and> mb_ok s c ms ws rs)"

lemma mailbox_okI: "mb_state s mb c ms ws rs \<Longrightarrow> mb_ok s c ms ws rs \<Longrightarrow> mailbox_ok s mb"
  unfolding mailbox_ok_def by blast

text \<open>Texts stay where they are.\<close>

definition bytes_ext :: "kstate \<Rightarrow> kstate \<Rightarrow> bool" where
  "bytes_ext s s' \<longleftrightarrow> (\<forall>a l. bytes s a = Some l \<longrightarrow> bytes s' a = Some l)"

lemma bytes_extI:
  "bytes s' = bytes s \<Longrightarrow> bytes_ext s s'"
  "bytes s t = None \<Longrightarrow> bytes s' = (bytes s)(t \<mapsto> l) \<Longrightarrow> bytes_ext s s'"
  by (auto simp: bytes_ext_def)

lemma text_ok_mono: "text_ok s m \<Longrightarrow> bytes_ext s s' \<Longrightarrow> mail_objs s' m = mail_objs s m \<Longrightarrow> text_ok s' m"
  unfolding text_ok_def bytes_ext_def by (metis domIff option.exhaust)

lemma msg_mono: "text_ok s m \<Longrightarrow> bytes_ext s s' \<Longrightarrow> mail_objs s' m = mail_objs s m \<Longrightarrow> msg s' m = msg s m"
  by (auto simp: text_ok_def bytes_ext_def msg_def Let_def)

lemma sender_ok_mono: "sender_ok s p \<Longrightarrow> bytes_ext s s' \<Longrightarrow> pds s' p = pds s p \<Longrightarrow> sender_ok s' p"
  by (auto simp: sender_ok_def bytes_ext_def rd_def split: if_splits)

lemma receiver_ok_mono:
  "receiver_ok s p \<Longrightarrow> dom (mail_objs s) \<subseteq> dom (mail_objs s') \<Longrightarrow> pds s' p = pds s p \<Longrightarrow> receiver_ok s' p"
  unfolding receiver_ok_def rd_def by (metis subsetD)

lemma waiting_state:
  "sender_ok s p \<Longrightarrow> pds s p = Some d \<Longrightarrow> state d = WAIT_MAILBOX"
  "receiver_ok s p \<Longrightarrow> pds s p = Some d \<Longrightarrow> state d = WAIT_MAILBOX"
  by (auto simp: sender_ok_def receiver_ok_def rd_def split: if_splits)

lemma mb_ok_lists:
  assumes "mb_ok s c ms ws rs"
  shows "length ms \<le> c" "ms \<noteq> [] \<Longrightarrow> rs = []" "length ms < c \<Longrightarrow> ws = []" "distinct (ws @ rs)"
    "\<And>m. m \<in> set ms \<Longrightarrow> text_ok s m" "\<And>p. p \<in> set ws \<Longrightarrow> sender_ok s p" "\<And>p. p \<in> set rs \<Longrightarrow> receiver_ok s p"
  using assms by (auto simp: mb_ok_def)

lemma msg_in_objs: "mb_state s mb c ms ws rs \<Longrightarrow> m \<in> set ms \<Longrightarrow> m \<in> dom (mail_objs s)"
  using queues_inv_at(3)[OF kwf_parts(3) mb_keys(1)] by (fastforce simp: mb_state_def)

lemma msgs_distinct: "mb_state s mb c ms ws rs \<Longrightarrow> distinct ms"
  using queues_inv_sep[OF kwf_parts(3)] mb_keys(1)[of s mb]
  unfolding mails_sep_def mb_state_def by (metis is_mails.simps(1))

text \<open>A result written to a task that does not wait changes nothing.\<close>

lemma mb_ok_pd:
  assumes st: "mb_state s mb c ms ws rs" and ok: "mb_ok s c ms ws rs" and p: "rd (pds s) p = Some d" "p \<notin> set ws" "p \<notin> set rs"
    and u: "upd_cur f s = Some s'" "Current_Process s = p" "\<And>d. pid (f d) = pid d"
  shows "mb_state s' mb c ms ws rs" and "mb_ok s' c ms ws rs" and "msg s' = msg s" and "pds s' = (pds s)(p \<mapsto> f d)"
    and "mail_objs s' = mail_objs s" and "bytes s' = bytes s"
proof -
  have s': "s' = s\<lparr>pds := (pds s)(p \<mapsto> f d)\<rparr>" using u p by (auto simp: upd_cur_iff cur_pd_def)
  have "kwf s'" by (rule kwf_upd_cur[OF u(1) mb_state_kwf[OF st] u(3)])
  then show "mb_state s' mb c ms ws rs" by (rule mb_state_upd[OF st]) (simp_all add: s')
  have e: "bytes_ext s s'" "dom (mail_objs s) \<subseteq> dom (mail_objs s')" by (auto simp: s' bytes_ext_def)
  have same: "pds s' q = pds s q" if "q \<in> set ws \<or> q \<in> set rs" for q using that p by (auto simp: s')
  note L = mb_ok_lists[OF ok]
  show "mb_ok s' c ms ws rs"
    unfolding mb_ok_def using L(1-4) text_ok_mono[OF L(5) e(1)] sender_ok_mono[OF L(6) e(1) same] receiver_ok_mono[OF L(7) e(2) same]
    by (simp add: s')
  show "msg s' = msg s" by (rule ext) (simp add: s' msg_def)
  show "pds s' = (pds s)(p \<mapsto> f d)" "mail_objs s' = mail_objs s" "bytes s' = bytes s" by (simp_all add: s')
qed


section \<open>The cases of sending\<close>

lemma send_full_blocks:
  assumes st: "mb_state s mb c ms ws rs" and ok: "mb_ok s c ms ws rs" and full: "c \<le> length ms"
    and d: "rd (pds s) p = Some d" "p \<notin> set ws" "p \<notin> set rs" and src: "rd (bytes s) (request_args d 1) = Some src" "unat (request_args d 2) \<le> length src"
    and pl: "plenty (alloc s) (Suc n)" and blk: "blk \<noteq> 0"
  obtains s' where "mailbox_call (Send_Internal p mb msg_ptr msg_size blk) s = Some (- 1, s')" and "mb_state s' mb c ms (ws @ [p]) rs"
    and "mb_ok s' c ms (ws @ [p]) rs" and "map (msg s') ms = map (msg s) ms" and "pds s' = (pds s)(p \<mapsto> d\<lparr>state := WAIT_MAILBOX\<rparr>)"
    and "mb_frame s s'"
proof -
  obtain b where b: "rd (mailboxes s) mb = Some b" "capacity b \<le> q_count (mails b) \<longleftrightarrow> c \<le> length ms"
    by (rule mb_stateE[OF st]) (rule that)
  obtain s' where s': "block_sender p mb s = Some s'" "mb_state s' mb c ms (ws @ [p]) rs"
    "pds s' = (pds s)(p \<mapsto> d\<lparr>state := WAIT_MAILBOX\<rparr>)" "mail_objs s' = mail_objs s" "bytes s' = bytes s" "mb_frame s s'"
    by (rule block_sender_effect[OF st d(1) pl]) (rule that)
  have call: "mailbox_call (Send_Internal p mb msg_ptr msg_size blk) s = Some (- 1, s')"
    by (subst mailbox_call.simps) (use b full blk s'(1) in simp)
  note e = bytes_extI(1)[OF s'(5)] and L = mb_ok_lists[OF ok]
  have same: "pds s' q = pds s q" if "q \<in> set ws \<or> q \<in> set rs" for q using that d s'(3) by auto
  have "sender_ok s' p" using d(1) src s'(3,5) by (auto simp: sender_ok_def rd_def split: if_splits)
  then have "mb_ok s' c ms (ws @ [p]) rs"
    unfolding mb_ok_def using L(1,2,4) full d(2,3) sender_ok_mono[OF L(6) e same] receiver_ok_mono[OF L(7) _ same] text_ok_mono[OF L(5) e] s'(4)
    by auto
  moreover have "map (msg s') ms = map (msg s) ms" using msg_mono[OF L(5) e] s'(4) by simp
  ultimately show ?thesis using that[OF call s'(2)] s'(3,6) by blast
qed

lemma send_room:
  assumes st: "mb_state s mb c ms ws []" and ok: "mb_ok s c ms ws []" and room: "length ms < c"
    and d: "rd (pds s) p = Some d" and src: "rd (bytes s) msg_ptr = Some src" "unat n \<le> length src" and pl: "plenty (alloc s) (Suc (Suc (Suc k)))"
  obtains s' m where "mailbox_call (Send_Internal p mb msg_ptr n blk) s = Some (1, s')" and "mb_state s' mb c (ms @ [m]) ws []"
    and "mb_ok s' c (ms @ [m]) ws []" and "map (msg s') (ms @ [m]) = map (msg s) ms @ [(pid d, n, take (unat n) src)]" and "pds s' = pds s"
    and "mb_frame s s'"
proof -
  obtain s' m t where s': "put_mail p mb msg_ptr n s = Some (True, s')" "mb_state s' mb c (ms @ [m]) ws []" "pds s' = pds s"
    "mail_objs s' = (mail_objs s)(m \<mapsto> \<lparr>mail_ptr = t, mail_size = n, mail_source = pid d\<rparr>)" "mail_objs s m = None"
    "bytes s' = (bytes s)(t \<mapsto> take (unat n) src)" "bytes s t = None" "mb_frame s s'"
    by (rule put_mail_effect[OF st d src pl]) (rule that)
  note e = bytes_extI(2)[OF s'(7,6)] and L = mb_ok_lists[OF ok]
  have same: "mail_objs s' x = mail_objs s x" if "x \<in> set ms" for x
    using msg_in_objs[OF st that] s'(4,5) by auto
  have "text_ok s' m" using s'(4,6) by (simp add: text_ok_def)
  then have "mb_ok s' c (ms @ [m]) ws []"
    unfolding mb_ok_def using L(1,3,4) room text_ok_mono[OF L(5) e same] by auto
  moreover have "map (msg s') (ms @ [m]) = map (msg s) ms @ [(pid d, n, take (unat n) src)]"
    using msg_mono[OF L(5) e same] s'(4,6) by (simp add: msg_def)
  ultimately show ?thesis using that[OF send_one[OF st room s'(1,2)] s'(2)] s'(3,8) by blast
qed

lemma send_delivered:
  assumes st: "mb_state s mb c [] [] (r # rs)" and ok: "mb_ok s c [] [] (r # rs)" and room: "0 < c"
    and d: "rd (pds s) p = Some d" and src: "rd (bytes s) msg_ptr = Some src" "unat n \<le> length src" and pl: "plenty (alloc s) (Suc (Suc (Suc k)))"
  obtains s' dr where "mailbox_call (Send_Internal p mb msg_ptr n blk) s = Some (1, s')" and "mb_state s' mb c [] [] rs"
    and "mb_ok s' c [] [] rs" and "pds s r = Some dr" and "pds s' = (pds s)(r \<mapsto> dr\<lparr>state := READY\<rparr>)"
    and "msg s' (request_args dr 1) = (pid d, n, take (unat n) src)" and "mb_frame s s'"
proof -
  note L = mb_ok_lists[OF ok]
  obtain dr where dr: "rd (pds s) r = Some dr" "state dr = WAIT_MAILBOX" "request_args dr 1 \<noteq> NULL" "request_args dr 1 \<in> dom (mail_objs s)"
    using L(7)[of r] by (auto simp: receiver_ok_def)
  obtain b where b: "rd (mailboxes s) mb = Some b" "capacity b \<le> q_count (mails b) \<longleftrightarrow> c \<le> length ([] :: addr list)"
    by (rule mb_stateE[OF st]) (rule that)
  obtain s1 m t where s1: "put_mail p mb msg_ptr n s = Some (True, s1)" "mb_state s1 mb c ([] @ [m]) [] (r # rs)" "pds s1 = pds s"
    "mail_objs s1 = (mail_objs s)(m \<mapsto> \<lparr>mail_ptr = t, mail_size = n, mail_source = pid d\<rparr>)" "mail_objs s m = None"
    "bytes s1 = (bytes s)(t \<mapsto> take (unat n) src)" "bytes s t = None" "mb_frame s s1"
    by (rule put_mail_effect[OF st d src pl]) (rule that)
  have st1: "mb_state s1 mb c [m] [] (r # rs)" using s1(2) by simp
  obtain b1 where b1: "rd (mailboxes s1) mb = Some b1" "0 < q_count (recv_queue b1) \<longleftrightarrow> r # rs \<noteq> []"
    by (rule mb_stateE[OF st1]) (rule that)
  have h: "rd (pds s1) r = Some dr" "request_args dr 1 \<in> dom (mail_objs s1)" "request_args dr 1 \<noteq> m"
    "mail_objs s1 m = Some \<lparr>mail_ptr = t, mail_size = n, mail_source = pid d\<rparr>"
    using dr s1 by auto
  obtain s2 where s2: "mailbox_call (Recv_From_Queue mb) s1 = Some (0, s2)" "mb_state s2 mb c [] [] rs"
    "pds s2 = (pds s1)(r \<mapsto> dr\<lparr>state := READY\<rparr>)"
    "mail_objs s2 = (mail_objs s1)(request_args dr 1 \<mapsto> \<lparr>mail_ptr = t, mail_size = n, mail_source = pid d\<rparr>, m := None)"
    "bytes s2 = bytes s1" "mb_frame s1 s2"
    by (rule deliver[OF st1 h(1) dr(2,3) h(2-4)]) (rule that)
  have call: "mailbox_call (Send_Internal p mb msg_ptr n blk) s = Some (1, s2)"
    by (subst mailbox_call.simps) (use b b1 room s1(1) s2(1) in simp)
  have dom: "dom (mail_objs s) \<subseteq> dom (mail_objs s2)" using s1(4,5) s2(4) by auto
  have same: "pds s2 q = pds s q" if "q \<in> set rs" for q using that L(4) s2(3) s1(3) by auto
  have "mb_ok s2 c [] [] rs"
    unfolding mb_ok_def using L(4) receiver_ok_mono[OF L(7) dom same] by simp
  moreover have "msg s2 (request_args dr 1) = (pid d, n, take (unat n) src)"
    using s2(4,5) s1(6) h(3) by (simp add: msg_def)
  ultimately show ?thesis using that[OF call s2(2)] s2(3) s1(3) dr(1) mb_frame_trans[OF s1(8) s2(6)] by (simp add: rd_Some_iff)
qed

section \<open>The cases of receiving\<close>

lemma recv_empty:
  assumes st: "mb_state s mb c [] ws rs" and ok: "mb_ok s c [] ws rs" and dest: "dest \<noteq> NULL" "dest \<in> dom (mail_objs s)"
  obtains s' where "mailbox_call (Recv_Internal p mb dest 0) s = Some (0, s')" and "mb_state s' mb c [] ws rs"
    and "mb_ok s' c [] ws rs" and "mail_objs s' dest = Some \<lparr>mail_ptr = NULL, mail_size = 0, mail_source = 0\<rparr>" and "pds s' = pds s"
    and "mb_frame s s'"
proof -
  obtain b where b: "rd (mailboxes s) mb = Some b" "q_count (mails b) = 0 \<longleftrightarrow> ([] :: addr list) = []"
    by (rule mb_stateE[OF st]) (rule that)
  let ?s' = "s\<lparr>mail_objs := (mail_objs s)(dest \<mapsto> \<lparr>mail_ptr = NULL, mail_size = 0, mail_source = 0\<rparr>)\<rparr>"
  have z: "y\<lparr>mail_ptr := NULL, mail_size := 0, mail_source := 0\<rparr> = \<lparr>mail_ptr = NULL, mail_size = 0, mail_source = 0\<rparr>" for y :: MAIL
    by (cases y) simp
  have u: "upd_mail dest (\<lambda>x. x\<lparr>mail_ptr := NULL, mail_size := 0, mail_source := 0\<rparr>) s = Some ?s'"
    using dest by (auto simp: upd_mail_iff rd_def z)
  have call: "mailbox_call (Recv_Internal p mb dest 0) s = Some (0, ?s')"
    by (subst mailbox_call.simps) (use b u in simp)
  have "kwf ?s'" by (rule kwf_upd_mail[OF u mb_state_kwf[OF st]])
  then have st': "mb_state ?s' mb c [] ws rs" by (rule mb_state_upd[OF st]) simp_all
  note L = mb_ok_lists[OF ok] and e = bytes_extI(1)[of ?s' s]
  have "mb_ok ?s' c [] ws rs"
    unfolding mb_ok_def using L(3,4) sender_ok_mono[OF L(6) e] receiver_ok_mono[OF L(7), of _ ?s'] by auto
  from that[OF call st' this] show ?thesis by (simp add: mb_frame_def)
qed

lemma recv_blocks:
  assumes st: "mb_state s mb c [] ws rs" and ok: "mb_ok s c [] ws rs" and blk: "blk \<noteq> 0"
    and d: "cur_pd s = Some d" "Current_Process s \<notin> set ws" "Current_Process s \<notin> set rs"
    and dest: "request_args d 1 \<noteq> NULL" "request_args d 1 \<in> dom (mail_objs s)" and pl: "plenty (alloc s) (Suc n)"
  obtains s' where "mailbox_call (Recv_Internal p mb dst blk) s = Some (- 1, s')" and "mb_state s' mb c [] ws (rs @ [Current_Process s])"
    and "mb_ok s' c [] ws (rs @ [Current_Process s])" and "pds s' = (pds s)(Current_Process s \<mapsto> d\<lparr>state := WAIT_MAILBOX\<rparr>)"
    and "mb_frame s s'"
proof -
  obtain b where b: "rd (mailboxes s) mb = Some b" "q_count (mails b) = 0 \<longleftrightarrow> ([] :: addr list) = []"
    by (rule mb_stateE[OF st]) (rule that)
  obtain s' where s': "block_receiver mb s = Some s'" "mb_state s' mb c [] ws (rs @ [Current_Process s])"
    "pds s' = (pds s)(Current_Process s \<mapsto> d\<lparr>state := WAIT_MAILBOX\<rparr>)" "mail_objs s' = mail_objs s" "bytes s' = bytes s" "mb_frame s s'"
    by (rule block_receiver_effect[OF st d(1) pl]) (rule that)
  have call: "mailbox_call (Recv_Internal p mb dst blk) s = Some (- 1, s')"
    by (subst mailbox_call.simps) (use b blk s'(1) in simp)
  note e = bytes_extI(1)[OF s'(5)] and L = mb_ok_lists[OF ok]
  have same: "pds s' q = pds s q" if "q \<in> set ws \<or> q \<in> set rs" for q using that d s'(3) by auto
  have "receiver_ok s' (Current_Process s)"
    using d(1) dest s'(3,4) by (auto simp: receiver_ok_def rd_def cur_pd_def split: if_splits)
  then have "mb_ok s' c [] ws (rs @ [Current_Process s])"
    unfolding mb_ok_def using L(3,4) d(2,3) sender_ok_mono[OF L(6) e same] receiver_ok_mono[OF L(7) _ same] s'(4) by auto
  from that[OF call s'(2) this s'(3,6)] show ?thesis .
qed

lemma recv_takes:
  assumes st: "mb_state s mb c (m # ms) [] []" and ok: "mb_ok s c (m # ms) [] []"
    and dest: "dest \<noteq> NULL" "dest \<in> dom (mail_objs s)" "dest \<notin> set (m # ms)"
  obtains s' where "mailbox_call (Recv_Internal p mb dest blk) s = Some (1, s')" and "mb_state s' mb c ms [] []"
    and "mb_ok s' c ms [] []" and "map (msg s') ms = map (msg s) ms" and "msg s' dest = msg s m" and "pds s' = pds s"
    and "mb_frame s s'"
proof -
  note L = mb_ok_lists[OF ok]
  obtain x where x: "mail_objs s m = Some x" using L(5)[of m] by (auto simp: text_ok_def)
  have dm: "dest \<noteq> m" using dest(3) by simp
  obtain s' where s': "take_mail mb dest s = Some s'" "mb_state s' mb c ms [] []" "pds s' = pds s"
    "mail_objs s' = (mail_objs s)(dest \<mapsto> x, m := None)" "bytes s' = bytes s" "mb_frame s s'"
    by (rule take_mail_effect[OF st dest(1,2) dm x]) (rule that)
  have e: "bytes_ext s s'" using bytes_extI(1)[OF s'(5)] .
  have same: "mail_objs s' y = mail_objs s y" if "y \<in> set ms" for y
    using that s'(4) msgs_distinct[OF st] dest(3) by auto
  have "mb_ok s' c ms [] []"
    unfolding mb_ok_def using L(1) text_ok_mono[OF L(5) e same] by simp
  moreover have "map (msg s') ms = map (msg s) ms" using msg_mono[OF L(5) e same] by simp
  moreover have "msg s' dest = msg s m" using s'(4,5) x dm by (simp add: msg_def)
  ultimately show ?thesis using that[OF recv_one[OF st s'(1,2)] s'(2)] s'(3,6) by blast
qed

lemma recv_accepts:
  assumes st: "mb_state s mb c (m # ms) (q # ws) []" and ok: "mb_ok s c (m # ms) (q # ws) []"
    and dest: "dest \<noteq> NULL" "dest \<in> dom (mail_objs s)" "dest \<notin> set (m # ms)" and pl: "plenty (alloc s) (Suc (Suc (Suc k)))"
  obtains s' m' dq where "mailbox_call (Recv_Internal p mb dest blk) s = Some (1, s')" and "mb_state s' mb c (ms @ [m']) ws []"
    and "mb_ok s' c (ms @ [m']) ws []" and "map (msg s') (ms @ [m']) = map (msg s) ms @ [out_msg s q]" and "msg s' dest = msg s m"
    and "pds s q = Some dq" and "pds s' = (pds s)(q \<mapsto> dq\<lparr>state := READY\<rparr>)"
    and "mb_frame s s'"
proof -
  note L = mb_ok_lists[OF ok]
  obtain x where x: "mail_objs s m = Some x" "mail_ptr x \<in> dom (bytes s)" using L(5)[of m] by (auto simp: text_ok_def)
  obtain dq src where dq: "rd (pds s) q = Some dq" "state dq = WAIT_MAILBOX" "rd (bytes s) (request_args dq 1) = Some src"
    "unat (request_args dq 2) \<le> length src"
    using L(6)[of q] by (auto simp: sender_ok_def)
  have dm: "dest \<noteq> m" using dest(3) by simp
  have len: "Suc (length ms) = c" using L(1,3) by (metis length_Cons le_neq_implies_less list.distinct(1))
  obtain b where b: "rd (mailboxes s) mb = Some b" "q_count (mails b) = 0 \<longleftrightarrow> m # ms = []"
    by (rule mb_stateE[OF st]) (rule that)
  obtain s1 where s1: "take_mail mb dest s = Some s1" "mb_state s1 mb c ms (q # ws) []" "pds s1 = pds s"
    "mail_objs s1 = (mail_objs s)(dest \<mapsto> x, m := None)" "bytes s1 = bytes s" "alloc s1 = alloc s" "mb_frame s s1"
    by (rule take_mail_effect[OF st dest(1,2) dm x(1)]) (rule that)
  obtain b1 where b1: "rd (mailboxes s1) mb = Some b1" "0 < q_count (send_queue b1) \<longleftrightarrow> q # ws \<noteq> []"
    by (rule mb_stateE[OF s1(2)]) (rule that)
  have h: "rd (pds s1) q = Some dq" "rd (bytes s1) (request_args dq 1) = Some src" "plenty (alloc s1) (Suc (Suc (Suc k)))"
    using dq(1,3) pl s1 by simp_all
  obtain s2 m' t where s2: "mailbox_call (Send_From_Queue mb) s1 = Some (0, s2)" "mb_state s2 mb c (ms @ [m']) ws []"
    "pds s2 = (pds s1)(q \<mapsto> dq\<lparr>state := READY\<rparr>)"
    "mail_objs s2 = (mail_objs s1)(m' \<mapsto> \<lparr>mail_ptr = t, mail_size = request_args dq 2, mail_source = pid dq\<rparr>)" "mail_objs s1 m' = None"
    "bytes s2 = (bytes s1)(t \<mapsto> take (unat (request_args dq 2)) src)" "bytes s1 t = None" "mb_frame s1 s2"
    by (rule accept_sender[OF s1(2) len h(1) dq(2) h(2) dq(4) h(3)]) (rule that)
  have call: "mailbox_call (Recv_Internal p mb dest blk) s = Some (1, s2)"
    by (subst mailbox_call.simps) (use b b1 s1(1) s2(1) in simp)
  have e: "bytes_ext s s2" using s2(6,7) s1(5) by (intro bytes_extI(2)) auto
  have mo: "mail_objs s2 dest = Some x" using s2(4,5) s1(4) dm by auto
  have same: "mail_objs s2 y = mail_objs s y" if "y \<in> set ms" for y
    using that s1(4) s2(4,5) msgs_distinct[OF st] dest(3) msg_in_objs[OF st] by fastforce
  have pd: "pds s2 y = pds s y" if "y \<in> set ws" for y using that L(4) s2(3) s1(3) by auto
  have t': "text_ok s2 m'" using s2(4,6) by (simp add: text_ok_def)
  have "mb_ok s2 c (ms @ [m']) ws []"
    unfolding mb_ok_def using L(4) len t' text_ok_mono[OF L(5) e same] sender_ok_mono[OF L(6) e pd] by auto
  moreover have "map (msg s2) (ms @ [m']) = map (msg s) ms @ [out_msg s q]"
    using msg_mono[OF L(5) e same] s2(4,6) dq(1,3) by (simp add: msg_def out_msg_def rd_Some_iff)
  moreover have "msg s2 dest = msg s m"
    using mo x e by (auto simp: msg_def bytes_ext_def)
  ultimately show ?thesis using that[OF call s2(2)] s2(3) s1(3) dq(1) mb_frame_trans[OF s1(7) s2(8)] by (simp add: rd_Some_iff)
qed

section \<open>Properties\<close>

lemma send_eval:
  assumes "kwf s" "cur_pd s = Some d" "request_args d 0 = mb_id b" "mb \<in> set (mbs s)" "mailboxes s mb = Some b"
  shows "Kernel_Mailbox_Send s = do {
     (r, s) \<leftarrow> mailbox_call (Send_Internal (Current_Process s) mb (request_args d 1) (request_args d 2) (request_args d 3)) s;
     if 0 \<le> r then upd_cur (\<lambda>d. d\<lparr>request_retval := word_of_int r\<rparr>) s else Some s
   }"
  using find_mailbox[OF assms(1,4,5)] assms(2,3) assms(4) contents_not_NULL[of mb]
  by (auto simp: Kernel_Mailbox_Send_def req_arg_def)

lemma recv_eval:
  assumes "kwf s" "cur_pd s = Some d" "request_args d 0 = mb_id b" "mb \<in> set (mbs s)" "mailboxes s mb = Some b"
  shows "Kernel_Mailbox_Recv s = do {
     (r, s) \<leftarrow> mailbox_call (Recv_Internal (Current_Process s) mb (request_args d 1) (request_args d 2)) s;
     if 0 \<le> r then upd_cur (\<lambda>d. d\<lparr>request_retval := word_of_int r\<rparr>) s else Some s
   }"
  using find_mailbox[OF assms(1,4,5)] assms(2,3) assms(4) contents_not_NULL[of mb]
  by (auto simp: Kernel_Mailbox_Recv_def req_arg_def)

text \<open>The result is written into the descriptor of the calling task.\<close>

lemma mb_retval:
  assumes call: "mailbox_call c0 s = Some (r, s1)" "0 \<le> r" and st: "mb_state s1 mb c ms ws rs" and ok: "mb_ok s1 c ms ws rs"
    and d: "rd (pds s1) (Current_Process s) = Some d" "Current_Process s \<notin> set ws" "Current_Process s \<notin> set rs"
    and fr: "mb_frame s s1"
  obtains s' where "do {
     (r, s) \<leftarrow> mailbox_call c0 s;
     if 0 \<le> r then upd_cur (\<lambda>d. d\<lparr>request_retval := word_of_int r\<rparr>) s else Some s
   } = Some s'" and "mailbox_ok s' mb" and "mb_view s' mb = \<lparr>limit = c, msgs = map (msg s1) ms, senders = ws, receivers = rs\<rparr>"
    and "pds s' = (pds s1)(Current_Process s \<mapsto> d\<lparr>request_retval := word_of_int r\<rparr>)" and "msg s' = msg s1" and "mail_objs s' = mail_objs s1"
proof -
  obtain s' where u: "upd_cur (\<lambda>d. d\<lparr>request_retval := word_of_int r\<rparr>) s1 = Some s'" using d(1) fr by (simp add: upd_cur_iff cur_pd_def mb_frame_def)
  have fr': "Current_Process s1 = Current_Process s" using fr by (simp add: mb_frame_def)
  note P = mb_ok_pd[OF st ok d u fr']
  have "mb_state s' mb c ms ws rs" "mb_ok s' c ms ws rs" "msg s' = msg s1" "pds s' = (pds s1)(Current_Process s \<mapsto> d\<lparr>request_retval := word_of_int r\<rparr>)"
    "mail_objs s' = mail_objs s1"
    by (rule P; simp)+
  moreover from this(1) have "mb_view s' mb = \<lparr>limit = c, msgs = map (msg s') ms, senders = ws, receivers = rs\<rparr>" by (rule mb_state_view)
  ultimately show ?thesis using that[of s'] mailbox_okI call u by simp
qed

text \<open>The calling task does not wait in a queue.\<close>

lemma caller_not_waiting:
  assumes "mb_ok s c ms ws rs" "cur_pd s = Some d" "state d \<noteq> WAIT_MAILBOX"
  shows "rd (pds s) (Current_Process s) = Some d" "Current_Process s \<notin> set ws" "Current_Process s \<notin> set rs"
proof -
  show r: "rd (pds s) (Current_Process s) = Some d" using assms(2) by (simp add: cur_pd_def)
  then have "pds s (Current_Process s) = Some d" by (simp add: rd_Some_iff)
  with mb_ok_lists(6,7)[OF assms(1)] assms(3) waiting_state
  show "Current_Process s \<notin> set ws" "Current_Process s \<notin> set rs" by blast+
qed


text \<open>Sending, case by case.\<close>

lemma send_result:
  assumes "mailbox_ok s mb" "cur_pd s = Some d" "state d \<noteq> WAIT_MAILBOX" "request_args d 0 = mb_id b" "mb \<in> set (mbs s)" "mailboxes s mb = Some b"
    and "rd (bytes s) (request_args d 1) = Some src" "unat (request_args d 2) \<le> length src" "plenty (alloc s) 3"
  shows "\<exists>s'. Kernel_Mailbox_Send s = Some s' \<and> mailbox_ok s' mb \<and>
    mb_view s' mb = spec_send (request_args d 3 \<noteq> 0) (Current_Process s) (out_msg s (Current_Process s)) (mb_view s mb) \<and>
    (if limit (mb_view s mb) \<le> length (msgs (mb_view s mb))
     then pds s' = (pds s)(Current_Process s \<mapsto>
       if request_args d 3 = 0 then d\<lparr>request_retval := 0\<rparr> else d\<lparr>state := WAIT_MAILBOX\<rparr>)
     else case receivers (mb_view s mb) of
         [] \<Rightarrow> pds s' = (pds s)(Current_Process s \<mapsto> d\<lparr>request_retval := 1\<rparr>)
       | r # _ \<Rightarrow> \<exists>dr. pds s r = Some dr \<and> msg s' (request_args dr 1) = out_msg s (Current_Process s) \<and>
           pds s' = (pds s)(r \<mapsto> dr\<lparr>state := READY\<rparr>, Current_Process s \<mapsto> d\<lparr>request_retval := 1\<rparr>))"
proof -
  let ?p = "Current_Process s"
  obtain c ms ws rs where st: "mb_state s mb c ms ws rs" and ok: "mb_ok s c ms ws rs" using assms(1) by (auto simp: mailbox_ok_def)
  note V = mb_state_view[OF st] and E = send_eval[OF mb_state_kwf[OF st] assms(2,4-6)] and L = mb_ok_lists[OF ok]
  note C = caller_not_waiting[OF ok assms(2,3)]
  have pl: "plenty (alloc s) (Suc (Suc (Suc 0)))" using assms(9) by (simp add: numeral_3_eq_3)
  have out: "out_msg s ?p = (pid d, request_args d 2, take (unat (request_args d 2)) src)"
    using C(1) assms(7) by (simp add: out_msg_def rd_Some_iff)
  consider "c \<le> length ms" "request_args d 3 = 0" | "c \<le> length ms" "request_args d 3 \<noteq> 0" | "length ms < c" "rs = []"
    | r rs' where "length ms < c" "rs = r # rs'" by (cases "c \<le> length ms"; cases rs; auto simp: not_le)
  then show ?thesis
  proof cases
    case 1
    obtain b' where b': "rd (mailboxes s) mb = Some b'" "capacity b' \<le> q_count (mails b') \<longleftrightarrow> c \<le> length ms"
      by (rule mb_stateE[OF st]) (rule that)
    have call: "mailbox_call (Send_Internal ?p mb (request_args d 1) (request_args d 2) (request_args d 3)) s = Some (0, s)"
      by (subst mailbox_call.simps) (use b' 1 in simp)
    show ?thesis
      by (rule mb_retval[OF call _ st ok C mb_frame_refl]) (use E 1 V in \<open>auto simp: spec_send_def\<close>)
  next
    case 2
    obtain s' where s': "mailbox_call (Send_Internal ?p mb (request_args d 1) (request_args d 2) (request_args d 3)) s = Some (- 1, s')"
      "mb_state s' mb c ms (ws @ [?p]) rs" "mb_ok s' c ms (ws @ [?p]) rs" "map (msg s') ms = map (msg s) ms"
      "pds s' = (pds s)(?p \<mapsto> d\<lparr>state := WAIT_MAILBOX\<rparr>)"
      by (rule send_full_blocks[OF st ok 2(1) C assms(7,8) pl 2(2)]) (rule that)
    show ?thesis
      using E s'(1,4,5) mailbox_okI[OF s'(2,3)] mb_state_view[OF s'(2)] V 2 by (intro exI[of _ s']) (simp add: spec_send_def)
  next
    case 3
    note st3 = st[unfolded 3(2)] and ok3 = ok[unfolded 3(2)]
    obtain s1 m where s1: "mailbox_call (Send_Internal ?p mb (request_args d 1) (request_args d 2) (request_args d 3)) s = Some (1, s1)"
      "mb_state s1 mb c (ms @ [m]) ws []" "mb_ok s1 c (ms @ [m]) ws []"
      "map (msg s1) (ms @ [m]) = map (msg s) ms @ [(pid d, request_args d 2, take (unat (request_args d 2)) src)]" "pds s1 = pds s" "mb_frame s s1"
      by (rule send_room[OF st3 ok3 3(1) C(1) assms(7,8) pl]) (rule that)
    have d1: "rd (pds s1) ?p = Some d" using s1(5) C(1) by simp
    show ?thesis
      by (rule mb_retval[OF s1(1) _ s1(2,3) d1 C(2) _ s1(6)]) (use E s1 3 V out in \<open>auto simp: spec_send_def\<close>)
  next
    case (4 r rs')
    have e: "ms = []" "ws = []" using L(2,3) 4 by auto
    note st4 = st[unfolded 4(2) e] and ok4 = ok[unfolded 4(2) e]
    have c0: "0 < c" using 4(1) by simp
    obtain s1 dr where s1: "mailbox_call (Send_Internal ?p mb (request_args d 1) (request_args d 2) (request_args d 3)) s = Some (1, s1)"
      "mb_state s1 mb c [] [] rs'" "mb_ok s1 c [] [] rs'" "pds s r = Some dr" "pds s1 = (pds s)(r \<mapsto> dr\<lparr>state := READY\<rparr>)"
      "msg s1 (request_args dr 1) = (pid d, request_args d 2, take (unat (request_args d 2)) src)" "mb_frame s s1"
      by (rule send_delivered[OF st4 ok4 c0 C(1) assms(7,8) pl]) (rule that)
    have d1: "rd (pds s1) ?p = Some d" "?p \<notin> set rs'" using s1(5) C(1,3) 4(2) by (auto simp: rd_def split: if_splits)
    show ?thesis
      by (rule mb_retval[OF s1(1) _ s1(2,3) d1(1) _ d1(2) s1(7)]) (use E s1 4 V e out in \<open>auto simp: spec_send_def\<close>)
  qed
qed

text \<open>C17: \<open>Kernel_Mailbox_Send\<close> refines the specification and keeps the mailbox invariant. With no room a
  send that does not block returns 0 and changes nothing but the result, a blocking one makes the
  task wait; with room and nobody waiting the message (the sender's pid, the size and a copy of the
  text) is appended and 1 returned; with room and a waiting receiver the message goes straight to
  the first one, which becomes READY, and whose own return value is not written: its blocking
  receive returns what an earlier request left there.\<close>

theorem mailbox_send_refines:
  assumes "mailbox_ok s mb" "cur_pd s = Some d" "state d \<noteq> WAIT_MAILBOX" "request_args d 0 = mb_id b" "mb \<in> set (mbs s)" "mailboxes s mb = Some b"
    and "rd (bytes s) (request_args d 1) = Some src" "unat (request_args d 2) \<le> length src" "plenty (alloc s) 3"
  shows "\<exists>s'. Kernel_Mailbox_Send s = Some s' \<and> mailbox_ok s' mb \<and>
    mb_view s' mb = spec_send (request_args d 3 \<noteq> 0) (Current_Process s) (out_msg s (Current_Process s)) (mb_view s mb) \<and>
    (if limit (mb_view s mb) \<le> length (msgs (mb_view s mb))
     then pds s' = (pds s)(Current_Process s \<mapsto>
       if request_args d 3 = 0 then d\<lparr>request_retval := 0\<rparr> else d\<lparr>state := WAIT_MAILBOX\<rparr>)
     else case receivers (mb_view s mb) of
         [] \<Rightarrow> pds s' = (pds s)(Current_Process s \<mapsto> d\<lparr>request_retval := 1\<rparr>)
       | r # _ \<Rightarrow> \<exists>dr. pds s r = Some dr \<and> msg s' (request_args dr 1) = out_msg s (Current_Process s) \<and>
           pds s' = (pds s)(r \<mapsto> dr\<lparr>state := READY\<rparr>, Current_Process s \<mapsto> d\<lparr>request_retval := 1\<rparr>))"
  by (rule send_result[OF assms])

text \<open>Receiving, case by case.\<close>

lemma recv_result:
  assumes "mailbox_ok s mb" "cur_pd s = Some d" "state d \<noteq> WAIT_MAILBOX" "request_args d 0 = mb_id b" "mb \<in> set (mbs s)" "mailboxes s mb = Some b"
    and "request_args d 1 \<noteq> NULL" "request_args d 1 \<in> dom (mail_objs s)" "request_args d 1 \<notin> set (qitems (qelems s) (mails b))" "plenty (alloc s) 3"
  shows "\<exists>s'. Kernel_Mailbox_Recv s = Some s' \<and> mailbox_ok s' mb \<and>
    mb_view s' mb = spec_recv (request_args d 2 \<noteq> 0) (Current_Process s) (out_msg s) (mb_view s mb) \<and>
    (case msgs (mb_view s mb) of
       [] \<Rightarrow> if request_args d 2 = 0 then pds s' = (pds s)(Current_Process s \<mapsto> d\<lparr>request_retval := 0\<rparr>) \<and>
            mail_objs s' (request_args d 1) = Some \<lparr>mail_ptr = NULL, mail_size = 0, mail_source = 0\<rparr>
          else pds s' = (pds s)(Current_Process s \<mapsto> d\<lparr>state := WAIT_MAILBOX\<rparr>)
     | x # _ \<Rightarrow> msg s' (request_args d 1) = x \<and> (case senders (mb_view s mb) of
           [] \<Rightarrow> pds s' = (pds s)(Current_Process s \<mapsto> d\<lparr>request_retval := 1\<rparr>)
         | q # _ \<Rightarrow> \<exists>dq. pds s q = Some dq \<and>
             pds s' = (pds s)(q \<mapsto> dq\<lparr>state := READY\<rparr>, Current_Process s \<mapsto> d\<lparr>request_retval := 1\<rparr>)))"
proof -
  let ?p = "Current_Process s"
  obtain c ms ws rs where st: "mb_state s mb c ms ws rs" and ok: "mb_ok s c ms ws rs" using assms(1) by (auto simp: mailbox_ok_def)
  note V = mb_state_view[OF st] and E = recv_eval[OF mb_state_kwf[OF st] assms(2,4-6)] and L = mb_ok_lists[OF ok]
  note C = caller_not_waiting[OF ok assms(2,3)]
  have pl: "plenty (alloc s) (Suc (Suc (Suc 0)))" using assms(10) by (simp add: numeral_3_eq_3)
  have dest: "request_args d 1 \<notin> set ms" using assms(6,9) st by (auto simp: mb_state_def)
  consider "ms = []" "request_args d 2 = 0" | "ms = []" "request_args d 2 \<noteq> 0" | m ms' where "ms = m # ms'" "ws = []" "rs = []"
    | m ms' q ws' where "ms = m # ms'" "ws = q # ws'" "rs = []"
    using L(2) by (cases ms; cases ws) auto
  then show ?thesis
  proof cases
    case 1
    note st1 = st[unfolded 1(1)] and ok1 = ok[unfolded 1(1)]
    obtain s1 where s1: "mailbox_call (Recv_Internal ?p mb (request_args d 1) 0) s = Some (0, s1)" "mb_state s1 mb c [] ws rs"
      "mb_ok s1 c [] ws rs" "mail_objs s1 (request_args d 1) = Some \<lparr>mail_ptr = NULL, mail_size = 0, mail_source = 0\<rparr>" "pds s1 = pds s" "mb_frame s s1"
      by (rule recv_empty[OF st1 ok1 assms(7,8)]) (rule that)
    have d1: "rd (pds s1) ?p = Some d" using s1(5) C(1) by simp
    show ?thesis
      by (rule mb_retval[OF s1(1) _ s1(2,3) d1 C(2,3) s1(6)]) (use E s1 1 V in \<open>auto simp: spec_recv_def\<close>)
  next
    case 2
    note st2 = st[unfolded 2(1)] and ok2 = ok[unfolded 2(1)]
    obtain s' where s': "mailbox_call (Recv_Internal ?p mb (request_args d 1) (request_args d 2)) s = Some (- 1, s')"
      "mb_state s' mb c [] ws (rs @ [?p])" "mb_ok s' c [] ws (rs @ [?p])" "pds s' = (pds s)(?p \<mapsto> d\<lparr>state := WAIT_MAILBOX\<rparr>)"
      by (rule recv_blocks[OF st2 ok2 2(2) assms(2) C(2,3) assms(7,8) pl]) (rule that)
    show ?thesis
      using E s'(1,4) mailbox_okI[OF s'(2,3)] mb_state_view[OF s'(2)] V 2 by (intro exI[of _ s']) (simp add: spec_recv_def)
  next
    case (3 m ms')
    note st3 = st[unfolded 3] and ok3 = ok[unfolded 3] and dest3 = dest[unfolded 3]
    obtain s1 where s1: "mailbox_call (Recv_Internal ?p mb (request_args d 1) (request_args d 2)) s = Some (1, s1)" "mb_state s1 mb c ms' [] []"
      "mb_ok s1 c ms' [] []" "map (msg s1) ms' = map (msg s) ms'" "msg s1 (request_args d 1) = msg s m" "pds s1 = pds s" "mb_frame s s1"
      by (rule recv_takes[OF st3 ok3 assms(7,8) dest3]) (rule that)
    have d1: "rd (pds s1) ?p = Some d" using s1(6) C(1) by simp
    show ?thesis
      by (rule mb_retval[OF s1(1) _ s1(2,3) d1 _ _ s1(7)]) (use E s1 3 V in \<open>auto simp: spec_recv_def\<close>)
  next
    case (4 m ms' q ws')
    note st4 = st[unfolded 4] and ok4 = ok[unfolded 4] and dest4 = dest[unfolded 4]
    obtain s1 m' dq where s1: "mailbox_call (Recv_Internal ?p mb (request_args d 1) (request_args d 2)) s = Some (1, s1)"
      "mb_state s1 mb c (ms' @ [m']) ws' []" "mb_ok s1 c (ms' @ [m']) ws' []" "map (msg s1) (ms' @ [m']) = map (msg s) ms' @ [out_msg s q]"
      "msg s1 (request_args d 1) = msg s m" "pds s q = Some dq" "pds s1 = (pds s)(q \<mapsto> dq\<lparr>state := READY\<rparr>)" "mb_frame s s1"
      by (rule recv_accepts[OF st4 ok4 assms(7,8) dest4 pl]) (rule that)
    have d1: "rd (pds s1) ?p = Some d" "?p \<notin> set ws'" using s1(7) C(1,2) 4(2) by (auto simp: rd_def split: if_splits)
    show ?thesis
      by (rule mb_retval[OF s1(1) _ s1(2,3) d1(1,2) _ s1(8)]) (use E s1 4 V in \<open>auto simp: spec_recv_def\<close>)
  qed
qed

text \<open>C18: \<open>Kernel_Mailbox_Recv\<close> refines the specification and keeps the mailbox invariant. From an empty
  mailbox a receive that does not block returns 0 and an empty message, a blocking one makes the
  task wait; otherwise the oldest message is moved to the caller and 1 returned, and the place
  goes to the first waiting sender, whose message is appended and which becomes READY.\<close>

theorem mailbox_recv_refines:
  assumes "mailbox_ok s mb" "cur_pd s = Some d" "state d \<noteq> WAIT_MAILBOX" "request_args d 0 = mb_id b" "mb \<in> set (mbs s)" "mailboxes s mb = Some b"
    and "request_args d 1 \<noteq> NULL" "request_args d 1 \<in> dom (mail_objs s)" "request_args d 1 \<notin> set (qitems (qelems s) (mails b))" "plenty (alloc s) 3"
  shows "\<exists>s'. Kernel_Mailbox_Recv s = Some s' \<and> mailbox_ok s' mb \<and>
    mb_view s' mb = spec_recv (request_args d 2 \<noteq> 0) (Current_Process s) (out_msg s) (mb_view s mb) \<and>
    (case msgs (mb_view s mb) of
       [] \<Rightarrow> if request_args d 2 = 0 then pds s' = (pds s)(Current_Process s \<mapsto> d\<lparr>request_retval := 0\<rparr>) \<and>
            mail_objs s' (request_args d 1) = Some \<lparr>mail_ptr = NULL, mail_size = 0, mail_source = 0\<rparr>
          else pds s' = (pds s)(Current_Process s \<mapsto> d\<lparr>state := WAIT_MAILBOX\<rparr>)
     | x # _ \<Rightarrow> msg s' (request_args d 1) = x \<and> (case senders (mb_view s mb) of
           [] \<Rightarrow> pds s' = (pds s)(Current_Process s \<mapsto> d\<lparr>request_retval := 1\<rparr>)
         | q # _ \<Rightarrow> \<exists>dq. pds s q = Some dq \<and>
             pds s' = (pds s)(q \<mapsto> dq\<lparr>state := READY\<rparr>, Current_Process s \<mapsto> d\<lparr>request_retval := 1\<rparr>)))"
  by (rule recv_result[OF assms])


text \<open>C31: \<open>Kernel_Destroy_Mailbox\<close> unlinks and frees an existing mailbox, but frees neither its messages,
  nor their texts, nor the elements of its queues, and wakes none of the tasks that wait for it; with an id that no mailbox has it
  dereferences a null pointer.\<close>

theorem mailbox_destroy_leaks_and_strands:
  assumes "kwf s" "req_arg 0 s = Some i"
  shows "if i \<in> set (mb_ids s) then \<exists>s' p. Kernel_Destroy_Mailbox s = Some s' \<and> kwf s' \<and> mb_id (the (mailboxes s p)) = i \<and>
      p \<in> set (mbs s) \<and> mailboxes s' = (mailboxes s)(p := None) \<and> mbs s' = remove1 p (mbs s) \<and>
      mail_objs s' = mail_objs s \<and> bytes s' = bytes s \<and> qelems s' = qelems s \<and> pds s' = pds s
    else Kernel_Destroy_Mailbox s = None"
proof (cases "i \<in> set (mb_ids s)")
  case True
  then obtain p where p: "p \<in> set (mbs s)" "mb_id (the (mailboxes s p)) = i" by (auto simp: mb_ids_def)
  show ?thesis
    by (rule destroy_mailbox_found[OF assms p]) (use True p in auto)
next
  case False
  with destroy_mailbox_missing[OF assms False] show ?thesis by simp
qed

text \<open>A state with a new, empty mailbox for \<open>c\<close> messages at the address 101. The message buffer is
  the block 90, the receive buffers are the MAIL objects 77 and 78.\<close>

definition ex_mb_state :: "u16 \<Rightarrow> (nat \<Rightarrow> u16) \<Rightarrow> kstate" where
  "ex_mb_state c args = (ex_tasks (\<lambda>_. False) args (ex_PD 2 5 READY ((\<lambda>_. 0)(1 := 90, 2 := 5)) 0) (ex_PD 3 5 READY (\<lambda>_. 1) 0))
     \<lparr>alloc := \<lparr>brk = 101, oom = \<lambda>_. False\<rparr>, nodes := ex_nodes_k(6 \<mapsto> \<lparr>pl_ptr = 101, pl_next = NULL\<rparr>),
      mailboxes := [101 \<mapsto> new_mailbox 1 c], Mailbox_Count := 1, Last_MailboxID := 1,
      mail_objs := [77 \<mapsto> \<lparr>mail_ptr = NULL, mail_size = 0, mail_source = 0\<rparr>, 78 \<mapsto> \<lparr>mail_ptr = NULL, mail_size = 0, mail_source = 0\<rparr>]\<rparr>"

lemma ex_mb_kwf: "kwf (ex_mb_state c args)"
proof -
  let ?s0 = "ex_tasks (\<lambda>_. False) args (ex_PD 2 5 READY ((\<lambda>_. 0)(1 := 90, 2 := 5)) 0) (ex_PD 3 5 READY (\<lambda>_. 1) 0)"
  let ?s1 = "?s0\<lparr>alloc := \<lparr>brk = 101, oom = \<lambda>_. False\<rparr>, nodes := ex_nodes_k(6 \<mapsto> \<lparr>pl_ptr = 101, pl_next = NULL\<rparr>),
      mailboxes := [101 \<mapsto> new_mailbox 1 c], Mailbox_Count := 1, Last_MailboxID := 1\<rparr>"
  have k0: "kwf ?s0" by (rule ex_tasks_kwf) (simp_all add: ex_PD_def)
  have "Kernel_Create_Mailbox_Direct c ?s0 = Some (1, ?s1)"
    by (simp add: Kernel_Create_Mailbox_Direct_def upd_mb_def new_mailbox_def ex_tasks_eval)
  moreover have "Last_MailboxID ?s0 \<noteq> - 1" by (simp add: ex_tasks_def ex_state_def)
  ultimately have k1: "kwf ?s1" using create_mailbox_kwf[OF k0] by blast
  have "kwf (?s1\<lparr>mail_objs := [77 \<mapsto> \<lparr>mail_ptr = NULL, mail_size = 0, mail_source = 0\<rparr>, 78 \<mapsto> \<lparr>mail_ptr = NULL, mail_size = 0, mail_source = 0\<rparr>]\<rparr>)"
    by (rule kwf_mail_objs[OF k1]) (auto simp: fresh_above_def ex_tasks_def ex_state_def split: if_splits)
  then show ?thesis by (simp add: ex_mb_state_def)
qed

lemma ex_mb_facts:
  "mbs (ex_mb_state c args) = [101]" "mailboxes (ex_mb_state c args) 101 = Some (new_mailbox 1 c)" "mb_ids (ex_mb_state c args) = [1]"
  "cur_pd (ex_mb_state c args) = Some (ex_PD 1 5 RUNNING args 0)" "Current_Process (ex_mb_state c args) = 20"
  "pds (ex_mb_state c args) = [20 \<mapsto> ex_PD 1 5 RUNNING args 0, 21 \<mapsto> ex_PD 2 5 READY ((\<lambda>_. 0)(1 := 90, 2 := 5)) 0, 22 \<mapsto> ex_PD 3 5 READY (\<lambda>_. 1) 0]"
  "bytes (ex_mb_state c args) = [90 \<mapsto> replicate 100 0]" "plenty (alloc (ex_mb_state c args)) 3"
  "dom (mail_objs (ex_mb_state c args)) = {77, 78}"
proof -
  have "entries (ex_nodes_k(6 \<mapsto> \<lparr>pl_ptr = 101, pl_next = NULL\<rparr>)) MailboxList = [(6, 101)]"
    by (rule entries_of_seg; simp add: ex_nodes_k_def list_heads)
  then show m: "mbs (ex_mb_state c args) = [101]"
    by (simp add: ex_mb_state_def contents_def)
  show "mailboxes (ex_mb_state c args) 101 = Some (new_mailbox 1 c)" "mb_ids (ex_mb_state c args) = [1]"
    using m by (simp_all add: mb_ids_def) (simp_all add: ex_mb_state_def new_mailbox_def)
qed (simp_all add: ex_mb_state_def ex_tasks_def ex_state_def cur_pd_def rd_def plenty_def insert_commute)

lemma ex_mb_ok: "mb_state (ex_mb_state c args) 101 (unat c) [] [] []" "mb_ok (ex_mb_state c args) (unat c) [] [] []"
  using ex_mb_kwf ex_mb_facts(2)
  by (simp_all add: mb_state_def mb_ok_def qitems_rep[OF queue_rep_new(1)]) (simp add: new_mailbox_def qitems_rep[OF queue_rep_new(1)])

definition ex_send_args :: "nat \<Rightarrow> u16" where
  "ex_send_args = (\<lambda>_. 0)(0 := 1, 1 := 90, 2 := 5)"

definition ex_recv_args :: "nat \<Rightarrow> u16" where
  "ex_recv_args = (\<lambda>_. 0)(0 := 1, 1 := 77)"

theorem mailbox_send_refines_witness:
  "\<exists>s'. Kernel_Mailbox_Send (ex_mb_state 2 ex_send_args) = Some s' \<and> msgs (mb_view s' 101) = [(1, 5, replicate 5 0)]"
proof -
  let ?s = "ex_mb_state 2 ex_send_args" and ?d = "ex_PD 1 5 RUNNING ex_send_args 0"
  have h: "state ?d \<noteq> WAIT_MAILBOX" "request_args ?d 0 = mb_id (new_mailbox 1 2)" "101 \<in> set (mbs ?s)"
    "rd (bytes ?s) (request_args ?d 1) = Some (replicate 100 0)" "unat (request_args ?d 2) \<le> length (replicate 100 (0 :: u8))"
    by (simp_all add: ex_mb_facts rd_def) (simp_all add: ex_PD_def new_mailbox_def ex_send_args_def)
  have v: "mb_view ?s 101 = \<lparr>limit = 2, msgs = [], senders = [], receivers = []\<rparr>"
    using mb_state_view[OF ex_mb_ok(1), of 2 ex_send_args] by simp
  have o: "out_msg ?s 20 = (1, 5, replicate 5 0)"
    by (simp add: out_msg_def ex_mb_facts) (simp add: ex_PD_def ex_send_args_def)
  show ?thesis
    using mailbox_send_refines[OF mailbox_okI[OF ex_mb_ok] ex_mb_facts(4) h(1-3) ex_mb_facts(2) h(4,5) ex_mb_facts(8)]
    by (auto simp: v spec_send_def ex_mb_facts(5) o)
qed

text \<open>The second task has sent a message, the first one receives it.\<close>

theorem mailbox_recv_refines_witness:
  "\<exists>s s'. mailbox_ok s 101 \<and> Kernel_Mailbox_Recv s = Some s' \<and> msg s' 77 = (2, 5, replicate 5 0)"
proof -
  let ?s0 = "ex_mb_state 2 ex_recv_args" and ?d = "ex_PD 1 5 RUNNING ex_recv_args 0" and ?q = "ex_PD 2 5 READY ((\<lambda>_. 0)(1 := 90, 2 := 5)) 0"
  have h: "rd (pds ?s0) 21 = Some ?q" "rd (bytes ?s0) 90 = Some (replicate 100 0)" "unat (5 :: u16) \<le> length (replicate 100 (0 :: u8))"
    using ex_mb_facts(8)[of 2 ex_recv_args] by (simp_all add: ex_mb_facts rd_def)
  have pl: "plenty (alloc ?s0) (Suc (Suc (Suc 3)))" by (simp add: ex_mb_state_def plenty_def)
  obtain s m t where s: "mb_state s 101 (unat (2 :: u16)) ([] @ [m]) [] []" "mb_frame ?s0 s" "pds s = pds ?s0"
    "mail_objs s = (mail_objs ?s0)(m \<mapsto> \<lparr>mail_ptr = t, mail_size = 5, mail_source = pid ?q\<rparr>)" "mail_objs ?s0 m = None"
    "bytes s = (bytes ?s0)(t \<mapsto> take (unat (5 :: u16)) (replicate 100 0))" "plenty (alloc s) 3"
    by (rule put_mail_effect[OF ex_mb_ok(1) h pl]) (rule that)
  have st: "mb_state s 101 2 [m] [] []" using s(1) by simp
  have "mb_ok s 2 [m] [] []" using s(4,6) by (simp add: mb_ok_def text_ok_def)
  with st have ok: "mailbox_ok s 101" by (rule mailbox_okI)
  obtain b where b: "mailboxes s 101 = Some b" "qitems (qelems s) (mails b) = [m]" by (rule mb_stateE[OF st]) (rule that)
  have "map_option mb_id (mailboxes s 101) = map_option mb_id (mailboxes ?s0 101)" using s(2) by (simp add: mb_frame_def)
  then have id: "mb_id b = 1" by (simp add: b(1) ex_mb_facts(2)) (simp add: new_mailbox_def)
  have "dom (mail_objs ?s0) = {77, 78}" by (rule ex_mb_facts)
  with s(5) have m: "m \<noteq> 77" "77 \<in> dom (mail_objs s)" using s(4) by auto
  have a: "request_args ?d 0 = 1" "request_args ?d 1 = 77" "state ?d = RUNNING" "pid ?q = 2" by (simp_all add: ex_PD_def ex_recv_args_def)
  have c: "cur_pd s = Some ?d" "101 \<in> set (mbs s)" "Current_Process s = 20"
    using s(2,3) ex_mb_facts(1,4,5)[of 2 ex_recv_args] by (simp_all add: cur_pd_def mb_frame_def)
  have g: "state ?d \<noteq> WAIT_MAILBOX" "request_args ?d 0 = mb_id b" "request_args ?d 1 \<noteq> NULL" "request_args ?d 1 \<in> dom (mail_objs s)"
    "request_args ?d 1 \<notin> set (qitems (qelems s) (mails b))"
    using a id m b(2) by simp_all
  have v: "mb_view s 101 = \<lparr>limit = 2, msgs = [(2, 5, replicate 5 0)], senders = [], receivers = []\<rparr>"
    using mb_state_view[OF st] s(4,6) a(4) by (simp add: msg_def)
  show ?thesis
    using mailbox_recv_refines[OF ok c(1) g(1,2) c(2) b(1) g(3-5) s(7)] ok
    unfolding v a(2) by - (rule exI[of _ s], auto)
qed

theorem mailbox_destroy_leaks_and_strands_witness:
  "(\<exists>s'. Kernel_Destroy_Mailbox (ex_mb_state 2 ex_send_args) = Some s' \<and> mbs s' = []) \<and>
   Kernel_Destroy_Mailbox (ex_mb_state 2 (\<lambda>_. 2)) = None"
proof
  have a: "req_arg 0 (ex_mb_state 2 ex_send_args) = Some 1" "req_arg 0 (ex_mb_state 2 (\<lambda>_. 2)) = Some 2"
    by (simp_all add: req_arg_def ex_mb_facts) (simp_all add: ex_PD_def ex_send_args_def)
  obtain s' p where "Kernel_Destroy_Mailbox (ex_mb_state 2 ex_send_args) = Some s'" "mbs s' = remove1 p [101]" "p = 101"
    using mailbox_destroy_leaks_and_strands[OF ex_mb_kwf a(1)] by (auto simp: ex_mb_facts)
  then show "\<exists>s'. Kernel_Destroy_Mailbox (ex_mb_state 2 ex_send_args) = Some s' \<and> mbs s' = []" by auto
  show "Kernel_Destroy_Mailbox (ex_mb_state 2 (\<lambda>_. 2)) = None"
    using mailbox_destroy_leaks_and_strands[OF ex_mb_kwf a(2)] by (simp add: ex_mb_facts)
qed

end
