(* ===== verification/Steady.thy ===== *)
theory Steady
  imports Dispatch Semaphore Mutex Event Event_Group Mailbox
begin

text \<open>
  What no request but the termination of a task changes: the running task, the node dispatched
  last, the tasks on the process list (a creation adds one), and the saved stack pointer of every
  task.
\<close>

definition steady :: "kstate \<Rightarrow> kstate \<Rightarrow> bool" where
  "steady s t \<longleftrightarrow> Current_Process t = Current_Process s \<and> Last_Dispatched t = Last_Dispatched s \<and>
     (\<forall>x \<in> set (entries (nodes s) ProcessList). snd x \<noteq> NULL \<longrightarrow> x \<in> set (entries (nodes t) ProcessList)) \<and>
     (\<forall>p d. pds s p = Some d \<longrightarrow> (\<exists>d'. pds t p = Some d' \<and> sp d' = sp d))"

lemma steady_refl [simp]: "steady s s"
  by (simp add: steady_def)

lemma steady_trans: "steady s t \<Longrightarrow> steady t u \<Longrightarrow> steady s u"
  unfolding steady_def by metis

lemma steady_scalars [simp]:
  "steady s (t\<lparr>err := x0\<rparr>) = steady s t"
  "steady s (t\<lparr>alloc := x1\<rparr>) = steady s t"
  "steady s (t\<lparr>qelems := x2\<rparr>) = steady s t"
  "steady s (t\<lparr>bytes := x3\<rparr>) = steady s t"
  "steady s (t\<lparr>events := x4\<rparr>) = steady s t"
  "steady s (t\<lparr>event_groups := x5\<rparr>) = steady s t"
  "steady s (t\<lparr>mutexes := x6\<rparr>) = steady s t"
  "steady s (t\<lparr>semaphores := x7\<rparr>) = steady s t"
  "steady s (t\<lparr>mailboxes := x8\<rparr>) = steady s t"
  "steady s (t\<lparr>mail_objs := x9\<rparr>) = steady s t"
  "steady s (t\<lparr>Kernel_Request_Cswitch := x10\<rparr>) = steady s t"
  "steady s (t\<lparr>Event_Count := x11\<rparr>) = steady s t"
  "steady s (t\<lparr>Event_Group_Count := x12\<rparr>) = steady s t"
  "steady s (t\<lparr>Mutex_Count := x13\<rparr>) = steady s t"
  "steady s (t\<lparr>Semaphore_Count := x14\<rparr>) = steady s t"
  "steady s (t\<lparr>Mailbox_Count := x15\<rparr>) = steady s t"
  "steady s (t\<lparr>CurrentSp := x16\<rparr>) = steady s t"
  "steady s (t\<lparr>IRQ := x17\<rparr>) = steady s t"
  by (simp_all add: steady_def)

lemma steady_same:
  assumes "Current_Process t = Current_Process s" "Last_Dispatched t = Last_Dispatched s" "nodes t = nodes s" "pds t = pds s"
  shows "steady s t"
  using assms by (simp add: steady_def)

text \<open>One more write after a steady change.\<close>

lemma steady_upd_pd: "upd_pd p f u = Some t \<Longrightarrow> steady s u \<Longrightarrow> (\<And>d. sp (f d) = sp d) \<Longrightarrow> steady s t"
  by (auto simp: upd_pd_iff rd_Some_iff steady_def) (metis option.inject)+

lemma steady_upd_cur: "upd_cur f u = Some t \<Longrightarrow> steady s u \<Longrightarrow> (\<And>d. sp (f d) = sp d) \<Longrightarrow> steady s t"
  unfolding upd_cur_def by (rule steady_upd_pd)

lemma steady_upd_obj:
  "upd_sem p f1 u = Some t \<Longrightarrow> steady s u \<Longrightarrow> steady s t"
  "upd_mut p f2 u = Some t \<Longrightarrow> steady s u \<Longrightarrow> steady s t"
  "upd_ev p f3 u = Some t \<Longrightarrow> steady s u \<Longrightarrow> steady s t"
  "upd_eg p f4 u = Some t \<Longrightarrow> steady s u \<Longrightarrow> steady s t"
  "upd_mb p f5 u = Some t \<Longrightarrow> steady s u \<Longrightarrow> steady s t"
  "upd_mail p f6 u = Some t \<Longrightarrow> steady s u \<Longrightarrow> steady s t"
  by (auto simp: upd_sem_iff upd_mut_iff upd_ev_iff upd_eg_iff upd_mb_iff upd_mail_iff)

lemma steady_remove:
  assumes "remove_from_list L n u = Some t" "steady s u" "lists_wf LISTS (nodes u)" "L \<in> LISTS" "L \<noteq> ProcessList"
  shows "steady s t"
proof -
  obtain r h where r: "ptrlist_remove (nodes u) L n = Some (r, h)" "t = u\<lparr>nodes := h\<rparr>"
    using assms(1) by (auto simp: remove_from_list_def elim!: bind_SomeE)
  have "entries h ProcessList = entries (nodes u) ProcessList"
    by (rule ptrlist_remove_frame[OF assms(3,4) r(1)]) (use assms(5) in auto)
  with assms(2) show ?thesis by (simp add: steady_def r(2))
qed

lemma steady_link:
  assumes "link_new L p s al h" "kwf s" "nodes t = h" "Current_Process t = Current_Process s"
    "Last_Dispatched t = Last_Dispatched s" "\<forall>q. q \<noteq> p \<longrightarrow> pds t q = pds s q"
  shows "steady s t"
proof -
  have "pds s p = None" using assms(2) by (intro link_new_fresh[OF assms(1)]) (simp add: kwf_defs)
  then have "pds t q = pds s q" if "pds s q = Some d" for q d using assms(6) that by (metis option.distinct(1))
  with assms(1,3-5) show ?thesis by (auto simp: steady_def link_new_def)
qed

lemma steady_set_retval: "set_retval r u = Some t \<Longrightarrow> steady s u \<Longrightarrow> steady s t"
  by (auto simp: set_retval_def split: if_splits) (erule steady_upd_cur, simp_all)

lemmas steady_steps = steady_upd_pd steady_upd_cur steady_upd_obj

section \<open>Tasks and semaphores\<close>

lemma steady_Kernel_Suspend_Task: "Kernel_Suspend_Task s = Some t \<Longrightarrow> steady s t"
  by (auto simp: Kernel_Suspend_Task_def elim!: bind_SomeE split: if_splits) (erule steady_steps | simp)+

lemma steady_Kernel_Resume_Task: "Kernel_Resume_Task s = Some t \<Longrightarrow> steady s t"
  by (auto simp: Kernel_Resume_Task_def elim!: bind_SomeE split: if_splits) (erule steady_steps | simp)+

lemma steady_Kernel_Sleep_Task: "Kernel_Sleep_Task s = Some t \<Longrightarrow> steady s t"
  by (auto simp: Kernel_Sleep_Task_def elim!: bind_SomeE) (erule steady_steps | simp)+

lemma steady_Kernel_Create_Task:
  assumes kwf: "kwf s" and c: "Kernel_Create_Task s = Some t"
  shows "steady s t"
proof -
  from c obtain f n py a r s1 where
    u: "Kernel_Create_Task_Direct f n py a s = Some (r, s1)" "upd_cur (\<lambda>d. d\<lparr>request_retval := r\<rparr>) s1 = Some t"
    by (auto simp: Kernel_Create_Task_def elim!: bind_SomeE)
  have "steady s s1"
  proof (cases "length (procs s) = MAXTHREAD")
    case True
    with create_task_full[OF kwf] u(1) show ?thesis by auto
  next
    case False
    then have room: "length (procs s) < MAXTHREAD" using table_wf_count[OF kwf_tables(1)[OF kwf]] by simp
    from create_task_new[OF kwf room u(1)] show ?thesis
      by (elim disjE exE conjE) (erule steady_link[OF _ kwf] | simp add: with_task_def steady_same)+
  qed
  then show ?thesis by (rule steady_upd_cur[OF u(2)]) simp
qed

lemma steady_Kernel_Create_Semaphore:
  assumes kwf: "kwf s" and c: "Kernel_Create_Semaphore s = Some t"
  shows "steady s t"
proof -
  from c obtain n b r s1 where
    u: "Kernel_Create_Semaphore_Direct n b s = Some (r, s1)" "upd_cur (\<lambda>d. d\<lparr>request_retval := r\<rparr>) s1 = Some t"
    by (auto simp: Kernel_Create_Semaphore_def elim!: bind_SomeE)
  have "steady s s1"
  proof (cases "length (sems s) = MAXSEMAPHORE")
    case True
    with create_semaphore_full[OF kwf] u(1) show ?thesis by auto
  next
    case False
    then have "length (sems s) < MAXSEMAPHORE" using table_wf_count[OF kwf_tables(5)[OF kwf]] by simp
    from create_semaphore_new[OF kwf this u(1)] obtain p al h where
      "link_new SemaphoreList p s al h" "s1 = with_semaphore p (new_semaphore r n b) al h s" by blast
    then show ?thesis by (intro steady_link[OF _ kwf]) (simp_all add: with_semaphore_def)
  qed
  then show ?thesis by (rule steady_upd_cur[OF u(2)]) simp
qed

lemma steady_Kernel_Destroy_Semaphore: "kwf s \<Longrightarrow> Kernel_Destroy_Semaphore s = Some t \<Longrightarrow> steady s t"
  by (auto simp: Kernel_Destroy_Semaphore_def elim!: bind_SomeE split: if_splits) (erule steady_remove, simp_all add: kwf_lists)

lemma steady_get_from_queue:
  assumes "get_from_queue sem head s = Some t"
  shows "steady s t"
proof (rule get_from_queue.raw_induct[OF _ assms, where P = "\<lambda>_ _. steady"])
  fix f sem w s s'
  assume IH: "\<And>sem w s s'. f sem w s = Some s' \<Longrightarrow> steady s s'"
    and body: "do {
     m \<leftarrow> rd (semaphores s) sem;
     d \<leftarrow> rd (pds s) w;
     r \<leftarrow> int_sub (sem_count m) (request_args d 1);
     if sint r \<ge> 0
     then if state d \<noteq> WAIT_SEMAPHORE
       then Some (kernel_raise_error UNPROCESSABLE_TASK_STATE_ERR s)
       else do {
         s \<leftarrow> upd_sem sem (\<lambda>m. m\<lparr>sem_count := r\<rparr>) s;
         s \<leftarrow> upd_pd w (\<lambda>d. d\<lparr>state := READY\<rparr>) s;
         m \<leftarrow> rd (semaphores s) sem;
         (v, h, q) \<leftarrow> dequeue_int (qelems s) (sem_wait_queue m);
         s \<leftarrow> upd_sem sem (\<lambda>m. m\<lparr>sem_wait_queue := q\<rparr>) (s\<lparr>qelems := h\<rparr>);
         hd \<leftarrow> queue_peek_ptr h q;
         f sem hd s
       }
     else Some s
   } = Some s'"
  then show "steady s s'"
    by (auto elim!: bind_SomeE split: if_splits) (drule IH, erule steady_trans[rotated], (erule steady_steps | simp)+)
qed

lemma steady_Kernel_Semaphore_Get: "Kernel_Semaphore_Get s = Some t \<Longrightarrow> steady s t"
  by (auto simp: Kernel_Semaphore_Get_def elim!: bind_SomeE split: if_splits) (erule steady_steps | simp)+

lemma steady_Kernel_Semaphore_Give: "Kernel_Semaphore_Give s = Some t \<Longrightarrow> steady s t"
  by (auto simp: Kernel_Semaphore_Give_def Kernel_Semaphore_Get_From_Queue_def elim!: bind_SomeE split: if_splits)
    ((drule steady_get_from_queue, erule steady_trans[rotated])?, (erule steady_steps | simp)+)+

section \<open>Mutexes, events and event groups\<close>

text \<open>The lookups that raise errors change nothing else.\<close>

lemma steady_find:
  "findMutexByMutexID i u = Some (p, t) \<Longrightarrow> steady s t = steady s u"
  "findEventByEventID i u = Some (p, t) \<Longrightarrow> steady s t = steady s u"
  "findMailboxByID i u = Some (p, t) \<Longrightarrow> steady s t = steady s u"
  by (auto simp: findMutexByMutexID_def findEventByEventID_def findMailboxByID_def elim!: bind_SomeE split: if_splits)

lemma steady_with_retval:
  assumes "set_retval r u = Some t" "link_new L p s al h" "kwf s" "nodes u = h" "Current_Process u = Current_Process s"
    "Last_Dispatched u = Last_Dispatched s" "pds u = pds s"
  shows "steady s t"
  by (rule steady_set_retval[OF assms(1) steady_link[OF assms(2-6)]]) (simp add: assms(7))

lemma steady_Kernel_Create_Mutex:
  assumes kwf: "kwf s" and c: "Kernel_Create_Mutex s = Some (i, t)"
  shows "steady s t"
proof (cases "length (muts s) = MAXMUTEX")
  case True
  with create_mutex_full[OF kwf] c steady_set_retval[of 0 "s\<lparr>err := MAX_OBJECT_ERR\<rparr>" t s] show ?thesis
    by (cases "set_retval 0 (s\<lparr>err := MAX_OBJECT_ERR\<rparr>)") simp_all
next
  case False
  then have "length (muts s) < MAXMUTEX" using table_wf_count[OF kwf_tables(4)[OF kwf]] by simp
  from create_mutex_new[OF kwf this c] obtain p al h where
    "link_new MutexList p s al h" "set_retval i (with_mutex p (new_mutex i (junk_MUTEX s p)) al h s) = Some t" by blast
  then show ?thesis by (elim steady_with_retval[OF _ _ kwf, rotated]) (simp_all add: with_mutex_def)
qed

lemma steady_Kernel_Create_Event:
  assumes kwf: "kwf s" and c: "Kernel_Create_Event s = Some (i, t)"
  shows "steady s t"
proof (cases "length (evs s) = MAXEVENT")
  case True
  with create_event_full[OF kwf] c steady_set_retval[of 0 "s\<lparr>err := MAX_OBJECT_ERR\<rparr>" t s] show ?thesis
    by (cases "set_retval 0 (s\<lparr>err := MAX_OBJECT_ERR\<rparr>)") simp_all
next
  case False
  then have "length (evs s) < MAXEVENT" using table_wf_count[OF kwf_tables(2)[OF kwf]] by simp
  from create_event_new[OF kwf this c] obtain p al h where
    "link_new EventList p s al h" "set_retval i (with_event p (new_event i (junk_EVENT s p)) al h s) = Some t" by blast
  then show ?thesis by (elim steady_with_retval[OF _ _ kwf, rotated]) (simp_all add: with_event_def)
qed

lemma steady_Kernel_Create_Event_Group:
  assumes kwf: "kwf s" and c: "Kernel_Create_Event_Group s = Some (i, t)"
  shows "steady s t"
proof (cases "length (egs s) = MAXEVENTGROUP")
  case True
  with create_event_group_full[OF kwf] c steady_set_retval[of 0 "s\<lparr>err := MAX_OBJECT_ERR\<rparr>" t s] show ?thesis
    by (cases "set_retval 0 (s\<lparr>err := MAX_OBJECT_ERR\<rparr>)") simp_all
next
  case False
  then have "length (egs s) < MAXEVENTGROUP" using table_wf_count[OF kwf_tables(3)[OF kwf]] by simp
  from create_event_group_new[OF kwf this c] obtain p al h where
    "link_new EventGroupList p s al h" "set_retval i (with_event_group p (new_event_group i) al h s) = Some t" by blast
  then show ?thesis by (elim steady_with_retval[OF _ _ kwf, rotated]) (simp_all add: with_event_group_def)
qed

lemma steady_Kernel_Destroy_Mutex: "kwf s \<Longrightarrow> Kernel_Destroy_Mutex s = Some t \<Longrightarrow> steady s t"
  by (auto simp: Kernel_Destroy_Mutex_def elim!: bind_SomeE split: if_splits)
    ((erule steady_remove | erule steady_steps | simp add: kwf_lists)+)

lemma steady_Kernel_Destroy_Event_Group: "kwf s \<Longrightarrow> Kernel_Destroy_Event_Group s = Some t \<Longrightarrow> steady s t"
  by (auto simp: Kernel_Destroy_Event_Group_def elim!: bind_SomeE split: if_splits) (erule steady_remove, simp_all add: kwf_lists)

lemma steady_Kernel_Lock_Mutex: "Kernel_Lock_Mutex s = Some t \<Longrightarrow> steady s t"
  by (auto simp: Kernel_Lock_Mutex_def mutex_wait_def steady_find elim!: bind_SomeE split: if_splits)
    ((erule steady_steps | simp add: steady_find)+)

lemma steady_Kernel_Unlock_Mutex: "Kernel_Unlock_Mutex s = Some t \<Longrightarrow> steady s t"
  by (auto simp: Kernel_Unlock_Mutex_def Kernel_Lock_Mutex_From_Queue_def steady_find elim!: bind_SomeE split: if_splits)
    ((erule steady_steps | simp add: steady_find)+)

lemma steady_destroy_event:
  assumes "Kernel_Destroy_Event_Internal e u = Some t" "steady s u" "lists_wf LISTS (nodes u)"
  shows "steady s t"
  using assms by (auto simp: Kernel_Destroy_Event_Internal_def upd_ev_iff elim!: bind_SomeE) (erule steady_remove, simp_all)

lemma steady_Kernel_Wait_Event: "kwf s \<Longrightarrow> Kernel_Wait_Event s = Some t \<Longrightarrow> steady s t"
  by (auto simp: Kernel_Wait_Event_def findEventByEventID_def elim!: bind_SomeE split: if_splits)
    (erule steady_destroy_event steady_steps | simp add: kwf_lists)+

lemma steady_Kernel_Signal_Event: "kwf s \<Longrightarrow> Kernel_Signal_Event s = Some t \<Longrightarrow> steady s t"
  by (auto simp: Kernel_Signal_Event_def findEventByEventID_def upd_ev_iff upd_pd_iff rd_Some_iff elim!: bind_SomeE split: if_splits)
    (simp?, erule steady_destroy_event, simp add: steady_def, simp add: kwf_lists)+

lemma steady_upd_all: "(\<And>d. sp (f d) = sp d) \<Longrightarrow> steady s (s\<lparr>pds := upd_all f ps (pds s)\<rparr>)"
  by (auto simp: steady_def upd_all_def)

lemma steady_Kernel_Event_Group_Set_Bits: "kwf s \<Longrightarrow> Kernel_Event_Group_Set_Bits s = Some t \<Longrightarrow> steady s t"
  by (rule set_bits_cases[of s t]) (auto simp: steady_def upd_all_def wake_PD_def)

lemma steady_Kernel_Event_Group_Clear_Bits: "Kernel_Event_Group_Clear_Bits s = Some t \<Longrightarrow> steady s t"
  by (auto simp: Kernel_Event_Group_Clear_Bits_def elim!: bind_SomeE split: if_splits) (erule steady_steps | simp)+

lemma steady_Kernel_Event_Group_Wait_Bits: "Kernel_Event_Group_Wait_Bits s = Some t \<Longrightarrow> steady s t"
  by (auto simp: Kernel_Event_Group_Wait_Bits_def Let_def elim!: bind_SomeE split: if_splits) (erule steady_steps | simp)+

lemma steady_Kernel_Event_Group_Get_Bits: "Kernel_Event_Group_Get_Bits s = Some (r, t) \<Longrightarrow> steady s t"
  by (auto simp: Kernel_Event_Group_Get_Bits_def elim!: bind_SomeE split: if_splits) (erule steady_steps | simp)+

section \<open>Mailboxes\<close>

lemma steady_mailbox_steps:
  "block_sender p mb u = Some t \<Longrightarrow> steady s u \<Longrightarrow> steady s t"
  "block_receiver mb u = Some t \<Longrightarrow> steady s u \<Longrightarrow> steady s t"
  "put_mail p mb m n u = Some (ok, t) \<Longrightarrow> steady s u \<Longrightarrow> steady s t"
  "take_mail mb dest u = Some t \<Longrightarrow> steady s u \<Longrightarrow> steady s t"
  "next_sender mb u = Some (q, t) \<Longrightarrow> steady s u \<Longrightarrow> steady s t"
  "next_receiver mb u = Some (q, t) \<Longrightarrow> steady s u \<Longrightarrow> steady s t"
  by (auto simp: block_sender_def block_receiver_def put_mail_def take_mail_def next_sender_def next_receiver_def
        malloc_k_def Let_def elim!: bind_SomeE split: if_splits prod.splits)
    (erule steady_steps | simp)+

lemma steady_mailbox_call:
  assumes "mailbox_call c u = Some y"
  shows "steady u (snd y)"
  apply (rule mailbox_call.raw_induct[of "\<lambda>_ s y. steady s (snd y)", OF _ assms])
  subgoal premises prems for f c u y
  proof -
    have IH: "steady s t" if "f c u = Some (r, t)" "steady s u" for s c u r t
      using steady_trans[OF that(2)] prems(1)[OF that(1)] by simp
    show ?thesis
      using prems(2)
      by (cases y; cases c)
        (auto elim!: bind_SomeE split: if_splits, (erule IH steady_steps steady_mailbox_steps | simp)+)
  qed
  done

lemma steady_mailbox_call': "mailbox_call c u = Some (r, t) \<Longrightarrow> steady s u \<Longrightarrow> steady s t"
  using steady_mailbox_call[of c u "(r, t)"] by (auto intro: steady_trans)

lemma steady_Kernel_Create_Mailbox:
  assumes kwf: "kwf s" and c: "Kernel_Create_Mailbox s = Some t"
  shows "steady s t"
proof -
  from c obtain n r s1 where
    u: "Kernel_Create_Mailbox_Direct n s = Some (r, s1)" "upd_cur (\<lambda>d. d\<lparr>request_retval := r\<rparr>) s1 = Some t"
    by (auto simp: Kernel_Create_Mailbox_def elim!: bind_SomeE)
  have "steady s s1"
  proof (cases "length (mbs s) = MAXMAILBOX")
    case True
    with create_mailbox_full[OF kwf] u(1) show ?thesis by auto
  next
    case False
    then have "length (mbs s) < MAXMAILBOX" using table_wf_count[OF kwf_tables(6)[OF kwf]] by simp
    from create_mailbox_new[OF kwf this u(1)] obtain p al h where
      "link_new MailboxList p s al h" "s1 = with_mailbox p (new_mailbox r n) al h s" by blast
    then show ?thesis by (intro steady_link[OF _ kwf]) (simp_all add: with_mailbox_def)
  qed
  then show ?thesis by (rule steady_upd_cur[OF u(2)]) simp
qed

lemma steady_Kernel_Destroy_Mailbox: "kwf s \<Longrightarrow> Kernel_Destroy_Mailbox s = Some t \<Longrightarrow> steady s t"
  by (auto simp: Kernel_Destroy_Mailbox_def upd_mb_iff elim!: bind_SomeE split: if_splits) (erule steady_remove, simp_all add: kwf_lists)

lemma steady_Kernel_Mailbox_Destroy_Mail: "Kernel_Mailbox_Destroy_Mail s = Some t \<Longrightarrow> steady s t"
  by (auto simp: Kernel_Mailbox_Destroy_Mail_def elim!: bind_SomeE split: if_splits) (erule steady_steps | simp)+

lemma steady_Kernel_Mailbox_Check: "Kernel_Mailbox_Check s = Some t \<Longrightarrow> steady s t"
  by (auto simp: Kernel_Mailbox_Check_def elim!: bind_SomeE split: if_splits) (erule steady_steps | simp add: steady_find)+

lemma steady_Kernel_Mailbox_Send: "Kernel_Mailbox_Send s = Some t \<Longrightarrow> steady s t"
  by (auto simp: Kernel_Mailbox_Send_def elim!: bind_SomeE split: if_splits)
    (erule steady_steps steady_mailbox_call' | simp add: steady_find)+

lemma steady_Kernel_Mailbox_Recv: "Kernel_Mailbox_Recv s = Some t \<Longrightarrow> steady s t"
  by (auto simp: Kernel_Mailbox_Recv_def elim!: bind_SomeE split: if_splits)
    (erule steady_steps steady_mailbox_call' | simp add: steady_find)+

end
