(* ===== verification/Kernel.thy ===== *)
theory Kernel
  imports Steady
begin

text \<open>
  The request handler, the main loop and the boot functions of \<open>kernel.c\<close>.
\<close>

section \<open>The request handler\<close>

definition Kernel_Invalid_Request :: "kstate \<Rightarrow> kstate option" where
  "Kernel_Invalid_Request s = Some (kernel_raise_error INVALID_REQUEST_ERR s)"

text \<open>The branches of the \<open>switch\<close> that call one kernel function and do not dispatch.\<close>

fun handle_request :: "KERNEL_REQUEST \<Rightarrow> kstate \<Rightarrow> kstate option" where
  "handle_request TASK_CREATE s = Kernel_Create_Task s"
| "handle_request TASK_TERMINATE s = Kernel_Terminate_Task s"
| "handle_request TASK_SUSPEND s = Kernel_Suspend_Task s"
| "handle_request TASK_RESUME s = Kernel_Resume_Task s"
| "handle_request TASK_SLEEP s = Kernel_Sleep_Task s"
| "handle_request MUT_CREATE s = map_option snd (Kernel_Create_Mutex s)"
| "handle_request MUT_DESTROY s = Kernel_Destroy_Mutex s"
| "handle_request MUT_LOCK s = Kernel_Lock_Mutex s"
| "handle_request MUT_UNLOCK s = Kernel_Unlock_Mutex s"
| "handle_request SEM_CREATE s = Kernel_Create_Semaphore s"
| "handle_request SEM_DESTROY s = Kernel_Destroy_Semaphore s"
| "handle_request SEM_GIVE s = Kernel_Semaphore_Give s"
| "handle_request SEM_GET s = Kernel_Semaphore_Get s"
| "handle_request E_CREATE s = map_option snd (Kernel_Create_Event s)"
| "handle_request E_WAIT s = Kernel_Wait_Event s"
| "handle_request E_SIGNAL s = Kernel_Signal_Event s"
| "handle_request EG_CREATE s = map_option snd (Kernel_Create_Event_Group s)"
| "handle_request EG_DESTROY s = Kernel_Destroy_Event_Group s"
| "handle_request EG_SETBITS s = Kernel_Event_Group_Set_Bits s"
| "handle_request EG_CLEARBITS s = Kernel_Event_Group_Clear_Bits s"
| "handle_request EG_WAITBITS s = Kernel_Event_Group_Wait_Bits s"
| "handle_request EG_GETBITS s = map_option snd (Kernel_Event_Group_Get_Bits s)"
| "handle_request MB_CREATE s = Kernel_Create_Mailbox s"
| "handle_request MB_DESTROY s = Kernel_Destroy_Mailbox s"
| "handle_request MB_CHECKMAIL s = Kernel_Mailbox_Check s"
| "handle_request MB_SENDMAIL s = Kernel_Mailbox_Send s"
| "handle_request MB_RECVMAIL s = Kernel_Mailbox_Recv s"
| "handle_request MB_DESTROYM s = Kernel_Mailbox_Destroy_Mail s"
| "handle_request _ s = Kernel_Invalid_Request s"

definition Kernel_Handle_Request :: "nat list \<Rightarrow> kstate \<Rightarrow> (kstate \<times> nat list) option" where
  "Kernel_Handle_Request env s = do {
     d \<leftarrow> cur_pd s;
     if request d = TASK_YIELD \<or> request d = NONE then Kernel_Dispatch_Next_Task env s
     else do { s \<leftarrow> handle_request (request d) s; Some (s, env) }
   }"

section \<open>The main loop\<close>

text \<open>
  One iteration: from the entry of a task into the kernel to \<open>Exit_Kernel\<close>, which switches to
  the stack \<open>CurrentSp\<close> and enables interrupts.
\<close>

definition kernel_loop_body :: "nat list \<Rightarrow> kstate \<Rightarrow> (kstate \<times> nat list) option" where
  "kernel_loop_body env s = do {
     s \<leftarrow> upd_cur (\<lambda>d. d\<lparr>sp := CurrentSp s\<rparr>) s;
     (s, env) \<leftarrow> Kernel_Handle_Request env (s\<lparr>err := NO_ERR\<rparr>);
     s \<leftarrow> upd_cur (\<lambda>d. d\<lparr>request := NONE\<rparr>) s;
     (s, env) \<leftarrow> (if Kernel_Request_Cswitch s \<noteq> 0
       then do {
         (s, env) \<leftarrow> Kernel_Dispatch_Next_Task env s;
         Some (s\<lparr>Kernel_Request_Cswitch := 0\<rparr>, env)
       }
       else Some (s, env));
     d \<leftarrow> cur_pd s;
     Some (s\<lparr>CurrentSp := sp d, IRQ := True\<rparr>, env)
   }"

text \<open>
  \<open>Kernel_Main_Loop\<close> up to the first \<open>Exit_Kernel\<close>: the first dispatch is followed at once by an
  iteration of the loop, without a task having run.
\<close>

definition Kernel_Main_Loop :: "nat list \<Rightarrow> kstate \<Rightarrow> (kstate \<times> nat list) option" where
  "Kernel_Main_Loop env s = do {
     t \<leftarrow> ptrlist_findtail (nodes s) ProcessList;
     (s, env) \<leftarrow> Kernel_Dispatch_Next_Task env (s\<lparr>Last_Dispatched := t\<rparr>);
     kernel_loop_body env s
   }"

section \<open>Boot\<close>

definition Kernel_Reset :: "kstate \<Rightarrow> kstate" where
  "Kernel_Reset s =
     Mailbox_Reset (Semaphore_Reset (Mutex_Reset (Event_Group_Reset (Event_Reset (Task_Reset
       (s\<lparr>KernelActive := 0, Tick_Count := 0, Last_Dispatched := NULL, Kernel_Request_Cswitch := 0,
          err := NO_ERR, Preemptive_Cswitch_Allowed := 1, Ticks_Since_Last_Cswitch := 0\<rparr>))))))"

text \<open>\<open>Timer_init\<close> only writes the registers of the timer.\<close>

definition Kernel_Start :: "nat list \<Rightarrow> kstate \<Rightarrow> (kstate \<times> nat list) option" where
  "Kernel_Start env s =
     (if KernelActive s = 0 \<and> 0 < Task_Count s
      then Kernel_Main_Loop env (s\<lparr>IRQ := False, KernelActive := 1\<rparr>)
      else Some (s, env))"

section \<open>The invariant of the running system\<close>

text \<open>
  The node dispatched last is that of the running task. \<open>ids_left\<close>: no identifier counter is
  about to wrap, which is what a creation needs to give a new identifier.
\<close>

definition cur_ok :: "kstate \<Rightarrow> bool" where
  "cur_ok s \<longleftrightarrow> Current_Process s \<noteq> NULL \<and>
     (Last_Dispatched s, Current_Process s) \<in> set (entries (nodes s) ProcessList)"

definition ids_left :: "kstate \<Rightarrow> bool" where
  "ids_left s \<longleftrightarrow> Last_PID s \<noteq> - 1 \<and> Last_EventID s \<noteq> - 1 \<and> Last_Event_Group_ID s \<noteq> - 1 \<and>
     Last_MutexID s \<noteq> - 1 \<and> Last_SemaphoreID s \<noteq> - 1 \<and> Last_MailboxID s \<noteq> - 1"

definition ctx_kept :: "kstate \<Rightarrow> kstate \<Rightarrow> bool" where
  "ctx_kept s t \<longleftrightarrow> (\<forall>p d. pds s p = Some d \<longrightarrow> (\<exists>d'. pds t p = Some d' \<and> sp d' = sp d))"

lemma ctx_kept_trans: "ctx_kept s t \<Longrightarrow> ctx_kept t u \<Longrightarrow> ctx_kept s u"
  unfolding ctx_kept_def by metis

lemma ctx_kept_upd_cur: "upd_cur f s = Some t \<Longrightarrow> (\<And>d. sp (f d) = sp d) \<Longrightarrow> ctx_kept s t"
  by (auto simp: ctx_kept_def upd_cur_iff cur_pd_def rd_Some_iff)

lemma steady_ctx: "steady s t \<Longrightarrow> ctx_kept s t"
  by (simp add: steady_def ctx_kept_def)

lemma steady_cur_ok: "steady s t \<Longrightarrow> cur_ok s \<Longrightarrow> cur_ok t"
  by (auto simp: steady_def cur_ok_def)

lemma cur_ok_last: "cur_ok s \<Longrightarrow> last_ok s"
  by (force simp: cur_ok_def last_ok_def contents_def filter_empty_conv)

text \<open>Every request keeps the invariant, and all but the termination are steady.\<close>

lemma handle_request_kwf:
  assumes "handle_request r s = Some t" "kwf s" "ids_left s"
  shows "kwf t"
proof -
  note K = kwf_Kernel_Create_Task[OF assms(2)] kwf_Kernel_Terminate_Task[OF assms(2)] kwf_Kernel_Suspend_Task[OF assms(2)]
    kwf_Kernel_Resume_Task[OF assms(2)] kwf_Kernel_Sleep_Task[OF assms(2)]
    create_mutex_kwf[OF assms(2), THEN conjunct1] kwf_Kernel_Destroy_Mutex[OF _ assms(2)]
    kwf_Kernel_Lock_Mutex[OF _ assms(2)] kwf_Kernel_Unlock_Mutex[OF _ assms(2)]
    kwf_Kernel_Create_Semaphore[OF assms(2)] kwf_Kernel_Destroy_Semaphore[OF assms(2)]
    kwf_Kernel_Semaphore_Give[OF assms(2)] kwf_Kernel_Semaphore_Get[OF assms(2)]
    create_event_kwf[OF assms(2), THEN conjunct1] kwf_Kernel_Wait_Event[OF _ assms(2)] kwf_Kernel_Signal_Event[OF _ assms(2)]
    create_event_group_kwf[OF assms(2), THEN conjunct1] kwf_Kernel_Destroy_Event_Group[OF _ assms(2)]
    kwf_Kernel_Event_Group_Set_Bits[OF _ assms(2)] kwf_Kernel_Event_Group_Clear_Bits[OF _ assms(2)]
    kwf_Kernel_Event_Group_Wait_Bits[OF _ assms(2)] kwf_Kernel_Event_Group_Get_Bits[OF _ assms(2)]
    kwf_Kernel_Create_Mailbox[OF _ assms(2)] kwf_Kernel_Destroy_Mailbox[OF _ assms(2)]
    kwf_Kernel_Mailbox_Check[OF _ assms(2)] kwf_Kernel_Mailbox_Send[OF _ assms(2)]
    kwf_Kernel_Mailbox_Recv[OF _ assms(2)] kwf_Kernel_Mailbox_Destroy_Mail[OF _ assms(2)]
  show ?thesis
    using assms by (cases r) (auto simp: ids_left_def Kernel_Invalid_Request_def intro: K)
qed

lemma handle_request_steady:
  assumes "handle_request r s = Some t" "kwf s" "r \<noteq> TASK_TERMINATE"
  shows "steady s t"
proof -
  note K = steady_Kernel_Create_Task[OF assms(2)] steady_Kernel_Suspend_Task steady_Kernel_Resume_Task
    steady_Kernel_Sleep_Task steady_Kernel_Create_Mutex[OF assms(2)] steady_Kernel_Destroy_Mutex[OF assms(2)]
    steady_Kernel_Lock_Mutex steady_Kernel_Unlock_Mutex steady_Kernel_Create_Semaphore[OF assms(2)]
    steady_Kernel_Destroy_Semaphore[OF assms(2)] steady_Kernel_Semaphore_Give steady_Kernel_Semaphore_Get
    steady_Kernel_Create_Event[OF assms(2)] steady_Kernel_Wait_Event[OF assms(2)] steady_Kernel_Signal_Event[OF assms(2)]
    steady_Kernel_Create_Event_Group[OF assms(2)] steady_Kernel_Destroy_Event_Group[OF assms(2)]
    steady_Kernel_Event_Group_Set_Bits[OF assms(2)] steady_Kernel_Event_Group_Clear_Bits
    steady_Kernel_Event_Group_Wait_Bits steady_Kernel_Event_Group_Get_Bits
    steady_Kernel_Create_Mailbox[OF assms(2)] steady_Kernel_Destroy_Mailbox[OF assms(2)]
    steady_Kernel_Mailbox_Check steady_Kernel_Mailbox_Send steady_Kernel_Mailbox_Recv steady_Kernel_Mailbox_Destroy_Mail
  show ?thesis
    using assms by (cases r) (auto simp: Kernel_Invalid_Request_def intro: K)
qed

text \<open>A dispatch from a state whose last dispatched node exists ends with a listed, running task.\<close>

lemma dispatch_cur_ok:
  assumes "kwf s" "last_ok s" "Kernel_Dispatch_Next_Task env s = Some (t, env')"
  shows "kwf t \<and> cur_ok t \<and> ctx_kept s t"
proof -
  obtain u n p d where D: "quiet (mark_ready s) u" "n \<noteq> NULL" "(n, p) \<in> set (entries (nodes s) ProcessList)" "p \<noteq> NULL"
    "pds u p = Some d" "t = switch_to n p d u" "kwf t"
    by (rule dispatch_result[OF assms]) (rule that)
  have n: "nodes u = nodes s" using D(1) by (simp add: quiet_def mark_ready_def Let_def)
  have c1: "ctx_kept s (mark_ready s)"
    by (auto simp: ctx_kept_def mark_ready_def Let_def)
  have sp: "map_option sp (pds u q) = map_option sp (pds (mark_ready s) q)" for q using D(1) by (simp add: quiet_def)
  have c2: "ctx_kept (mark_ready s) u"
    unfolding ctx_kept_def
  proof (intro allI impI)
    fix q e assume "pds (mark_ready s) q = Some e"
    with sp[of q] show "\<exists>d'. pds u q = Some d' \<and> sp d' = sp e" by (cases "pds u q") auto
  qed
  have "ctx_kept u t" using D(5) by (auto simp: D(6) ctx_kept_def switch_to_def)
  then have "ctx_kept s t" using c1 c2 ctx_kept_trans by blast
  moreover have "cur_ok t" using D(3,4) n by (simp add: D(6) cur_ok_def switch_to_def)
  ultimately show ?thesis using D(7) by simp
qed

text \<open>Without tasks nothing can be dispatched.\<close>

lemma dispatch_no_tasks:
  assumes kwf: "kwf s" and "procs s = []" "Last_Dispatched s = ProcessList"
  shows "Kernel_Dispatch_Next_Task env s = None"
proof (rule ccontr)
  assume "Kernel_Dispatch_Next_Task env s \<noteq> None"
  then obtain r where r: "Kernel_Dispatch_Next_Task env s = Some r" by auto
  let ?s1 = "s\<lparr>Preemptive_Cswitch_Allowed := 0\<rparr>"
  from r obtain d :: PD and s2 t m x where c: "(if state d = RUNNING then upd_cur (\<lambda>d. d\<lparr>state := READY\<rparr>) ?s1 else Some ?s1) = Some s2"
    "Kernel_Tick_Handler s2 = Some t" "Kernel_Select_Next_Task t = Some m"
    "(if m = NULL then do {
         (s, env) \<leftarrow> idle_loop env 0 (Last_Dispatched t) (t\<lparr>IRQ := True\<rparr>);
         n \<leftarrow> Kernel_Select_Next_Task (s\<lparr>IRQ := False\<rparr>);
         Some (n, s\<lparr>IRQ := False\<rparr>, env)
       } else Some (m, t, env)) = Some x"
    unfolding Kernel_Dispatch_Next_Task_def Let_def by (elim bind_SomeE) (rule that)
  have "kwf ?s1" using kwf by simp
  then have k2: "kwf s2" "nodes s2 = nodes s" "Last_Dispatched s2 = ProcessList" "Task_Count s2 = Task_Count s"
    using c(1) kwf_upd_cur[of "\<lambda>d. d\<lparr>state := READY\<rparr>" ?s1 s2] assms(3) by (auto simp: upd_cur_iff split: if_splits)
  have t: "t = s2" using tick_handler_empty[OF k2(1)] c(2) assms(2) k2(2) by (auto simp: Kernel_Tick_Handler_def split: if_splits)
  have "Task_Count s = 0" using table_wf_count[OF kwf_tables(1)[OF kwf]] assms(2) by (simp add: unat_eq_0)
  then have "m = NULL" using c(3) k2(4) by (auto simp: t Kernel_Select_Next_Task_def sel_init_def elim!: bind_SomeE)
  with c(4) have "node_pd t ProcessList \<noteq> None"
    using k2(3) by (cases env) (auto simp: t node_pd_def elim!: bind_SomeE)
  moreover have "entries (nodes s) ProcessList = [(ProcessList, NULL)]"
    using contents_Nil_iff(1)[OF kwf_lists[OF kwf], of ProcessList] assms(2) by simp
  ultimately show False
    using lists_wf_seg[OF kwf_lists[OF kwf], of ProcessList] by (auto simp: t k2 node_pd_def rd_def split: option.splits)
qed

text \<open>The dispatch after a termination: the task was at the head, and other tasks are left.\<close>

lemma terminate_dispatch:
  assumes "kwf s" "cur_ok s" "Kernel_Terminate_Task s = Some s1" "upd_cur (\<lambda>d. d\<lparr>request := NONE\<rparr>) s1 = Some s2"
    and "Kernel_Dispatch_Next_Task env s2 = Some (t, env')"
  shows "kwf t \<and> cur_ok t \<and> ctx_kept s t"
proof -
  have c: "(Last_Dispatched s, Current_Process s) \<in> set (entries (nodes s) ProcessList)" using assms(2) by (simp add: cur_ok_def)
  note N = terminate_node[OF assms(1) c assms(3)]
  have k2: "kwf s2" by (rule kwf_upd_cur[OF assms(4) kwf_Kernel_Terminate_Task[OF assms(1,3)]]) simp
  have s2: "nodes s2 = nodes s1" "Last_Dispatched s2 = Last_Dispatched s1" using assms(4) by (auto simp: upd_cur_iff)
  have h: "Last_Dispatched s = ProcessList"
    using N(5) dispatch_dangling[OF k2, of env] assms(5) s2 by auto
  then have "procs s2 \<noteq> []" using dispatch_no_tasks[OF k2, of env] assms(5) s2(2) N(1) by auto
  moreover have "ProcessList \<in> fst ` set (entries (nodes s2) ProcessList)"
    using lists_wf_entries[OF kwf_lists[OF k2], of ProcessList] by (auto simp: wf_entries_Cons)
  ultimately have l: "last_ok s2" using s2(2) N(1) h by (simp add: last_ok_def)
  obtain d where d: "pds s (Current_Process s) = Some d"
    using assms(3) by (auto simp: Kernel_Terminate_Task_def upd_cur_iff cur_pd_def rd_Some_iff elim!: bind_SomeE)
  have "ctx_kept s s1" using N(6) d by (auto simp: ctx_kept_def)
  moreover have "ctx_kept s1 s2" by (rule ctx_kept_upd_cur[OF assms(4)]) simp
  ultimately show ?thesis using dispatch_cur_ok[OF k2 l assms(5)] ctx_kept_trans by blast
qed

text \<open>One iteration of the main loop.\<close>

lemma handled_ok:
  assumes "kwf s" "cur_ok s" "ids_left s" "cur_pd s = Some d" "Kernel_Handle_Request env s = Some (s1, env1)"
    and "upd_cur (\<lambda>d. d\<lparr>request := NONE\<rparr>) s1 = Some s2"
    and sw: "(if Kernel_Request_Cswitch s2 \<noteq> 0
       then do {
         (s, env) \<leftarrow> Kernel_Dispatch_Next_Task env1 s2;
         Some (s\<lparr>Kernel_Request_Cswitch := 0\<rparr>, env)
       }
       else Some (s2, env1)) = Some (t, env')"
  shows "kwf t \<and> cur_ok t \<and> ctx_kept s t"
proof -
  have c12: "ctx_kept s1 s2" by (rule ctx_kept_upd_cur[OF assms(6)]) simp
  have k12: "kwf s1 \<Longrightarrow> kwf s2" by (rule kwf_upd_cur[OF assms(6)]) simp_all
  have r12: "cur_ok s1 \<Longrightarrow> cur_ok s2" "Kernel_Request_Cswitch s2 = Kernel_Request_Cswitch s1"
    using assms(6) by (auto simp: upd_cur_iff cur_ok_def)
  have zero: "kwf (u\<lparr>Kernel_Request_Cswitch := 0\<rparr>) = kwf u" "cur_ok (u\<lparr>Kernel_Request_Cswitch := 0\<rparr>) = cur_ok u"
    "ctx_kept s (u\<lparr>Kernel_Request_Cswitch := 0\<rparr>) = ctx_kept s u" for u
    by (simp_all add: cur_ok_def ctx_kept_def)
  show ?thesis
  proof (cases "request d = TASK_TERMINATE")
    case True
    then have h: "Kernel_Terminate_Task s = Some s1" using assms(4,5) by (auto simp: Kernel_Handle_Request_def elim!: bind_SomeE)
    have "Kernel_Request_Cswitch s2 = 1"
      using terminate_node(4)[OF assms(1) _ h] assms(2) r12(2) by (simp add: cur_ok_def)
    with sw obtain u where "Kernel_Dispatch_Next_Task env1 s2 = Some (u, env')" "t = u\<lparr>Kernel_Request_Cswitch := 0\<rparr>"
      by (auto elim!: bind_SomeE)
    with terminate_dispatch[OF assms(1,2) h assms(6)] zero show ?thesis by blast
  next
    case False
    have 1: "kwf s1 \<and> cur_ok s1 \<and> ctx_kept s s1"
    proof (cases "request d = TASK_YIELD \<or> request d = NONE")
      case True
      with assms(4,5) have "Kernel_Dispatch_Next_Task env s = Some (s1, env1)" by (auto simp: Kernel_Handle_Request_def)
      then show ?thesis by (rule dispatch_cur_ok[OF assms(1) cur_ok_last[OF assms(2)]])
    next
      case other: False
      with assms(4,5) have h: "handle_request (request d) s = Some s1" by (auto simp: Kernel_Handle_Request_def elim!: bind_SomeE)
      from handle_request_steady[OF h assms(1) False] handle_request_kwf[OF h assms(1,3)] assms(2)
      show ?thesis by (simp add: steady_ctx steady_cur_ok)
    qed
    then have 2: "kwf s2" "cur_ok s2" "ctx_kept s s2" using k12 r12(1) c12 ctx_kept_trans by blast+
    show ?thesis
    proof (cases "Kernel_Request_Cswitch s2 = 0")
      case True
      with sw 2 show ?thesis by simp
    next
      case False
      with sw obtain u where u: "Kernel_Dispatch_Next_Task env1 s2 = Some (u, env')" "t = u\<lparr>Kernel_Request_Cswitch := 0\<rparr>"
        by (auto elim!: bind_SomeE)
      from dispatch_cur_ok[OF 2(1) cur_ok_last[OF 2(2)] u(1)] 2(3) show ?thesis
        unfolding u(2) zero using ctx_kept_trans by blast
    qed
  qed
qed

lemma kernel_loop_ok:
  assumes "kwf s" "cur_ok s" "ids_left s" "kernel_loop_body env s = Some (t, env')"
  shows "kwf t \<and> cur_ok t \<and> IRQ t \<and> (\<exists>d. cur_pd t = Some d \<and> CurrentSp t = sp d) \<and>
    (\<forall>p d. pds s p = Some d \<longrightarrow>
      (\<exists>d'. pds t p = Some d' \<and> sp d' = (if p = Current_Process s then CurrentSp s else sp d)))"
proof -
  obtain d0 where d0: "cur_pd s = Some d0" using assms(4) by (auto simp: kernel_loop_body_def upd_cur_iff elim!: bind_SomeE)
  let ?d = "d0\<lparr>sp := CurrentSp s\<rparr>"
  let ?s = "s\<lparr>pds := (pds s)(Current_Process s \<mapsto> ?d), err := NO_ERR\<rparr>"
  have u0: "upd_cur (\<lambda>d. d\<lparr>sp := CurrentSp s\<rparr>) s = Some (s\<lparr>pds := (pds s)(Current_Process s \<mapsto> ?d)\<rparr>)"
    by (rule upd_cur_Some[OF d0])
  from assms(4) obtain s1 env1 s2 s3 env3 d where
    h: "Kernel_Handle_Request env ?s = Some (s1, env1)" "upd_cur (\<lambda>d. d\<lparr>request := NONE\<rparr>) s1 = Some s2"
    "(if Kernel_Request_Cswitch s2 \<noteq> 0
       then do {
         (s, env) \<leftarrow> Kernel_Dispatch_Next_Task env1 s2;
         Some (s\<lparr>Kernel_Request_Cswitch := 0\<rparr>, env)
       }
       else Some (s2, env1)) = Some (s3, env3)" "cur_pd s3 = Some d" "Some (s3\<lparr>CurrentSp := sp d, IRQ := True\<rparr>, env3) = Some (t, env')"
    unfolding kernel_loop_body_def u0 bind.bind_lunit by (elim bind_SomeEs) (rule that)
  have p: "pds s (Current_Process s) = Some d0" "Current_Process s \<noteq> NULL" using d0 by (auto simp: cur_pd_def rd_Some_iff)
  have "kwf (s\<lparr>pds := (pds s)(Current_Process s \<mapsto> ?d)\<rparr>)" by (rule kwf_pds[OF assms(1) p(1)]) simp
  then have k: "kwf ?s" by simp
  have i: "cur_ok ?s" "ids_left ?s" "cur_pd ?s = Some ?d" using assms(2,3) p by (simp_all add: cur_ok_def ids_left_def cur_pd_def rd_def)
  note H = handled_ok[OF k i h(1-3)]
  have t: "t = s3\<lparr>CurrentSp := sp d, IRQ := True\<rparr>" using h(5) by simp
  have "ctx_kept ?s s3" using H by simp
  note K = this[unfolded ctx_kept_def, rule_format]
  have c: "\<exists>d'. pds s3 q = Some d' \<and> sp d' = (if q = Current_Process s then CurrentSp s else sp e)" if "pds s q = Some e" for q e
    using K[of q "if q = Current_Process s then ?d else e"] that p by (cases "q = Current_Process s") simp_all
  have "kwf s3" "cur_ok s3" using H by simp_all
  with c show ?thesis using h(4) unfolding t by (simp add: cur_ok_def cur_pd_def)
qed

end
