(* ===== verification/OS_API.thy ===== *)
theory OS_API
  imports Kernel
begin

text \<open>
  The system calls of \<open>os.c\<close>. A call either fills in the request of the running task and
  enters the kernel (\<open>Enter_Kernel s\<close>: the state on entry), or returns without entering it
  (\<open>Return v s\<close>). Where a function goes on after the kernel has switched back to the task, that
  part is a second definition, named after the function with \<open>_result\<close>.
\<close>

datatype 'a call = Enter_Kernel kstate | Return 'a kstate

text \<open>
  \<open>Disable_Interrupt\<close>, writes to the running task's descriptor, \<open>Enter_Kernel\<close>; and the guard of
  the functions that need a running kernel.
\<close>

definition enter_with :: "(PD \<Rightarrow> PD) \<Rightarrow> kstate \<Rightarrow> 'a call option" where
  "enter_with f s = do { s \<leftarrow> upd_cur f (s\<lparr>IRQ := False\<rparr>); Some (Enter_Kernel s) }"

definition need_kernel :: "'a \<Rightarrow> (PD \<Rightarrow> PD) \<Rightarrow> kstate \<Rightarrow> 'a call option" where
  "need_kernel v f s =
     (if KernelActive s = 0 then Some (Return v (kernel_raise_error KERNEL_INACTIVE_ERR s))
      else enter_with f s)"

definition retval_of_current :: "kstate \<Rightarrow> u16 option" where
  "retval_of_current s = do { d \<leftarrow> cur_pd s; Some (request_retval d) }"

section \<open>Initialisation\<close>

text \<open>\<open>OS_Init\<close> sets up the serial line first; the theory \<open>Serial\<close> has this part and the output.\<close>

definition OS_Init :: "kstate \<Rightarrow> kstate" where
  "OS_Init s = Kernel_Reset s"

definition OS_Start :: "nat list \<Rightarrow> kstate \<Rightarrow> (kstate \<times> nat list) option" where
  "OS_Start env s = Kernel_Start env s"

section \<open>Tasks\<close>

definition Task_Create :: "u16 \<Rightarrow> u16 \<Rightarrow> u8 \<Rightarrow> u16 \<Rightarrow> kstate \<Rightarrow> u16 call option" where
  "Task_Create f ssize py targ s =
     (if KernelActive s \<noteq> 0
      then enter_with (\<lambda>d. d\<lparr>request_args := (request_args d)(0 := f, 1 := ssize, 2 := ucast py, 3 := targ),
             request := TASK_CREATE\<rparr>) s
      else do {
        (r, s) \<leftarrow> Kernel_Create_Task_Direct f ssize py targ s;
        Some (Return (if err s = MAX_OBJECT_ERR then 0 else r) s)
      })"

definition Task_Create_result :: "kstate \<Rightarrow> u16 option" where
  "Task_Create_result s = do { r \<leftarrow> retval_of_current s; Some (if err s = MAX_OBJECT_ERR then 0 else r) }"

definition Task_Terminate :: "kstate \<Rightarrow> unit call option" where
  "Task_Terminate s = need_kernel () (\<lambda>d. d\<lparr>request := TASK_TERMINATE\<rparr>) s"

definition Task_Yield :: "kstate \<Rightarrow> unit call option" where
  "Task_Yield s = need_kernel () (\<lambda>d. d\<lparr>request := TASK_YIELD\<rparr>) s"

definition Task_GetArg :: "kstate \<Rightarrow> u16 option" where
  "Task_GetArg s =
     (if KernelActive s \<noteq> 0 then do { d \<leftarrow> cur_pd s; Some (task_arg d) } else Some (- 1))"

definition Task_Suspend :: "u16 \<Rightarrow> kstate \<Rightarrow> unit call option" where
  "Task_Suspend p s = need_kernel ()
     (\<lambda>d. d\<lparr>request := TASK_SUSPEND, request_args := (request_args d)(0 := p)\<rparr>) s"

definition Task_Resume :: "u16 \<Rightarrow> kstate \<Rightarrow> unit call option" where
  "Task_Resume p s = need_kernel ()
     (\<lambda>d. d\<lparr>request := TASK_RESUME, request_args := (request_args d)(0 := p)\<rparr>) s"

definition Task_Sleep :: "u16 \<Rightarrow> kstate \<Rightarrow> unit call option" where
  "Task_Sleep t s = need_kernel () (\<lambda>d. d\<lparr>request := TASK_SLEEP, request_timeout := t\<rparr>) s"

section \<open>Events\<close>

definition Event_Create :: "kstate \<Rightarrow> u16 call option" where
  "Event_Create s =
     (if KernelActive s \<noteq> 0 then enter_with (\<lambda>d. d\<lparr>request := E_CREATE\<rparr>) s
      else do {
        (r, s) \<leftarrow> Kernel_Create_Event s;
        Some (Return (if err s = MAX_OBJECT_ERR then 0 else r) s)
      })"

definition Event_Create_result :: "kstate \<Rightarrow> u16 option" where
  "Event_Create_result s = do { r \<leftarrow> retval_of_current s; Some (if err s = MAX_OBJECT_ERR then 0 else r) }"

definition Event_Wait :: "u16 \<Rightarrow> kstate \<Rightarrow> unit call option" where
  "Event_Wait e s = need_kernel ()
     (\<lambda>d. d\<lparr>request := E_WAIT, request_args := (request_args d)(0 := e)\<rparr>) s"

definition Event_Signal :: "u16 \<Rightarrow> kstate \<Rightarrow> unit call option" where
  "Event_Signal e s = need_kernel ()
     (\<lambda>d. d\<lparr>request := E_SIGNAL, request_args := (request_args d)(0 := e)\<rparr>) s"

section \<open>Mutexes\<close>

definition Mutex_Create :: "kstate \<Rightarrow> u16 call option" where
  "Mutex_Create s =
     (if KernelActive s \<noteq> 0 then enter_with (\<lambda>d. d\<lparr>request := MUT_CREATE\<rparr>) s
      else do {
        (r, s) \<leftarrow> Kernel_Create_Mutex s;
        Some (Return (if err s = MAX_OBJECT_ERR then 0 else r) s)
      })"

definition Mutex_Create_result :: "kstate \<Rightarrow> u16 option" where
  "Mutex_Create_result s = do { r \<leftarrow> retval_of_current s; Some (if err s = MAX_OBJECT_ERR then 0 else r) }"

text \<open>The destroy functions return 1 when the last kernel operation left no error.\<close>

definition no_error :: "kstate \<Rightarrow> u16" where
  "no_error s = (if err s \<noteq> NO_ERR then 0 else 1)"

definition Mutex_Destroy :: "u16 \<Rightarrow> kstate \<Rightarrow> u16 call option" where
  "Mutex_Destroy m s =
     (if KernelActive s \<noteq> 0
      then enter_with (\<lambda>d. d\<lparr>request := MUT_DESTROY, request_args := (request_args d)(0 := m)\<rparr>) s
      else Some (Return (no_error s) s))"

definition Mutex_Lock :: "u16 \<Rightarrow> kstate \<Rightarrow> unit call option" where
  "Mutex_Lock m s = need_kernel ()
     (\<lambda>d. d\<lparr>request := MUT_LOCK, request_args := (request_args d)(0 := m)\<rparr>) s"

definition Mutex_Unlock :: "u16 \<Rightarrow> kstate \<Rightarrow> unit call option" where
  "Mutex_Unlock m s = need_kernel ()
     (\<lambda>d. d\<lparr>request := MUT_UNLOCK, request_args := (request_args d)(0 := m)\<rparr>) s"

section \<open>Semaphores\<close>

definition Semaphore_Create :: "u16 \<Rightarrow> u16 \<Rightarrow> kstate \<Rightarrow> u16 call option" where
  "Semaphore_Create initial_count binary s =
     (if KernelActive s \<noteq> 0
      then enter_with (\<lambda>d. d\<lparr>request := SEM_CREATE,
             request_args := (request_args d)(0 := initial_count, 1 := binary)\<rparr>) s
      else do {
        (r, s) \<leftarrow> Kernel_Create_Semaphore_Direct initial_count binary s;
        Some (Return (if err s \<noteq> NO_ERR then 0 else r) s)
      })"

definition Semaphore_Create_result :: "kstate \<Rightarrow> u16 option" where
  "Semaphore_Create_result s = do { r \<leftarrow> retval_of_current s; Some (if err s \<noteq> NO_ERR then 0 else r) }"

definition Semaphore_Destroy :: "u16 \<Rightarrow> kstate \<Rightarrow> u16 call option" where
  "Semaphore_Destroy m s =
     (if KernelActive s \<noteq> 0
      then enter_with (\<lambda>d. d\<lparr>request := SEM_DESTROY, request_args := (request_args d)(0 := m)\<rparr>) s
      else Some (Return (no_error s) s))"

definition Semaphore_Give :: "u16 \<Rightarrow> u16 \<Rightarrow> kstate \<Rightarrow> unit call option" where
  "Semaphore_Give i amount s = need_kernel ()
     (\<lambda>d. d\<lparr>request := SEM_GIVE, request_args := (request_args d)(0 := i, 1 := amount)\<rparr>) s"

definition Semaphore_Get :: "u16 \<Rightarrow> u16 \<Rightarrow> kstate \<Rightarrow> unit call option" where
  "Semaphore_Get i amount s = need_kernel ()
     (\<lambda>d. d\<lparr>request := SEM_GET, request_args := (request_args d)(0 := i, 1 := amount)\<rparr>) s"

section \<open>Event groups\<close>

definition Event_Group_Create :: "kstate \<Rightarrow> u16 call option" where
  "Event_Group_Create s =
     (if KernelActive s \<noteq> 0 then enter_with (\<lambda>d. d\<lparr>request := EG_CREATE\<rparr>) s
      else do {
        (r, s) \<leftarrow> Kernel_Create_Event_Group s;
        Some (Return (if err s = MAX_OBJECT_ERR then 0 else r) s)
      })"

definition Event_Group_Create_result :: "kstate \<Rightarrow> u16 option" where
  "Event_Group_Create_result s = do { r \<leftarrow> retval_of_current s; Some (if err s = MAX_OBJECT_ERR then 0 else r) }"

definition Event_Group_Destroy :: "u16 \<Rightarrow> kstate \<Rightarrow> u16 call option" where
  "Event_Group_Destroy eg s =
     (if KernelActive s \<noteq> 0
      then enter_with (\<lambda>d. d\<lparr>request := EG_DESTROY, request_args := (request_args d)(0 := eg)\<rparr>) s
      else Some (Return (no_error s) s))"

definition Event_Group_Set_Bits :: "u16 \<Rightarrow> u16 \<Rightarrow> kstate \<Rightarrow> unit call option" where
  "Event_Group_Set_Bits e b s = need_kernel ()
     (\<lambda>d. d\<lparr>request := EG_SETBITS, request_args := (request_args d)(0 := e, 1 := b)\<rparr>) s"

definition Event_Group_Clear_Bits :: "u16 \<Rightarrow> u16 \<Rightarrow> kstate \<Rightarrow> unit call option" where
  "Event_Group_Clear_Bits e b s = need_kernel ()
     (\<lambda>d. d\<lparr>request := EG_CLEARBITS, request_args := (request_args d)(0 := e, 1 := b)\<rparr>) s"

definition Event_Group_Wait_Bits :: "u16 \<Rightarrow> u16 \<Rightarrow> u16 \<Rightarrow> u16 \<Rightarrow> kstate \<Rightarrow> unit call option" where
  "Event_Group_Wait_Bits e b wait_all timeout s = need_kernel ()
     (\<lambda>d. d\<lparr>request := EG_WAITBITS, request_args := (request_args d)(0 := e, 1 := b, 2 := wait_all),
            request_timeout := timeout\<rparr>) s"

text \<open>The identifier \<open>e\<close> is not stored in the request.\<close>

definition Event_Group_Get_Bits :: "u16 \<Rightarrow> kstate \<Rightarrow> u16 call option" where
  "Event_Group_Get_Bits e s = need_kernel 0 (\<lambda>d. d\<lparr>request := EG_GETBITS\<rparr>) s"

section \<open>Mailboxes\<close>

definition Mailbox_Create :: "u16 \<Rightarrow> kstate \<Rightarrow> u16 call option" where
  "Mailbox_Create cap s =
     (if KernelActive s \<noteq> 0
      then enter_with (\<lambda>d. d\<lparr>request := MB_CREATE, request_args := (request_args d)(0 := cap)\<rparr>) s
      else do {
        (r, s) \<leftarrow> Kernel_Create_Mailbox_Direct cap s;
        Some (Return (if err s \<noteq> NO_ERR then 0 else r) s)
      })"

definition Mailbox_Create_result :: "kstate \<Rightarrow> u16 option" where
  "Mailbox_Create_result s = do { r \<leftarrow> retval_of_current s; Some (if err s \<noteq> NO_ERR then 0 else r) }"

definition Mailbox_Destroy :: "u16 \<Rightarrow> kstate \<Rightarrow> unit call option" where
  "Mailbox_Destroy mb s = need_kernel ()
     (\<lambda>d. d\<lparr>request := MB_DESTROY, request_args := (request_args d)(0 := mb)\<rparr>) s"

definition Mailbox_Destroy_Mail :: "addr \<Rightarrow> kstate \<Rightarrow> u16 call option" where
  "Mailbox_Destroy_Mail received s = need_kernel 0
     (\<lambda>d. d\<lparr>request := MB_DESTROYM, request_args := (request_args d)(0 := received)\<rparr>) s"

definition Mailbox_Check :: "u16 \<Rightarrow> kstate \<Rightarrow> u16 call option" where
  "Mailbox_Check mb s = need_kernel 0
     (\<lambda>d. d\<lparr>request := MB_CHECKMAIL, request_args := (request_args d)(0 := mb)\<rparr>) s"

definition Mailbox_Send_Helper :: "u16 \<Rightarrow> addr \<Rightarrow> u16 \<Rightarrow> u16 \<Rightarrow> PD \<Rightarrow> PD" where
  "Mailbox_Send_Helper mb msg_ptr msg_size blocking d = d\<lparr>request := MB_SENDMAIL,
     request_args := (request_args d)(0 := mb, 1 := msg_ptr, 2 := msg_size, 3 := blocking)\<rparr>"

definition Mailbox_Recv_Helper :: "u16 \<Rightarrow> addr \<Rightarrow> u16 \<Rightarrow> PD \<Rightarrow> PD" where
  "Mailbox_Recv_Helper mb received blocking d = d\<lparr>request := MB_RECVMAIL,
     request_args := (request_args d)(0 := mb, 1 := received, 2 := blocking)\<rparr>"

definition Mailbox_Send :: "u16 \<Rightarrow> addr \<Rightarrow> u16 \<Rightarrow> kstate \<Rightarrow> u16 call option" where
  "Mailbox_Send mb msg_ptr msg_size s = need_kernel 0 (Mailbox_Send_Helper mb msg_ptr msg_size 0) s"

definition Mailbox_Recv :: "u16 \<Rightarrow> addr \<Rightarrow> kstate \<Rightarrow> u16 call option" where
  "Mailbox_Recv mb received s = need_kernel 0 (Mailbox_Recv_Helper mb received 0) s"

definition Mailbox_Send_Blocking :: "u16 \<Rightarrow> addr \<Rightarrow> u16 \<Rightarrow> u16 \<Rightarrow> kstate \<Rightarrow> u16 call option" where
  "Mailbox_Send_Blocking mb msg_ptr msg_size timeout s = need_kernel 0
     (\<lambda>d. Mailbox_Send_Helper mb msg_ptr msg_size 1 (d\<lparr>request_timeout := timeout\<rparr>)) s"

definition Mailbox_Recv_Blocking :: "u16 \<Rightarrow> addr \<Rightarrow> u16 \<Rightarrow> kstate \<Rightarrow> u16 call option" where
  "Mailbox_Recv_Blocking mb received timeout s = need_kernel 0
     (\<lambda>d. Mailbox_Recv_Helper mb received 1 (d\<lparr>request_timeout := timeout\<rparr>)) s"

end
