(* ===== verification/System.thy ===== *)
theory System
  imports OS_API
begin

text \<open>
  The running system: the tasks, the timer and the kernel take steps in turn. Its invariant, and
  what a task can rely on when it is switched out and in again.
\<close>

section \<open>The steps\<close>

text \<open>
  Between two entries into the kernel the running task works in its own memory: it fills in a
  request (what \<open>os.c\<close> writes into its descriptor), writes byte blocks and \<open>MAIL\<close> descriptors,
  moves the stack pointer and allocates blocks. The timer interrupt is \<open>Kernel_Tick_ISR\<close>. A
  kernel step is one iteration of the main loop.
\<close>

inductive sys_step :: "kstate \<Rightarrow> kstate \<Rightarrow> bool" where
  task: "cur_pd s = Some d \<Longrightarrow> dom b = dom (bytes s) \<Longrightarrow> dom m = dom (mail_objs s) \<Longrightarrow>
    sys_step s (s\<lparr>pds := (pds s)(Current_Process s \<mapsto> d\<lparr>request := r, request_args := a, request_timeout := n\<rparr>),
      bytes := b, mail_objs := m, CurrentSp := p, IRQ := i\<rparr>)"
| task_malloc: "malloc (alloc s) = (q, al) \<Longrightarrow> q \<noteq> NULL \<Longrightarrow>
    sys_step s (s\<lparr>alloc := al, bytes := (bytes s)(q \<mapsto> x)\<rparr>)"
| timer: "IRQ s \<Longrightarrow> Kernel_Tick_ISR s = Some (entered, t) \<Longrightarrow> sys_step s t"
| kernel: "ids_left s \<Longrightarrow> kernel_loop_body env s = Some (t, env') \<Longrightarrow> sys_step s t"

inductive_cases sys_stepE: "sys_step s t"

definition sys_ok :: "kstate \<Rightarrow> bool" where
  "sys_ok s \<longleftrightarrow> kwf s \<and> cur_ok s"

text \<open>Every request that \<open>os.c\<close> makes is a step of the running task.\<close>

lemma enter_with_step:
  assumes "enter_with f s = Some (Enter_Kernel t)"
    and "\<And>d. \<exists>r a n. f d = d\<lparr>request := r, request_args := a, request_timeout := n\<rparr>"
  shows "sys_step s t"
proof -
  obtain d where d: "cur_pd s = Some d" "t = s\<lparr>IRQ := False, pds := (pds s)(Current_Process s \<mapsto> f d)\<rparr>"
    using assms(1) by (auto simp: enter_with_def upd_cur_iff cur_pd_def elim!: bind_SomeE)
  obtain r a n where f: "f d = d\<lparr>request := r, request_args := a, request_timeout := n\<rparr>" using assms(2) by blast
  have "t = s\<lparr>pds := (pds s)(Current_Process s \<mapsto> d\<lparr>request := r, request_args := a, request_timeout := n\<rparr>),
      bytes := bytes s, mail_objs := mail_objs s, CurrentSp := CurrentSp s, IRQ := False\<rparr>"
    unfolding d(2) f by (rule kstate.equality) simp_all
  then show ?thesis using task[OF d(1) refl refl] by metis
qed

section \<open>The invariant\<close>

lemma task_step_ok:
  assumes "sys_ok s" "cur_pd s = Some d" "dom b = dom (bytes s)" "dom m = dom (mail_objs s)" "pid d' = pid d"
  shows "sys_ok (s\<lparr>pds := (pds s)(Current_Process s \<mapsto> d'), bytes := b, mail_objs := m, CurrentSp := p, IRQ := i\<rparr>)"
proof -
  have k: "kwf s" using assms(1) by (simp add: sys_ok_def)
  have d: "pds s (Current_Process s) = Some d" using assms(2) by (simp add: cur_pd_def rd_Some_iff)
  have k1: "kwf (s\<lparr>pds := (pds s)(Current_Process s \<mapsto> d')\<rparr>)" by (rule kwf_pds[OF k d assms(5)])
  have "fresh_above (alloc s) b" using k assms(3) by (simp add: kwf_defs fresh_above_def)
  with k1 have k2: "kwf (s\<lparr>pds := (pds s)(Current_Process s \<mapsto> d'), bytes := b\<rparr>)" using kwf_bytes by fastforce
  have "fresh_above (alloc s) m" using k assms(4) by (simp add: kwf_defs fresh_above_def)
  with kwf_mail_objs[OF k2, of m] assms(4) have
    "kwf (s\<lparr>pds := (pds s)(Current_Process s \<mapsto> d'), bytes := b, mail_objs := m\<rparr>)" by simp
  then show ?thesis using assms(1) by (simp add: sys_ok_def cur_ok_def)
qed

lemma sys_step_ok:
  assumes "sys_step s t" "sys_ok s"
  shows "sys_ok t"
  using assms
proof (induction rule: sys_step.induct)
  case (task s d b m r a n p i)
  then show ?case by (intro task_step_ok) simp_all
next
  case (task_malloc s q al x)
  note m = task_malloc(1,2)
  have k: "kwf s" using task_malloc(3) by (simp add: sys_ok_def)
  have k1: "kwf (s\<lparr>alloc := al\<rparr>)" by (rule kwf_alloc[OF k]) (use malloc_brk[OF m(1)] in simp)
  have "fresh_above al ((bytes s)(q \<mapsto> x))"
    by (rule fresh_above_put[OF fresh_above_malloc[OF m(1)]])
      (use unat_malloc[OF m] malloc_brk[OF m(1)] k in \<open>simp_all add: kwf_defs\<close>)
  with kwf_bytes[OF k1, of "(bytes s)(q \<mapsto> x)"] have "kwf (s\<lparr>alloc := al, bytes := (bytes s)(q \<mapsto> x)\<rparr>)" by simp
  then show ?case using task_malloc(3) by (simp add: sys_ok_def cur_ok_def)
next
  case (timer s entered t)
  then have "Current_Process t = Current_Process s" "Last_Dispatched t = Last_Dispatched s" "nodes t = nodes s"
    by (auto simp: Kernel_Tick_ISR_def Let_def upd_cur_iff elim!: bind_SomeE split: if_splits)
  with timer kwf_Kernel_Tick_ISR[of s entered t] show ?case by (simp add: sys_ok_def cur_ok_def)
next
  case (kernel s env t env')
  with kernel_loop_ok[of s env t env'] show ?case by (simp add: sys_ok_def)
qed

lemma sys_steps_ok: "sys_step\<^sup>*\<^sup>* s t \<Longrightarrow> sys_ok s \<Longrightarrow> sys_ok t"
  by (induction rule: rtranclp_induct) (auto intro: sys_step_ok)

text \<open>C1: The running system keeps its invariant: from a well-formed state whose running task is the
  one dispatched last, no sequence of steps of the tasks, the timer and the kernel (over all 28
  requests) reaches a state that is not well formed: all lists, tables and queues stay intact and
  apart, every queue holds living tasks or messages only, and the running task stays on the process
  list at the node of the last dispatch.\<close>

theorem system_invariant:
  assumes "sys_step\<^sup>*\<^sup>* s t" "kwf s" "cur_ok s"
  shows "kwf t \<and> cur_ok t"
  using sys_steps_ok[OF assms(1)] assms(2,3) by (simp add: sys_ok_def)

section \<open>Switching out and in\<close>

text \<open>A step that another task is running for keeps the stack pointer saved for \<open>p\<close>; when the step
  dispatches \<open>p\<close>, it is loaded.\<close>

lemma sys_step_saved:
  assumes "sys_step s t" "sys_ok s" "pds s p = Some d" "Current_Process s \<noteq> p"
  shows "\<exists>d'. pds t p = Some d' \<and> sp d' = sp d \<and> (Current_Process t = p \<longrightarrow> CurrentSp t = sp d)"
  using assms
proof (induction rule: sys_step.induct)
  case (timer s entered t)
  then show ?case
    by (auto simp: Kernel_Tick_ISR_def Let_def upd_cur_iff elim!: bind_SomeE split: if_splits)
next
  case (kernel s env t env')
  then have k: "kwf s" "cur_ok s" by (simp_all add: sys_ok_def)
  note L = kernel_loop_ok[OF k kernel(1,2)]
  then have "\<exists>d'. pds t p = Some d' \<and> sp d' = (if p = Current_Process s then CurrentSp s else sp d)"
    using kernel(4) by blast
  then obtain d' where "pds t p = Some d'" "sp d' = sp d" using kernel(5) by auto
  moreover obtain e where "cur_pd t = Some e" "CurrentSp t = sp e" using L by blast
  ultimately show ?case by (auto simp: cur_pd_def rd_Some_iff)
qed auto

text \<open>A step that switches \<open>p\<close> out is a kernel step, and saves its stack pointer.\<close>

lemma sys_step_switch_out:
  assumes "sys_step s t" "sys_ok s" "Current_Process t \<noteq> Current_Process s"
  shows "\<exists>d. pds t (Current_Process s) = Some d \<and> sp d = CurrentSp s"
  using assms
proof (induction rule: sys_step.induct)
  case (timer s entered t)
  then show ?case
    by (auto simp: Kernel_Tick_ISR_def Let_def upd_cur_iff elim!: bind_SomeE split: if_splits)
next
  case (kernel s env t env')
  then have k: "kwf s" "cur_ok s" by (simp_all add: sys_ok_def)
  obtain d where "cur_pd s = Some d" using kernel(2) by (auto simp: kernel_loop_body_def upd_cur_iff elim!: bind_SomeE)
  then have "pds s (Current_Process s) = Some d" by (simp add: cur_pd_def rd_Some_iff)
  with kernel_loop_ok[OF k kernel(1,2)] have "\<exists>d'. pds t (Current_Process s) = Some d' \<and>
      sp d' = (if Current_Process s = Current_Process s then CurrentSp s else sp d)" by blast
  then show ?case by simp
qed simp_all

text \<open>C4: A task that is switched out resumes where it was: when it runs again for the first time,
  after any steps of other tasks, the timer and the kernel, the processor's stack pointer is the
  one it had when it was switched out, so that \<open>RESTORECTX\<close> finds the context that was saved.\<close>

theorem task_resumes_where_it_left:
  assumes "kwf s" "cur_ok s" "sys_step s s1" "Current_Process s1 \<noteq> Current_Process s"
    and "(\<lambda>a b. sys_step a b \<and> Current_Process a \<noteq> Current_Process s)\<^sup>*\<^sup>* s1 t"
    and "Current_Process t = Current_Process s"
  shows "CurrentSp t = CurrentSp s"
proof -
  let ?p = "Current_Process s"
  have s: "sys_ok s" using assms(1,2) by (simp add: sys_ok_def)
  from sys_step_switch_out[OF assms(3) s assms(4)] obtain d where d: "pds s1 ?p = Some d" "sp d = CurrentSp s" by blast
  from assms(5) have "sys_ok t \<and> (\<exists>d. pds t ?p = Some d \<and> sp d = CurrentSp s) \<and>
    (Current_Process t = ?p \<longrightarrow> CurrentSp t = CurrentSp s)"
  proof (induction rule: rtranclp_induct)
    case base
    show ?case using sys_step_ok[OF assms(3) s] d assms(4) by simp
  next
    case (step a b)
    then obtain e where e: "pds a ?p = Some e" "sp e = CurrentSp s" "sys_ok a" by blast
    from sys_step_saved[OF _ e(3,1)] step(2) obtain e' where
      "pds b ?p = Some e'" "sp e' = sp e" "Current_Process b = ?p \<longrightarrow> CurrentSp b = sp e" by blast
    with e(2) sys_step_ok[OF _ e(3)] step(2) show ?case by simp
  qed
  with assms(6) show ?thesis by simp
qed

section \<open>Tasks that only yield\<close>

text \<open>Busy tasks of priority 5 that yield in turn, the one at place \<open>i\<close> running.\<close>

definition yielding :: "nat \<Rightarrow> kstate \<Rightarrow> bool" where
  "yielding i s \<longleftrightarrow> busy s \<and> equal_tasks 5 0 s \<and> ids_left s \<and> Kernel_Request_Cswitch s = 0 \<and> Tick_Count s = 0 \<and>
     i < length (procs s) \<and> Last_Dispatched s = fst (entries (nodes s) ProcessList ! i) \<and> Current_Process s = procs s ! i"

lemma busy_scalars [simp]:
  "busy (s\<lparr>err := e\<rparr>) = busy s" "busy (s\<lparr>CurrentSp := p\<rparr>) = busy s" "busy (s\<lparr>IRQ := i\<rparr>) = busy s"
  by (simp_all add: busy_def last_ok_def)

lemma yielding_scalars [simp]:
  "yielding i (s\<lparr>err := e\<rparr>) = yielding i s" "yielding i (s\<lparr>CurrentSp := p\<rparr>) = yielding i s" "yielding i (s\<lparr>IRQ := b\<rparr>) = yielding i s"
  by (simp_all add: yielding_def equal_tasks_def ids_left_def)

lemma yielding_upd:
  assumes "yielding i s" "pds s p = Some d" "pid d' = pid d" "state d' = state d" "request_timeout d' = request_timeout d"
    "pri d' = pri d" "starvation_ticks d' = starvation_ticks d"
  shows "yielding i (s\<lparr>pds := (pds s)(p \<mapsto> d')\<rparr>)"
proof -
  have "kwf s" using assms(1) by (simp add: yielding_def busy_def)
  note k = kwf_pds[OF this assms(2,3)]
  have "last_ok (s\<lparr>pds := (pds s)(p \<mapsto> d')\<rparr>) = last_ok s" by (simp add: last_ok_def)
  with k have "busy (s\<lparr>pds := (pds s)(p \<mapsto> d')\<rparr>)"
    using assms by (auto simp: yielding_def busy_def)
  then show ?thesis using assms by (auto simp: yielding_def equal_tasks_def ids_left_def)
qed

lemma yield_turn:
  assumes y: "yielding i s" and r: "cur_pd s = Some d" "request d = TASK_YIELD"
  shows "\<exists>t. kernel_loop_body [] s = Some (t, []) \<and> yielding (Suc i mod length (procs s)) t \<and> procs t = procs s"
proof -
  let ?d = "d\<lparr>sp := CurrentSp s\<rparr>"
  let ?s = "s\<lparr>pds := (pds s)(Current_Process s \<mapsto> ?d), err := NO_ERR\<rparr>"
  let ?j = "Suc i mod length (procs s)"
  have d: "pds s (Current_Process s) = Some d" "Current_Process s \<noteq> NULL" using r(1) by (simp_all add: cur_pd_def rd_Some_iff)
  have "yielding i (s\<lparr>pds := (pds s)(Current_Process s \<mapsto> ?d)\<rparr>)" by (rule yielding_upd[OF y d(1)]) simp_all
  then have y1: "yielding i ?s" by simp
  have five: "unat (5 :: u8) \<le> 10" "unat (0 :: u16) \<le> 0" by simp_all
  from y1 have b: "busy ?s" "equal_tasks 5 0 ?s" "i < length (procs ?s)"
    "Last_Dispatched ?s = fst (entries (nodes ?s) ProcessList ! i)" unfolding yielding_def by blast+
  have same: "?s\<lparr>Tick_Count := 0\<rparr> = ?s" using y by (intro kstate.equality) (simp_all add: yielding_def)
  obtain s1 where s1: "Kernel_Dispatch_Next_Task [] (?s\<lparr>Tick_Count := 0\<rparr>) = Some (s1, [])" "busy s1"
    "equal_tasks 5 (0 - unat (0 :: u16)) s1" "nodes s1 = nodes ?s"
    "Last_Dispatched s1 = fst (entries (nodes ?s) ProcessList ! (Suc i mod length (procs ?s)))"
    "Current_Process s1 = procs ?s ! (Suc i mod length (procs ?s))"
    "\<exists>n p d. s1 = switch_to n p d (ticked (mark_ready (?s\<lparr>Tick_Count := 0\<rparr>)))"
    by (rule round_robin_step[OF b(1,2) five b(3,4)]) (rule that)
  then obtain n p e where e: "s1 = switch_to n p e (ticked (mark_ready ?s))" unfolding same by blast
  have ids: "ids_left s1" "Kernel_Request_Cswitch s1 = 0" "Tick_Count s1 = 0"
    using y by (simp_all add: e switch_to_def ticked_def mark_ready_def Let_def yielding_def ids_left_def)
  have j: "?j < length (procs s)" using y by (intro mod_less_divisor) (auto simp: yielding_def)
  have "yielding ?j s1" using s1 ids j by (simp add: yielding_def)
  moreover obtain d1 where d1: "cur_pd s1 = Some d1"
    using s1(2) j by (force simp: busy_def cur_pd_def rd_def dest: contents_not_NULL)
  ultimately have y2: "yielding ?j (s1\<lparr>pds := (pds s1)(Current_Process s1 \<mapsto> d1\<lparr>request := NONE\<rparr>)\<rparr>)"
    by (intro yielding_upd) (auto simp: cur_pd_def rd_Some_iff)
  have c: "cur_pd ?s = Some ?d" using d by (simp add: cur_pd_def rd_def)
  have h: "Kernel_Handle_Request [] ?s = Some (s1, [])"
    using r(2) s1(1) unfolding Kernel_Handle_Request_def c same by simp
  have "kernel_loop_body [] s = Some (s1\<lparr>pds := (pds s1)(Current_Process s1 \<mapsto> d1\<lparr>request := NONE\<rparr>),
      CurrentSp := sp d1, IRQ := True\<rparr>, [])"
    using d1 ids(2) unfolding kernel_loop_body_def upd_cur_Some[OF r(1)] bind.bind_lunit h prod.case upd_cur_Some[OF d1]
    by (auto simp: cur_pd_def rd_Some_iff rd_def)
  with y2 s1(4) show ?thesis by simp
qed

text \<open>The running task asks to yield, and the kernel switches to the next.\<close>

lemma yield_steps:
  assumes y: "yielding i s"
  shows "\<exists>u t. sys_step s u \<and> Current_Process u = Current_Process s \<and> sys_step u t \<and>
    yielding (Suc i mod length (procs s)) t \<and> procs t = procs s \<and> CurrentSp u = CurrentSp s"
proof -
  obtain d where d: "cur_pd s = Some d" using y by (force simp: yielding_def busy_def cur_pd_def rd_def dest: contents_not_NULL)
  have p: "pds s (Current_Process s) = Some d" "Current_Process s \<noteq> NULL" using d by (simp_all add: cur_pd_def rd_Some_iff)
  define u where "u = s\<lparr>pds := (pds s)(Current_Process s \<mapsto> d\<lparr>request := TASK_YIELD, request_args := request_args d,
    request_timeout := request_timeout d\<rparr>), bytes := bytes s, mail_objs := mail_objs s, CurrentSp := CurrentSp s, IRQ := False\<rparr>"
  have eq: "u = s\<lparr>pds := (pds s)(Current_Process s \<mapsto> d\<lparr>request := TASK_YIELD\<rparr>), IRQ := False\<rparr>"
    unfolding u_def by (rule kstate.equality) simp_all
  have "yielding i (s\<lparr>pds := (pds s)(Current_Process s \<mapsto> d\<lparr>request := TASK_YIELD\<rparr>)\<rparr>)"
    by (rule yielding_upd[OF y p(1)]) simp_all
  then have yu: "yielding i u" by (simp add: eq)
  have c: "cur_pd u = Some (d\<lparr>request := TASK_YIELD\<rparr>)" using p by (simp add: eq cur_pd_def rd_def)
  obtain t where t: "kernel_loop_body [] u = Some (t, [])" "yielding (Suc i mod length (procs u)) t" "procs t = procs u"
    using yield_turn[OF yu c] by auto
  have 1: "sys_step s u" unfolding u_def by (rule sys_step.task[OF d refl refl])
  have 2: "sys_step u t" by (rule sys_step.kernel[OF _ t(1)]) (use yu in \<open>simp add: yielding_def\<close>)
  show ?thesis by (rule exI[of _ u], rule exI[of _ t]) (use 1 2 t in \<open>simp add: eq\<close>)
qed

lemma yielding_sys: "yielding i s \<Longrightarrow> kwf s \<and> cur_ok s"
proof -
  assume y: "yielding i s"
  have k: "kwf s" "procs s \<noteq> []" using y by (auto simp: yielding_def busy_def)
  have "length (entries (nodes s) ProcessList) = length (procs s)" using kwf_procs(1)[OF k] by (metis length_map)
  then have i: "i < length (entries (nodes s) ProcessList)" using y by (simp add: yielding_def)
  have "procs s ! i = snd (entries (nodes s) ProcessList ! i)" unfolding kwf_procs(1)[OF k, symmetric] by (rule nth_map[OF i])
  with y have "(Last_Dispatched s, Current_Process s) = entries (nodes s) ProcessList ! i" by (simp add: yielding_def)
  with nth_mem[OF i] have "(Last_Dispatched s, Current_Process s) \<in> set (entries (nodes s) ProcessList)" by simp
  moreover have "procs s ! i \<noteq> NULL" by (rule contents_not_NULL[OF nth_mem]) (use y in \<open>simp add: yielding_def\<close>)
  then have "Current_Process s \<noteq> NULL" using y by (simp add: yielding_def)
  ultimately show ?thesis using k by (simp add: cur_ok_def)
qed

text \<open>The example state with three tasks of priority 5.\<close>

definition ex_sys :: kstate where
  "ex_sys = ex_tasks (\<lambda>_. False) (\<lambda>_. 0) (ex_PD 2 5 READY (\<lambda>_. 0) 0) (ex_PD 3 5 READY (\<lambda>_. 0) 0)"

lemma ex_sys_yielding: "yielding 0 ex_sys" and ex_sys_procs: "procs ex_sys = [20, 21, 22]"
proof -
  have k: "kwf ex_sys" unfolding ex_sys_def by (rule ex_tasks_kwf) (simp_all add: ex_PD_def)
  have e: "entries (nodes ex_sys) ProcessList = [(1, 20), (30, 21), (31, 22)]" and c: "procs ex_sys = [20, 21, 22]"
    by (simp_all add: ex_sys_def ex_tasks_def ex_state_def)
  show "procs ex_sys = [20, 21, 22]" by (rule c)
  show "yielding 0 ex_sys"
    using k by (simp add: yielding_def busy_def last_ok_def equal_tasks_def ids_left_def e c)
      (simp add: ex_sys_def ex_tasks_def ex_state_def ex_PD_def)
qed


theorem system_invariant_witness:
  "\<exists>t. sys_step\<^sup>*\<^sup>* ex_sys t \<and> Current_Process t = 21 \<and> kwf t \<and> cur_ok t"
proof -
  obtain u t where t: "sys_step ex_sys u" "sys_step u t" "yielding (Suc 0 mod length (procs ex_sys)) t" "procs t = procs ex_sys"
    using yield_steps[OF ex_sys_yielding] by blast
  then have "Current_Process t = 21" by (simp add: yielding_def ex_sys_procs)
  moreover have r: "sys_step\<^sup>*\<^sup>* ex_sys t" using t(1,2) by (meson converse_rtranclp_into_rtranclp r_into_rtranclp)
  moreover from system_invariant[OF this] yielding_sys[OF ex_sys_yielding] have "kwf t \<and> cur_ok t" by blast
  ultimately show ?thesis by blast
qed

theorem task_resumes_where_it_left_witness:
  "\<exists>s s1 t. Current_Process s = 20 \<and> sys_step s s1 \<and> Current_Process s1 = 21 \<and>
     (\<lambda>a b. sys_step a b \<and> Current_Process a \<noteq> 20)\<^sup>*\<^sup>* s1 t \<and> Current_Process t = 20 \<and> CurrentSp t = CurrentSp s"
proof -
  obtain s s1 where 1: "sys_step ex_sys s" "Current_Process s = Current_Process ex_sys" "sys_step s s1"
    "yielding (Suc 0 mod length (procs ex_sys)) s1" "procs s1 = procs ex_sys"
    using yield_steps[OF ex_sys_yielding] by blast
  then have y1: "yielding 1 s1" by (simp add: ex_sys_procs)
  obtain s2 s3 where 2: "sys_step s1 s2" "Current_Process s2 = Current_Process s1" "sys_step s2 s3"
    "yielding (Suc 1 mod length (procs s1)) s3" "procs s3 = procs s1"
    using yield_steps[OF y1] by blast
  then have y3: "yielding 2 s3" using 1(5) by (simp add: ex_sys_procs numeral_2_eq_2)
  obtain s4 t where 3: "sys_step s3 s4" "Current_Process s4 = Current_Process s3" "sys_step s4 t"
    "yielding (Suc 2 mod length (procs s3)) t" "procs t = procs s3"
    using yield_steps[OF y3] by blast
  have c: "Current_Process s = 20" "Current_Process s1 = 21" "Current_Process s3 = 22" "Current_Process t = 20"
    using 1 2 3 y1 y3 ex_sys_yielding by (simp_all add: yielding_def ex_sys_procs)
  have r: "(\<lambda>a b. sys_step a b \<and> Current_Process a \<noteq> Current_Process s)\<^sup>*\<^sup>* s1 t"
    using 2 3 c by (intro converse_rtranclp_into_rtranclp[of _ s1 s2] converse_rtranclp_into_rtranclp[of _ s2 s3]
        converse_rtranclp_into_rtranclp[of _ s3 s4] r_into_rtranclp[of _ s4 t]) simp_all
  have "sys_ok s" by (rule sys_step_ok[OF 1(1)]) (use yielding_sys[OF ex_sys_yielding] in \<open>simp add: sys_ok_def\<close>)
  then have "kwf s" "cur_ok s" by (simp_all add: sys_ok_def)
  from task_resumes_where_it_left[OF this 1(3) _ r] c have "CurrentSp t = CurrentSp s" by simp
  with 1(3) c r show ?thesis by auto
qed


section \<open>Before the first task runs\<close>

text \<open>Creating tasks before the start, given as code address, stack size, priority and argument.\<close>

definition create_tasks :: "(u16 \<times> u16 \<times> u8 \<times> u16) list \<Rightarrow> kstate \<Rightarrow> kstate option" where
  "create_tasks = foldM (\<lambda>(f, n, py, a) s. case Task_Create f n py a s of Some (Return r s) \<Rightarrow> Some s | _ \<Rightarrow> None)"

lemma create_task_boot:
  assumes "KernelActive s = 0" "Task_Create f n py a s = Some (Return r t)"
  shows "KernelActive t = 0 \<and> Current_Process t = Current_Process s"
  using assms by (auto simp: Task_Create_def Kernel_Create_Task_Direct_def Let_def malloc_k_def add_to_list_def upd_pd_iff
      elim!: bind_SomeE split: if_splits prod.splits)

lemma create_tasks_boot:
  "create_tasks ts s = Some t \<Longrightarrow> KernelActive s = 0 \<Longrightarrow> KernelActive t = 0 \<and> Current_Process t = Current_Process s"
proof (induction ts arbitrary: s)
  case (Cons x ts)
  obtain f n py a where x: "x = (f, n, py, a)" by (cases x)
  from Cons.prems(1) obtain r u where u: "Task_Create f n py a s = Some (Return r u)" "create_tasks ts u = Some t"
    by (auto simp: create_tasks_def x elim!: bind_SomeE split: option.splits call.splits)
  with Cons.IH[OF u(2)] create_task_boot[OF Cons.prems(2) u(1)] show ?case by simp
qed (simp add: create_tasks_def)

text \<open>The start of the kernel reads through the pointer to the running task before there is one:
  after \<open>OS_Init\<close> and any creations of tasks \<open>Current_Process\<close> is still the null pointer it was when
  the program was loaded, and \<open>OS_Start\<close> dereferences it as soon as there is a task to start.\<close>

theorem start_dereferences_null:
  assumes "Current_Process s = NULL" "create_tasks ts (OS_Init s) = Some t"
  shows "OS_Start env t = (if Task_Count t = 0 then Some (t, env) else None)"
proof -
  have i: "KernelActive (OS_Init s) = 0" "Current_Process (OS_Init s) = NULL"
    using assms(1) by (simp_all add: OS_Init_def Kernel_Reset_def Task_Reset_def Event_Reset_def Event_Group_Reset_def
        Mutex_Reset_def Semaphore_Reset_def Mailbox_Reset_def)
  have t: "KernelActive t = 0" "Current_Process t = NULL" using create_tasks_boot[OF assms(2) i(1)] i(2) by simp_all
  have "Kernel_Main_Loop env (t\<lparr>IRQ := False, KernelActive := 1\<rparr>) = None"
  proof (cases "ptrlist_findtail (nodes t) ProcessList")
    case (Some l)
    have "Kernel_Dispatch_Next_Task env (t\<lparr>IRQ := False, KernelActive := 1, Last_Dispatched := l\<rparr>) = None"
      using t(2) by (simp add: Kernel_Dispatch_Next_Task_def Let_def cur_pd_def rd_def)
    with Some show ?thesis by (simp add: Kernel_Main_Loop_def)
  qed (simp add: Kernel_Main_Loop_def)
  with t(1) show ?thesis by (simp add: OS_Start_def Kernel_Start_def word_gt_0)
qed

theorem start_dereferences_null_witness:
  "\<exists>t. create_tasks [(0x4321, 41, 3, 9)] (OS_Init (ex_sys\<lparr>Current_Process := NULL\<rparr>)) = Some t \<and>
     Task_Count t = 1 \<and> OS_Start [] t = None"
proof -
  let ?s = "ex_sys\<lparr>Current_Process := NULL\<rparr>"
  have "\<exists>t. create_tasks [(0x4321, 41, 3, 9)] (OS_Init ?s) = Some t \<and> Task_Count t = 1"
    by (simp add: create_tasks_def Task_Create_def OS_Init_def Kernel_Reset_def Task_Reset_def Event_Reset_def Event_Group_Reset_def
        Mutex_Reset_def Semaphore_Reset_def Mailbox_Reset_def ex_sys_def Kernel_Create_Task_Direct_def ex_tasks_eval upd_pd_def
        Kernel_Init_Task_Stack_def push_byte_def write_byte_def ptr_move_def)
  then obtain t where t: "create_tasks [(0x4321, 41, 3, 9)] (OS_Init ?s) = Some t" "Task_Count t = 1" by blast
  from start_dereferences_null[OF _ t(1), of "[]"] t show ?thesis by auto
qed

section \<open>The bits of an event group\<close>

text \<open>\<open>Event_Group_Get_Bits e\<close> does not pass \<open>e\<close> to the kernel: whatever group it is called for, it
  returns the bits of the group that the first argument of the task's previous request happens to
  name.\<close>

theorem get_bits_ignores_group:
  assumes "kwf s" "KernelActive s \<noteq> 0" "cur_pd s = Some d"
    and "q \<in> set (egs s)" "event_groups s q = Some g" "request_args d 0 = eg_id g"
  shows "\<exists>t. Event_Group_Get_Bits e s = Some (Enter_Kernel t) \<and> map_option fst (Kernel_Event_Group_Get_Bits t) = Some (eg_events g)"
proof -
  let ?d = "d\<lparr>request := EG_GETBITS\<rparr>"
  let ?t = "s\<lparr>IRQ := False, pds := (pds s)(Current_Process s \<mapsto> ?d)\<rparr>"
  have c: "cur_pd (s\<lparr>IRQ := False\<rparr>) = Some d" using assms(3) by (simp add: cur_pd_def)
  have p: "pds s (Current_Process s) = Some d" "Current_Process s \<noteq> NULL" using assms(3) by (simp_all add: cur_pd_def rd_Some_iff)
  have "kwf (s\<lparr>IRQ := False\<rparr>)" using assms(1) by simp
  from kwf_pds[OF this, of "Current_Process s" d ?d] p have k: "kwf ?t" by simp
  have e: "Event_Group_Get_Bits e s = Some (Enter_Kernel ?t)"
    using assms(2) by (simp add: Event_Group_Get_Bits_def need_kernel_def enter_with_def upd_cur_Some[OF c])
  have ct: "cur_pd ?t = Some ?d" using p by (simp add: cur_pd_def rd_def)
  have f: "findEventGroupByID (eg_id g) ?t = Some q"
    using find_event_group[OF k, of q g] assms(4,5) by simp
  have "q \<noteq> NULL" using assms(4) contents_not_NULL by blast
  then have "map_option fst (Kernel_Event_Group_Get_Bits ?t) = Some (eg_events g)"
    using f assms(5,6) ct by (simp add: Kernel_Event_Group_Get_Bits_def req_arg_def upd_cur_Some[OF ct] rd_def)
  with e show ?thesis by blast
qed

theorem get_bits_ignores_group_witness:
  "\<exists>t. Event_Group_Get_Bits 5 (ex_tasks (\<lambda>_. False) (\<lambda>_. 1) (ex_PD 2 5 READY (\<lambda>_. 0) 0) (ex_PD 3 5 READY (\<lambda>_. 0) 0)) =
      Some (Enter_Kernel t) \<and> map_option fst (Kernel_Event_Group_Get_Bits t) = Some 0"
proof -
  let ?s = "ex_tasks (\<lambda>_. False) (\<lambda>_. 1) (ex_PD 2 5 READY (\<lambda>_. 0) 0) (ex_PD 3 5 READY (\<lambda>_. 0) 0)"
  have k: "kwf ?s" by (rule ex_tasks_kwf) (simp_all add: ex_PD_def)
  have a: "KernelActive ?s \<noteq> 0" "cur_pd ?s = Some (ex_PD 1 5 RUNNING (\<lambda>_. 1) 0)" "70 \<in> set (egs ?s)"
    "event_groups ?s 70 = Some ex_EG" "request_args (ex_PD 1 5 RUNNING (\<lambda>_. 1) 0) 0 = eg_id ex_EG"
    by (simp_all add: ex_tasks_def ex_state_def cur_pd_def rd_def ex_PD_def ex_EG_def)
  from get_bits_ignores_group[OF k a, of 5] show ?thesis by (simp add: ex_EG_def)
qed

section \<open>The types of stored pointers\<close>

text \<open>C3: The untyped pointers of the kernel are used at the type they were stored with: whatever the tasks,
  the timer and the kernel do, the wait queues of semaphores, mutexes and mailboxes are pointer
  queues that hold addresses of process descriptors, the mail queues hold addresses of messages,
  each message once and in one mailbox, and the saved priorities of a mutex are in an integer queue.\<close>

theorem stored_pointers_typed:
  assumes "sys_step\<^sup>*\<^sup>* s t" "kwf s" "cur_ok s"
  shows "(\<forall>p m. semaphores t p = Some m \<longrightarrow>
      is_ptr_queue (sem_wait_queue m) \<and> set (qitems (qelems t) (sem_wait_queue m)) \<subseteq> dom (pds t)) \<and>
    (\<forall>p m. mutexes t p = Some m \<longrightarrow> is_ptr_queue (mut_wait_queue m) \<and>
      set (qitems (qelems t) (mut_wait_queue m)) \<subseteq> dom (pds t) \<and> \<not> is_ptr_queue (mut_orig_priority m)) \<and>
    (\<forall>p m. mailboxes t p = Some m \<longrightarrow> is_ptr_queue (mails m) \<and> is_ptr_queue (send_queue m) \<and> is_ptr_queue (recv_queue m) \<and>
      set (qitems (qelems t) (mails m)) \<subseteq> dom (mail_objs t) \<and> distinct (qitems (qelems t) (mails m)) \<and>
      set (qitems (qelems t) (send_queue m)) \<union> set (qitems (qelems t) (recv_queue m)) \<subseteq> dom (pds t) \<and>
      (\<forall>p' m'. mailboxes t p' = Some m' \<longrightarrow> p' \<noteq> p \<longrightarrow>
        set (qitems (qelems t) (mails m)) \<inter> set (qitems (qelems t) (mails m')) = {}))"
proof -
  have "kwf t" using sys_steps_ok[OF assms(1)] assms(2,3) by (simp add: sys_ok_def)
  note Q = kwf_parts(3)[OF this]
  have at: "is_ptr_queue q = key_is_ptr k" "\<forall>v \<in> set (qitems (qelems t) q). key_target (pds t) (mail_objs t) k v"
    if "queues_of t k = Some q" for k q using queues_inv_at[OF Q that] by blast+
  note sep = mails_sep_sub[OF queues_inv_sep[OF Q]]
  show ?thesis
  proof (intro conjI allI impI)
    fix p m assume s: "semaphores t p = Some m"
    show "is_ptr_queue (sem_wait_queue m)" "set (qitems (qelems t) (sem_wait_queue m)) \<subseteq> dom (pds t)"
      using at[of "SemWait p" "sem_wait_queue m"] s by auto
  next
    fix p m assume s: "mutexes t p = Some m"
    show "is_ptr_queue (mut_wait_queue m)" "set (qitems (qelems t) (mut_wait_queue m)) \<subseteq> dom (pds t)"
      "\<not> is_ptr_queue (mut_orig_priority m)"
      using at[of "MutWait p" "mut_wait_queue m"] at[of "MutPri p" "mut_orig_priority m"] s by auto
  next
    fix p m assume s: "mailboxes t p = Some m"
    then show "is_ptr_queue (mails m)" "is_ptr_queue (send_queue m)" "is_ptr_queue (recv_queue m)"
      "set (qitems (qelems t) (mails m)) \<subseteq> dom (mail_objs t)"
      "set (qitems (qelems t) (send_queue m)) \<union> set (qitems (qelems t) (recv_queue m)) \<subseteq> dom (pds t)"
      using at[of "MbMails p" "mails m"] at[of "MbSend p" "send_queue m"] at[of "MbRecv p" "recv_queue m"] by auto
    show "distinct (qitems (qelems t) (mails m))"
      using queues_inv_sep[OF Q] s by (auto simp: mails_sep_def dest!: spec[of _ "MbMails p"])
    fix p' m' assume "mailboxes t p' = Some m'" "p' \<noteq> p"
    with s show "set (qitems (qelems t) (mails m)) \<inter> set (qitems (qelems t) (mails m')) = {}"
      using sep(2)[of "MbMails p" "mails m" "MbMails p'" "mails m'"] by simp
  qed
qed

theorem stored_pointers_typed_witness:
  "\<exists>t. sys_step\<^sup>*\<^sup>* ex_sys t \<and> Current_Process t = 21 \<and>
     (\<forall>p m. semaphores t p = Some m \<longrightarrow> set (qitems (qelems t) (sem_wait_queue m)) \<subseteq> dom (pds t))"
proof -
  obtain u t where t: "sys_step ex_sys u" "sys_step u t" "yielding (Suc 0 mod length (procs ex_sys)) t" "procs t = procs ex_sys"
    using yield_steps[OF ex_sys_yielding] by blast
  then have "Current_Process t = 21" by (simp add: yielding_def ex_sys_procs)
  moreover have r: "sys_step\<^sup>*\<^sup>* ex_sys t" using t(1,2) by (meson converse_rtranclp_into_rtranclp r_into_rtranclp)
  moreover from stored_pointers_typed[OF this] yielding_sys[OF ex_sys_yielding]
  have "\<forall>p m. semaphores t p = Some m \<longrightarrow> set (qitems (qelems t) (sem_wait_queue m)) \<subseteq> dom (pds t)" by blast
  ultimately show ?thesis by blast
qed

end
