(* ===== verification/Progress.thy ===== *)
theory Progress
  imports System
begin

text \<open>
  The kernel serves a request and returns to a task: under which conditions an iteration of the main
  loop ends without undefined behaviour and without waiting, request by request, and the dispatch
  that follows.
\<close>

section \<open>Ready tasks stay ready\<close>

text \<open>A task other than the calling one that is ready, and of a priority that the selection considers.\<close>

definition other_ready :: "kstate \<Rightarrow> bool" where
  "other_ready s \<longleftrightarrow> (\<exists>q d. q \<in> set (procs s) \<and> q \<noteq> Current_Process s \<and> pds s q = Some d \<and> state d = READY \<and> uint (pri d) < 11)"

text \<open>What the handling of a request leaves alone of the ready tasks.\<close>

definition spares :: "kstate \<Rightarrow> kstate \<Rightarrow> bool" where
  "spares s t \<longleftrightarrow> Current_Process t = Current_Process s \<and>
     (\<forall>q d. q \<noteq> Current_Process s \<longrightarrow> pds s q = Some d \<longrightarrow> state d = READY \<longrightarrow>
       (\<exists>d'. pds t q = Some d' \<and> state d' = READY \<and> pri d' = pri d))"

lemma spares_refl [simp]: "spares s s"
  by (simp add: spares_def)

lemma spares_trans: "spares s t \<Longrightarrow> spares t u \<Longrightarrow> spares s u"
  unfolding spares_def by metis

lemma spares_scalars [simp]:
  "spares s (t\<lparr>err := x0\<rparr>) = spares s t"
  "spares s (t\<lparr>alloc := x1\<rparr>) = spares s t"
  "spares s (t\<lparr>qelems := x2\<rparr>) = spares s t"
  "spares s (t\<lparr>bytes := x3\<rparr>) = spares s t"
  "spares s (t\<lparr>nodes := x3'\<rparr>) = spares s t"
  "spares s (t\<lparr>events := x4\<rparr>) = spares s t"
  "spares s (t\<lparr>event_groups := x5\<rparr>) = spares s t"
  "spares s (t\<lparr>mutexes := x6\<rparr>) = spares s t"
  "spares s (t\<lparr>semaphores := x7\<rparr>) = spares s t"
  "spares s (t\<lparr>mailboxes := x8\<rparr>) = spares s t"
  "spares s (t\<lparr>mail_objs := x9\<rparr>) = spares s t"
  "spares s (t\<lparr>Kernel_Request_Cswitch := x10\<rparr>) = spares s t"
  "spares s (t\<lparr>Event_Count := x11\<rparr>) = spares s t"
  "spares s (t\<lparr>Event_Group_Count := x12\<rparr>) = spares s t"
  "spares s (t\<lparr>Mutex_Count := x13\<rparr>) = spares s t"
  "spares s (t\<lparr>Semaphore_Count := x14\<rparr>) = spares s t"
  "spares s (t\<lparr>Mailbox_Count := x15\<rparr>) = spares s t"
  by (simp_all add: spares_def)

text \<open>Writes that spare the ready tasks: to the calling task, to a task that is not ready, and the wake-up of
  a task.\<close>

lemma spares_upd_cur: "upd_cur f u = Some t \<Longrightarrow> spares s u \<Longrightarrow> spares s t"
  by (auto simp: upd_cur_iff cur_pd_def rd_Some_iff spares_def)

lemma spares_upd_blocked:
  "upd_pd p f u = Some t \<Longrightarrow> spares s u \<Longrightarrow> rd (pds u) p = Some d \<Longrightarrow> state d \<noteq> READY \<Longrightarrow> spares s t"
  by (fastforce simp: upd_pd_iff rd_Some_iff spares_def)

lemma spares_wake: "upd_pd p (\<lambda>d. d\<lparr>state := READY\<rparr>) u = Some t \<Longrightarrow> spares s u \<Longrightarrow> spares s t"
  by (auto simp: upd_pd_iff rd_Some_iff spares_def) (metis option.inject)+

lemma spares_upd_obj:
  "upd_sem p f1 u = Some t \<Longrightarrow> spares s u \<Longrightarrow> spares s t"
  "upd_mut p f2 u = Some t \<Longrightarrow> spares s u \<Longrightarrow> spares s t"
  "upd_ev p f3 u = Some t \<Longrightarrow> spares s u \<Longrightarrow> spares s t"
  "upd_eg p f4 u = Some t \<Longrightarrow> spares s u \<Longrightarrow> spares s t"
  "upd_mb p f5 u = Some t \<Longrightarrow> spares s u \<Longrightarrow> spares s t"
  "upd_mail p f6 u = Some t \<Longrightarrow> spares s u \<Longrightarrow> spares s t"
  "remove_from_list L n u = Some t \<Longrightarrow> spares s u \<Longrightarrow> spares s t"
  "set_retval r u = Some t \<Longrightarrow> spares s u \<Longrightarrow> spares s t"
  by (auto simp: upd_sem_iff upd_mut_iff upd_ev_iff upd_eg_iff upd_mb_iff upd_mail_iff remove_from_list_def set_retval_def
      elim!: bind_SomeE intro: spares_upd_cur split: if_splits)

lemma spares_find:
  "findMutexByMutexID i u = Some (p, t) \<Longrightarrow> spares s t = spares s u"
  "findEventByEventID i u = Some (p, t) \<Longrightarrow> spares s t = spares s u"
  "findMailboxByID i u = Some (p, t) \<Longrightarrow> spares s t = spares s u"
  by (auto simp: findMutexByMutexID_def findEventByEventID_def findMailboxByID_def elim!: bind_SomeE split: if_splits)

lemmas spares_steps = spares_upd_cur spares_wake spares_upd_obj

lemma spares_Kernel_Resume_Task: "Kernel_Resume_Task s = Some t \<Longrightarrow> spares s t"
  by (auto simp: Kernel_Resume_Task_def elim!: bind_SomeE split: if_splits) (erule spares_upd_blocked[OF _ spares_refl], assumption, simp)

lemma spares_Kernel_Sleep_Task: "Kernel_Sleep_Task s = Some t \<Longrightarrow> spares s t"
  by (auto simp: Kernel_Sleep_Task_def elim!: bind_SomeE) (erule spares_steps | simp)+

lemma spares_Kernel_Lock_Mutex: "Kernel_Lock_Mutex s = Some t \<Longrightarrow> spares s t"
  by (auto simp: Kernel_Lock_Mutex_def mutex_wait_def spares_find elim!: bind_SomeE split: if_splits)
    ((erule spares_steps | simp add: spares_find)+)

lemma spares_Kernel_Semaphore_Get: "Kernel_Semaphore_Get s = Some t \<Longrightarrow> spares s t"
  by (auto simp: Kernel_Semaphore_Get_def elim!: bind_SomeE split: if_splits) (erule spares_steps | simp)+

lemma spares_Kernel_Wait_Event: "Kernel_Wait_Event s = Some t \<Longrightarrow> spares s t"
  by (auto simp: Kernel_Wait_Event_def findEventByEventID_def Kernel_Destroy_Event_Internal_def elim!: bind_SomeE split: if_splits)
    (erule spares_steps | simp)+

lemma spares_Kernel_Signal_Event: "Kernel_Signal_Event s = Some t \<Longrightarrow> spares s t"
  by (auto simp: Kernel_Signal_Event_def findEventByEventID_def Kernel_Destroy_Event_Internal_def elim!: bind_SomeE split: if_splits)
    (erule spares_steps | simp)+

lemma spares_Kernel_Event_Group_Wait_Bits: "Kernel_Event_Group_Wait_Bits s = Some t \<Longrightarrow> spares s t"
  by (auto simp: Kernel_Event_Group_Wait_Bits_def Let_def elim!: bind_SomeE split: if_splits) (erule spares_steps | simp)+

lemma spares_lock_from_queue:
  assumes "Kernel_Lock_Mutex_From_Queue mp u = Some t" "spares s u"
  shows "spares s t"
proof -
  from assms(1) obtain m p h q u2 d v h' q' u3 where
    0: "rd (mutexes u) mp = Some m"
    and 1: "upd_mut mp (\<lambda>m. m\<lparr>mut_wait_queue := q\<rparr>) (u\<lparr>qelems := h\<rparr>) = Some u2" "rd (pds u2) p = Some d"
    "upd_mut mp (\<lambda>m. m\<lparr>mut_owner := pid d, mut_orig_priority := q',
            owner_orig_priority := ucast (v :: u16), lock_count := lock_count m + 1\<rparr>) (u2\<lparr>qelems := h'\<rparr>) = Some u3"
    and 2: "(if state d \<noteq> WAIT_MUTEX then Some u3
     else do {
       s \<leftarrow> upd_pd p (\<lambda>d. d\<lparr>state := READY, pri := ucast (highest_priority m)\<rparr>) u3;
       s \<leftarrow> upd_cur (\<lambda>d. d\<lparr>state := READY\<rparr>) s;
       Some (s\<lparr>Kernel_Request_Cswitch := 1\<rparr>)
     }) = Some t"
    unfolding Kernel_Lock_Mutex_From_Queue_def by (elim bind_SomeEs) (rule that, assumption+)
  have u3: "spares s u3" "pds u3 = pds u2" using 1(1,3) assms(2) by (auto simp: upd_mut_iff)
  show ?thesis
  proof (cases "state d = WAIT_MUTEX")
    case True
    with 2 obtain u4 u5 where "upd_pd p (\<lambda>d. d\<lparr>state := READY, pri := ucast (highest_priority m)\<rparr>) u3 = Some u4"
      "upd_cur (\<lambda>d. d\<lparr>state := READY\<rparr>) u4 = Some u5" "t = u5\<lparr>Kernel_Request_Cswitch := 1\<rparr>" by (auto elim!: bind_SomeE)
    with spares_upd_blocked[OF this(1) u3(1), of d] 1(2) u3(2) True spares_upd_cur show ?thesis by fastforce
  qed (use 2 u3(1) in simp)
qed

lemma spares_Kernel_Unlock_Mutex: "Kernel_Unlock_Mutex s = Some t \<Longrightarrow> spares s t"
  by (auto simp: Kernel_Unlock_Mutex_def spares_find elim!: bind_SomeE split: if_splits)
    ((erule spares_steps spares_lock_from_queue | simp add: spares_find)+)

section \<open>A dispatch with a ready task returns\<close>

lemma scheduled_exists:
  assumes "(n, d) \<in> set rs" "uint (pri d) < 11" "\<forall>x \<in> set rs. fst x \<noteq> NULL"
  shows "scheduled rs \<noteq> NULL"
proof -
  let ?es = "filter (\<lambda>x. uint (pri (snd x)) < 11) rs"
  have sub: "set (passed_over m rs) \<subseteq> set rs" for m rs by (induction m rs rule: passed_over.induct) auto
  have es: "?es \<noteq> []" using assms(1,2) by (force simp: filter_empty_conv)
  show ?thesis
  proof (cases "starving rs = []")
    case False
    from first_least_mem[OF False, of "\<lambda>x. uint (starvation_ticks (snd x))"] sub[of 11 rs] assms(3) False
    show ?thesis by (auto simp: scheduled_def starving_def)
  next
    case True
    with first_least_mem[OF es, of "\<lambda>x. uint (pri (snd x))"] es assms(3) show ?thesis
      by (auto simp: scheduled_def Let_def)
  qed
qed

lemma tick_PD_ready: "state d = READY \<Longrightarrow> state (tick_PD t d) = READY"
  by (simp add: tick_PD_def Let_def)

lemma dispatch_returns:
  assumes kwf: "kwf s" and last: "last_ok s" and cur: "cur_pd s = Some d0"
    and q: "q \<in> set (procs s)" "pds s q = Some d" "uint (pri d) < 11"
    and r: "state d = READY \<or> state d = RUNNING \<and> q = Current_Process s"
  obtains t where "Kernel_Dispatch_Next_Task env s = Some (t, env)" and "Kernel_Request_Cswitch t = Kernel_Request_Cswitch s"
proof -
  note C = dispatch_cases[OF kwf last cur]
  let ?t = "ticked (mark_ready s)" and ?n = "scheduled (ready_tasks (ticked (mark_ready s)))"
  have p: "procs (mark_ready s) = procs s" by (simp add: mark_ready_def Let_def)
  obtain d1 where d1: "pds (mark_ready s) q = Some d1" "state d1 = READY" "pri d1 = pri d"
  proof -
    have "\<exists>d1. pds (mark_ready s) q = Some d1 \<and> state d1 = READY \<and> pri d1 = pri d"
      using q r by (cases "q = Current_Process s") (auto simp: mark_ready_def Let_def)
    with that show ?thesis by blast
  qed
  obtain d2 where d2: "pds ?t q = Some d2" "state d2 = READY" "pri d2 = pri d"
  proof -
    have "\<exists>d2. pds ?t q = Some d2 \<and> state d2 = READY \<and> pri d2 = pri d"
      by (cases "Tick_Count (mark_ready s) = 0") (use d1 q(1) p tick_PD_ready in \<open>simp_all add: ticked_def upd_all_at\<close>)
    with that show ?thesis by blast
  qed
  note O = dispatch_order_mem[OF C(2,3)]
  have "mset (map snd (dispatch_order ?t)) = mset (procs s)" using O(2) p by (simp add: ticked_def)
  then have "q \<in> set (map snd (dispatch_order ?t))" using q(1) mset_eq_setD by blast
  then obtain n where "(n, q) \<in> set (dispatch_order ?t)" by auto
  then have "(n, d2) \<in> set (ready_tasks ?t)" using d2(1,2) by (force simp: ready_tasks_def)
  moreover have "\<forall>x \<in> set (ready_tasks ?t). fst x \<noteq> NULL" using O(3) by (auto simp: ready_tasks_def)
  ultimately have ne: "?n \<noteq> NULL" using scheduled_exists[of n d2] d2(3) q(3) by simp
  obtain c where c: "rd (nodes ?t) ?n = Some c"
    by (rule scheduled_ready[OF C(2,3) refl ne]) blast
  have k: "Kernel_Request_Cswitch (switch_to m p e ?t) = Kernel_Request_Cswitch s" for m p e
    by (cases "Tick_Count (mark_ready s) = 0") (simp_all add: switch_to_def ticked_def mark_ready_def Let_def)
  from C(4)[of env] ne c show ?thesis by (intro that[OF _ k]) simp
qed

section \<open>Lookups, queues and creations that return\<close>

lemma find_obj_returns:
  assumes wf: "lists_wf H h" "L \<in> H" "table_wf (contents h L) oh key cnt lst lim" and ne: "contents h L \<noteq> []"
  obtains p where "find_obj h oh (\<lambda>x. key x = i) L = Some p"
    and "p \<noteq> NULL \<Longrightarrow> p \<in> set (contents h L) \<and> (\<exists>ob. oh p = Some ob \<and> key ob = i)"
proof -
  obtain p where p: "find_obj h oh (\<lambda>x. key x = i) L = Some p" using find_obj_table(2)[OF wf ne] by blast
  show ?thesis
    by (rule that[OF p]) (use find_obj_found[OF wf p] in blast)
qed

lemma findProcess_returns:
  assumes "kwf s" "procs s \<noteq> []"
  obtains p where "findProcessByPID i s = Some p" and "p \<noteq> NULL \<Longrightarrow> \<exists>d. rd (pds s) p = Some d"
proof (cases "sint i \<le> 0")
  case True
  then show ?thesis by (intro that[of NULL]) (simp_all add: findProcessByPID_def)
next
  case False
  obtain p where "find_obj (nodes s) (pds s) (\<lambda>x. pid x = i) ProcessList = Some p"
    "p \<noteq> NULL \<Longrightarrow> p \<in> set (procs s) \<and> (\<exists>ob. pds s p = Some ob \<and> pid ob = i)"
    by (rule find_obj_returns[OF kwf_lists[OF assms(1)] in_LISTS(1) kwf_tables(1)[OF assms(1)] assms(2)]) (rule that)
  with False show ?thesis by (intro that[of p]) (auto simp: findProcessByPID_def rd_SomeI)
qed

lemma findMutex_returns:
  assumes "kwf s" "muts s \<noteq> []"
  obtains p e where "findMutexByMutexID i s = Some (p, s\<lparr>err := e\<rparr>)" and "p \<noteq> NULL \<Longrightarrow> e = err s"
    and "p \<noteq> NULL \<Longrightarrow> p \<in> set (muts s) \<and> (\<exists>m. mutexes s p = Some m \<and> mut_id m = i)"
proof (cases "i = 0")
  case True
  then show ?thesis by (intro that[of NULL INVALID_ARG_ERR]) (simp_all add: findMutexByMutexID_def)
next
  case False
  obtain p where "find_obj (nodes s) (mutexes s) (\<lambda>x. mut_id x = i) MutexList = Some p"
    "p \<noteq> NULL \<Longrightarrow> p \<in> set (muts s) \<and> (\<exists>m. mutexes s p = Some m \<and> mut_id m = i)"
    by (rule find_obj_returns[OF kwf_lists[OF assms(1)] in_LISTS(4) kwf_tables(4)[OF assms(1)] assms(2)]) (rule that)
  with False show ?thesis by (intro that[of p "if p = NULL then OBJECT_NOT_FOUND_ERR else err s"]) (auto simp: findMutexByMutexID_def)
qed

lemma findEvent_returns:
  assumes "kwf s" "evs s \<noteq> []"
  obtains p e where "findEventByEventID i s = Some (p, s\<lparr>err := e\<rparr>)" and "p \<noteq> NULL \<Longrightarrow> e = err s"
    and "p \<noteq> NULL \<Longrightarrow> p \<in> set (evs s) \<and> (\<exists>m. events s p = Some m \<and> ev_id m = i)"
proof (cases "i = 0")
  case True
  then show ?thesis by (intro that[of NULL INVALID_ARG_ERR]) (simp_all add: findEventByEventID_def)
next
  case False
  obtain p where "find_obj (nodes s) (events s) (\<lambda>x. ev_id x = i) EventList = Some p"
    "p \<noteq> NULL \<Longrightarrow> p \<in> set (evs s) \<and> (\<exists>m. events s p = Some m \<and> ev_id m = i)"
    by (rule find_obj_returns[OF kwf_lists[OF assms(1)] in_LISTS(2) kwf_tables(2)[OF assms(1)] assms(2)]) (rule that)
  with False show ?thesis by (intro that[of p "if p = NULL then OBJECT_NOT_FOUND_ERR else err s"]) (auto simp: findEventByEventID_def)
qed

lemma findGroup_returns:
  assumes "kwf s" "egs s \<noteq> []"
  obtains p where "findEventGroupByID i s = Some p"
    and "p \<noteq> NULL \<Longrightarrow> p \<in> set (egs s) \<and> (\<exists>g. rd (event_groups s) p = Some g \<and> eg_id g = i)"
proof -
  obtain p where "find_obj (nodes s) (event_groups s) (\<lambda>x. eg_id x = i) EventGroupList = Some p"
    "p \<noteq> NULL \<Longrightarrow> p \<in> set (egs s) \<and> (\<exists>m. event_groups s p = Some m \<and> eg_id m = i)"
    by (rule find_obj_returns[OF kwf_lists[OF assms(1)] in_LISTS(3) kwf_tables(3)[OF assms(1)] assms(2)]) (rule that)
  then show ?thesis by (intro that[of p]) (auto simp: findEventGroupByID_def rd_SomeI)
qed

lemma findSemaphore_returns:
  assumes "kwf s" "sems s \<noteq> []"
  obtains p where "findSemaphoreByID i s = Some p"
    and "p \<noteq> NULL \<Longrightarrow> p \<in> set (sems s) \<and> (\<exists>m. semaphores s p = Some m \<and> sem_id m = i)"
proof -
  obtain p where "find_obj (nodes s) (semaphores s) (\<lambda>x. sem_id x = i) SemaphoreList = Some p"
    "p \<noteq> NULL \<Longrightarrow> p \<in> set (sems s) \<and> (\<exists>m. semaphores s p = Some m \<and> sem_id m = i)"
    by (rule find_obj_returns[OF kwf_lists[OF assms(1)] in_LISTS(5) kwf_tables(5)[OF assms(1)] assms(2)]) (rule that)
  then show ?thesis by (intro that[of p]) (auto simp: findSemaphoreByID_def)
qed

lemma findMailbox_returns:
  assumes "kwf s" "mbs s \<noteq> []"
  obtains p e where "findMailboxByID i s = Some (p, s\<lparr>err := e\<rparr>)" and "p \<noteq> NULL \<Longrightarrow> e = err s"
    and "p \<noteq> NULL \<Longrightarrow> p \<in> set (mbs s) \<and> (\<exists>b. mailboxes s p = Some b \<and> mb_id b = i)"
proof (cases "i = 0")
  case True
  then show ?thesis by (intro that[of NULL INVALID_ARG_ERR]) (simp_all add: findMailboxByID_def)
next
  case False
  obtain p where "find_obj (nodes s) (mailboxes s) (\<lambda>x. mb_id x = i) MailboxList = Some p"
    "p \<noteq> NULL \<Longrightarrow> p \<in> set (mbs s) \<and> (\<exists>m. mailboxes s p = Some m \<and> mb_id m = i)"
    by (rule find_obj_returns[OF kwf_lists[OF assms(1)] in_LISTS(6) kwf_tables(6)[OF assms(1)] assms(2)]) (rule that)
  with False show ?thesis by (intro that[of p "if p = NULL then OBJECT_NOT_FOUND_ERR else err s"]) (auto simp: findMailboxByID_def)
qed

lemma enqueue_returns:
  assumes kwf: "kwf s" and F: "queues_of s k = Some q" and pl: "plenty (alloc s) (Suc n)"
  obtains r al h q' where "(if key_is_ptr k then enqueue_ptr else enqueue_int) (alloc s) (qelems s) q v = Some (r, al, h, q')"
    and "plenty al n"
proof -
  note at = queues_inv_at[OF kwf_parts(3)[OF kwf] F]
  have fr: "fresh_above (alloc s) (qelems s)" using kwf by (simp add: kwf_defs)
  obtain e al where m: "malloc (alloc s) = (e, al)" "e \<noteq> NULL" "plenty al n" by (rule plenty_malloc[OF pl])
  have "enqueue_new (alloc s) (qelems s) q v \<noteq> None" using enqueue_new_None_iff[OF at(1) fr, of v] m by simp
  then obtain r al' h q' where en: "enqueue_new (alloc s) (qelems s) q v = Some (r, al', h, q')" by (metis option.exhaust prod_cases4)
  obtain e' where "malloc (alloc s) = (e', al')" by (rule enqueue_new_spec[OF at(1) fr en]) (rule that)
  with m en at(2) show ?thesis by (intro that[of r al h q']) (simp_all add: enqueue_ptr_def enqueue_int_def)
qed

lemma dequeue_returns:
  assumes "queues_inv h F T" "F k = Some q"
  obtains v h' q' where "dequeue_int h q = Some (v, h', q')"
proof (cases "qitems h q")
  case Nil
  then have "queue_rep h q []" using queues_inv_at(1)[OF assms] by (simp add: qitems_def)
  from that[OF dequeue_int_empty[OF this]] show ?thesis .
next
  case (Cons v vs)
  show ?thesis by (rule queues_inv_dequeue[OF assms Cons]) (rule that)
qed

section \<open>Requests that are served\<close>

lemma returns_Suspend:
  assumes "kwf s" "procs s \<noteq> []" "cur_pd s = Some d"
  shows "\<exists>t. Kernel_Suspend_Task s = Some t"
proof -
  obtain p where "findProcessByPID (request_args d 0) s = Some p" "p \<noteq> NULL \<Longrightarrow> \<exists>d. rd (pds s) p = Some d"
    by (rule findProcess_returns[OF assms(1,2), of "request_args d 0"]) (rule that)
  then show ?thesis
    using assms(3) by (cases "p = NULL") (auto simp: Kernel_Suspend_Task_def req_arg_def upd_pd_iff)
qed

lemma returns_Resume:
  assumes "kwf s" "procs s \<noteq> []" "cur_pd s = Some d"
  shows "\<exists>t. Kernel_Resume_Task s = Some t"
proof -
  obtain p where "findProcessByPID (request_args d 0) s = Some p" "p \<noteq> NULL \<Longrightarrow> \<exists>d. rd (pds s) p = Some d"
    by (rule findProcess_returns[OF assms(1,2), of "request_args d 0"]) (rule that)
  then show ?thesis
    using assms(3) by (cases "p = NULL") (auto simp: Kernel_Resume_Task_def req_arg_def upd_pd_iff)
qed

lemma returns_Sleep: "cur_pd s = Some d \<Longrightarrow> \<exists>t. Kernel_Sleep_Task s = Some t"
  by (simp add: Kernel_Sleep_Task_def upd_cur_Some)

lemma returns_group_bits:
  assumes "kwf s" "egs s \<noteq> []" "cur_pd s = Some d"
  shows "\<exists>t. Kernel_Event_Group_Clear_Bits s = Some t" "\<exists>t. Kernel_Event_Group_Wait_Bits s = Some t"
    "\<exists>r. Kernel_Event_Group_Get_Bits s = Some r"
proof -
  obtain p where p: "findEventGroupByID (request_args d 0) s = Some p"
    "p \<noteq> NULL \<Longrightarrow> p \<in> set (egs s) \<and> (\<exists>g. rd (event_groups s) p = Some g \<and> eg_id g = request_args d 0)"
    by (rule findGroup_returns[OF assms(1,2), of "request_args d 0"]) (rule that)
  show "\<exists>t. Kernel_Event_Group_Clear_Bits s = Some t"
    using p assms(3) by (cases "p = NULL") (auto simp: Kernel_Event_Group_Clear_Bits_def req_arg_def upd_eg_iff)
  show "\<exists>t. Kernel_Event_Group_Wait_Bits s = Some t"
    using p assms(3) by (cases "p = NULL") (auto simp: Kernel_Event_Group_Wait_Bits_def req_arg_def upd_cur_Some Let_def)
  show "\<exists>r. Kernel_Event_Group_Get_Bits s = Some r"
    using p assms(3) by (cases "p = NULL") (auto simp: Kernel_Event_Group_Get_Bits_def req_arg_def upd_cur_Some)
qed

lemma returns_Mailbox_Check:
  assumes "kwf s" "mbs s \<noteq> []" "cur_pd s = Some d"
  shows "\<exists>t. Kernel_Mailbox_Check s = Some t"
proof -
  obtain p e where "findMailboxByID (request_args d 0) s = Some (p, s\<lparr>err := e\<rparr>)" "p \<noteq> NULL \<Longrightarrow> p \<in> set (mbs s) \<and> (\<exists>b. mailboxes s p = Some b \<and> mb_id b = request_args d 0)"
    by (rule findMailbox_returns[OF assms(1,2), of "request_args d 0"]) (rule that)
  moreover have "cur_pd (s\<lparr>err := x\<rparr>) = Some d" for x using assms(3) by (simp add: cur_pd_def)
  ultimately show ?thesis
    using assms(3) by (cases "p = NULL") (auto simp: Kernel_Mailbox_Check_def req_arg_def upd_cur_iff rd_SomeI)
qed

lemma returns_Mailbox_Destroy_Mail:
  assumes "cur_pd s = Some d" "rd (mail_objs s) (request_args d 0) = Some x" "mail_ptr x = NULL \<or> mail_ptr x \<in> dom (bytes s)"
  shows "\<exists>t. Kernel_Mailbox_Destroy_Mail s = Some t"
proof -
  obtain b where b: "free (bytes s) (mail_ptr x) = Some b"
    using assms(3) by (cases "mail_ptr x = NULL") (auto simp: free_def)
  have "request_args d 0 \<noteq> NULL" using assms(2) by auto
  with b assms(1,2) show ?thesis
    by (auto simp: Kernel_Mailbox_Destroy_Mail_def req_arg_def upd_mail_def wr_def upd_cur_def upd_pd_def cur_pd_def)
qed

lemma returns_destroys:
  assumes "kwf s" "cur_pd s = Some d"
  shows "request_args d 0 \<in> set (mut_ids s) \<Longrightarrow> \<exists>t. Kernel_Destroy_Mutex s = Some t"
    "request_args d 0 \<in> set (sem_ids s) \<Longrightarrow> \<exists>t. Kernel_Destroy_Semaphore s = Some t"
    "request_args d 0 \<in> set (eg_ids s) \<Longrightarrow> \<exists>t. Kernel_Destroy_Event_Group s = Some t"
    "request_args d 0 \<in> set (mb_ids s) \<Longrightarrow> \<exists>t. Kernel_Destroy_Mailbox s = Some t"
proof -
  have a: "req_arg 0 s = Some (request_args d 0)" using assms(2) by (simp add: req_arg_def)
  show "\<exists>t. Kernel_Destroy_Mutex s = Some t" if "request_args d 0 \<in> set (mut_ids s)"
    using that destroy_mutex_found[OF assms(1) a] by (auto simp: mut_ids_def) blast
  show "\<exists>t. Kernel_Destroy_Semaphore s = Some t" if "request_args d 0 \<in> set (sem_ids s)"
    using that destroy_semaphore_found[OF assms(1) a] by (auto simp: sem_ids_def) blast
  show "\<exists>t. Kernel_Destroy_Event_Group s = Some t" if "request_args d 0 \<in> set (eg_ids s)"
    using that destroy_event_group_found[OF assms(1) a] by (auto simp: eg_ids_def) blast
  show "\<exists>t. Kernel_Destroy_Mailbox s = Some t" if "request_args d 0 \<in> set (mb_ids s)"
    using that destroy_mailbox_found[OF assms(1) a] by (auto simp: mb_ids_def) blast
qed

lemma returns_Set_Bits:
  assumes "kwf s" "procs s \<noteq> []" "egs s \<noteq> []" "cur_pd s = Some d"
  shows "\<exists>t. Kernel_Event_Group_Set_Bits s = Some t \<and> Kernel_Request_Cswitch t = Kernel_Request_Cswitch s"
proof -
  obtain p where p: "findEventGroupByID (request_args d 0) s = Some p"
    "p \<noteq> NULL \<Longrightarrow> p \<in> set (egs s) \<and> (\<exists>g. rd (event_groups s) p = Some g \<and> eg_id g = request_args d 0)"
    by (rule findGroup_returns[OF assms(1,3), of "request_args d 0"]) (rule that)
  show ?thesis
  proof (cases "p = NULL")
    case True
    with p(1) assms(4) show ?thesis by (simp add: Kernel_Event_Group_Set_Bits_def req_arg_def)
  next
    case False
    then obtain g where "p \<in> set (egs s)" "event_groups s p = Some g" "request_args d 0 = eg_id g"
      using p(2) by (auto simp: rd_Some_iff)
    from set_bits_eval(1)[OF assms(1,4) this(3,1,2) assms(2)] show ?thesis by simp
  qed
qed

lemma returns_Wait_Event:
  assumes "kwf s" "evs s \<noteq> []" "cur_pd s = Some d"
  shows "\<exists>t. Kernel_Wait_Event s = Some t"
proof -
  obtain p e where p: "findEventByEventID (request_args d 0) s = Some (p, s\<lparr>err := e\<rparr>)" "p \<noteq> NULL \<Longrightarrow> e = err s"
    "p \<noteq> NULL \<Longrightarrow> p \<in> set (evs s) \<and> (\<exists>m. events s p = Some m \<and> ev_id m = request_args d 0)"
    by (rule findEvent_returns[OF assms(1,2), of "request_args d 0"]) (rule that)
  show ?thesis
  proof (cases "p = NULL")
    case True
    with p(1) assms(3) show ?thesis by (simp add: Kernel_Wait_Event_def req_arg_def)
  next
    case False
    then obtain m where m: "p \<in> set (evs s)" "events s p = Some m" "request_args d 0 = ev_id m" using p(3) by auto
    obtain t where "Kernel_Destroy_Event_Internal p s = Some t" by (rule destroy_event[OF assms(1) m(1)])
    then show ?thesis using wait_event_eval[OF assms(1,3) m(3,1,2)] by simp
  qed
qed

text \<open>Signalling an event needs its owner to be a task that still exists.\<close>

lemma returns_Signal_Event:
  assumes "kwf s" "procs s \<noteq> []" "evs s \<noteq> []" "cur_pd s = Some d"
    and own: "\<And>p m. p \<in> set (evs s) \<Longrightarrow> events s p = Some m \<Longrightarrow> ev_id m = request_args d 0 \<Longrightarrow> ev_owner m \<noteq> 0 \<Longrightarrow>
      ev_owner m \<in> set (task_ids s) \<and> 0 < sint (ev_owner m)"
  shows "\<exists>t. Kernel_Signal_Event s = Some t"
proof -
  obtain p e where p: "findEventByEventID (request_args d 0) s = Some (p, s\<lparr>err := e\<rparr>)"
    "p \<noteq> NULL \<Longrightarrow> p \<in> set (evs s) \<and> (\<exists>m. events s p = Some m \<and> ev_id m = request_args d 0)"
    by (rule findEvent_returns[OF assms(1,3), of "request_args d 0"]) (rule that)
  show ?thesis
  proof (cases "p = NULL")
    case True
    with p(1) assms(4) show ?thesis by (simp add: Kernel_Signal_Event_def req_arg_def)
  next
    case False
    then obtain m where m: "p \<in> set (evs s)" "events s p = Some m" "ev_id m = request_args d 0" using p(2) by auto
    have a: "req_arg 0 s = Some (ev_id m)" using assms(4) m(3) by (simp add: req_arg_def)
    let ?s1 = "s\<lparr>events := (events s)(p \<mapsto> m\<lparr>ev_count := (if ev_count m = 0 then 1 else ev_count m)\<rparr>)\<rparr>"
    note E = signal_event_eval[OF assms(1) a m(1,2)]
    show ?thesis
    proof (cases "ev_owner m = 0")
      case True
      with E(1) show ?thesis by simp
    next
      case False
      with own m obtain w where w: "w \<in> set (procs s)" "pid (the (pds s w)) = ev_owner m" "0 < sint (ev_owner m)"
        by (force simp: task_ids_def)
      have f: "findProcessByPID (ev_owner m) s = Some w" by (rule findProcess_iff[OF assms(1) w])
      have "rd (pds ?s1) w = Some (the (pds s w))"
        using table_wf_obj[OF kwf_tables(1)[OF assms(1)] w(1)] contents_not_NULL[OF w(1)] by (auto simp: rd_def)
      then obtain s2 where u: "upd_pd w (\<lambda>d. d\<lparr>state := READY\<rparr>) ?s1 = Some s2" "s2 = ?s1\<lparr>pds := (pds s)(w \<mapsto> (the (pds s w))\<lparr>state := READY\<rparr>)\<rparr>"
        by (simp add: upd_pd_iff)
      have k: "kwf s2" by (rule kwf_upd_pd[OF u(1) E(2)]) simp
      have "p \<in> set (evs s2)" using m(1) u(2) by simp
      then obtain s3 where "Kernel_Destroy_Event_Internal p s2 = Some s3" by (rule destroy_event[OF k])
      with E(1) False f u(1) show ?thesis by simp
    qed
  qed
qed

section \<open>Semaphores\<close>

lemma returns_Semaphore_Get:
  assumes "kwf s" "sems s \<noteq> []" "cur_pd s = Some d" "plenty (alloc s) 1"
    and ok: "\<And>p m. p \<in> set (sems s) \<Longrightarrow> semaphores s p = Some m \<Longrightarrow> sem_id m = request_args d 0 \<Longrightarrow>
      0 \<le> sint (sem_count m) \<and> 0 \<le> sint (request_args d 1)"
  shows "\<exists>t. Kernel_Semaphore_Get s = Some t"
proof -
  obtain p where p: "findSemaphoreByID (request_args d 0) s = Some p"
    "p \<noteq> NULL \<Longrightarrow> p \<in> set (sems s) \<and> (\<exists>m. semaphores s p = Some m \<and> sem_id m = request_args d 0)"
    by (rule findSemaphore_returns[OF assms(1,2), of "request_args d 0"]) (rule that)
  show ?thesis
  proof (cases "p = NULL")
    case True
    with p(1) assms(3) show ?thesis by (simp add: Kernel_Semaphore_Get_def req_arg_def)
  next
    case False
    then obtain m where m: "p \<in> set (sems s)" "semaphores s p = Some m" "request_args d 0 = sem_id m" using p(2) by auto
    have n: "0 \<le> sint (sem_count m)" "0 \<le> sint (asked m d)"
      using ok[OF m(1,2)] m(3) by (auto simp: asked_def clip_amount_def)
    have nn: "fst (malloc (alloc s)) \<noteq> NULL" using assms(4) plenty_fst[of "alloc s" 0] by simp
    show ?thesis
    proof (rule get_reaches_test[OF assms(1,3) m(3,1,2) n])
      fix e
      assume e: "Kernel_Semaphore_Get s = (if sint e < 0
       then do {
         (r, al, h, q) \<leftarrow> enqueue_ptr (alloc s) (qelems s) (sem_wait_queue m) (Current_Process s);
         s \<leftarrow> upd_sem p (\<lambda>m. m\<lparr>sem_wait_queue := q\<rparr>) ((asking m d s)\<lparr>alloc := al, qelems := h\<rparr>);
         s \<leftarrow> upd_cur (\<lambda>d. d\<lparr>state := WAIT_SEMAPHORE\<rparr>) s;
         Some (s\<lparr>Kernel_Request_Cswitch := 1\<rparr>)
       }
       else upd_sem p (\<lambda>m. m\<lparr>sem_count := e\<rparr>) (asking m d s))"
      show ?thesis
      proof (cases "sint e < 0")
        case True
        with get_waits[OF assms(1,3) m(1,2)] e nn show ?thesis by auto
      next
        case False
        with e m(2) \<open>p \<noteq> NULL\<close> show ?thesis by (simp add: upd_sem_iff rd_def)
      qed
    qed
  qed
qed

section \<open>Mutexes\<close>

lemma enqueue_key_returns:
  assumes "kwf s" "queues_of s k = Some q" "plenty (alloc s) (Suc n)"
  shows "key_is_ptr k \<Longrightarrow> \<exists>r al h q'. enqueue_ptr (alloc s) (qelems s) q v = Some (r, al, h, q') \<and> plenty al n"
    and "\<not> key_is_ptr k \<Longrightarrow> \<exists>r al h q'. enqueue_int (alloc s) (qelems s) q v = Some (r, al, h, q') \<and> plenty al n"
proof -
  obtain r al h q' where e: "(if key_is_ptr k then enqueue_ptr else enqueue_int) (alloc s) (qelems s) q v = Some (r, al, h, q')"
    "plenty al n"
    by (rule enqueue_returns[OF assms, of v]) (rule that)
  show "\<exists>r al h q'. enqueue_ptr (alloc s) (qelems s) q v = Some (r, al, h, q') \<and> plenty al n" if "key_is_ptr k"
    using e that by simp
  show "\<exists>r al h q'. enqueue_int (alloc s) (qelems s) q v = Some (r, al, h, q') \<and> plenty al n" if "\<not> key_is_ptr k"
    using e that by simp
qed

lemma returns_mutex_wait:
  assumes kwf: "kwf s" and p: "p \<in> set (muts s)" "mutexes s p = Some m" and d: "cur_pd s = Some d" and pl: "plenty (alloc s) 2"
  shows "\<exists>t. mutex_wait p m d s = Some t"
proof -
  have p0: "p \<noteq> NULL" using p(1) contents_not_NULL by blast
  have rm: "rd (mutexes s) p = Some m" using p(2) p0 by (simp add: rd_SomeI)
  have F: "queues_of s (MutWait p) = Some (mut_wait_queue m)" using p(2) by simp
  have pl': "plenty (alloc s) (Suc (Suc 0))" using pl by (simp add: numeral_2_eq_2)
  obtain r al h q where e1: "enqueue_ptr (alloc s) (qelems s) (mut_wait_queue m) (Current_Process s) = Some (r, al, h, q)" "plenty al (Suc 0)"
    using enqueue_key_returns(1)[OF kwf F pl', of "Current_Process s"] unfolding key_is_ptr.simps by blast
  let ?s2 = "s\<lparr>alloc := al, qelems := h, mutexes := (mutexes s)(p \<mapsto> m\<lparr>mut_wait_queue := q\<rparr>)\<rparr>"
  have u: "upd_mut p (\<lambda>m. m\<lparr>mut_wait_queue := q\<rparr>) (s\<lparr>alloc := al, qelems := h\<rparr>) = Some ?s2" using rm by (simp add: upd_mut_iff)
  have k2: "kwf ?s2" using kwf_mut_enqueue(1)[OF kwf rm e1(1) _ _ u] cur_pd_dom[OF d] by simp
  have F2: "queues_of ?s2 (MutPri p) = Some (mut_orig_priority m)" by simp
  have "plenty (alloc ?s2) (Suc 0)" using e1(2) by simp
  from enqueue_key_returns(2)[OF k2 F2 this, of "ucast (pri d)"] obtain r' al' h' q' where
    e2: "enqueue_int (alloc ?s2) (qelems ?s2) (mut_orig_priority m) (ucast (pri d)) = Some (r', al', h', q')"
    unfolding key_is_ptr.simps by blast
  let ?m3 = "m\<lparr>mut_wait_queue := q, mut_orig_priority := q'\<rparr>"
  let ?s3 = "s\<lparr>alloc := al', qelems := h', mutexes := (mutexes s)(p \<mapsto> ?m3)\<rparr>"
  have u2: "upd_mut p (\<lambda>m. m\<lparr>mut_orig_priority := q'\<rparr>) (?s2\<lparr>alloc := al', qelems := h'\<rparr>) = Some ?s3"
    using p0 by (simp add: upd_mut_iff rd_def)
  have c3: "cur_pd ?s3 = Some d" "rd (mutexes ?s3) p = Some ?m3" using d p0 by (simp_all add: cur_pd_def rd_def)
  from inherit_priority[OF c3, of "highest_priority m"] obtain s4 d4 where
    s4: "(if highest_priority m < ucast (pri d) then upd_cur (\<lambda>d. d\<lparr>pri := ucast (highest_priority m)\<rparr>) ?s3
           else if ucast (pri d) < highest_priority m then upd_mut p (\<lambda>m. m\<lparr>highest_priority := ucast (pri d)\<rparr>) ?s3
           else Some ?s3) = Some s4" and "cur_pd s4 = Some d4"
    using d by (auto simp: cur_pd_def rd_Some_iff)
  then obtain s5 where "upd_cur (\<lambda>d. d\<lparr>state := WAIT_MUTEX\<rparr>) s4 = Some s5" by (auto simp: upd_cur_iff)
  with e1 u e2 u2 s4 d show ?thesis by (simp add: mutex_wait_def)
qed

lemma returns_Lock_Mutex:
  assumes "kwf s" "muts s \<noteq> []" "cur_pd s = Some d" "plenty (alloc s) 2"
  shows "\<exists>t. Kernel_Lock_Mutex s = Some t"
proof -
  obtain p e where p: "findMutexByMutexID (request_args d 0) s = Some (p, s\<lparr>err := e\<rparr>)" "p \<noteq> NULL \<Longrightarrow> e = err s"
    "p \<noteq> NULL \<Longrightarrow> p \<in> set (muts s) \<and> (\<exists>m. mutexes s p = Some m \<and> mut_id m = request_args d 0)"
    by (rule findMutex_returns[OF assms(1,2), of "request_args d 0"]) (rule that)
  show ?thesis
  proof (cases "p = NULL")
    case True
    with p(1) assms(3) show ?thesis by (simp add: Kernel_Lock_Mutex_def req_arg_def)
  next
    case False
    then obtain m where m: "p \<in> set (muts s)" "mutexes s p = Some m" "request_args d 0 = mut_id m" using p(3) by auto
    show ?thesis
    proof (cases "mut_owner m = 0 \<or> mut_owner m = pid d")
      case True
      from lock_now[OF assms(1,3) m(3,1,2) True] show ?thesis by simp
    next
      case other: False
      have "Kernel_Lock_Mutex s = mutex_wait p m d s"
        using other p(1,2) False m(2) assms(3) by (simp add: Kernel_Lock_Mutex_def req_arg_def rd_def)
      with returns_mutex_wait[OF assms(1) m(1,2) assms(3,4)] show ?thesis by simp
    qed
  qed
qed

lemma returns_lock_from_queue:
  assumes kwf: "kwf s" and m: "mutexes s p = Some m" "p \<noteq> NULL" and c: "cur_pd s = Some d"
    and w: "qitems (qelems s) (mut_wait_queue m) = w # ws"
  shows "\<exists>t. Kernel_Lock_Mutex_From_Queue p s = Some t"
proof -
  have F: "queues_of s (MutWait p) = Some (mut_wait_queue m)" using m by simp
  have w0: "w \<noteq> NULL" "w \<in> dom (pds s)" using queues_inv_at(3)[OF kwf_parts(3)[OF kwf] F] w by simp_all
  then obtain dw where dw: "rd (pds s) w = Some dw" by (auto simp: rd_SomeI)
  obtain h q where dq: "dequeue_int (qelems s) (mut_wait_queue m) = Some (w, h, q)"
    and Q: "queues_inv h ((queues_of s)(MutWait p \<mapsto> q)) (key_target (pds s) (mail_objs s))"
    by (rule queues_inv_dequeue[OF kwf_parts(3)[OF kwf] F w]) (rule that)
  have "((queues_of s)(MutWait p \<mapsto> q)) (MutPri p) = Some (mut_orig_priority m)" using m by simp
  from dequeue_returns[OF Q this] obtain v h2 q2 where dq2: "dequeue_int h (mut_orig_priority m) = Some (v, h2, q2)" by blast
  let ?m = "m\<lparr>mut_wait_queue := q, mut_owner := pid dw, mut_orig_priority := q2, owner_orig_priority := ucast v,
    lock_count := lock_count m + 1\<rparr>"
  let ?s = "s\<lparr>qelems := h2, mutexes := (mutexes s)(p \<mapsto> ?m)\<rparr>"
  have "Kernel_Lock_Mutex_From_Queue p s = (if state dw \<noteq> WAIT_MUTEX then Some ?s
     else do {
       s \<leftarrow> upd_pd w (\<lambda>d. d\<lparr>state := READY, pri := ucast (highest_priority m)\<rparr>) ?s;
       s \<leftarrow> upd_cur (\<lambda>d. d\<lparr>state := READY\<rparr>) s;
       Some (s\<lparr>Kernel_Request_Cswitch := 1\<rparr>)
     })"
    using m dw dq dq2 by (simp add: Kernel_Lock_Mutex_From_Queue_def dequeue_ptr_int upd_mut_def wr_def rd_def)
  then show ?thesis
    using dw c by (auto simp: upd_pd_def wr_def upd_cur_def cur_pd_def rd_def split: if_splits)
qed

lemma returns_Unlock_Mutex:
  assumes "kwf s" "muts s \<noteq> []" "cur_pd s = Some d"
  shows "\<exists>t. Kernel_Unlock_Mutex s = Some t"
proof -
  obtain p e where p: "findMutexByMutexID (request_args d 0) s = Some (p, s\<lparr>err := e\<rparr>)"
    "p \<noteq> NULL \<Longrightarrow> p \<in> set (muts s) \<and> (\<exists>m. mutexes s p = Some m \<and> mut_id m = request_args d 0)"
    by (rule findMutex_returns[OF assms(1,2), of "request_args d 0"]) (rule that)
  show ?thesis
  proof (cases "p = NULL")
    case True
    with p(1) assms(3) show ?thesis by (simp add: Kernel_Unlock_Mutex_def req_arg_def)
  next
    case False
    then obtain m where m: "p \<in> set (muts s)" "mutexes s p = Some m" "request_args d 0 = mut_id m" using p(2) by auto
    note B = unlock_branches[OF assms(1,3) m(3,1,2)]
    have g: "mutexes (given_up p m d s) p = Some (m\<lparr>lock_count := 0\<rparr>)" "qelems (given_up p m d s) = qelems s"
      "cur_pd (given_up p m d s) = Some (d\<lparr>pri := owner_orig_priority m\<rparr>)"
      using assms(3) by (auto simp: given_up_def cur_pd_def rd_def)
    have k: "kwf (given_up p m d s)" using kwf_given_up[OF assms(1,3)] m(2) False by (simp add: rd_SomeI)
    consider "mut_owner m \<noteq> pid d" | "mut_owner m = pid d" "lock_count m \<noteq> 1"
      | "mut_owner m = pid d" "lock_count m = 1" "q_count (mut_wait_queue m) = 0"
      | "mut_owner m = pid d" "lock_count m = 1" "q_count (mut_wait_queue m) \<noteq> 0" by blast
    then show ?thesis
    proof cases
      case 4
      then obtain w ws where "qitems (qelems s) (mut_wait_queue m) = w # ws"
        using wait_queue_empty[OF assms(1) m(2)] by (cases "qitems (qelems s) (mut_wait_queue m)") auto
      with returns_lock_from_queue[OF k g(1) False] g(2,3) B(3) 4 show ?thesis by auto
    qed (use B g(1) False in \<open>simp_all add: upd_mut_iff rd_SomeI\<close>)
  qed
qed

section \<open>Creations\<close>

text \<open>With room for the object and its list node a creation returns, whether the table is full or not.\<close>

lemma new_node:
  assumes "kwf s" "L \<in> LISTS" "plenty (alloc s) 2"
  obtains p al1 where "malloc_k s = (p, s\<lparr>alloc := al1\<rparr>)" and "p \<noteq> NULL"
    and "\<And>s2. alloc s2 = al1 \<Longrightarrow> nodes s2 = nodes s \<Longrightarrow>
      \<exists>al h. add_to_list L p s2 = Some (s2\<lparr>alloc := al, nodes := h\<rparr>)"
proof -
  have pl: "plenty (alloc s) (Suc (Suc 0))" using assms(3) by (simp add: numeral_2_eq_2)
  obtain p s1 where m: "malloc_k s = (p, s1)" "p \<noteq> NULL"
    "\<And>s2. alloc s2 = alloc s1 \<Longrightarrow> nodes s2 = nodes s \<Longrightarrow>
      \<exists>al h. add_to_list L p s2 = Some (s2\<lparr>alloc := al, nodes := h\<rparr>) \<and> plenty al 0"
    by (rule malloc_add_plenty[OF kwf_parts(1)[OF assms(1)] assms(2) pl]) (rule that)
  have "s1 = s\<lparr>alloc := alloc s1\<rparr>" using m(1) by (auto simp: malloc_k_iff)
  with m that[of p "alloc s1"] show ?thesis by metis
qed

lemmas writes_cur = upd_cur_def upd_pd_def wr_def rd_def

lemma returns_Create_Mutex:
  assumes kwf: "kwf s" and d: "cur_pd s = Some d" and pl: "plenty (alloc s) 2"
  shows "\<exists>r t. Kernel_Create_Mutex s = Some (r, t)"
proof -
  have c: "pds s (Current_Process s) = Some d" "Current_Process s \<noteq> NULL" using d by (auto simp: cur_pd_def rd_Some_iff)
  obtain p al1 where m: "malloc_k s = (p, s\<lparr>alloc := al1\<rparr>)" "p \<noteq> NULL"
    "\<And>s2. alloc s2 = al1 \<Longrightarrow> nodes s2 = nodes s \<Longrightarrow>
      \<exists>al h. add_to_list MutexList p s2 = Some (s2\<lparr>alloc := al, nodes := h\<rparr>)"
    by (rule new_node[OF kwf in_LISTS(4) pl]) (rule that)
  with m(3)[of "s\<lparr>alloc := al1, mutexes := put_obj (mutexes s) p (junk_MUTEX (s\<lparr>alloc := al1\<rparr>) p)\<rparr>"] c show ?thesis
    by (auto simp: Kernel_Create_Mutex_def put_obj_def upd_mut_def writes_cur)
qed

lemma returns_Create_Event:
  assumes kwf: "kwf s" and d: "cur_pd s = Some d" and pl: "plenty (alloc s) 2"
  shows "\<exists>r t. Kernel_Create_Event s = Some (r, t)"
proof -
  have c: "pds s (Current_Process s) = Some d" "Current_Process s \<noteq> NULL" using d by (auto simp: cur_pd_def rd_Some_iff)
  obtain p al1 where m: "malloc_k s = (p, s\<lparr>alloc := al1\<rparr>)" "p \<noteq> NULL"
    "\<And>s2. alloc s2 = al1 \<Longrightarrow> nodes s2 = nodes s \<Longrightarrow>
      \<exists>al h. add_to_list EventList p s2 = Some (s2\<lparr>alloc := al, nodes := h\<rparr>)"
    by (rule new_node[OF kwf in_LISTS(2) pl]) (rule that)
  with m(3)[of "s\<lparr>alloc := al1, events := put_obj (events s) p (junk_EVENT (s\<lparr>alloc := al1\<rparr>) p)\<rparr>"] c show ?thesis
    by (auto simp: Kernel_Create_Event_def put_obj_def upd_ev_def writes_cur)
qed

lemma returns_Create_Event_Group:
  assumes kwf: "kwf s" and d: "cur_pd s = Some d" and pl: "plenty (alloc s) 2"
  shows "\<exists>r t. Kernel_Create_Event_Group s = Some (r, t)"
proof -
  have c: "pds s (Current_Process s) = Some d" "Current_Process s \<noteq> NULL" using d by (auto simp: cur_pd_def rd_Some_iff)
  obtain p al1 where m: "malloc_k s = (p, s\<lparr>alloc := al1\<rparr>)" "p \<noteq> NULL"
    "\<And>s2. alloc s2 = al1 \<Longrightarrow> nodes s2 = nodes s \<Longrightarrow>
      \<exists>al h. add_to_list EventGroupList p s2 = Some (s2\<lparr>alloc := al, nodes := h\<rparr>)"
    by (rule new_node[OF kwf in_LISTS(3) pl]) (rule that)
  with m(3)[of "s\<lparr>alloc := al1, event_groups := put_obj (event_groups s) p \<lparr>eg_id = 0, eg_events = 0\<rparr>\<rparr>"] c show ?thesis
    by (auto simp: Kernel_Create_Event_Group_def put_obj_def upd_eg_def writes_cur)
qed

lemma returns_Create_Mailbox:
  assumes kwf: "kwf s" and d: "cur_pd s = Some d" and pl: "plenty (alloc s) 2"
  shows "\<exists>t. Kernel_Create_Mailbox s = Some t"
proof -
  have c: "pds s (Current_Process s) = Some d" "Current_Process s \<noteq> NULL" using d by (auto simp: cur_pd_def rd_Some_iff)
  obtain p al1 where m: "malloc_k s = (p, s\<lparr>alloc := al1\<rparr>)" "p \<noteq> NULL"
    "\<And>s2. alloc s2 = al1 \<Longrightarrow> nodes s2 = nodes s \<Longrightarrow>
      \<exists>al h. add_to_list MailboxList p s2 = Some (s2\<lparr>alloc := al, nodes := h\<rparr>)"
    by (rule new_node[OF kwf in_LISTS(6) pl]) (rule that)
  with m(3)[of "s\<lparr>alloc := al1, mailboxes := put_obj (mailboxes s) p \<lparr>mb_id = 0, capacity = 0, mails = new_ptr_queue,
      send_queue = new_ptr_queue, recv_queue = new_ptr_queue\<rparr>\<rparr>"] c show ?thesis
    by (auto simp: Kernel_Create_Mailbox_def Kernel_Create_Mailbox_Direct_def req_arg_def cur_pd_def put_obj_def upd_mb_def writes_cur)
qed

lemma returns_Create_Semaphore:
  assumes kwf: "kwf s" and d: "cur_pd s = Some d" and pl: "plenty (alloc s) 2"
  shows "\<exists>t. Kernel_Create_Semaphore s = Some t"
proof -
  have c: "pds s (Current_Process s) = Some d" "Current_Process s \<noteq> NULL" using d by (auto simp: cur_pd_def rd_Some_iff)
  obtain p al1 where m: "malloc_k s = (p, s\<lparr>alloc := al1\<rparr>)" "p \<noteq> NULL"
    "\<And>s2. alloc s2 = al1 \<Longrightarrow> nodes s2 = nodes s \<Longrightarrow>
      \<exists>al h. add_to_list SemaphoreList p s2 = Some (s2\<lparr>alloc := al, nodes := h\<rparr>)"
    by (rule new_node[OF kwf in_LISTS(5) pl]) (rule that)
  with m(3)[of "s\<lparr>alloc := al1, semaphores := put_obj (semaphores s) p
      \<lparr>sem_id = 0, sem_count = 0, is_binary = 0, sem_wait_queue = new_ptr_queue\<rparr>\<rparr>"] c show ?thesis
    by (auto simp: Kernel_Create_Semaphore_def Kernel_Create_Semaphore_Direct_def req_arg_def cur_pd_def put_obj_def upd_sem_def
        writes_cur)
qed

section \<open>Requests that ask for no switch\<close>

lemma stays_Suspend: "Kernel_Suspend_Task s = Some t \<Longrightarrow> Kernel_Request_Cswitch t = Kernel_Request_Cswitch s"
  by (auto simp: Kernel_Suspend_Task_def upd_pd_iff elim!: bind_SomeE split: if_splits)

lemma stays_creates:
  "Kernel_Create_Mutex s = Some (r, t) \<Longrightarrow> Kernel_Request_Cswitch t = Kernel_Request_Cswitch s"
  "Kernel_Create_Event s = Some (r, t) \<Longrightarrow> Kernel_Request_Cswitch t = Kernel_Request_Cswitch s"
  "Kernel_Create_Event_Group s = Some (r, t) \<Longrightarrow> Kernel_Request_Cswitch t = Kernel_Request_Cswitch s"
  by (auto simp: Kernel_Create_Mutex_def Kernel_Create_Event_def Kernel_Create_Event_Group_def Let_def
      malloc_k_iff add_to_list_def upd_mut_iff upd_ev_iff upd_eg_iff upd_cur_iff elim!: bind_SomeE split: if_splits prod.splits)

lemma stays_Create_Semaphore: "Kernel_Create_Semaphore s = Some t \<Longrightarrow> Kernel_Request_Cswitch t = Kernel_Request_Cswitch s"
  by (auto simp: Kernel_Create_Semaphore_def Kernel_Create_Semaphore_Direct_def Let_def
      malloc_k_iff add_to_list_def upd_sem_iff upd_cur_iff elim!: bind_SomeE split: if_splits prod.splits)

lemma stays_Create_Mailbox: "Kernel_Create_Mailbox s = Some t \<Longrightarrow> Kernel_Request_Cswitch t = Kernel_Request_Cswitch s"
  by (auto simp: Kernel_Create_Mailbox_def Kernel_Create_Mailbox_Direct_def Let_def
      malloc_k_iff add_to_list_def upd_mb_iff upd_cur_iff elim!: bind_SomeE split: if_splits prod.splits)

lemma stays_Create_Task: "Kernel_Create_Task s = Some t \<Longrightarrow> Kernel_Request_Cswitch t = Kernel_Request_Cswitch s"
  by (auto simp: Kernel_Create_Task_def Kernel_Create_Task_Direct_def Let_def
      malloc_k_iff add_to_list_def upd_pd_iff upd_cur_iff elim!: bind_SomeE split: if_splits prod.splits)

lemma stays_destroys:
  "Kernel_Destroy_Mutex s = Some t \<Longrightarrow> Kernel_Request_Cswitch t = Kernel_Request_Cswitch s"
  "Kernel_Destroy_Semaphore s = Some t \<Longrightarrow> Kernel_Request_Cswitch t = Kernel_Request_Cswitch s"
  "Kernel_Destroy_Event_Group s = Some t \<Longrightarrow> Kernel_Request_Cswitch t = Kernel_Request_Cswitch s"
  "Kernel_Destroy_Mailbox s = Some t \<Longrightarrow> Kernel_Request_Cswitch t = Kernel_Request_Cswitch s"
  by (auto simp: Kernel_Destroy_Mutex_def Kernel_Destroy_Semaphore_def Kernel_Destroy_Event_Group_def Kernel_Destroy_Mailbox_def
      Let_def remove_from_list_def upd_mut_iff upd_sem_iff upd_mb_iff elim!: bind_SomeE split: if_splits)

lemma stays_group_bits:
  "Kernel_Event_Group_Clear_Bits s = Some t \<Longrightarrow> Kernel_Request_Cswitch t = Kernel_Request_Cswitch s"
  "Kernel_Event_Group_Get_Bits s = Some (v, t) \<Longrightarrow> Kernel_Request_Cswitch t = Kernel_Request_Cswitch s"
  by (auto simp: Kernel_Event_Group_Clear_Bits_def Kernel_Event_Group_Get_Bits_def upd_eg_iff upd_cur_iff elim!: bind_SomeE split: if_splits)

lemma stays_mails:
  "Kernel_Mailbox_Check s = Some t \<Longrightarrow> Kernel_Request_Cswitch t = Kernel_Request_Cswitch s"
  "Kernel_Mailbox_Destroy_Mail s = Some t \<Longrightarrow> Kernel_Request_Cswitch t = Kernel_Request_Cswitch s"
  by (auto simp: Kernel_Mailbox_Check_def Kernel_Mailbox_Destroy_Mail_def findMailboxByID_def upd_mail_iff upd_cur_iff
      elim!: bind_SomeE split: if_splits)

lemma returns_Create_Task:
  assumes kwf: "kwf s" and d: "cur_pd s = Some d" and pl: "plenty (alloc s) 3" and n: "41 \<le> unat (request_args d 1)"
  shows "\<exists>t. Kernel_Create_Task s = Some t"
proof -
  have c: "pds s (Current_Process s) = Some d" "Current_Process s \<noteq> NULL" using d by (auto simp: cur_pd_def rd_Some_iff)
  have pl': "plenty (alloc s) (Suc (Suc (Suc 0)))" using pl by (simp add: numeral_3_eq_3)
  obtain p s1 where m: "malloc_k s = (p, s1)" "p \<noteq> NULL"
    "\<And>s2. alloc s2 = alloc s1 \<Longrightarrow> nodes s2 = nodes s \<Longrightarrow>
      \<exists>al h. add_to_list ProcessList p s2 = Some (s2\<lparr>alloc := al, nodes := h\<rparr>) \<and> plenty al (Suc 0)"
    by (rule malloc_add_plenty[OF kwf_parts(1)[OF kwf] in_LISTS(1) pl']) (rule that)
  have s1: "s1 = s\<lparr>alloc := alloc s1\<rparr>" using m(1) by (auto simp: malloc_k_iff)
  let ?s2 = "s\<lparr>alloc := alloc s1, pds := (pds s)(p \<mapsto> junk_PD (s\<lparr>alloc := alloc s1\<rparr>) p)\<rparr>"
  obtain al h where a: "add_to_list ProcessList p ?s2 = Some (?s2\<lparr>alloc := al, nodes := h\<rparr>)" "plenty al (Suc 0)"
    using m(3)[of ?s2] by auto
  obtain stk al2 where k: "malloc al = (stk, al2)" "stk \<noteq> NULL" by (rule plenty_malloc[OF a(2)]) (rule that)
  have m1: "malloc_k s = (p, s\<lparr>alloc := alloc s1\<rparr>)" using m(1) s1 by simp
  obtain bh sp1 where st: "stack_result (Task_Terminate_entry s) (request_args d 0) (request_args d 1) stk (bytes s) = Some (bh, sp1)"
    using stack_result_ok[OF k(2) n] by blast
  show ?thesis
    using m1 m(2) a(1) k c st
    by (auto simp: Kernel_Create_Task_def Kernel_Create_Task_Direct_def put_obj_def req_arg_def cur_pd_def writes_cur stack_result_def
        malloc_k_def Let_def elim!: bind_SomeE)
qed

section \<open>Requests with an effect on waiting tasks\<close>

lemma sparesI:
  assumes "steady s t" and "\<And>q d. q \<noteq> Current_Process s \<Longrightarrow> pds s q = Some d \<Longrightarrow> state d = READY \<Longrightarrow>
    \<exists>d'. pds t q = Some d' \<and> state d' = READY \<and> pri d' = pri d"
  shows "spares s t"
  using assms by (auto simp: spares_def steady_def)

text \<open>A give must leave one of the waiting tasks waiting, or have none to serve.\<close>

definition give_ok :: "kstate \<Rightarrow> SEMAPHORE_TYPE \<Rightarrow> u16 \<Rightarrow> bool" where
  "give_ok s m n \<longleftrightarrow> (let ws = qitems (qelems s) (sem_wait_queue m); c = given m (sint n) in
     0 \<le> sint (sem_count m) \<and> 0 \<le> sint n \<and> sint (sem_count m) + sint n \<le> 32767 \<and> waiters_ok (pds s) ws \<and>
     (0 < c \<longrightarrow> ws \<noteq> [] \<longrightarrow> served c (amounts (pds s) ws) < length ws))"

lemma returns_Semaphore_Give:
  assumes "kwf s" "sems s \<noteq> []" "cur_pd s = Some d"
    and ok: "\<And>p m. p \<in> set (sems s) \<Longrightarrow> semaphores s p = Some m \<Longrightarrow> sem_id m = request_args d 0 \<Longrightarrow> give_ok s m (request_args d 1)"
  shows "\<exists>t. Kernel_Semaphore_Give s = Some t \<and> spares s t"
proof -
  obtain p where p: "findSemaphoreByID (request_args d 0) s = Some p"
    "p \<noteq> NULL \<Longrightarrow> p \<in> set (sems s) \<and> (\<exists>m. semaphores s p = Some m \<and> sem_id m = request_args d 0)"
    by (rule findSemaphore_returns[OF assms(1,2), of "request_args d 0"]) (rule that)
  show ?thesis
  proof (cases "p = NULL")
    case True
    with p(1) assms(3) show ?thesis by (simp add: Kernel_Semaphore_Give_def req_arg_def)
  next
    case False
    then obtain m where m: "p \<in> set (sems s)" "semaphores s p = Some m" "sem_id m = request_args d 0" using p(2) by auto
    have a: "req_arg 0 s = Some (sem_id m)" "req_arg 1 s = Some (request_args d 1)" using assms(3) m(3) by (simp_all add: req_arg_def)
    note G = ok[OF m, unfolded give_ok_def Let_def]
    let ?ws = "qitems (qelems s) (sem_wait_queue m)" and ?c = "given m (sint (request_args d 1))"
    let ?k = "if 0 < ?c then served ?c (amounts (pds s) ?ws) else 0"
    have ne: "\<not> (0 < ?c \<and> ?ws \<noteq> [] \<and> ?k = length ?ws)" using G by auto
    have "\<exists>t. Kernel_Semaphore_Give s = Some t \<and> pds t = ready_all (take ?k ?ws) (pds s)"
      using give_result[OF assms(1) a m(1,2) conjunct1[OF G] conjunct1[OF conjunct2[OF G]]
          conjunct1[OF conjunct2[OF conjunct2[OF G]]] refl conjunct1[OF conjunct2[OF conjunct2[OF conjunct2[OF G]]]] refl refl]
      unfolding if_not_P[OF ne] by blast
    then obtain t where t: "Kernel_Semaphore_Give s = Some t" "pds t = ready_all (take ?k ?ws) (pds s)" by blast
    have "spares s t"
      by (rule sparesI[OF steady_Kernel_Semaphore_Give[OF t(1)]]) (simp add: t(2) ready_all_def)
    with t(1) show ?thesis by blast
  qed
qed

text \<open>The mailbox operations that wake or block tasks, where the caller's arguments are valid.\<close>

lemma returns_Mailbox_Send:
  assumes "kwf s" "mbs s \<noteq> []" "cur_pd s = Some d" "state d \<noteq> WAIT_MAILBOX" "plenty (alloc s) 3"
    and ok: "\<And>mb b. mb \<in> set (mbs s) \<Longrightarrow> mailboxes s mb = Some b \<Longrightarrow> mb_id b = request_args d 0 \<Longrightarrow>
      mailbox_ok s mb \<and> (\<exists>src. rd (bytes s) (request_args d 1) = Some src \<and> unat (request_args d 2) \<le> length src)"
  shows "\<exists>t. Kernel_Mailbox_Send s = Some t \<and> spares s t"
proof -
  have c: "cur_pd (s\<lparr>err := x\<rparr>) = Some d" for x using assms(3) by (simp add: cur_pd_def)
  obtain p e where p: "findMailboxByID (request_args d 0) s = Some (p, s\<lparr>err := e\<rparr>)"
    "p \<noteq> NULL \<Longrightarrow> p \<in> set (mbs s) \<and> (\<exists>b. mailboxes s p = Some b \<and> mb_id b = request_args d 0)"
    by (rule findMailbox_returns[OF assms(1,2), of "request_args d 0"]) (rule that)
  have "\<exists>t. Kernel_Mailbox_Send s = Some t \<and> (\<forall>q d. q \<noteq> Current_Process s \<longrightarrow> pds s q = Some d \<longrightarrow> state d = READY \<longrightarrow>
      (\<exists>d'. pds t q = Some d' \<and> state d' = READY \<and> pri d' = pri d))"
  proof (cases "p = NULL")
    case True
    then show ?thesis
      using p(1) assms(3) c upd_cur_Some[OF c] by (auto simp: Kernel_Mailbox_Send_def req_arg_def)
  next
    case False
    then obtain b where b: "p \<in> set (mbs s)" "mailboxes s p = Some b" "mb_id b = request_args d 0" using p(2) by auto
    from ok[OF b] obtain src where o: "mailbox_ok s p" "rd (bytes s) (request_args d 1) = Some src" "unat (request_args d 2) \<le> length src"
      by blast
    obtain t where t: "Kernel_Mailbox_Send s = Some t"
      "(if limit (mb_view s p) \<le> length (msgs (mb_view s p))
     then pds t = (pds s)(Current_Process s \<mapsto>
       if request_args d 3 = 0 then d\<lparr>request_retval := 0\<rparr> else d\<lparr>state := WAIT_MAILBOX\<rparr>)
     else case receivers (mb_view s p) of
         [] \<Rightarrow> pds t = (pds s)(Current_Process s \<mapsto> d\<lparr>request_retval := 1\<rparr>)
       | r # _ \<Rightarrow> \<exists>dr. pds s r = Some dr \<and> msg t (request_args dr 1) = out_msg s (Current_Process s) \<and>
           pds t = (pds s)(r \<mapsto> dr\<lparr>state := READY\<rparr>, Current_Process s \<mapsto> d\<lparr>request_retval := 1\<rparr>))"
      using send_result[OF o(1) assms(3,4) b(3)[symmetric] b(1,2) o(2,3) assms(5)] by blast
    show ?thesis
      using t by (intro exI[of _ t]) (auto split: if_splits list.splits)
  qed
  then obtain t where t: "Kernel_Mailbox_Send s = Some t" "\<forall>q d. q \<noteq> Current_Process s \<longrightarrow> pds s q = Some d \<longrightarrow> state d = READY \<longrightarrow>
      (\<exists>d'. pds t q = Some d' \<and> state d' = READY \<and> pri d' = pri d)" by blast
  have "spares s t" by (rule sparesI[OF steady_Kernel_Mailbox_Send[OF t(1)]]) (use t(2) in blast)
  with t(1) show ?thesis by blast
qed

lemma returns_Mailbox_Recv:
  assumes "kwf s" "mbs s \<noteq> []" "cur_pd s = Some d" "state d \<noteq> WAIT_MAILBOX" "plenty (alloc s) 3"
    and ok: "\<And>mb b. mb \<in> set (mbs s) \<Longrightarrow> mailboxes s mb = Some b \<Longrightarrow> mb_id b = request_args d 0 \<Longrightarrow>
      mailbox_ok s mb \<and> request_args d 1 \<noteq> NULL \<and> request_args d 1 \<in> dom (mail_objs s) \<and>
      request_args d 1 \<notin> set (qitems (qelems s) (mails b))"
  shows "\<exists>t. Kernel_Mailbox_Recv s = Some t \<and> spares s t"
proof -
  have c: "cur_pd (s\<lparr>err := x\<rparr>) = Some d" for x using assms(3) by (simp add: cur_pd_def)
  obtain p e where p: "findMailboxByID (request_args d 0) s = Some (p, s\<lparr>err := e\<rparr>)"
    "p \<noteq> NULL \<Longrightarrow> p \<in> set (mbs s) \<and> (\<exists>b. mailboxes s p = Some b \<and> mb_id b = request_args d 0)"
    by (rule findMailbox_returns[OF assms(1,2), of "request_args d 0"]) (rule that)
  have "\<exists>t. Kernel_Mailbox_Recv s = Some t \<and> (\<forall>q d. q \<noteq> Current_Process s \<longrightarrow> pds s q = Some d \<longrightarrow> state d = READY \<longrightarrow>
      (\<exists>d'. pds t q = Some d' \<and> state d' = READY \<and> pri d' = pri d))"
  proof (cases "p = NULL")
    case True
    then show ?thesis
      using p(1) assms(3) c upd_cur_Some[OF c] by (auto simp: Kernel_Mailbox_Recv_def req_arg_def)
  next
    case False
    then obtain b where b: "p \<in> set (mbs s)" "mailboxes s p = Some b" "mb_id b = request_args d 0" using p(2) by auto
    from ok[OF b] have o: "mailbox_ok s p" "request_args d 1 \<noteq> NULL" "request_args d 1 \<in> dom (mail_objs s)"
      "request_args d 1 \<notin> set (qitems (qelems s) (mails b))" by auto
    obtain t where t: "Kernel_Mailbox_Recv s = Some t"
      "case msgs (mb_view s p) of
       [] \<Rightarrow> if request_args d 2 = 0 then pds t = (pds s)(Current_Process s \<mapsto> d\<lparr>request_retval := 0\<rparr>) \<and>
            mail_objs t (request_args d 1) = Some \<lparr>mail_ptr = NULL, mail_size = 0, mail_source = 0\<rparr>
          else pds t = (pds s)(Current_Process s \<mapsto> d\<lparr>state := WAIT_MAILBOX\<rparr>)
     | x # _ \<Rightarrow> msg t (request_args d 1) = x \<and> (case senders (mb_view s p) of
           [] \<Rightarrow> pds t = (pds s)(Current_Process s \<mapsto> d\<lparr>request_retval := 1\<rparr>)
         | q # _ \<Rightarrow> \<exists>dq. pds s q = Some dq \<and>
             pds t = (pds s)(q \<mapsto> dq\<lparr>state := READY\<rparr>, Current_Process s \<mapsto> d\<lparr>request_retval := 1\<rparr>))"
      using recv_result[OF o(1) assms(3,4) b(3)[symmetric] b(1,2) o(2-4) assms(5)] by blast
    show ?thesis
      using t by (intro exI[of _ t]) (auto split: if_splits list.splits)
  qed
  then obtain t where t: "Kernel_Mailbox_Recv s = Some t" "\<forall>q d. q \<noteq> Current_Process s \<longrightarrow> pds s q = Some d \<longrightarrow> state d = READY \<longrightarrow>
      (\<exists>d'. pds t q = Some d' \<and> state d' = READY \<and> pri d' = pri d)" by blast
  have "spares s t" by (rule sparesI[OF steady_Kernel_Mailbox_Recv[OF t(1)]]) (use t(2) in blast)
  with t(1) show ?thesis by blast
qed

section \<open>Terminating\<close>

lemma returns_Terminate:
  assumes kwf: "kwf s" and cur: "cur_ok s" and d: "cur_pd s = Some d" and stk: "stack d = NULL \<or> stack d \<in> dom (bytes s)"
  shows "\<exists>t. Kernel_Terminate_Task s = Some t"
proof -
  let ?p = "Current_Process s"
  have c: "pds s ?p = Some d" "?p \<noteq> NULL" using d by (auto simp: cur_pd_def rd_Some_iff)
  obtain b where b: "free (bytes s) (stack d) = Some b" using stk by (cases "stack d = NULL") (auto simp: free_def)
  have "?p \<in> set (procs s)" using cur c(2) by (force simp: cur_ok_def contents_def)
  then obtain n h where "ptrlist_find (nodes s) ProcessList ?p = Some n" "ptrlist_remove (nodes s) ProcessList n = Some (1, h)"
    by (rule ptrlist_find_remove[OF kwf_lists[OF kwf] in_LISTS(1)]) (rule that)
  with b c show ?thesis by (simp add: Kernel_Terminate_Task_def writes_cur cur_pd_def remove_from_list_def)
qed

text \<open>A task at the head of the list that terminates is followed by one of the others.\<close>

lemma terminate_serves:
  assumes kwf: "kwf s" and cur: "cur_ok s" and h: "Last_Dispatched s = ProcessList" and d: "cur_pd s = Some d"
    and t: "Kernel_Terminate_Task s = Some s1" "upd_cur (\<lambda>d. d\<lparr>request := NONE\<rparr>) s1 = Some s2" and o: "other_ready s"
  shows "\<exists>t. Kernel_Dispatch_Next_Task env s2 = Some (t, env)"
proof -
  have c: "(Last_Dispatched s, Current_Process s) \<in> set (entries (nodes s) ProcessList)" using cur by (simp add: cur_ok_def)
  note N = terminate_node[OF kwf c t(1)]
  have k2: "kwf s2" by (rule kwf_upd_cur[OF t(2) kwf_Kernel_Terminate_Task[OF kwf t(1)]]) simp
  have s2: "nodes s2 = nodes s1" "Last_Dispatched s2 = Last_Dispatched s1" "Current_Process s2 = Current_Process s1"
    using t(2) by (auto simp: upd_cur_iff)
  obtain q e where q: "q \<in> set (procs s)" "q \<noteq> Current_Process s" "pds s q = Some e" "state e = READY" "uint (pri e) < 11"
    using o by (auto simp: other_ready_def)
  have q2: "q \<in> set (procs s2)" using q(1,2) N(3) by (simp add: s2 in_set_remove1)
  have "pds s2 q = Some e" using t(2) q(2,3) N(2,6) by (auto simp: upd_cur_iff)
  have "procs s2 \<noteq> []" using q2 by auto
  moreover have "ProcessList \<in> fst ` set (entries (nodes s2) ProcessList)"
    using lists_wf_entries[OF kwf_lists[OF k2], of ProcessList] by (auto simp: wf_entries_Cons)
  ultimately have l: "last_ok s2" using s2(2) N(1) h by (simp add: last_ok_def)
  obtain d2 where "cur_pd s2 = Some d2" using t(2) by (auto simp: upd_cur_iff cur_pd_def rd_Some_iff)
  from dispatch_returns[OF k2 l this q2 \<open>pds s2 q = Some e\<close> q(5)] q(4) show ?thesis by blast
qed

section \<open>Requests that can be served\<close>

text \<open>
  What each request needs: memory for what it creates or queues, a list that is not empty where it
  searches one, an identifier that exists where it destroys one, and arguments that point to
  objects. A task that terminates must be at the head of the list.
\<close>

definition servable :: "kstate \<Rightarrow> PD \<Rightarrow> bool" where
  "servable s d = (let a = request_args d 0 in case request d of
     TASK_CREATE \<Rightarrow> plenty (alloc s) 3 \<and> 41 \<le> unat (request_args d 1)
   | TASK_TERMINATE \<Rightarrow> Last_Dispatched s = ProcessList \<and> (stack d = NULL \<or> stack d \<in> dom (bytes s))
   | MUT_CREATE \<Rightarrow> plenty (alloc s) 2
   | MUT_DESTROY \<Rightarrow> a \<in> set (mut_ids s)
   | MUT_LOCK \<Rightarrow> muts s \<noteq> [] \<and> plenty (alloc s) 2
   | MUT_UNLOCK \<Rightarrow> muts s \<noteq> []
   | SEM_CREATE \<Rightarrow> plenty (alloc s) 2
   | SEM_DESTROY \<Rightarrow> a \<in> set (sem_ids s)
   | SEM_GIVE \<Rightarrow> sems s \<noteq> [] \<and>
       (\<forall>p m. p \<in> set (sems s) \<longrightarrow> semaphores s p = Some m \<longrightarrow> sem_id m = a \<longrightarrow> give_ok s m (request_args d 1))
   | SEM_GET \<Rightarrow> sems s \<noteq> [] \<and> plenty (alloc s) 1 \<and>
       (\<forall>p m. p \<in> set (sems s) \<longrightarrow> semaphores s p = Some m \<longrightarrow> sem_id m = a \<longrightarrow>
         0 \<le> sint (sem_count m) \<and> 0 \<le> sint (request_args d 1))
   | E_CREATE \<Rightarrow> plenty (alloc s) 2
   | E_WAIT \<Rightarrow> evs s \<noteq> []
   | E_SIGNAL \<Rightarrow> evs s \<noteq> [] \<and>
       (\<forall>p m. p \<in> set (evs s) \<longrightarrow> events s p = Some m \<longrightarrow> ev_id m = a \<longrightarrow> ev_owner m \<noteq> 0 \<longrightarrow>
         ev_owner m \<in> set (task_ids s) \<and> 0 < sint (ev_owner m))
   | EG_CREATE \<Rightarrow> plenty (alloc s) 2
   | EG_DESTROY \<Rightarrow> a \<in> set (eg_ids s)
   | EG_SETBITS \<Rightarrow> egs s \<noteq> []
   | EG_CLEARBITS \<Rightarrow> egs s \<noteq> []
   | EG_WAITBITS \<Rightarrow> egs s \<noteq> []
   | EG_GETBITS \<Rightarrow> egs s \<noteq> []
   | MB_CREATE \<Rightarrow> plenty (alloc s) 2
   | MB_DESTROY \<Rightarrow> a \<in> set (mb_ids s)
   | MB_CHECKMAIL \<Rightarrow> mbs s \<noteq> []
   | MB_SENDMAIL \<Rightarrow> mbs s \<noteq> [] \<and> state d \<noteq> WAIT_MAILBOX \<and> plenty (alloc s) 3 \<and>
       (\<forall>mb b. mb \<in> set (mbs s) \<longrightarrow> mailboxes s mb = Some b \<longrightarrow> mb_id b = a \<longrightarrow> mailbox_ok s mb \<and>
         (\<exists>src. rd (bytes s) (request_args d 1) = Some src \<and> unat (request_args d 2) \<le> length src))
   | MB_RECVMAIL \<Rightarrow> mbs s \<noteq> [] \<and> state d \<noteq> WAIT_MAILBOX \<and> plenty (alloc s) 3 \<and>
       (\<forall>mb b. mb \<in> set (mbs s) \<longrightarrow> mailboxes s mb = Some b \<longrightarrow> mb_id b = a \<longrightarrow> mailbox_ok s mb \<and>
         request_args d 1 \<noteq> NULL \<and> request_args d 1 \<in> dom (mail_objs s) \<and>
         request_args d 1 \<notin> set (qitems (qelems s) (mails b)))
   | MB_DESTROYM \<Rightarrow> (\<exists>x. rd (mail_objs s) a = Some x \<and> (mail_ptr x = NULL \<or> mail_ptr x \<in> dom (bytes s)))
   | _ \<Rightarrow> True)"

text \<open>Every request but the termination and the yield is handled, and it either asks for no switch or spares the
  tasks that are ready.\<close>

lemma handled_tasks:
  assumes kwf: "kwf s" and d: "cur_pd s = Some d" and ne: "procs s \<noteq> []" and ok: "servable s d"
    and r: "request d \<in> {TASK_CREATE, TASK_SUSPEND, TASK_RESUME, TASK_SLEEP}"
  shows "\<exists>t. handle_request (request d) s = Some t \<and> (Kernel_Request_Cswitch t = Kernel_Request_Cswitch s \<or> spares s t)"
proof (cases "request d")
  case TASK_CREATE
  with ok show ?thesis using returns_Create_Task[OF kwf d] stays_Create_Task by (auto simp: servable_def Let_def)
next
  case TASK_SUSPEND
  with returns_Suspend[OF kwf ne d] stays_Suspend show ?thesis by auto
next
  case TASK_RESUME
  with returns_Resume[OF kwf ne d] spares_Kernel_Resume_Task show ?thesis by auto
next
  case TASK_SLEEP
  with returns_Sleep[OF d] spares_Kernel_Sleep_Task show ?thesis by auto
qed (use r in simp_all)

lemma handled_events:
  assumes kwf: "kwf s" and d: "cur_pd s = Some d" and ne: "procs s \<noteq> []" and ok: "servable s d"
    and r: "request d \<in> {E_CREATE, E_WAIT, E_SIGNAL, EG_CREATE, EG_DESTROY, EG_SETBITS, EG_CLEARBITS, EG_WAITBITS, EG_GETBITS}"
  shows "\<exists>t. handle_request (request d) s = Some t \<and> (Kernel_Request_Cswitch t = Kernel_Request_Cswitch s \<or> spares s t)"
proof (cases "request d")
  case E_CREATE
  with ok show ?thesis using returns_Create_Event[OF kwf d] stays_creates(2) by (fastforce simp: servable_def Let_def)
next
  case E_WAIT
  with ok show ?thesis using returns_Wait_Event[OF kwf _ d] spares_Kernel_Wait_Event by (auto simp: servable_def Let_def)
next
  case E_SIGNAL
  with ok show ?thesis using returns_Signal_Event[OF kwf ne _ d] spares_Kernel_Signal_Event by (auto simp: servable_def Let_def)
next
  case EG_CREATE
  with ok show ?thesis using returns_Create_Event_Group[OF kwf d] stays_creates(3) by (fastforce simp: servable_def Let_def)
next
  case EG_DESTROY
  with ok show ?thesis using returns_destroys(3)[OF kwf d] stays_destroys(3) by (auto simp: servable_def Let_def)
next
  case EG_SETBITS
  with ok show ?thesis using returns_Set_Bits[OF kwf ne _ d] by (auto simp: servable_def Let_def)
next
  case EG_CLEARBITS
  with ok show ?thesis using returns_group_bits(1)[OF kwf _ d] stays_group_bits(1) by (auto simp: servable_def Let_def)
next
  case EG_WAITBITS
  with ok show ?thesis
    using returns_group_bits(2)[OF kwf _ d] spares_Kernel_Event_Group_Wait_Bits by (auto simp: servable_def Let_def)
next
  case EG_GETBITS
  with ok show ?thesis using returns_group_bits(3)[OF kwf _ d] stays_group_bits(2) by (fastforce simp: servable_def Let_def)
qed (use r in simp_all)

lemma handled_locks:
  assumes kwf: "kwf s" and d: "cur_pd s = Some d" and ne: "procs s \<noteq> []" and ok: "servable s d"
    and r: "request d \<in> {MUT_CREATE, MUT_DESTROY, MUT_LOCK, MUT_UNLOCK, SEM_CREATE, SEM_DESTROY, SEM_GIVE, SEM_GET}"
  shows "\<exists>t. handle_request (request d) s = Some t \<and> (Kernel_Request_Cswitch t = Kernel_Request_Cswitch s \<or> spares s t)"
proof (cases "request d")
  case MUT_CREATE
  with ok show ?thesis using returns_Create_Mutex[OF kwf d] stays_creates(1) by (fastforce simp: servable_def Let_def)
next
  case MUT_DESTROY
  with ok show ?thesis using returns_destroys(1)[OF kwf d] stays_destroys(1) by (auto simp: servable_def Let_def)
next
  case MUT_LOCK
  with ok show ?thesis using returns_Lock_Mutex[OF kwf _ d] spares_Kernel_Lock_Mutex by (auto simp: servable_def Let_def)
next
  case MUT_UNLOCK
  with ok show ?thesis using returns_Unlock_Mutex[OF kwf _ d] spares_Kernel_Unlock_Mutex by (auto simp: servable_def Let_def)
next
  case SEM_CREATE
  with ok show ?thesis using returns_Create_Semaphore[OF kwf d] stays_Create_Semaphore by (auto simp: servable_def Let_def)
next
  case SEM_DESTROY
  with ok show ?thesis using returns_destroys(2)[OF kwf d] stays_destroys(2) by (auto simp: servable_def Let_def)
next
  case SEM_GIVE
  with ok show ?thesis using returns_Semaphore_Give[OF kwf _ d] by (auto simp: servable_def Let_def)
next
  case SEM_GET
  with ok show ?thesis using returns_Semaphore_Get[OF kwf _ d] spares_Kernel_Semaphore_Get by (auto simp: servable_def Let_def)
qed (use r in simp_all)

lemma handled_mails:
  assumes kwf: "kwf s" and d: "cur_pd s = Some d" and ne: "procs s \<noteq> []" and ok: "servable s d"
    and r: "request d \<in> {MB_CREATE, MB_DESTROY, MB_DESTROYM, MB_CHECKMAIL, MB_SENDMAIL, MB_RECVMAIL}"
  shows "\<exists>t. handle_request (request d) s = Some t \<and> (Kernel_Request_Cswitch t = Kernel_Request_Cswitch s \<or> spares s t)"
proof (cases "request d")
  case MB_CREATE
  with ok show ?thesis using returns_Create_Mailbox[OF kwf d] stays_Create_Mailbox by (auto simp: servable_def Let_def)
next
  case MB_DESTROY
  with ok show ?thesis using returns_destroys(4)[OF kwf d] stays_destroys(4) by (auto simp: servable_def Let_def)
next
  case MB_DESTROYM
  with ok obtain x where "rd (mail_objs s) (request_args d 0) = Some x" "mail_ptr x = NULL \<or> mail_ptr x \<in> dom (bytes s)"
    by (auto simp: servable_def Let_def)
  from returns_Mailbox_Destroy_Mail[OF d this] MB_DESTROYM stays_mails(2) show ?thesis by auto
next
  case MB_CHECKMAIL
  with ok show ?thesis using returns_Mailbox_Check[OF kwf _ d] stays_mails(1) by (auto simp: servable_def Let_def)
next
  case MB_SENDMAIL
  with ok show ?thesis using returns_Mailbox_Send[OF kwf _ d] by (auto simp: servable_def Let_def)
next
  case MB_RECVMAIL
  with ok show ?thesis using returns_Mailbox_Recv[OF kwf _ d] by (auto simp: servable_def Let_def)
qed (use r in simp_all)

lemma handled:
  assumes "kwf s" "cur_pd s = Some d" "procs s \<noteq> []" "servable s d" "request d \<noteq> TASK_TERMINATE"
  shows "\<exists>t. handle_request (request d) s = Some t \<and> (Kernel_Request_Cswitch t = Kernel_Request_Cswitch s \<or> spares s t)"
  using handled_tasks[OF assms(1-4)] handled_events[OF assms(1-4)] handled_locks[OF assms(1-4)] handled_mails[OF assms(1-4)] assms(5)
  by (cases "request d") (simp_all add: Kernel_Invalid_Request_def)

section \<open>An iteration of the main loop returns\<close>

lemma cur_ok_pd: "kwf s \<Longrightarrow> cur_ok s \<Longrightarrow> \<exists>d. cur_pd s = Some d"
  using table_wf_obj[OF kwf_tables(1)[of s], of "Current_Process s"]
  by (force simp: cur_ok_def contents_def cur_pd_def rd_def)

lemma upd_cur_kept:
  assumes "kwf s" "cur_ok s"
  obtains t where "upd_cur (\<lambda>d. d\<lparr>request := NONE\<rparr>) s = Some t" and "kwf t" and "cur_ok t" and "spares s t"
    and "procs t = procs s" and "Kernel_Request_Cswitch t = Kernel_Request_Cswitch s"
proof -
  obtain d where "cur_pd s = Some d" using cur_ok_pd[OF assms] by blast
  then obtain t where t: "upd_cur (\<lambda>d. d\<lparr>request := NONE\<rparr>) s = Some t" by (auto simp: upd_cur_iff)
  have "kwf t" by (rule kwf_upd_cur[OF t assms(1)]) simp
  moreover have "cur_ok t" "procs t = procs s" "Kernel_Request_Cswitch t = Kernel_Request_Cswitch s"
    using t assms(2) by (auto simp: upd_cur_iff cur_ok_def)
  ultimately show ?thesis using that[OF t] spares_upd_cur[OF t spares_refl] by blast
qed

lemma other_ready_spares:
  assumes "other_ready s" "spares s t" "set (procs s) \<subseteq> set (procs t)"
  shows "other_ready t"
proof -
  obtain q d where q: "q \<in> set (procs s)" "q \<noteq> Current_Process s" "pds s q = Some d" "state d = READY" "uint (pri d) < 11"
    using assms(1) by (auto simp: other_ready_def)
  moreover obtain d' where "pds t q = Some d'" "state d' = READY" "pri d' = pri d"
    using assms(2) q(2-4) unfolding spares_def by blast
  ultimately show ?thesis
    using assms(2,3) unfolding other_ready_def spares_def by (intro exI[of _ q] exI[of _ d']) auto
qed

lemma other_ready_dispatch:
  assumes "kwf s" "cur_ok s" "other_ready s"
  obtains t where "Kernel_Dispatch_Next_Task env s = Some (t, env)" and "Kernel_Request_Cswitch t = Kernel_Request_Cswitch s"
    and "kwf t" and "cur_ok t"
proof -
  obtain d0 where d0: "cur_pd s = Some d0" using cur_ok_pd[OF assms(1,2)] by blast
  obtain q d where q: "q \<in> set (procs s)" "pds s q = Some d" "uint (pri d) < 11" "state d = READY"
    using assms(3) by (auto simp: other_ready_def)
  obtain t where t: "Kernel_Dispatch_Next_Task env s = Some (t, env)" "Kernel_Request_Cswitch t = Kernel_Request_Cswitch s"
    by (rule dispatch_returns[OF assms(1) cur_ok_last[OF assms(2)] d0 q(1-3)]) (use q(4) in blast, rule that)
  with dispatch_cur_ok[OF assms(1) cur_ok_last[OF assms(2)] t(1)] that show ?thesis by blast
qed

lemma handled_returns:
  assumes k: "kwf s" "cur_ok s" "ids_left s" and d: "cur_pd s = Some d" and c: "Kernel_Request_Cswitch s = 0"
    and o: "other_ready s" and ok: "servable s d"
  obtains s1 s2 t where "Kernel_Handle_Request env s = Some (s1, env)" and "upd_cur (\<lambda>d. d\<lparr>request := NONE\<rparr>) s1 = Some s2"
    and "(if Kernel_Request_Cswitch s2 \<noteq> 0
       then do {
         (s, env) \<leftarrow> Kernel_Dispatch_Next_Task env s2;
         Some (s\<lparr>Kernel_Request_Cswitch := 0\<rparr>, env)
       }
       else Some (s2, env)) = Some (t, env)" and "Kernel_Request_Cswitch t = 0"
proof -
  consider "request d = TASK_YIELD \<or> request d = NONE" | "request d = TASK_TERMINATE"
    | "request d \<noteq> TASK_TERMINATE" "\<not> (request d = TASK_YIELD \<or> request d = NONE)" by blast
  then show ?thesis
  proof cases
    case 1
    obtain s1 where s1: "Kernel_Dispatch_Next_Task env s = Some (s1, env)" "Kernel_Request_Cswitch s1 = 0" "kwf s1" "cur_ok s1"
      using other_ready_dispatch[OF k(1,2) o, of env] c by metis
    obtain s2 where s2: "upd_cur (\<lambda>d. d\<lparr>request := NONE\<rparr>) s1 = Some s2" "Kernel_Request_Cswitch s2 = Kernel_Request_Cswitch s1"
      by (rule upd_cur_kept[OF s1(3,4)]) (rule that)
    show ?thesis by (rule that[of s1 s2 s2]) (use 1 d s1 s2 in \<open>auto simp: Kernel_Handle_Request_def\<close>)
  next
    case 2
    then have h: "Last_Dispatched s = ProcessList" "stack d = NULL \<or> stack d \<in> dom (bytes s)"
      using ok by (simp_all add: servable_def Let_def)
    obtain s1 where s1: "Kernel_Terminate_Task s = Some s1" using returns_Terminate[OF k(1,2) d h(2)] by blast
    note N = terminate_node[OF k(1) _ s1]
    have e: "(Last_Dispatched s, Current_Process s) \<in> set (entries (nodes s) ProcessList)" using k(2) by (simp add: cur_ok_def)
    have "Current_Process s \<noteq> NULL" using d by (auto simp: cur_pd_def)
    then obtain s2 where s2: "upd_cur (\<lambda>d. d\<lparr>request := NONE\<rparr>) s1 = Some s2" "Kernel_Request_Cswitch s2 = 1"
      using N(2,4,6)[OF e] by (auto simp: upd_cur_iff cur_pd_def rd_def)
    obtain t where t: "Kernel_Dispatch_Next_Task env s2 = Some (t, env)"
      using terminate_serves[OF k(1,2) h(1) d s1 s2(1) o] by blast
    show ?thesis
      by (rule that[of s1 s2 "t\<lparr>Kernel_Request_Cswitch := 0\<rparr>"]) (use 2 d s1 s2 t in \<open>simp_all add: Kernel_Handle_Request_def\<close>)
  next
    case 3
    have ne: "procs s \<noteq> []" using o by (auto simp: other_ready_def)
    obtain s1 where s1: "handle_request (request d) s = Some s1" "Kernel_Request_Cswitch s1 = Kernel_Request_Cswitch s \<or> spares s s1"
      using handled[OF k(1) d ne ok 3(1)] by blast
    have st: "steady s s1" by (rule handle_request_steady[OF s1(1) k(1) 3(1)])
    have k1: "kwf s1" "cur_ok s1" using handle_request_kwf[OF s1(1) k(1,3)] steady_cur_ok[OF st k(2)] by simp_all
    have sub: "set (procs s) \<subseteq> set (procs s1)" using st by (fastforce simp: steady_def contents_def)
    obtain s2 where s2: "upd_cur (\<lambda>d. d\<lparr>request := NONE\<rparr>) s1 = Some s2" "kwf s2" "cur_ok s2" "spares s1 s2" "procs s2 = procs s1"
      "Kernel_Request_Cswitch s2 = Kernel_Request_Cswitch s1"
      by (rule upd_cur_kept[OF k1]) (rule that)
    have h: "Kernel_Handle_Request env s = Some (s1, env)" using 3 d s1(1) by (simp add: Kernel_Handle_Request_def)
    show ?thesis
    proof (cases "Kernel_Request_Cswitch s2 = 0")
      case True
      with that[OF h s2(1), of s2] show ?thesis by simp
    next
      case False
      then have "spares s s1" using s1(2) s2(6) c by auto
      then have "other_ready s2" using other_ready_spares[OF o spares_trans[OF _ s2(4)]] sub s2(5) by simp
      then obtain t where "Kernel_Dispatch_Next_Task env s2 = Some (t, env)"
        by (rule other_ready_dispatch[OF s2(2,3)])
      with that[OF h s2(1), of "t\<lparr>Kernel_Request_Cswitch := 0\<rparr>"] False show ?thesis by simp
    qed
  qed
qed

text \<open>On entry the kernel saves the stack pointer of the task and clears the error code; none of the conditions depends on them.\<close>

lemma entry_waiters:
  assumes "h p = Some d"
  shows "waiters_ok (h(p \<mapsto> d\<lparr>sp := x\<rparr>)) ws = waiters_ok h ws" and "amounts (h(p \<mapsto> d\<lparr>sp := x\<rparr>)) ws = amounts h ws"
  using assms by (auto simp: waiters_ok_def amounts_def)

lemma mailbox_ok_err: "mailbox_ok (s\<lparr>err := e\<rparr>) mb = mailbox_ok s mb"
  by (simp add: mailbox_ok_def mb_state_def mb_ok_def text_ok_def sender_ok_def receiver_ok_def)

lemma entry_mailbox:
  assumes "mailbox_ok s mb" "cur_pd s = Some d" "state d \<noteq> WAIT_MAILBOX"
  shows "mailbox_ok (s\<lparr>pds := (pds s)(Current_Process s \<mapsto> d\<lparr>sp := x\<rparr>)\<rparr>) mb"
proof -
  obtain c ms ws rs where st: "mb_state s mb c ms ws rs" and ok: "mb_ok s c ms ws rs" using assms(1) by (auto simp: mailbox_ok_def)
  note P = mb_ok_pd[OF st ok caller_not_waiting[OF ok assms(2,3)] upd_cur_Some[OF assms(2), of "\<lambda>d. d\<lparr>sp := x\<rparr>"] refl]
  show ?thesis by (rule mailbox_okI[OF P(1,2)]; simp)
qed

lemma servable_entry:
  assumes "servable s d" "cur_pd s = Some d"
  shows "servable (s\<lparr>pds := (pds s)(Current_Process s \<mapsto> d\<lparr>sp := x\<rparr>), err := e\<rparr>) (d\<lparr>sp := x\<rparr>)"
proof -
  have c: "pds s (Current_Process s) = Some d" using assms(2) by (simp add: cur_pd_def rd_Some_iff)
  have g: "give_ok (s\<lparr>pds := (pds s)(Current_Process s \<mapsto> d\<lparr>sp := x\<rparr>), err := e\<rparr>) m n = give_ok s m n" for m n
    by (simp add: give_ok_def entry_waiters[of "pds s" "Current_Process s" d, OF c])
  have t: "task_ids (s\<lparr>pds := (pds s)(Current_Process s \<mapsto> d\<lparr>sp := x\<rparr>), err := e\<rparr>) = task_ids s"
    using c by (simp add: task_ids_def)
  note I = mut_ids_def sem_ids_def eg_ids_def mb_ids_def mailbox_ok_err
  show ?thesis
    using assms(1) entry_mailbox[OF _ assms(2)]
    by (cases "request d") (simp_all add: servable_def g t I)
qed

text \<open>C2: An iteration of the main loop serves the request of the running task and returns to a task, without
  undefined behaviour and without waiting for a timer tick (the environment's ticks are left as they are), whenever
  the request is servable and another task is ready at one of the priorities the selection considers; the invariant
  holds again, interrupts are enabled and no switch is pending, so only the next request decides about the next
  iteration.\<close>

theorem kernel_serves_request:
  assumes "kwf s" "cur_ok s" "ids_left s" "cur_pd s = Some d" "Kernel_Request_Cswitch s = 0" "other_ready s" "servable s d"
  shows "\<exists>t. kernel_loop_body env s = Some (t, env) \<and> kwf t \<and> cur_ok t \<and> IRQ t \<and> Kernel_Request_Cswitch t = 0"
proof -
  let ?d = "d\<lparr>sp := CurrentSp s\<rparr>"
  let ?s = "s\<lparr>pds := (pds s)(Current_Process s \<mapsto> ?d), err := NO_ERR\<rparr>"
  have p: "pds s (Current_Process s) = Some d" "Current_Process s \<noteq> NULL" using assms(4) by (auto simp: cur_pd_def rd_Some_iff)
  have "kwf (s\<lparr>pds := (pds s)(Current_Process s \<mapsto> ?d)\<rparr>)" by (rule kwf_pds[OF assms(1) p(1)]) simp
  then have k: "kwf ?s" by simp
  have i: "cur_ok ?s" "ids_left ?s" "cur_pd ?s = Some ?d" "Kernel_Request_Cswitch ?s = 0" "other_ready ?s"
    using assms(2,3,5,6) p by (auto simp: cur_ok_def ids_left_def cur_pd_def rd_def other_ready_def)
  obtain s1 s2 s3 where h: "Kernel_Handle_Request env ?s = Some (s1, env)" "upd_cur (\<lambda>d. d\<lparr>request := NONE\<rparr>) s1 = Some s2"
    "(if Kernel_Request_Cswitch s2 \<noteq> 0
       then do {
         (s, env) \<leftarrow> Kernel_Dispatch_Next_Task env s2;
         Some (s\<lparr>Kernel_Request_Cswitch := 0\<rparr>, env)
       }
       else Some (s2, env)) = Some (s3, env)" "Kernel_Request_Cswitch s3 = 0"
    by (rule handled_returns[OF k i servable_entry[OF assms(7,4)]]) (rule that)
  have "kwf s3 \<and> cur_ok s3" using handled_ok[OF k i(1-3) h(1-3)] by simp
  then obtain e where "cur_pd s3 = Some e" using cur_ok_pd by blast
  then have L: "kernel_loop_body env s = Some (s3\<lparr>CurrentSp := sp e, IRQ := True\<rparr>, env)"
    using upd_cur_Some[OF assms(4), of "\<lambda>d. d\<lparr>sp := CurrentSp s\<rparr>"] h(1-3) by (simp add: kernel_loop_body_def)
  with kernel_loop_ok[OF assms(1-3) L] h(4) show ?thesis by simp
qed

text \<open>The first task asks for a unit of a semaphore that has none.\<close>

theorem kernel_serves_request_witness:
  "\<exists>t. kernel_loop_body [] (ex_sys\<lparr>pds := (pds ex_sys)(20 \<mapsto> (ex_PD 1 5 RUNNING (\<lambda>_. 1) 0)\<lparr>request := SEM_GET\<rparr>)\<rparr>) = Some (t, []) \<and>
     kwf t \<and> cur_ok t"
proof -
  let ?d = "(ex_PD 1 5 RUNNING (\<lambda>_. 1) 0)\<lparr>request := SEM_GET\<rparr>"
  let ?s = "ex_sys\<lparr>pds := (pds ex_sys)(20 \<mapsto> ?d)\<rparr>"
  have y: "kwf ex_sys" "cur_ok ex_sys" using yielding_sys[OF ex_sys_yielding] by simp_all
  have f: "Current_Process ex_sys = 20" "pds ex_sys 20 = Some (ex_PD 1 5 RUNNING (\<lambda>_. 0) 0)"
    "pds ex_sys 21 = Some (ex_PD 2 5 READY (\<lambda>_. 0) 0)"
    by (simp_all add: ex_sys_def ex_tasks_facts)
  have k: "kwf ?s" by (rule kwf_pds[OF y(1) f(2)]) (simp add: ex_PD_def)
  have c: "cur_ok ?s" "cur_pd ?s = Some ?d" using y(2) f(1) by (simp_all add: cur_ok_def cur_pd_def rd_def)
  have i: "ids_left ?s" "Kernel_Request_Cswitch ?s = 0" by (simp_all add: ids_left_def ex_sys_def ex_tasks_def ex_state_def)
  have o: "other_ready ?s"
    unfolding other_ready_def by (rule exI[of _ 21]) (use ex_sys_procs f in \<open>simp add: ex_PD_def\<close>)
  have "servable ?s ?d"
    by (simp add: servable_def ex_PD_def) (simp add: ex_sys_def ex_tasks_def ex_state_def plenty_def ex_SEM_def)
  from kernel_serves_request[OF k c(1) i(1) c(2) i(2) o this] show ?thesis by blast
qed

end
