(* ===== verification/Context.thy ===== *)
theory Context
  imports Task
begin

text \<open>
  The context switch, \<open>hardware/cswitch.s\<close>, on the machine: the registers and the data memory of
  the processor. The stack grows downwards and a return address takes three bytes, the most
  significant one on top, as on the processors that have the register \<open>EIND\<close>. \<open>call\<close>, \<open>push\<close>,
  \<open>pop\<close>, \<open>ret\<close> and \<open>reti\<close> are the documented instructions; the two variables \<open>KernelSp\<close> and
  \<open>CurrentSp\<close> are kept beside the memory.
\<close>

section \<open>The machine\<close>

record cpu =
  reg :: "nat \<Rightarrow> u8"
  SREG :: u8
  EIND :: u8
  SP :: u16
  PC :: "u8 \<times> u8 \<times> u8"
  dmem :: "addr \<Rightarrow> u8"
  var_KernelSp :: u16
  var_CurrentSp :: u16

definition push_u8 :: "u8 \<Rightarrow> cpu \<Rightarrow> cpu" where
  "push_u8 v c = c\<lparr>dmem := (dmem c)(SP c := v), SP := SP c - 1\<rparr>"

definition push :: "nat \<Rightarrow> cpu \<Rightarrow> cpu" where
  "push r c = push_u8 (reg c r) c"

definition pop :: "nat \<Rightarrow> cpu \<Rightarrow> cpu" where
  "pop r c = c\<lparr>SP := SP c + 1, reg := (reg c)(r := dmem c (SP c + 1))\<rparr>"

definition mov_in :: "nat \<Rightarrow> u8 \<Rightarrow> cpu \<Rightarrow> cpu" where
  "mov_in r v c = c\<lparr>reg := (reg c)(r := v)\<rparr>"

text \<open>A call leaves the address of the next instruction on the stack; a return takes it from there.\<close>

definition call_from :: "u8 \<times> u8 \<times> u8 \<Rightarrow> cpu \<Rightarrow> cpu" where
  "call_from ra c = (case ra of (hi, mid, lo) \<Rightarrow> push_u8 hi (push_u8 mid (push_u8 lo c)))"

definition ret :: "cpu \<Rightarrow> cpu" where
  "ret c = c\<lparr>PC := (dmem c (SP c + 1), dmem c (SP c + 2), dmem c (SP c + 3)), SP := SP c + 3\<rparr>"

definition reti :: "cpu \<Rightarrow> cpu" where
  "reti c = (ret c)\<lparr>SREG := SREG c OR 0x80\<rparr>"

section \<open>The code\<close>

definition SAVECTX :: "cpu \<Rightarrow> cpu" where
  "SAVECTX c =
     (let c = fold push [0..<32] c;
          c = mov_in 31 (EIND c) c;
          c = push 31 c;
          c = mov_in 31 (SREG c) c
      in push 31 c)"

definition RESTORECTX :: "cpu \<Rightarrow> cpu" where
  "RESTORECTX c =
     (let c = pop 31 c;
          c = c\<lparr>SREG := reg c 31\<rparr>;
          c = pop 31 c;
          c = c\<lparr>EIND := reg c 31\<rparr>
      in fold pop (rev [0..<32]) c)"

text \<open>Copying the stack pointer to and from a variable, through \<open>r30\<close> and \<open>r31\<close>.\<close>

definition bytes16 :: "u8 \<Rightarrow> u8 \<Rightarrow> u16" where
  "bytes16 lo hi = ucast lo OR push_bit 8 (ucast hi)"

definition read_SP :: "cpu \<Rightarrow> cpu" where
  "read_SP c = mov_in 31 (ucast (drop_bit 8 (SP c))) (mov_in 30 (ucast (SP c)) c)"

definition read_var :: "u16 \<Rightarrow> cpu \<Rightarrow> cpu" where
  "read_var v c = mov_in 31 (ucast (drop_bit 8 v)) (mov_in 30 (ucast v) c)"

definition r30_31 :: "cpu \<Rightarrow> u16" where
  "r30_31 c = bytes16 (reg c 30) (reg c 31)"

definition CSwitch :: "cpu \<Rightarrow> cpu" where
  "CSwitch c =
     (let c = SAVECTX c;
          c = read_SP c;
          c = c\<lparr>var_KernelSp := r30_31 c\<rparr>;
          c = read_var (var_CurrentSp c) c;
          c = c\<lparr>SP := r30_31 c\<rparr>;
          c = RESTORECTX c
      in reti c)"

definition Enter_Kernel_asm :: "cpu \<Rightarrow> cpu" where
  "Enter_Kernel_asm c =
     (let c = SAVECTX c;
          c = read_SP c;
          c = c\<lparr>var_CurrentSp := r30_31 c\<rparr>;
          c = read_var (var_KernelSp c) c;
          c = c\<lparr>SP := r30_31 c\<rparr>;
          c = RESTORECTX c
      in ret c)"

section \<open>Saving and restoring\<close>

lemma bytes16_split: "bytes16 (ucast v) (ucast (drop_bit 8 v)) = v"
  unfolding bytes16_def by (rule bit_word_eqI) (auto simp: bit_simps)

lemma read_SP_value [simp]: "r30_31 (read_SP c) = SP c" "r30_31 (read_var v c) = v"
  by (simp_all add: r30_31_def read_SP_def read_var_def mov_in_def bytes16_split)

lemma pushes:
  "n \<le> 65536 \<Longrightarrow> \<exists>m. fold push [0..<n] c = c\<lparr>dmem := m, SP := SP c - of_nat n\<rparr> \<and>
     (\<forall>i < n. m (SP c - of_nat i) = reg c i) \<and> (\<forall>a. (\<forall>i < n. a \<noteq> SP c - of_nat i) \<longrightarrow> m a = dmem c a)"
proof (induction n)
  case 0
  show ?case by (intro exI[of _ "dmem c"]) simp
next
  case (Suc n)
  then obtain m where m: "fold push [0..<n] c = c\<lparr>dmem := m, SP := SP c - of_nat n\<rparr>"
    "\<forall>i < n. m (SP c - of_nat i) = reg c i" "\<forall>a. (\<forall>i < n. a \<noteq> SP c - of_nat i) \<longrightarrow> m a = dmem c a" by auto
  have ne: "SP c - of_nat i \<noteq> SP c - of_nat n" if "i < n" for i
    using that Suc.prems by (auto simp: of_nat_eq_iff word_of_nat_eq_iff take_bit_eq_mod)
  let ?m = "m(SP c - of_nat n := reg c n)"
  have sp: "SP c - of_nat n - 1 = SP c - of_nat (Suc n)" by simp
  have "fold push [0..<Suc n] c = push n (c\<lparr>dmem := m, SP := SP c - of_nat n\<rparr>)" by (simp add: m(1))
  also have "\<dots> = c\<lparr>dmem := ?m, SP := SP c - of_nat (Suc n)\<rparr>" unfolding sp[symmetric] by (simp add: push_def push_u8_def)
  finally have eq: "fold push [0..<Suc n] c = c\<lparr>dmem := ?m, SP := SP c - of_nat (Suc n)\<rparr>" .
  have "\<forall>i < Suc n. ?m (SP c - of_nat i) = reg c i" using m(2) ne by (auto simp: less_Suc_eq)
  moreover have "\<forall>a. (\<forall>i < Suc n. a \<noteq> SP c - of_nat i) \<longrightarrow> ?m a = dmem c a" using m(3) by auto
  ultimately show ?case using eq by blast
qed

lemma pops:
  "\<exists>f. fold pop (rev [0..<n]) c = c\<lparr>SP := SP c + of_nat n, reg := f\<rparr> \<and>
     (\<forall>r. f r = (if r < n then dmem c (SP c + of_nat (n - r)) else reg c r))"
proof (induction n arbitrary: c)
  case 0
  show ?case by (intro exI[of _ "reg c"]) simp
next
  case (Suc n)
  from Suc[of "pop n c"] obtain f where f: "fold pop (rev [0..<n]) (pop n c) = (pop n c)\<lparr>SP := SP (pop n c) + of_nat n, reg := f\<rparr>"
    "\<forall>r. f r = (if r < n then dmem (pop n c) (SP (pop n c) + of_nat (n - r)) else reg (pop n c) r)" by blast
  have c: "SP (pop n c) = SP c + 1" "reg (pop n c) = (reg c)(n := dmem c (SP c + 1))" "dmem (pop n c) = dmem c"
    by (simp_all add: pop_def)
  have sp: "SP c + 1 + of_nat k = SP c + of_nat (Suc k)" for k by simp
  have "fold pop (rev [0..<Suc n]) c = fold pop (rev [0..<n]) (pop n c)" by simp
  also have "\<dots> = c\<lparr>SP := SP c + of_nat (Suc n), reg := f\<rparr>"
    unfolding f(1) c(1) sp by (simp add: pop_def)
  finally have eq: "fold pop (rev [0..<Suc n]) c = c\<lparr>SP := SP c + of_nat (Suc n), reg := f\<rparr>" .
  have "f r = (if r < Suc n then dmem c (SP c + of_nat (Suc n - r)) else reg c r)" for r
  proof -
    have "n < r \<or> r = n \<or> r < n \<and> Suc n - r = Suc (n - r)" by auto
    then show ?thesis using f(2)[rule_format, of r] unfolding c sp by (auto simp: algebra_simps)
  qed
  with eq show ?case by blast
qed

lemma SAVECTX_ok:
  "\<exists>m. SAVECTX c = c\<lparr>reg := (reg c)(31 := SREG c), dmem := m, SP := SP c - 34\<rparr> \<and>
     (\<forall>r < 32. m (SP c - of_nat r) = reg c r) \<and> m (SP c - 32) = EIND c \<and> m (SP c - 33) = SREG c \<and>
     (\<forall>a. 34 \<le> SP c - a \<longrightarrow> m a = dmem c a)"
proof -
  obtain m where m: "fold push [0..<32] c = c\<lparr>dmem := m, SP := SP c - of_nat 32\<rparr>"
    "\<forall>i < 32. m (SP c - of_nat i) = reg c i" "\<forall>a. (\<forall>i < 32. a \<noteq> SP c - of_nat i) \<longrightarrow> m a = dmem c a"
    using pushes[of 32 c] by auto
  let ?m = "m(SP c - 32 := EIND c, SP c - 33 := SREG c)"
  have low: "SP c - of_nat r \<noteq> SP c - 32" "SP c - of_nat r \<noteq> SP c - 33" if "r < 32" for r
    using that by (auto simp: unat_of_nat dest!: arg_cong[of _ _ unat])
  have "SAVECTX c = c\<lparr>reg := (reg c)(31 := SREG c), dmem := ?m, SP := SP c - 34\<rparr>"
    unfolding SAVECTX_def m(1) Let_def by (simp add: mov_in_def push_def push_u8_def)
  moreover have "?m a = dmem c a" if "34 \<le> SP c - a" for a
  proof -
    have "a \<noteq> SP c - of_nat i" if "i < 34" for i
      using \<open>34 \<le> SP c - a\<close> that by (auto simp: word_le_nat_alt unat_of_nat)
    from this[of 32] this[of 33] this m(3) show ?thesis by auto
  qed
  ultimately show ?thesis using m(2) low by (intro exI[of _ ?m]) auto
qed

lemma RESTORECTX_ok:
  "\<exists>f. RESTORECTX c = c\<lparr>SREG := dmem c (SP c + 1), EIND := dmem c (SP c + 2), SP := SP c + 34, reg := f\<rparr> \<and>
     (\<forall>r < 32. f r = dmem c (SP c + 34 - of_nat r)) \<and> (\<forall>r \<ge> 32. f r = reg c r)"
proof -
  let ?c = "c\<lparr>SREG := dmem c (SP c + 1), EIND := dmem c (SP c + 2), SP := SP c + 2, reg := (reg c)(31 := dmem c (SP c + 2))\<rparr>"
  obtain f where f: "fold pop (rev [0..<32]) ?c = ?c\<lparr>SP := SP ?c + of_nat 32, reg := f\<rparr>"
    "\<forall>r. f r = (if r < 32 then dmem ?c (SP ?c + of_nat (32 - r)) else reg ?c r)"
    using pops[of 32 ?c] by blast
  have "RESTORECTX c = fold pop (rev [0..<32]) ?c" 
    unfolding RESTORECTX_def Let_def
    by (rule arg_cong[of _ _ "fold pop (rev [0..<32])"], rule cpu.equality) (simp_all add: pop_def add.commute)
  then have "RESTORECTX c = c\<lparr>SREG := dmem c (SP c + 1), EIND := dmem c (SP c + 2), SP := SP c + 34, reg := f\<rparr>"
    unfolding f(1) by simp
  moreover have "f r = dmem c (SP c + 34 - of_nat r)" if "r < 32" for r
    using f(2) that by (simp add: of_nat_diff algebra_simps)
  moreover have "f r = reg c r" if "32 \<le> r" for r using f(2) that by simp
  ultimately show ?thesis by blast
qed

lemma RESTORECTX_simps [simp]:
  "dmem (RESTORECTX c) = dmem c" "var_KernelSp (RESTORECTX c) = var_KernelSp c" "var_CurrentSp (RESTORECTX c) = var_CurrentSp c"
  "SREG (RESTORECTX c) = dmem c (SP c + 1)" "EIND (RESTORECTX c) = dmem c (SP c + 2)" "SP (RESTORECTX c) = SP c + 34"
  "r < 32 \<Longrightarrow> reg (RESTORECTX c) r = dmem c (SP c + 34 - of_nat r)"
  using RESTORECTX_ok[of c] by auto

section \<open>The two switches\<close>

lemmas asm_simps = read_SP_def read_var_def mov_in_def r30_31_def bytes16_split

lemma Enter_Kernel_ok:
  fixes c :: cpu
  defines "k \<equiv> Enter_Kernel_asm c"
  shows "var_CurrentSp k = SP c - 34 \<and> (\<forall>r < 32. dmem k (SP c - of_nat r) = reg c r) \<and> dmem k (SP c - 32) = EIND c \<and>
    dmem k (SP c - 33) = SREG c \<and> (\<forall>a. 34 \<le> SP c - a \<longrightarrow> dmem k a = dmem c a)"
proof -
  obtain m where m: "SAVECTX c = c\<lparr>reg := (reg c)(31 := SREG c), dmem := m, SP := SP c - 34\<rparr>"
     "(\<forall>r < 32. m (SP c - of_nat r) = reg c r) \<and> m (SP c - 32) = EIND c \<and> m (SP c - 33) = SREG c \<and>
      (\<forall>a. 34 \<le> SP c - a \<longrightarrow> m a = dmem c a)" using SAVECTX_ok[of c] by blast
  have "dmem k = m" "var_CurrentSp k = SP c - 34"
    unfolding k_def Enter_Kernel_asm_def Let_def by (simp_all add: m(1) ret_def asm_simps)
  with m(2) show ?thesis by simp
qed

lemma CSwitch_ok:
  fixes k :: cpu
  defines "t \<equiv> CSwitch k" and "T \<equiv> var_CurrentSp k"
  shows "SREG t = dmem t (T + 1) OR 0x80 \<and> EIND t = dmem t (T + 2) \<and> (\<forall>r < 32. reg t r = dmem t (T + 34 - of_nat r)) \<and>
    PC t = (dmem t (T + 35), dmem t (T + 36), dmem t (T + 37)) \<and> SP t = T + 37 \<and> var_KernelSp t = SP k - 34 \<and>
    (\<forall>a. 34 \<le> SP k - a \<longrightarrow> dmem t a = dmem k a)"
proof -
  obtain m where m: "SAVECTX k = k\<lparr>reg := (reg k)(31 := SREG k), dmem := m, SP := SP k - 34\<rparr>"
     "\<forall>a. 34 \<le> SP k - a \<longrightarrow> m a = dmem k a" using SAVECTX_ok[of k] by blast
  define x where "x = read_var T (read_SP (SAVECTX k)\<lparr>var_KernelSp := SP k - 34\<rparr>)\<lparr>SP := T\<rparr>"
  have "t = reti (RESTORECTX x)"
    unfolding t_def T_def CSwitch_def Let_def x_def by (simp add: m(1) asm_simps)
  moreover have "dmem x = m" "SP x = T" "var_KernelSp x = SP k - 34" by (simp_all add: x_def m(1) asm_simps)
  ultimately show ?thesis using m(2) by (simp add: reti_def ret_def algebra_simps)
qed

lemma call_ok:
  "SP (call_from (hi, mid, lo) c) = SP c - 3" "reg (call_from (hi, mid, lo) c) = reg c"
  "SREG (call_from (hi, mid, lo) c) = SREG c" "EIND (call_from (hi, mid, lo) c) = EIND c"
  "dmem (call_from (hi, mid, lo) c) (SP c) = lo" "dmem (call_from (hi, mid, lo) c) (SP c - 1) = mid"
  "dmem (call_from (hi, mid, lo) c) (SP c - 2) = hi"
  by (simp_all add: call_from_def push_u8_def)

text \<open>C5: A task whose context is switched out by \<open>Enter_Kernel\<close> continues unharmed: when the kernel later
  switches to the saved stack pointer and the 37 bytes of the task's stack that hold its context
  were not written to, neither by the others nor by the kernel's own context, then all 32
  registers, \<open>EIND\<close>, the status register (with interrupts enabled) and the stack pointer are those
  before the call, and the program goes on behind it.\<close>

theorem context_switch_restores:
  assumes "saved = Enter_Kernel_asm (call_from ra c)" "var_CurrentSp k = var_CurrentSp saved"
    and "\<forall>a. SP c - a < 37 \<longrightarrow> dmem k a = dmem saved a \<and> 34 \<le> SP k - a"
  shows "let t = CSwitch k in (\<forall>r < 32. reg t r = reg c r) \<and> EIND t = EIND c \<and> SREG t = SREG c OR 0x80 \<and>
    SP t = SP c \<and> PC t = ra"
proof -
  obtain hi mid lo where ra: "ra = (hi, mid, lo)" by (cases ra)
  note C = call_ok[of hi mid lo c, folded ra]
  note E = Enter_Kernel_ok[of "call_from ra c", folded assms(1)]
  note K = CSwitch_ok[of k]
  have T: "var_CurrentSp k = SP c - 37" using E assms(2) C(1) by simp
  have keep: "dmem (CSwitch k) (SP c - of_nat i) = dmem saved (SP c - of_nat i)" if "i < 37" for i
    using K assms(3)[rule_format, of "SP c - of_nat i"] that by (simp add: word_less_nat_alt unat_of_nat)
  have up: "dmem saved (SP c - of_nat i) = dmem (call_from ra c) (SP c - of_nat i)" if "i < 3" for i
  proof -
    have "i = 0 \<or> i = 1 \<or> i = 2" using that by auto
    moreover have "(34 :: u16) \<le> - 3" "(34 :: u16) \<le> - 2" by (simp_all add: word_le_nat_alt)
    moreover have "(34 :: u16) \<le> - 1" by (rule word_n1_ge)
    ultimately have "(34 :: u16) \<le> of_nat i - 3" by auto
    also have "of_nat i - 3 = SP (call_from ra c) - (SP c - of_nat i)" using C(1) by simp
    finally show ?thesis using E by blast
  qed
  have PC: "PC (CSwitch k) = ra"
    using K keep[of 0] keep[of 1] keep[of 2] up[of 0] up[of 1] up[of 2] C(5-7) by (simp add: T ra)
  have "reg (CSwitch k) r = reg c r" if "r < 32" for r
    using K E that keep[of "r + 3"] C(1,2) by (simp add: T algebra_simps)
  moreover have "EIND (CSwitch k) = EIND c" "SREG (CSwitch k) = SREG c OR 0x80"
    using K E keep[of 35] keep[of 36] C(1,3,4) by (simp_all add: T)
  ultimately show ?thesis using PC K by (simp add: Let_def T)
qed

theorem context_switch_restores_witness:
  "\<exists>c k0 k. k0 = Enter_Kernel_asm (call_from (0, 0x12, 0x34) c) \<and> SP c = 2000 \<and> reg c 5 = 55 \<and>
     SP (CSwitch k) = 2000 \<and> reg (CSwitch k) 5 = 55 \<and> PC (CSwitch k) = (0, 0x12, 0x34)"
proof -
  let ?c = "\<lparr>reg = (\<lambda>r. if r = 5 then 55 else 0), SREG = 0, EIND = 0, SP = 2000, PC = (0, 0, 0), dmem = (\<lambda>_. 0),
      var_KernelSp = 4000, var_CurrentSp = 0\<rparr>"
  let ?e = "Enter_Kernel_asm (call_from (0, 0x12, 0x34) ?c)"
  let ?k = "?e\<lparr>SP := 5000\<rparr>"
  have "34 \<le> 5000 - a" if "2000 - a < 37" for a :: u16
  proof -
    have "34 \<le> 3000 + x" if "x < 37" for x :: u16
      using that by (simp add: unat_plus_if' word_less_nat_alt word_le_nat_alt)
    from this[OF that] show ?thesis by simp
  qed
  then have "\<forall>a. SP ?c - a < 37 \<longrightarrow> dmem ?k a = dmem ?e a \<and> 34 \<le> SP ?k - a" by simp
  from context_switch_restores[where saved = ?e and ra = "(0, 0x12, 0x34)" and c = ?c and k = ?k, OF refl _ this] show ?thesis
    by (intro exI[of _ ?c] exI[of _ ?e] exI[of _ ?k]) (simp add: Let_def)
qed

section \<open>The first switch to a task\<close>

text \<open>A block of bytes in the data memory; it does not wrap around.\<close>

definition block_at :: "(addr \<Rightarrow> u8) \<Rightarrow> addr \<Rightarrow> u8 list \<Rightarrow> bool" where
  "block_at m a b \<longleftrightarrow> unat a + length b \<le> 65536 \<and> (\<forall>j < length b. m (a + of_nat j) = b ! j)"

text \<open>The three bytes of a code address below 64K.\<close>

definition pc_bytes :: "u16 \<Rightarrow> u8 \<times> u8 \<times> u8" where
  "pc_bytes f = (0, ucast (drop_bit 8 f), ucast f)"

lemma init_frame_bytes: "init_frame term f = [0, ucast (drop_bit 8 f), ucast f, 0, ucast (drop_bit 8 term), ucast term]"
proof -
  have "ucast (x AND 0xFF) = (ucast x :: u8)" for x :: u16
  proof -
    have m: "(0xFF :: u16) = mask 8" by (simp add: mask_eq_exp_minus_1)
    show ?thesis unfolding m by (intro bit_word_eqI) (auto simp: bit_simps)
  qed
  then show ?thesis by (simp add: init_frame_def)
qed


lemma block_at_nth: "block_at m a b \<Longrightarrow> j < length b \<Longrightarrow> i = of_nat j \<Longrightarrow> m (a + i) = b ! j"
  by (simp add: block_at_def)

text \<open>C6: A new task starts in its function: the first switch to a task whose stack was prepared by
  \<^const>\<open>Kernel_Init_Task_Stack\<close> clears all registers, among them \<open>r1\<close>, which the compiler expects to be
  zero, jumps to the function of the task with interrupts enabled, and when this function returns
  the processor goes to \<open>Task_Terminate\<close> with an empty stack.\<close>

theorem new_task_starts_in_its_function:
  assumes "Kernel_Init_Task_Stack term f (h(stk \<mapsto> replicate n 0), (stk, int n - 1)) = Some (h', (stk, i))" "stk \<noteq> NULL" "41 \<le> n"
    and "h' stk = Some b" "block_at (dmem k) base b" "var_CurrentSp k = base + of_int i"
    and "\<forall>j < n. 34 \<le> SP k - (base + of_nat j)"
  shows "let t = CSwitch k in (\<forall>r < 32. reg t r = 0) \<and> SREG t = 0x80 \<and> PC t = pc_bytes f \<and>
    PC (ret t) = pc_bytes term \<and> SP (ret t) = base + of_nat (n - 1)"
proof -
  let ?c = "replicate (n - 6) 0 :: u8 list"
  have n: "replicate n 0 = ?c @ replicate 6 (0 :: u8)" using assms(3) by (simp add: replicate_add[symmetric])
  have "Kernel_Init_Task_Stack term f (h(stk \<mapsto> ?c @ replicate 6 0), (stk, int (length (?c @ replicate 6 0)) - 1)) =
      Some (h(stk \<mapsto> ?c @ replicate 6 0, stk \<mapsto> ?c @ init_frame term f), (stk, int (length ?c) - 35))"
    by (rule init_stack_ok[OF assms(2)]) (use assms(3) in simp_all)
  then have i: "h' = h(stk \<mapsto> ?c @ init_frame term f)" "i = int n - 41" using assms(1,3) unfolding n[symmetric] by auto
  have b: "b = ?c @ init_frame term f" "length b = n" using assms(3,4) i(1) by (auto simp: init_frame_bytes)
  have T: "var_CurrentSp k = base + of_nat (n - 41)" using assms(3,6) i(2) by (simp add: of_nat_diff)
  have B: "dmem (CSwitch k) (var_CurrentSp k + w) = b ! (n - 41 + j)" if "w = of_nat j" "j < 41" for w j
  proof -
    have "n - 41 + j < n" using that(2) assms(3) by simp
    with CSwitch_ok[of k] assms(7) have "dmem (CSwitch k) (base + of_nat (n - 41 + j)) = dmem k (base + of_nat (n - 41 + j))" by blast
    with block_at_nth[OF assms(5) _ refl, of "n - 41 + j"] \<open>n - 41 + j < n\<close> b(2) show ?thesis by (simp add: T that(1) add.assoc)
  qed
  have zero: "b ! (n - 41 + j) = 0" if "j < 35" for j using that assms(3) by (simp add: b(1) nth_append init_frame_bytes)
  have fr: "b ! (n - 41 + (35 + j)) = init_frame term f ! j" if "j < 6" for j
  proof -
    have "\<not> n - 41 + (35 + j) < n - 6" "n - 41 + (35 + j) - (n - 6) = j" using assms(3) by auto
    then show ?thesis by (simp only: b(1) nth_append length_replicate if_False)
  qed
  note K = CSwitch_ok[of k]
  have "reg (CSwitch k) r = 0" if "r < 32" for r
    using K that B[of "34 - of_nat r" "34 - r"] zero[of "34 - r"] by (simp add: of_nat_diff add_diff_eq)
  moreover have "SREG (CSwitch k) = 0x80" using K B[of 1 1] zero[of 1] by simp
  moreover have "PC (CSwitch k) = pc_bytes f"
    using K B[of 35 35] B[of 36 36] B[of 37 37] fr[of 0] fr[of 1] fr[of 2] by (simp add: init_frame_bytes pc_bytes_def)
  moreover have "PC (ret (CSwitch k)) = pc_bytes term"
    using K B[of 38 38] B[of 39 39] B[of 40 40] fr[of 3] fr[of 4] fr[of 5] by (simp add: init_frame_bytes pc_bytes_def ret_def add.assoc)
  moreover have "SP (ret (CSwitch k)) = base + of_nat (n - 1)" using K assms(3) by (simp add: ret_def T of_nat_diff)
  ultimately show ?thesis by (simp add: Let_def)
qed

theorem new_task_starts_in_its_function_witness:
  "\<exists>k. (\<forall>r < 32. reg (CSwitch k) r = 0) \<and> PC (CSwitch k) = (0, 0x02, 0x34) \<and> PC (ret (CSwitch k)) = (0, 0x01, 0x56)"
proof -
  let ?b = "replicate 35 0 @ init_frame 0x156 0x234"
  let ?k = "\<lparr>reg = (\<lambda>r. 7), SREG = 0, EIND = 0, SP = 5000, PC = (0, 0, 0), dmem = (\<lambda>a. ?b ! unat (a - 1000)),
      var_KernelSp = 4000, var_CurrentSp = 1000\<rparr>"
  have "Kernel_Init_Task_Stack 0x156 0x234 (Map.empty(1 \<mapsto> replicate 35 0 @ replicate 6 0), (1, int (length (replicate 35 (0 :: u8) @ replicate 6 0)) - 1)) =
      Some (Map.empty(1 \<mapsto> replicate 35 0 @ replicate 6 0, 1 \<mapsto> ?b), (1, int (length (replicate 35 (0 :: u8))) - 35))"
    by (rule init_stack_ok) simp_all
  then have i: "Kernel_Init_Task_Stack 0x156 0x234 (Map.empty(1 \<mapsto> replicate 41 0), (1, int 41 - 1)) = Some (Map.empty(1 \<mapsto> ?b), (1, 0))"
    unfolding replicate_add[symmetric] by simp
  have bk: "block_at (dmem ?k) 1000 ?b" by (simp add: block_at_def init_frame_bytes unat_of_nat)
  have "34 \<le> SP ?k - (1000 + of_nat j)" if "j < 41" for j
    using that by (simp add: word_le_nat_alt unat_sub_if' unat_of_nat)
  then have sp: "\<forall>j < 41. 34 \<le> SP ?k - (1000 + of_nat j)" by blast
  from new_task_starts_in_its_function[OF i _ _ _ bk _ sp] show ?thesis
    by (intro exI[of _ ?k]) (simp add: Let_def pc_bytes_def)
qed

end
