(* ===== verification/Hardware.thy ===== *)
theory Hardware
  imports Scheduler
begin

text \<open>
  The timer of \<open>hardware/hw.c\<close>: the registers that \<open>Timer_init\<close> sets up and the interrupt that enters the
  kernel. The positions of the bits in the registers come from the processor's header and are a
  parameter; \<open>documented\<close> states the positions of the data sheet.
\<close>

record timer_bits =
  CS10 :: nat
  CS11 :: nat
  CS12 :: nat
  WGM10 :: nat
  WGM11 :: nat
  WGM12 :: nat
  WGM13 :: nat
  OCIE1A :: nat

record timer_regs =
  TCCR1B :: u8
  OCR1A :: u16
  TCNT1 :: u16
  TIMSK1 :: u8

definition TICK_LENG :: u16 where
  "TICK_LENG = 625"

definition Timer_init :: "timer_bits \<Rightarrow> timer_regs \<Rightarrow> timer_regs" where
  "Timer_init b r =
     (let r = r\<lparr>TCCR1B := TCCR1B r OR push_bit (CS12 b) 1\<rparr>;
          r = r\<lparr>TCCR1B := TCCR1B r AND NOT (push_bit (CS11 b) 1 OR push_bit (CS10 b) 1)\<rparr>;
          r = r\<lparr>TCCR1B := TCCR1B r OR push_bit (WGM12 b) 1\<rparr>;
          r = r\<lparr>TCCR1B := TCCR1B r AND NOT (push_bit (WGM13 b) 1 OR push_bit (WGM11 b) 1 OR push_bit (WGM10 b) 1)\<rparr>;
          r = r\<lparr>OCR1A := TICK_LENG\<rparr>;
          r = r\<lparr>TCNT1 := 0\<rparr>
      in r\<lparr>TIMSK1 := TIMSK1 r OR push_bit (OCIE1A b) 1\<rparr>)"

text \<open>The interrupt of the timer calls the tick routine of the kernel.\<close>

definition TIMER1_COMPA_vect :: "kstate \<Rightarrow> (bool \<times> kstate) option" where
  "TIMER1_COMPA_vect s = Kernel_Tick_ISR s"

definition documented :: "timer_bits \<Rightarrow> bool" where
  "documented b \<longleftrightarrow> CS10 b = 0 \<and> CS11 b = 1 \<and> CS12 b = 2 \<and> WGM10 b = 0 \<and> WGM11 b = 1 \<and> WGM12 b = 3 \<and> WGM13 b = 4 \<and> OCIE1A b = 1"

text \<open>The timer counts from 0 to \<open>OCR1A\<close>, one step in 256 cycles of the processor, in the mode that clears it
  at the comparison value.\<close>

definition tick_cycles :: "timer_regs \<Rightarrow> nat" where
  "tick_cycles r = (unat (OCR1A r) + 1) * 256"

text \<open>With the documented positions the prescaler is 256 (only \<open>CS12\<close> set) and the mode is the one that
  clears the counter, although two bits of another register are cleared here too. A tick takes 160256
  cycles, not the 160000 that are 10 ms at 16 MHz: the count is one step too long.\<close>

lemma Timer_init_sets_up:
  assumes "documented b"
  shows "bit (TCCR1B (Timer_init b r)) 2" "\<not> bit (TCCR1B (Timer_init b r)) 1" "\<not> bit (TCCR1B (Timer_init b r)) 0"
    "bit (TCCR1B (Timer_init b r)) 3" "\<not> bit (TCCR1B (Timer_init b r)) 4"
    "n \<in> {5, 6, 7} \<Longrightarrow> bit (TCCR1B (Timer_init b r)) n = bit (TCCR1B r) n"
    "bit (TIMSK1 (Timer_init b r)) 1" "TCNT1 (Timer_init b r) = 0"
    "tick_cycles (Timer_init b r) = 160256"
  using assms by (auto simp: Timer_init_def documented_def tick_cycles_def TICK_LENG_def bit_simps Let_def)

end
