(* ===== verification/Serial.thy ===== *)
theory Serial
  imports OS_API Hardware
begin

text \<open>
  The serial line of \<open>hardware/uart/uart.c\<close> to which \<open>stdio_init\<close> of \<open>hardware/hw.c\<close> redirects the
  standard streams, and the two functions of \<open>kernel.c\<close> that print the process table over it.

  The positions of the bits in the registers and the values that \<open>util/setbaud.h\<close> computes for the baud
  rate are parameters. The status register is volatile: the device decides what its successive reads
  show, and likewise what bytes the reads of the data register return. Both are lists in the state;
  \<open>None\<close> from a waiting loop means that it still waits when the readings end. A character of C is a
  \<open>char\<close> of 8 bits.
\<close>

section \<open>The device\<close>

record uart_bits =
  U2X0 :: nat
  UCSZ00 :: nat
  UCSZ01 :: nat
  TXEN0 :: nat
  RXEN0 :: nat
  UDRE0 :: nat
  RXC0 :: nat

record setbaud =
  UBRRH_VALUE :: u8
  UBRRL_VALUE :: u8
  USE_2X :: bool

datatype FILE = uart_output | uart_input

text \<open>\<open>UCSR0A_reads\<close> and \<open>UDR0_reads\<close> are what the next reads return, \<open>UDR0_writes\<close> what has been sent.
  The streams are null before they are redirected.\<close>

record serial =
  UBRR0H :: u8
  UBRR0L :: u8
  UCSR0A :: u8
  UCSR0B :: u8
  UCSR0C :: u8
  UCSR0A_reads :: "u8 list"
  UDR0_reads :: string
  UDR0_writes :: string
  stdout :: "FILE option"
  stderr :: "FILE option"
  stdin :: "FILE option"

definition uart_init :: "uart_bits \<Rightarrow> setbaud \<Rightarrow> serial \<Rightarrow> serial" where
  "uart_init b v u =
     (let u = u\<lparr>UBRR0H := UBRRH_VALUE v\<rparr>;
          u = u\<lparr>UBRR0L := UBRRL_VALUE v\<rparr>;
          u = (if USE_2X v then u\<lparr>UCSR0A := UCSR0A u OR push_bit (U2X0 b) 1\<rparr>
               else u\<lparr>UCSR0A := UCSR0A u AND NOT (push_bit (U2X0 b) 1)\<rparr>);
          u = u\<lparr>UCSR0C := push_bit (UCSZ01 b) 1 OR push_bit (UCSZ00 b) 1\<rparr>
      in u\<lparr>UCSR0B := push_bit (RXEN0 b) 1 OR push_bit (TXEN0 b) 1\<rparr>)"

primrec loop_until_bit_is_set :: "nat \<Rightarrow> u8 list \<Rightarrow> u8 list option" where
  "loop_until_bit_is_set n [] = None"
| "loop_until_bit_is_set n (r # rs) = (if bit r n then Some rs else loop_until_bit_is_set n rs)"

abbreviation newline :: char where "newline \<equiv> CHR 0x0A"
abbreviation carriage_return :: char where "carriage_return \<equiv> CHR 0x0D"

function uart_putchar :: "uart_bits \<Rightarrow> char \<Rightarrow> serial \<Rightarrow> serial option" where
  "uart_putchar b c u = do {
     u \<leftarrow> (if c = newline then uart_putchar b carriage_return u else Some u);
     rs \<leftarrow> loop_until_bit_is_set (UDRE0 b) (UCSR0A_reads u);
     Some (u\<lparr>UCSR0A_reads := rs, UDR0_writes := UDR0_writes u @ [c]\<rparr>)
   }"
  by pat_completeness auto
termination by (relation "measure (\<lambda>(b, c, u). if c = newline then 1 else 0)") simp_all

declare uart_putchar.simps [simp del]

definition uart_getchar :: "uart_bits \<Rightarrow> serial \<Rightarrow> (char \<times> serial) option" where
  "uart_getchar b u = do {
     rs \<leftarrow> loop_until_bit_is_set (RXC0 b) (UCSR0A_reads u);
     (case UDR0_reads u of [] \<Rightarrow> None
      | c # cs \<Rightarrow> Some (c, u\<lparr>UCSR0A_reads := rs, UDR0_reads := cs\<rparr>))
   }"

definition uart_setredir :: "serial \<Rightarrow> serial" where
  "uart_setredir u = u\<lparr>stdout := Some uart_output, stderr := Some uart_output, stdin := Some uart_input\<rparr>"

section \<open>Printing\<close>

text \<open>\<open>printf\<close> writes its text character by character to the function of \<open>stdout\<close>; a stream that was not
  set up is a null pointer, and a stream that is not open for writing refuses the character.\<close>

definition putc_stdout :: "uart_bits \<Rightarrow> char \<Rightarrow> serial \<Rightarrow> serial option" where
  "putc_stdout b c u = (case stdout u of None \<Rightarrow> None | Some uart_output \<Rightarrow> uart_putchar b c u
     | Some uart_input \<Rightarrow> Some u)"

primrec print_text :: "uart_bits \<Rightarrow> string \<Rightarrow> serial \<Rightarrow> serial option" where
  "print_text b [] u = Some u"
| "print_text b (c # cs) u = do { u \<leftarrow> putc_stdout b c u; print_text b cs u }"

text \<open>The conversion \<open>%d\<close> of \<open>printf\<close>: the decimal digits of an \<open>int\<close>. The other characters of the format
  are copied. A conversion without an argument is undefined.\<close>

fun show_nat :: "nat \<Rightarrow> string" where
  "show_nat n = (if n < 10 then [char_of (48 + n)] else show_nat (n div 10) @ [char_of (48 + n mod 10)])"

declare show_nat.simps [simp del]

definition show_int :: "int \<Rightarrow> string" where
  "show_int i = (if i < 0 then CHR ''-'' # show_nat (nat (- i)) else show_nat (nat i))"

fun printf :: "string \<Rightarrow> int list \<Rightarrow> string option" where
  "printf [] is = Some []"
| "printf [c] is = Some [c]"
| "printf (c # d # cs) is =
     (if c = CHR ''%'' \<and> d = CHR ''d''
      then (case is of [] \<Rightarrow> None | i # is \<Rightarrow> map_option (append (show_int i)) (printf cs is))
      else map_option (Cons c) (printf (d # cs) is))"

definition stdio_init :: "uart_bits \<Rightarrow> setbaud \<Rightarrow> serial \<Rightarrow> serial option" where
  "stdio_init b v u = do {
     t \<leftarrow> printf (''STDOUT->UART!'' @ [newline]) [];
     print_text b t (uart_setredir (uart_init b v u))
   }"

section \<open>The process table\<close>

text \<open>The value of an enumeration constant, as \<open>%d\<close> prints it.\<close>

fun state_value :: "PROCESS_STATE \<Rightarrow> int" where
  "state_value DEAD = 0"
| "state_value READY = 1"
| "state_value RUNNING = 2"
| "state_value SLEEPING = 3"
| "state_value SUSPENDED = 4"
| "state_value WAIT_EVENT = 5"
| "state_value WAIT_EVENTG = 6"
| "state_value WAIT_MUTEX = 7"
| "state_value WAIT_SEMAPHORE = 8"
| "state_value WAIT_MAILBOX = 9"

abbreviation tab :: char where "tab \<equiv> CHR 0x09"

definition process_format :: string where
  "process_format = tab # ''PID: %d'' @ tab # '' State: %d'' @ tab # '' Priority: %d'' @ tab # '' Timeout: %d'' @ [newline]"

text \<open>The unsigned fields \<open>pid\<close> and \<open>request_timeout\<close> have the width of an \<open>int\<close>: \<open>%d\<close> shows their bits as a
  signed number.\<close>

definition process_fields :: "PD \<Rightarrow> int list" where
  "process_fields d = [sint (pid d), state_value (state d), uint (pri d), sint (request_timeout d)]"

definition process_line :: "PD \<Rightarrow> string option" where
  "process_line d = printf process_format (process_fields d)"

text \<open>The text that the functions print; they do not change the state.\<close>

partial_function (option) print_loop :: "PtrList heap \<Rightarrow> PD heap \<Rightarrow> addr \<Rightarrow> string option" where
  "print_loop h ph i =
     (if i = NULL then Some []
      else do {
        c \<leftarrow> rd h i;
        d \<leftarrow> rd ph (pl_ptr c);
        t \<leftarrow> (if state d \<noteq> DEAD then process_line d else Some []);
        ts \<leftarrow> print_loop h ph (pl_next c);
        Some (t @ ts)
      })"

definition print_processes :: "kstate \<Rightarrow> string option" where
  "print_processes s = do {
     t \<leftarrow> print_loop (nodes s) (pds s) ProcessList;
     e \<leftarrow> printf [newline] [];
     Some (t @ e)
   }"

definition print_process :: "u16 \<Rightarrow> kstate \<Rightarrow> string option" where
  "print_process p s = do {
     q \<leftarrow> findProcessByPID p s;
     d \<leftarrow> rd (pds s) q;
     t \<leftarrow> process_line d;
     e \<leftarrow> printf [newline] [];
     Some (t @ e)
   }"

section \<open>Decimal numbers are read back\<close>

text \<open>\<open>ints_of\<close> reads the numbers in a text: a number is a digit sequence, perhaps after a minus sign. The
  accumulator holds the sign and the value of the number that is being read.\<close>

definition digit_value :: "char \<Rightarrow> nat option" where
  "digit_value c = (let n = of_char c :: nat in if 48 \<le> n \<and> n \<le> 57 then Some (n - 48) else None)"

fun finish :: "(bool \<times> nat) option \<Rightarrow> int list" where
  "finish None = []"
| "finish (Some (neg, n)) = [if neg then - int n else int n]"

primrec ints_from :: "string \<Rightarrow> bool \<Rightarrow> (bool \<times> nat) option \<Rightarrow> int list" where
  "ints_from [] m acc = finish acc"
| "ints_from (c # cs) m acc = (case digit_value c of
     Some v \<Rightarrow> ints_from cs False (case acc of None \<Rightarrow> Some (m, v) | Some (neg, n) \<Rightarrow> Some (neg, 10 * n + v))
   | None \<Rightarrow> finish acc @ ints_from cs (c = CHR ''-'') None)"

definition ints_of :: "string \<Rightarrow> int list" where
  "ints_of t = ints_from t False None"

lemma digit_value_digit: "k < 10 \<Longrightarrow> digit_value (char_of (48 + k)) = Some k"
  by (simp add: digit_value_def Let_def)

lemma show_nat_induct [case_names digit more]:
  assumes "\<And>n. n < 10 \<Longrightarrow> P n" "\<And>n. 10 \<le> n \<Longrightarrow> P (n div 10) \<Longrightarrow> P n"
  shows "P (n :: nat)"
  by (induction n rule: less_induct) (metis assms div_less_dividend leI less_le_trans one_less_numeral_iff rel_simps(49) semiring_norm(76) zero_less_numeral)

lemma ints_from_show_nat:
  "ints_from (show_nat n @ t) m None = ints_from t False (Some (m, n))"
proof (induction n arbitrary: t rule: show_nat_induct)
  case (digit n)
  then show ?case by (subst show_nat.simps) (simp add: digit_value_digit)
next
  case (more n)
  then show ?case by (subst show_nat.simps) (simp add: digit_value_digit)
qed

lemma ints_from_show_int:
  assumes "digit_value c = None"
  shows "ints_from (show_int i @ c # t) m None = (if m \<and> i \<ge> 0 then - i else i) # ints_from t (c = CHR ''-'') None"
proof -
  have "digit_value CHR ''-'' = None" by (simp add: digit_value_def)
  then show ?thesis
    using assms by (auto simp: show_int_def ints_from_show_nat)
qed

lemma process_line_text:
  "process_line d = Some (tab # ''PID: '' @ show_int (sint (pid d)) @ tab # '' State: '' @ show_int (state_value (state d)) @
     tab # '' Priority: '' @ show_int (uint (pri d)) @ tab # '' Timeout: '' @ show_int (sint (request_timeout d)) @ [newline])"
  by (simp add: process_line_def process_format_def process_fields_def)

text \<open>A list of lines, one for each process that is not dead.\<close>

definition listing :: "PD list \<Rightarrow> string" where
  "listing ds = concat (map (the \<circ> process_line) (filter (\<lambda>d. state d \<noteq> DEAD) ds))"

lemma ints_from_line:
  "ints_from (the (process_line d) @ t) m None = process_fields d @ ints_from t False None"
  by (simp add: process_line_text process_fields_def ints_from_show_int digit_value_def Let_def)

lemma ints_of_listing:
  "ints_of (listing ds @ [newline]) = concat (map process_fields (filter (\<lambda>d. state d \<noteq> DEAD) ds))"
proof (induction ds)
  case Nil
  then show ?case by (simp add: ints_of_def listing_def digit_value_def)
next
  case (Cons d ds)
  then show ?case by (simp add: ints_of_def listing_def ints_from_line)
qed

section \<open>What the functions print\<close>

lemma print_loop_seg:
  "seg h i xs NULL \<Longrightarrow> \<forall>p \<in> snd ` set xs. p \<noteq> NULL \<and> p \<in> dom ph \<Longrightarrow>
   print_loop h ph i = Some (listing (map (\<lambda>x. the (ph (snd x))) xs))"
proof (induction xs arbitrary: i)
  case Nil
  then show ?case by (subst print_loop.simps) (simp add: listing_def)
next
  case (Cons x xs)
  then obtain c d where c: "i \<noteq> NULL" "h i = Some c" "pl_ptr c = snd x" "seg h (pl_next c) xs NULL"
    "ph (snd x) = Some d" "snd x \<noteq> NULL" by auto
  with Cons show ?case
    by (subst print_loop.simps) (simp add: rd_def listing_def process_line_text)
qed

definition processes :: "kstate \<Rightarrow> PD list" where
  "processes s = map (\<lambda>p. the (pds s p)) (procs s)"

lemma print_processes_text:
  assumes kwf: "kwf s" and ne: "procs s \<noteq> []"
  shows "print_processes s = Some (listing (processes s) @ [newline])"
proof -
  have "\<forall>p \<in> snd ` set (entries (nodes s) ProcessList). p \<noteq> NULL \<and> p \<in> dom (pds s)"
    using kwf_procs(1)[OF kwf ne] table_wf_obj[OF kwf_tables(1)[OF kwf]] contents_not_NULL
    by (metis list.set_map)
  from print_loop_seg[OF lists_wf_seg[OF kwf_lists[OF kwf] in_LISTS(1)] this]
  show ?thesis by (simp add: print_processes_def processes_def comp_def flip: kwf_procs(1)[OF kwf ne])
qed

lemma print_processes_no_process:
  assumes kwf: "kwf s" and e: "procs s = []"
  shows "print_processes s = None"
proof -
  have "entries (nodes s) ProcessList = [(ProcessList, NULL)]"
    using contents_Nil_iff(1)[OF kwf_lists[OF kwf]] e by simp
  with lists_wf_seg[OF kwf_lists[OF kwf], of ProcessList] show ?thesis
    by (subst print_processes_def, subst print_loop.simps) (auto simp: rd_def)
qed

text \<open>\<open>print_process\<close> does not test the result of the search: the pid must be that of a task.\<close>

lemma print_process_text:
  assumes kwf: "kwf s" and p: "p \<in> set (procs s)" "pds s p = Some d" and pos: "0 < sint (pid d)"
  shows "print_process (pid d) s = Some (the (process_line d) @ [newline])"
proof -
  have "findProcessByPID (pid d) s = Some p" using findProcess_iff[OF kwf p(1) _ pos] p(2) by simp
  moreover have "rd (pds s) p = Some d" using p(2) contents_not_NULL[OF p(1)] by (simp add: rd_def)
  moreover obtain l where "process_line d = Some l" by (simp add: process_line_text)
  ultimately show ?thesis by (simp add: print_process_def)
qed

lemma print_process_unknown:
  assumes kwf: "kwf s" and p: "p \<notin> set (task_ids s)"
  shows "print_process p s = None"
proof (cases "findProcessByPID p s")
  case (Some q)
  have "q = NULL"
  proof (rule ccontr)
    assume "q \<noteq> NULL"
    then obtain d where "q \<in> set (procs s)" "pds s q = Some d" "pid d = p"
      using findProcess_found[OF kwf Some] by blast
    then have "p \<in> set (task_ids s)" by (force simp: task_ids_def)
    with p show False ..
  qed
  with Some show ?thesis by (simp add: print_process_def)
qed (simp add: print_process_def)

section \<open>What is sent\<close>

text \<open>On the line every newline is preceded by a carriage return.\<close>

definition crlf :: "string \<Rightarrow> string" where
  "crlf t = concat (map (\<lambda>c. if c = newline then [carriage_return, newline] else [c]) t)"

lemma crlf_simps [simp]:
  "crlf [] = []" "crlf (c # t) = (if c = newline then [carriage_return, newline] else [c]) @ crlf t"
  "crlf (t @ t') = crlf t @ crlf t'"
  by (simp_all add: crlf_def)

text \<open>How many characters the device is going to accept.\<close>

definition ready_reads :: "nat \<Rightarrow> u8 list \<Rightarrow> nat" where
  "ready_reads n rs = length (filter (\<lambda>r. bit r n) rs)"

lemma loop_until_ready:
  "ready_reads n rs = Suc k \<Longrightarrow> \<exists>rs'. loop_until_bit_is_set n rs = Some rs' \<and> ready_reads n rs' = k"
  "ready_reads n rs = 0 \<Longrightarrow> loop_until_bit_is_set n rs = None"
  by (induction rs) (auto simp: ready_reads_def)

text \<open>Characters that go to the device one by one as they are.\<close>

primrec put_raw :: "uart_bits \<Rightarrow> string \<Rightarrow> serial \<Rightarrow> serial option" where
  "put_raw b [] u = Some u"
| "put_raw b (c # cs) u = do {
     rs \<leftarrow> loop_until_bit_is_set (UDRE0 b) (UCSR0A_reads u);
     put_raw b cs (u\<lparr>UCSR0A_reads := rs, UDR0_writes := UDR0_writes u @ [c]\<rparr>)
   }"

lemma put_raw_append: "put_raw b (cs @ cs') u = Option.bind (put_raw b cs u) (put_raw b cs')"
proof (induction cs arbitrary: u)
  case (Cons c cs)
  then show ?case by (cases "loop_until_bit_is_set (UDRE0 b) (UCSR0A_reads u)") auto
qed simp

lemma uart_putchar_raw: "uart_putchar b c u = put_raw b (crlf [c]) u"
proof -
  have raw: "put_raw b [d] u = do { rs \<leftarrow> loop_until_bit_is_set (UDRE0 b) (UCSR0A_reads u);
      Some (u\<lparr>UCSR0A_reads := rs, UDR0_writes := UDR0_writes u @ [d]\<rparr>) }" for d u
    by (cases "loop_until_bit_is_set (UDRE0 b) (UCSR0A_reads u)") simp_all
  have plain: "uart_putchar b d u = put_raw b [d] u" if "d \<noteq> newline" for d u
    using that by (subst uart_putchar.simps, unfold raw) simp
  show ?thesis
  proof (cases "c = newline")
    case True
    have "uart_putchar b newline u = Option.bind (put_raw b [carriage_return] u) (put_raw b [newline])"
      by (subst uart_putchar.simps, subst plain, simp) (cases "loop_until_bit_is_set (UDRE0 b) (UCSR0A_reads u)"; simp add: raw del: put_raw.simps)
    moreover have "crlf [c] = [carriage_return] @ [newline]" using True by simp
    ultimately show ?thesis using True by (simp only: put_raw_append)
  qed (simp add: plain)
qed

lemma put_raw_stdout: "put_raw b cs u = Some u' \<Longrightarrow> stdout u' = stdout u"
  by (induction cs arbitrary: u) (auto elim!: bind_SomeE)

lemma print_text_raw:
  "stdout u = Some uart_output \<Longrightarrow> print_text b t u = put_raw b (crlf t) u"
proof (induction t arbitrary: u)
  case (Cons c t)
  have "put_raw b (crlf (c # t)) u = Option.bind (put_raw b (crlf [c]) u) (put_raw b (crlf t))"
    using put_raw_append[of b "crlf [c]" "crlf t"] by simp
  with Cons put_raw_stdout[of b "crlf [c]" u] show ?case
    by (cases "put_raw b (crlf [c]) u") (simp_all add: putc_stdout_def uart_putchar_raw del: crlf_simps)
qed simp

lemma put_raw_ready:
  "length cs \<le> ready_reads (UDRE0 b) (UCSR0A_reads u) \<Longrightarrow>
    \<exists>rs. put_raw b cs u = Some (u\<lparr>UCSR0A_reads := rs, UDR0_writes := UDR0_writes u @ cs\<rparr>)"
proof (induction cs arbitrary: u)
  case Nil
  have "u = u\<lparr>UCSR0A_reads := UCSR0A_reads u, UDR0_writes := UDR0_writes u @ []\<rparr>" by simp
  then show ?case by (metis put_raw.simps(1))
next
  case (Cons c cs)
  then obtain k where "ready_reads (UDRE0 b) (UCSR0A_reads u) = Suc k" "length cs \<le> k"
    by (cases "ready_reads (UDRE0 b) (UCSR0A_reads u)") auto
  with loop_until_ready(1) obtain rs where
    "loop_until_bit_is_set (UDRE0 b) (UCSR0A_reads u) = Some rs" "length cs \<le> ready_reads (UDRE0 b) rs"
    by metis
  with Cons.IH[of "u\<lparr>UCSR0A_reads := rs, UDR0_writes := UDR0_writes u @ [c]\<rparr>"] show ?case by simp
qed

lemma put_raw_not_ready:
  "ready_reads (UDRE0 b) (UCSR0A_reads u) < length cs \<Longrightarrow> put_raw b cs u = None"
proof (induction cs arbitrary: u)
  case (Cons c cs)
  show ?case
  proof (cases "ready_reads (UDRE0 b) (UCSR0A_reads u)")
    case (Suc k)
    with loop_until_ready(1) obtain rs where
      "loop_until_bit_is_set (UDRE0 b) (UCSR0A_reads u) = Some rs" "ready_reads (UDRE0 b) rs = k" by metis
    with Cons Suc show ?thesis by simp
  qed (simp add: loop_until_ready(2))
qed simp

text \<open>Who reads the numbers on the line gets those of the text: a carriage return stands where a number has
  ended already.\<close>

lemma ints_of_crlf: "ints_of (crlf t) = ints_of t"
proof -
  have "digit_value carriage_return = None" "digit_value newline = None" by (simp_all add: digit_value_def)
  then have "ints_from (crlf t) m acc = ints_from t m acc" for m acc
    by (induction t arbitrary: m acc) (auto split: option.split)
  then show ?thesis by (simp add: ints_of_def)
qed

text \<open>C32: printing the process table over the serial line loses nothing. On a well-formed state with at least
  one task, \<open>print_processes\<close> yields a text; the serial line sends it, with a carriage return before each
  newline, exactly when its status register shows an empty data register as often as there are characters to
  send (otherwise it waits on); and the numbers that a reader finds in what was sent are, in the order of the
  process list, the pid, state, priority and timeout of every task that is not dead.\<close>

theorem process_table_over_serial:
  assumes "kwf s" and "procs s \<noteq> []" and "stdout u = Some uart_output"
  shows "\<exists>t. print_processes s = Some t \<and>
    ints_of (crlf t) = concat (map process_fields (filter (\<lambda>d. state d \<noteq> DEAD) (processes s))) \<and>
    (if length (crlf t) \<le> ready_reads (UDRE0 b) (UCSR0A_reads u)
     then \<exists>rs. print_text b t u = Some (u\<lparr>UCSR0A_reads := rs, UDR0_writes := UDR0_writes u @ crlf t\<rparr>)
     else print_text b t u = None)"
  using print_processes_text[OF assms(1,2)] put_raw_ready[of _ b u] put_raw_not_ready[of b u]
  by (auto simp del: crlf_simps simp: print_text_raw[OF assms(3)] ints_of_crlf ints_of_listing not_le)

definition ex_serial :: serial where
  "ex_serial = \<lparr>UBRR0H = 0, UBRR0L = 103, UCSR0A = 0x20, UCSR0B = 24, UCSR0C = 6,
     UCSR0A_reads = replicate 200 0x20, UDR0_reads = [], UDR0_writes = [],
     stdout = Some uart_output, stderr = Some uart_output, stdin = Some uart_input\<rparr>"

definition ex_uart :: uart_bits where
  "ex_uart = \<lparr>U2X0 = 1, UCSZ00 = 1, UCSZ01 = 2, TXEN0 = 3, RXEN0 = 4, UDRE0 = 5, RXC0 = 7\<rparr>"

definition ex_printed :: kstate where
  "ex_printed = ex_tasks (\<lambda>_. False) (\<lambda>_. 0) (ex_PD 2 7 SLEEPING (\<lambda>_. 0) 40000) (ex_PD 3 1 DEAD (\<lambda>_. 0) 0)"

lemma ex_printed_facts: "kwf ex_printed" "procs ex_printed = [20, 21, 22]"
  "processes ex_printed = [ex_PD 1 5 RUNNING (\<lambda>_. 0) 0, ex_PD 2 7 SLEEPING (\<lambda>_. 0) 40000, ex_PD 3 1 DEAD (\<lambda>_. 0) 0]"
proof -
  show "kwf ex_printed" unfolding ex_printed_def by (rule ex_tasks_kwf) (simp_all add: ex_PD_def)
  show p: "procs ex_printed = [20, 21, 22]" by (simp add: ex_printed_def ex_tasks_def ex_state_def)
  show "processes ex_printed = [ex_PD 1 5 RUNNING (\<lambda>_. 0) 0, ex_PD 2 7 SLEEPING (\<lambda>_. 0) 40000, ex_PD 3 1 DEAD (\<lambda>_. 0) 0]"
    by (simp add: processes_def p) (simp add: ex_printed_def ex_tasks_def ex_state_def)
qed

theorem process_table_over_serial_witness:
  "\<exists>t. print_processes ex_printed = Some t \<and> ints_of (crlf t) = [1, 2, 5, 0, 2, 3, 7, - 25536] \<and>
    (if length (crlf t) \<le> 200
     then \<exists>rs. print_text ex_uart t ex_serial = Some (ex_serial\<lparr>UCSR0A_reads := rs, UDR0_writes := crlf t\<rparr>)
     else print_text ex_uart t ex_serial = None)"
proof -
  have f: "concat (map process_fields (filter (\<lambda>d. state d \<noteq> DEAD) (processes ex_printed))) = [1, 2, 5, 0, 2, 3, 7, - 25536]"
    by (simp add: ex_printed_facts(3) ex_PD_def process_fields_def)
  have r: "ready_reads (UDRE0 ex_uart) (UCSR0A_reads ex_serial) = 200" "UDR0_writes ex_serial = []"
    "stdout ex_serial = Some uart_output" "procs ex_printed \<noteq> []"
    by (simp_all add: ex_uart_def ex_serial_def ready_reads_def ex_printed_facts(2) filter_replicate bit_simps)
  from process_table_over_serial[OF ex_printed_facts(1) r(4,3), of ex_uart, unfolded f r(1,2) append_Nil]
  show ?thesis .
qed

text \<open>What \<open>stdio_init\<close> leaves: 8-bit frames, sender and receiver on, the streams redirected. The positions
  of the bits are those of the data sheet.\<close>

definition documented_uart :: "uart_bits \<Rightarrow> bool" where
  "documented_uart b \<longleftrightarrow> U2X0 b = 1 \<and> UCSZ00 b = 1 \<and> UCSZ01 b = 2 \<and> TXEN0 b = 3 \<and> RXEN0 b = 4 \<and> UDRE0 b = 5 \<and> RXC0 b = 7"

lemma uart_init_sets_up:
  assumes "documented_uart b"
  shows "UCSR0C (uart_init b v u) = 6" "UCSR0B (uart_init b v u) = 24"
    "bit (UCSR0A (uart_init b v u)) 1 = USE_2X v"
    "n < 8 \<Longrightarrow> n \<noteq> 1 \<Longrightarrow> bit (UCSR0A (uart_init b v u)) n = bit (UCSR0A u) n"
    "UBRR0H (uart_init b v u) = UBRRH_VALUE v" "UBRR0L (uart_init b v u) = UBRRL_VALUE v"
  using assms by (auto simp: uart_init_def documented_uart_def Let_def bit_simps)

lemma stdio_init_ready:
  assumes "16 \<le> ready_reads (UDRE0 b) (UCSR0A_reads u)"
  shows "\<exists>u'. stdio_init b v u = Some u' \<and> stdout u' = Some uart_output \<and> stderr u' = Some uart_output \<and>
    stdin u' = Some uart_input \<and> UDR0_writes u' = UDR0_writes u @ ''STDOUT->UART!'' @ [carriage_return, newline]"
proof -
  let ?u = "uart_setredir (uart_init b v u)"
  have r: "stdout ?u = Some uart_output" "stderr ?u = Some uart_output" "stdin ?u = Some uart_input"
    "UCSR0A_reads ?u = UCSR0A_reads u" "UDR0_writes ?u = UDR0_writes u"
    by (simp_all add: uart_setredir_def uart_init_def Let_def)
  have "length (crlf (''STDOUT->UART!'' @ [newline])) \<le> ready_reads (UDRE0 b) (UCSR0A_reads ?u)"
    using assms r(4) by simp
  from put_raw_ready[OF this] r show ?thesis
    by (auto simp: stdio_init_def print_text_raw[OF r(1)])
qed

section \<open>Initialisation of the system\<close>

text \<open>\<open>OS_Init\<close> with its output: \<open>Kernel_Reset\<close> prints its message last.\<close>

definition OS_Init_serial :: "uart_bits \<Rightarrow> setbaud \<Rightarrow> kstate \<Rightarrow> serial \<Rightarrow> (kstate \<times> serial) option" where
  "OS_Init_serial b v s u = do {
     u \<leftarrow> stdio_init b v u;
     t \<leftarrow> printf (''OS initialized!'' @ [newline]) [];
     u \<leftarrow> print_text b t u;
     Some (OS_Init s, u)
   }"

lemma OS_Init_serial_ready:
  assumes "33 \<le> ready_reads (UDRE0 b) (UCSR0A_reads u)"
  shows "\<exists>u'. OS_Init_serial b v s u = Some (OS_Init s, u') \<and>
    UDR0_writes u' = UDR0_writes u @ crlf (''STDOUT->UART!'' @ newline # ''OS initialized!'' @ [newline])"
proof -
  let ?u = "uart_setredir (uart_init b v u)"
  have r: "stdout ?u = Some uart_output" "UCSR0A_reads ?u = UCSR0A_reads u" "UDR0_writes ?u = UDR0_writes u"
    by (simp_all add: uart_setredir_def uart_init_def Let_def)
  have "length (crlf (''STDOUT->UART!'' @ newline # ''OS initialized!'' @ [newline])) \<le> ready_reads (UDRE0 b) (UCSR0A_reads ?u)"
    using assms r(2) by simp
  from put_raw_ready[OF this] r obtain u' where
    u': "put_raw b (crlf (''STDOUT->UART!'' @ newline # ''OS initialized!'' @ [newline])) ?u = Some u'"
    "UDR0_writes u' = UDR0_writes u @ crlf (''STDOUT->UART!'' @ newline # ''OS initialized!'' @ [newline])"
    by force
  have "crlf (''STDOUT->UART!'' @ newline # ''OS initialized!'' @ [newline]) =
      crlf (''STDOUT->UART!'' @ [newline]) @ crlf (''OS initialized!'' @ [newline])" by simp
  with u'(1) obtain u1 where u1: "put_raw b (crlf (''STDOUT->UART!'' @ [newline])) ?u = Some u1"
    "put_raw b (crlf (''OS initialized!'' @ [newline])) u1 = Some u'"
    by (auto simp only: put_raw_append elim!: bind_SomeE)
  have "stdout u1 = Some uart_output" using put_raw_stdout[OF u1(1)] r(1) by simp
  then have "OS_Init_serial b v s u = Some (OS_Init s, u')"
    using u1 by (simp add: OS_Init_serial_def stdio_init_def print_text_raw r(1) del: crlf_simps print_text.simps)
  with u'(2) show ?thesis by blast
qed

end
