(* ===== verification/Kmalloc.thy ===== *)
theory Kmalloc
  imports Prelude
begin

text \<open>
  The kernel's own allocator, \<open>others/kmalloc.c\<close>, which the kernel does not use yet. It manages
  a region of raw memory, so the model has the bytes: \<open>mem\<close> is the data memory of the
  processor, a header is the four bytes of a \<open>Heap_Seg\<close> (size, then next, low byte first), and a
  pointer is an address. The heap grows downwards, from \<open>kmalloc_heap_start\<close> to
  \<open>kmalloc_heap_end\<close>.
\<close>

section \<open>Memory and headers\<close>

record kheap =
  kmalloc_heap_start :: addr
  kmalloc_heap_end :: addr
  kmalloc_break :: addr
  freelist_head :: addr
  mem :: "addr \<Rightarrow> u8"

definition ld16 :: "(addr \<Rightarrow> u8) \<Rightarrow> addr \<Rightarrow> u16" where
  "ld16 m a = ucast (m a) OR push_bit 8 (ucast (m (a + 1)))"

definition st16 :: "addr \<Rightarrow> u16 \<Rightarrow> (addr \<Rightarrow> u8) \<Rightarrow> addr \<Rightarrow> u8" where
  "st16 a v m = m(a := ucast v, a + 1 := ucast (drop_bit 8 v))"

text \<open>The fields of the header at an address, and \<open>sizeof(Heap_Seg)\<close>.\<close>

definition seg_size :: "kheap \<Rightarrow> addr \<Rightarrow> u16" where
  "seg_size s p = ld16 (mem s) p"

definition seg_next :: "kheap \<Rightarrow> addr \<Rightarrow> addr" where
  "seg_next s p = ld16 (mem s) (p + 2)"

definition set_size :: "addr \<Rightarrow> u16 \<Rightarrow> kheap \<Rightarrow> kheap" where
  "set_size p v s = s\<lparr>mem := st16 p v (mem s)\<rparr>"

definition set_next :: "addr \<Rightarrow> addr \<Rightarrow> kheap \<Rightarrow> kheap" where
  "set_next p v s = s\<lparr>mem := st16 (p + 2) v (mem s)\<rparr>"

abbreviation HDR :: u16 where
  "HDR \<equiv> 4"

definition segment_end :: "kheap \<Rightarrow> addr \<Rightarrow> addr" where
  "segment_end s p = p + HDR + seg_size s p"

section \<open>Helpers\<close>

text \<open>\<open>check_stack_integrity\<close> always returns 1. All pointers compare as unsigned addresses.\<close>

definition MAX_HEAP_SIZE :: "kheap \<Rightarrow> u16" where
  "MAX_HEAP_SIZE s = kmalloc_heap_start s - kmalloc_heap_end s"

definition check_stack_integrity :: "addr \<Rightarrow> bool" where
  "check_stack_integrity new_break = True"

definition pointer_is_valid :: "kheap \<Rightarrow> addr \<Rightarrow> bool" where
  "pointer_is_valid s p \<longleftrightarrow> p \<noteq> NULL \<and>
     \<not> (p < kmalloc_break s \<or> p < kmalloc_heap_end s \<or> p > kmalloc_heap_start s) \<and>
     \<not> (seg_size s (p - HDR) \<ge> MAX_HEAP_SIZE s \<or> seg_next s (p - HDR) \<noteq> NULL)"

definition write_seg_header :: "addr \<Rightarrow> u16 \<Rightarrow> addr \<Rightarrow> kheap \<Rightarrow> kheap" where
  "write_seg_header p len nxt s = set_next p nxt (set_size p len s)"

definition grow_kmalloc_break :: "u16 \<Rightarrow> kheap \<Rightarrow> addr \<times> kheap" where
  "grow_kmalloc_break amount s =
     (let new_break = kmalloc_break s - amount in
      if new_break < kmalloc_heap_end s \<or> new_break > kmalloc_heap_start s \<or> \<not> check_stack_integrity new_break
      then (NULL, s) else (new_break, s\<lparr>kmalloc_break := new_break\<rparr>))"

definition get_kmalloc_break :: "kheap \<Rightarrow> addr" where
  "get_kmalloc_break s = kmalloc_break s"

section \<open>Initialisation\<close>

definition init_kmalloc :: "addr \<Rightarrow> addr \<Rightarrow> kheap \<Rightarrow> int \<times> kheap" where
  "init_kmalloc start end_addr s =
     (if start < end_addr then (0, s)
      else (1, s\<lparr>kmalloc_heap_start := start, kmalloc_heap_end := end_addr, kmalloc_break := start,
                 freelist_head := NULL\<rparr>))"

record kMalloc_Param =
  p_heap_start :: addr
  p_heap_end :: addr
  p_break :: addr
  p_freelist_head :: addr

definition save_kmalloc_param :: "kheap \<Rightarrow> kMalloc_Param" where
  "save_kmalloc_param s = \<lparr>p_heap_start = kmalloc_heap_start s, p_heap_end = kmalloc_heap_end s,
     p_break = kmalloc_break s, p_freelist_head = freelist_head s\<rparr>"

definition load_kmalloc_param :: "kMalloc_Param \<Rightarrow> kheap \<Rightarrow> kheap" where
  "load_kmalloc_param p s = s\<lparr>kmalloc_heap_start := p_heap_start p, kmalloc_heap_end := p_heap_end p,
     kmalloc_break := p_break p, freelist_head := p_freelist_head p\<rparr>"

section \<open>kmalloc\<close>

text \<open>
  The search for a free piece. The result is the piece of the exact size (or \<open>NULL\<close>), the
  previous piece noted with it, and the smallest piece that can be split. The step of the loop
  first moves \<open>current_piece\<close> and then copies it into \<open>previous_piece\<close>, so both are the next piece.
\<close>

partial_function (option) find_piece :: "kheap \<Rightarrow> u16 \<Rightarrow> addr \<Rightarrow> addr \<Rightarrow> addr \<Rightarrow> (addr \<times> addr \<times> addr) option" where
  "find_piece s len current_piece previous_piece next_smallest =
     (if current_piece = NULL then Some (NULL, NULL, next_smallest)
      else if seg_size s current_piece = len then Some (current_piece, previous_piece, next_smallest)
      else let next_smallest =
             (if seg_size s current_piece > len + HDR \<and>
                 (next_smallest = NULL \<or> seg_size s current_piece < seg_size s next_smallest)
              then current_piece else next_smallest);
             current_piece = seg_next s current_piece;
             previous_piece = current_piece
        in find_piece s len current_piece previous_piece next_smallest)"

definition kmalloc :: "u16 \<Rightarrow> kheap \<Rightarrow> (addr \<times> kheap) option" where
  "kmalloc len s = do {
     (exact, exact_prev, next_smallest) \<leftarrow> find_piece s len (freelist_head s) NULL NULL;
     if exact \<noteq> NULL then
       let retaddr = exact + HDR;
           s = (if exact_prev \<noteq> NULL then set_next exact_prev (seg_next s exact) s
                else s\<lparr>freelist_head := seg_next s exact\<rparr>);
           s = set_next exact NULL s
       in Some (retaddr, s)
     else if next_smallest \<noteq> NULL then
       let s = set_size next_smallest (seg_size s next_smallest - (len + HDR)) s;
           retaddr = next_smallest + HDR + (seg_size s next_smallest + HDR)
       in Some (retaddr, write_seg_header (retaddr - HDR) len NULL s)
     else
       let retaddr = (if kmalloc_break s = kmalloc_heap_start s then kmalloc_heap_start s - len
                      else kmalloc_break s - len);
           (grown, s) = grow_kmalloc_break (len + HDR) s
       in if grown = NULL then Some (NULL, s)
          else Some (retaddr, write_seg_header (retaddr - HDR) len NULL s)
   }"

text \<open>\<open>memset\<close> and \<open>memcpy\<close>.\<close>

definition mem_fill :: "addr \<Rightarrow> u8 \<Rightarrow> u16 \<Rightarrow> kheap \<Rightarrow> kheap" where
  "mem_fill p v n s = s\<lparr>mem := (\<lambda>a. if a - p < n then v else mem s a)\<rparr>"

definition mem_copy :: "addr \<Rightarrow> addr \<Rightarrow> u16 \<Rightarrow> kheap \<Rightarrow> kheap" where
  "mem_copy dst src n s = s\<lparr>mem := (\<lambda>a. if a - dst < n then mem s (src + (a - dst)) else mem s a)\<rparr>"

definition kcalloc :: "u16 \<Rightarrow> u16 \<Rightarrow> kheap \<Rightarrow> (addr \<times> kheap) option" where
  "kcalloc nitems sz s = do {
     let total_len = nitems * sz;
     (retaddr, s) \<leftarrow> kmalloc total_len s;
     if retaddr = NULL then Some (NULL, s) else Some (retaddr, mem_fill retaddr 0 total_len s)
   }"

section \<open>kfree\<close>

text \<open>The pieces around \<open>p_entry\<close>: whether it is free already, the one before the closest left
  piece, the closest left and the closest right piece. The list is sorted downwards.\<close>

partial_function (option) find_neighbours ::
  "kheap \<Rightarrow> addr \<Rightarrow> addr \<Rightarrow> addr \<Rightarrow> addr \<Rightarrow> (bool \<times> addr \<times> addr \<times> addr) option" where
  "find_neighbours s p_entry current_piece left_prev left =
     (if current_piece = NULL then Some (False, left_prev, left, NULL)
      else if current_piece > p_entry then find_neighbours s p_entry (seg_next s current_piece) left current_piece
      else if current_piece < p_entry then Some (False, left_prev, left, current_piece)
      else Some (True, left_prev, left, NULL))"

text \<open>The four steps of \<open>kfree\<close>; each returns the state with the variables that it changes.\<close>

definition free_link :: "addr \<Rightarrow> addr \<Rightarrow> kheap \<Rightarrow> addr \<times> kheap" where
  "free_link p_entry left s =
     (if left = NULL then (NULL, (set_next p_entry (freelist_head s) s)\<lparr>freelist_head := p_entry\<rparr>)
      else (left, set_next left p_entry (set_next p_entry (seg_next s left) s)))"

definition merge_left :: "addr \<Rightarrow> addr \<Rightarrow> addr \<Rightarrow> addr \<Rightarrow> kheap \<Rightarrow> addr \<times> kheap" where
  "merge_left p_entry left_prev left p_entry_prev s =
     (if left \<noteq> NULL \<and> segment_end s p_entry = left
      then let s = set_size p_entry (seg_size s p_entry + (seg_size s left + HDR)) s;
               s = write_seg_header left 0 NULL s
           in if left_prev \<noteq> NULL then (left_prev, set_next left_prev p_entry s)
              else (p_entry_prev, s\<lparr>freelist_head := p_entry\<rparr>)
      else (p_entry_prev, s))"

definition merge_right :: "addr \<Rightarrow> addr \<Rightarrow> addr \<Rightarrow> kheap \<Rightarrow> addr \<times> kheap" where
  "merge_right p_entry right p_entry_prev s =
     (if right \<noteq> NULL \<and> segment_end s right = p_entry
      then let s = set_size right (seg_size s right + (seg_size s p_entry + HDR)) s;
               s = write_seg_header p_entry 0 NULL s
           in (right, if p_entry_prev \<noteq> NULL then set_next p_entry_prev right s else s\<lparr>freelist_head := right\<rparr>)
      else (p_entry, s))"

definition reduce_break :: "addr \<Rightarrow> addr \<Rightarrow> kheap \<Rightarrow> kheap" where
  "reduce_break p_entry p_entry_prev s =
     (if p_entry = kmalloc_break s \<and> seg_next s p_entry = NULL
      then let s = s\<lparr>kmalloc_break := segment_end s p_entry\<rparr>;
               s = write_seg_header p_entry 0 NULL s
           in if p_entry_prev \<noteq> NULL then set_next p_entry_prev NULL s else s\<lparr>freelist_head := NULL\<rparr>
      else s)"

definition kfree :: "addr \<Rightarrow> kheap \<Rightarrow> kheap option" where
  "kfree p s =
     (if \<not> pointer_is_valid s p then Some s
      else do {
        let p_entry = p - HDR;
        (double_free, left_prev, left, right) \<leftarrow> find_neighbours s p_entry (freelist_head s) NULL NULL;
        if double_free then Some s
        else do {
          let (p_entry_prev, s) = free_link p_entry left s;
          let (p_entry_prev, s) = merge_left p_entry left_prev left p_entry_prev s;
          let (p_entry, s) = merge_right p_entry right p_entry_prev s;
          Some (reduce_break p_entry p_entry_prev s)
        }
      })"

section \<open>krealloc\<close>

text \<open>The closest free piece below \<open>p_entry\<close>.\<close>

partial_function (option) find_right :: "kheap \<Rightarrow> addr \<Rightarrow> addr \<Rightarrow> addr option" where
  "find_right s p_entry current_piece =
     (if current_piece = NULL then Some NULL
      else if current_piece < p_entry then Some current_piece
      else find_right s p_entry (seg_next s current_piece))"

text \<open>
  Growing in place: the new address (or \<open>NULL\<close>), the entry whose header will be written, and
  whether the function gives up. \<open>size_diff\<close> is an \<open>int\<close> that is compared as an unsigned number.
\<close>

definition grow_in_place :: "addr \<Rightarrow> u16 \<Rightarrow> u16 \<Rightarrow> addr \<Rightarrow> addr \<Rightarrow> kheap \<Rightarrow> bool \<times> addr \<times> addr \<times> kheap" where
  "grow_in_place p len size_diff p_entry right s =
     (if right \<noteq> NULL \<and> segment_end s right = p_entry
      then if seg_size s right + HDR = size_diff then (False, right + HDR, p_entry, s)
        else if seg_size s right \<ge> size_diff
        then (False, p - size_diff, p_entry,
              if seg_size s right > size_diff then set_size right (seg_size s right - size_diff) s else s)
        else (False, NULL, p_entry, s)
      else if p_entry = kmalloc_break s
      then let (grown, s) = grow_kmalloc_break (len + HDR) s
           in if grown = NULL then (True, NULL, p_entry, s) else (False, p - size_diff, kmalloc_break s, s)
      else (False, NULL, p_entry, s))"

definition krealloc :: "addr \<Rightarrow> u16 \<Rightarrow> kheap \<Rightarrow> (addr \<times> kheap) option" where
  "krealloc p len s =
     (let p_entry = p - HDR; old_entry = p_entry in
      if \<not> pointer_is_valid s p then Some (NULL, s)
      else let size_diff = len - seg_size s p_entry in
        if size_diff = 0 then Some (p, s)
        else if sint size_diff < 0
        then let size_diff = seg_size s p_entry - len in
          if size_diff \<le> HDR then Some (p, s)
          else do {
            let retaddr = p + size_diff;
            let s = write_seg_header (retaddr - HDR) len NULL s;
            s \<leftarrow> kfree p (set_size old_entry (size_diff - HDR) s);
            Some (retaddr, s)
          }
        else do {
          right \<leftarrow> find_right s p_entry (freelist_head s);
          let (failed, retaddr, p_entry, s) = grow_in_place p len size_diff p_entry right s;
          if failed then Some (NULL, s)
          else if retaddr \<noteq> NULL
          then Some (retaddr, set_next old_entry NULL (set_size old_entry 0 (write_seg_header p_entry len NULL s)))
          else do {
            (retaddr, s) \<leftarrow> kmalloc len s;
            if retaddr = NULL then Some (NULL, s)
            else do {
              s \<leftarrow> kfree p (mem_copy p retaddr (seg_size s p_entry) s);
              Some (retaddr, s)
            }
          }
        })"

section \<open>Reading headers back\<close>

lemma ld16_st16_same: "ld16 (st16 a v m) a = v"
proof (rule bit_word_eqI)
  fix n assume "n < LENGTH(16)"
  moreover have "a \<noteq> a + 1" by simp
  ultimately show "bit (ld16 (st16 a v m) a) n = bit v n"
    by (auto simp: ld16_def st16_def bit_simps)
qed

lemma ld16_st16_other: "b \<noteq> a \<Longrightarrow> b \<noteq> a + 1 \<Longrightarrow> b + 1 \<noteq> a \<Longrightarrow> ld16 (st16 a v m) b = ld16 m b"
  by (simp add: ld16_def st16_def)

text \<open>Two headers that do not overlap.\<close>

definition apart :: "addr \<Rightarrow> addr \<Rightarrow> bool" where
  "apart p q \<longleftrightarrow> HDR \<le> p - q \<and> HDR \<le> q - p"

lemma apart_sym: "apart p q \<Longrightarrow> apart q p"
  by (simp add: apart_def)

lemma apart_ne: "apart p q \<Longrightarrow> p \<noteq> q"
  by (auto simp: apart_def)

lemma apart_diff:
  assumes "apart q p"
  shows "q \<noteq> p" "q \<noteq> p + 1" "q \<noteq> p + 2" "q \<noteq> p + 3" "p \<noteq> q + 1" "p \<noteq> q + 2" "p \<noteq> q + 3"
  using assms by (auto simp: apart_def word_le_nat_alt)

lemma apartI: "unat p + 4 \<le> unat q \<Longrightarrow> unat q + 4 \<le> 65536 \<Longrightarrow> apart p q"
proof -
  assume a: "unat p + 4 \<le> unat q" "unat q + 4 \<le> 65536"
  then have "p \<le> q" by (simp add: word_le_nat_alt)
  then have "unat (q - p) = unat q - unat p" by (rule unat_sub)
  with a have 1: "4 \<le> unat (q - p)" by simp
  have "unat (p - q) = 2 ^ 16 - (unat q - unat p)" using a by (simp add: unat_sub_if')
  then have "4 \<le> unat (p - q)" using a by simp
  with 1 show ?thesis by (simp add: apart_def word_le_nat_alt)
qed

lemma header_same [simp]:
  "seg_size (set_size p v s) p = v" "seg_next (set_size p v s) p = seg_next s p"
  "seg_size (set_next p w s) p = seg_size s p" "seg_next (set_next p w s) p = w"
proof -
  show "seg_size (set_size p v s) p = v" by (simp add: seg_size_def set_size_def ld16_st16_same)
  show "seg_next (set_next p w s) p = w" by (simp add: seg_next_def set_next_def ld16_st16_same)
  show "seg_next (set_size p v s) p = seg_next s p"
    by (simp add: seg_next_def set_size_def ld16_st16_other add.assoc)
  show "seg_size (set_next p w s) p = seg_size s p"
    by (simp add: seg_size_def set_next_def ld16_st16_other add.assoc)
qed

lemma header_other:
  assumes "apart q p"
  shows "seg_size (set_size p v s) q = seg_size s q" "seg_next (set_size p v s) q = seg_next s q"
    "seg_size (set_next p w s) q = seg_size s q" "seg_next (set_next p w s) q = seg_next s q"
proof -
  note d = apart_diff[OF assms]
  have "q + 1 \<noteq> p" "q + 2 \<noteq> p" "q + 3 \<noteq> p" using d by auto
  then have f: "ld16 (st16 p x m) q = ld16 m q" "ld16 (st16 p x m) (q + 2) = ld16 m (q + 2)"
    "ld16 (st16 (p + 2) x m) q = ld16 m q" "ld16 (st16 (p + 2) x m) (q + 2) = ld16 m (q + 2)" for x m
    using d by (auto intro!: ld16_st16_other simp: add.assoc)
  show "seg_size (set_size p v s) q = seg_size s q" "seg_next (set_size p v s) q = seg_next s q"
    "seg_size (set_next p w s) q = seg_size s q" "seg_next (set_next p w s) q = seg_next s q"
    by (simp_all add: seg_size_def seg_next_def set_size_def set_next_def f)
qed

lemma write_header [simp]:
  "seg_size (write_seg_header p n w s) p = n" "seg_next (write_seg_header p n w s) p = w"
  by (simp_all add: write_seg_header_def)

lemma write_header_other:
  "apart q p \<Longrightarrow> seg_size (write_seg_header p n w s) q = seg_size s q"
  "apart q p \<Longrightarrow> seg_next (write_seg_header p n w s) q = seg_next s q"
  by (simp_all add: write_seg_header_def header_other)

lemma heap_regs [simp]:
  "kmalloc_break (set_size p v s) = kmalloc_break s" "kmalloc_break (set_next p w s) = kmalloc_break s"
  "kmalloc_break (write_seg_header p n w s) = kmalloc_break s"
  "freelist_head (set_size p v s) = freelist_head s" "freelist_head (set_next p w s) = freelist_head s"
  "freelist_head (write_seg_header p n w s) = freelist_head s"
  "kmalloc_heap_start (set_size p v s) = kmalloc_heap_start s" "kmalloc_heap_start (set_next p w s) = kmalloc_heap_start s"
  "kmalloc_heap_start (write_seg_header p n w s) = kmalloc_heap_start s"
  "kmalloc_heap_end (set_size p v s) = kmalloc_heap_end s" "kmalloc_heap_end (set_next p w s) = kmalloc_heap_end s"
  "kmalloc_heap_end (write_seg_header p n w s) = kmalloc_heap_end s"
  by (simp_all add: set_size_def set_next_def write_seg_header_def)

lemma header_regs [simp]:
  "seg_size (s\<lparr>freelist_head := a\<rparr>) p = seg_size s p" "seg_next (s\<lparr>freelist_head := a\<rparr>) p = seg_next s p"
  "seg_size (s\<lparr>kmalloc_break := a\<rparr>) p = seg_size s p" "seg_next (s\<lparr>kmalloc_break := a\<rparr>) p = seg_next s p"
  by (simp_all add: seg_size_def seg_next_def)

section \<open>The free list\<close>

text \<open>The pieces of a list with their sizes, and when the headers of two lists of pieces are apart.\<close>

fun pieces :: "kheap \<Rightarrow> addr \<Rightarrow> (addr \<times> u16) list \<Rightarrow> addr \<Rightarrow> bool" where
  "pieces s a [] b \<longleftrightarrow> a = b"
| "pieces s a ((p, n) # xs) b \<longleftrightarrow> a = p \<and> p \<noteq> NULL \<and> seg_size s p = n \<and> pieces s (seg_next s p) xs b"

lemma pieces_append: "pieces s a (xs @ ys) b \<longleftrightarrow> (\<exists>c. pieces s a xs c \<and> pieces s c ys b)"
  by (induction s a xs b rule: pieces.induct) auto

lemma pieces_frame:
  "pieces s a xs b \<Longrightarrow> \<forall>(p, n) \<in> set xs. seg_size t p = seg_size s p \<and> seg_next t p = seg_next s p \<Longrightarrow> pieces t a xs b"
  by (induction s a xs b rule: pieces.induct) auto

lemma find_piece_skip:
  "pieces s a xs c \<Longrightarrow> \<forall>x \<in> set xs. snd x \<noteq> len \<Longrightarrow>
   \<exists>nsp'. find_piece s len a pr nsp = find_piece s len c (if xs = [] then pr else c) nsp'"
proof (induction xs arbitrary: a pr nsp)
  case (Cons x xs)
  obtain p n where x: "x = (p, n)" by (cases x)
  then have p: "a = p" "p \<noteq> NULL" "seg_size s p = n" "pieces s (seg_next s p) xs c" "n \<noteq> len" using Cons.prems by auto
  have "\<exists>nsp1. find_piece s len a pr nsp = find_piece s len (seg_next s p) (seg_next s p) nsp1"
    using p by (subst find_piece.simps) (simp add: Let_def, blast)
  then obtain nsp1 where "find_piece s len a pr nsp = find_piece s len (seg_next s p) (seg_next s p) nsp1" by blast
  moreover obtain nsp' where "find_piece s len (seg_next s p) (seg_next s p) nsp1 =
      find_piece s len c (if xs = [] then seg_next s p else c) nsp'"
    using Cons.IH[OF p(4), of "seg_next s p" nsp1] Cons.prems(2) by (auto simp del: split_paired_All)
  moreover have "xs = [] \<longrightarrow> seg_next s p = c" using p(4) by auto
  ultimately show ?case by auto
qed auto

text \<open>An exact fit behind the head of the list: the piece is not unlinked.\<close>

lemma kmalloc_exact_behind:
  assumes "pieces s (freelist_head s) (xs @ (b, len) # ys) NULL" "xs \<noteq> []" "\<forall>x \<in> set xs. snd x \<noteq> len"
  shows "kmalloc len s = Some (b + HDR, set_next b NULL (set_next b (seg_next s b) s))"
proof -
  have p: "pieces s (freelist_head s) xs b" "b \<noteq> NULL" "seg_size s b = len"
    using assms(1) by (auto simp: pieces_append)
  obtain nsp where "find_piece s len (freelist_head s) NULL NULL = find_piece s len b b nsp"
    using find_piece_skip[OF p(1) assms(3), of NULL NULL] assms(2) by auto
  also have "find_piece s len b b nsp = Some (b, b, nsp)" using p(2,3) by (subst find_piece.simps) simp
  finally show ?thesis using p(2) by (simp add: kmalloc_def Let_def)
qed

text \<open>C39: An exact fit that is not the first free piece is handed out without being unlinked: the search
  loop advances before it notes the previous piece, so it notes the piece itself. The piece stays on
  the free list, the pieces after it are lost, and the next request of the same size gets the same
  block again.\<close>

theorem kmalloc_hands_out_twice:
  assumes "pieces s (freelist_head s) (xs @ (b, len) # ys) NULL" "xs \<noteq> []" "\<forall>x \<in> set xs. snd x \<noteq> len"
    and "\<forall>x \<in> set xs. apart (fst x) b"
  shows "\<exists>s1 s2. kmalloc len s = Some (b + HDR, s1) \<and> pieces s1 (freelist_head s1) (xs @ [(b, len)]) NULL \<and>
    kmalloc len s1 = Some (b + HDR, s2)"
proof -
  have p: "pieces s (freelist_head s) xs b" "b \<noteq> NULL" "seg_size s b = len"
    using assms(1) by (auto simp: pieces_append)
  let ?s = "set_next b NULL (set_next b (seg_next s b) s)"
  have "pieces ?s (freelist_head s) xs b"
    by (rule pieces_frame[OF p(1)]) (use assms(4) in \<open>auto simp: header_other\<close>)
  then have q: "pieces ?s (freelist_head ?s) (xs @ [(b, len)]) NULL" using p by (auto simp: pieces_append)
  from kmalloc_exact_behind[OF assms(1-3)] q kmalloc_exact_behind[OF q assms(2,3)] show ?thesis by blast
qed

text \<open>A heap with two free pieces, of 8 and of 4 bytes, and a break at 100.\<close>

definition ex_heap :: "(addr \<times> u16 \<times> addr) list \<Rightarrow> addr \<Rightarrow> kheap" where
  "ex_heap hs b = foldr (\<lambda>(p, n, q). write_seg_header p n q) hs
     \<lparr>kmalloc_heap_start = 200, kmalloc_heap_end = 10, kmalloc_break = b,
      freelist_head = (case hs of [] \<Rightarrow> NULL | x # _ \<Rightarrow> fst x), mem = (\<lambda>_. 0)\<rparr>"

lemmas ex_heap_eval = ex_heap_def seg_size_def seg_next_def write_seg_header_def set_size_def set_next_def ld16_def st16_def

theorem kmalloc_hands_out_twice_witness:
  "\<exists>s1 s2. kmalloc 4 (ex_heap [(150, 8, 120), (120, 4, NULL)] 100) = Some (124, s1) \<and> kmalloc 4 s1 = Some (124, s2)"
proof -
  let ?s = "ex_heap [(150, 8, 120), (120, 4, NULL)] 100"
  have "pieces ?s (freelist_head ?s) ([(150, 8)] @ (120, 4) # []) NULL"
    by (simp add: ex_heap_eval)
  from kmalloc_hands_out_twice[OF this] show ?thesis by (simp add: apart_def) blast
qed

section \<open>Allocating in sequence\<close>

primrec kmallocs :: "u16 list \<Rightarrow> kheap \<Rightarrow> (addr list \<times> kheap) option" where
  "kmallocs [] s = Some ([], s)"
| "kmallocs (len # lens) s = do {
     (p, s) \<leftarrow> kmalloc len s;
     (ps, s) \<leftarrow> kmallocs lens s;
     Some (p # ps, s)
   }"

text \<open>The heap without free pieces, and the sizes whose header and block fit into 16 bits together
  with the heap.\<close>

definition fresh_heap :: "kheap \<Rightarrow> bool" where
  "fresh_heap s \<longleftrightarrow> freelist_head s = NULL \<and> 0 < kmalloc_heap_end s \<and> kmalloc_heap_end s \<le> kmalloc_break s \<and>
     kmalloc_break s \<le> kmalloc_heap_start s"

definition len_ok :: "kheap \<Rightarrow> u16 \<Rightarrow> bool" where
  "len_ok s len \<longleftrightarrow> unat len + 4 + (unat (kmalloc_heap_start s) - unat (kmalloc_heap_end s)) < 65536"

text \<open>A request that fits under the break moves it down.\<close>

lemma grow_break_fits:
  assumes "0 < kmalloc_heap_end s" "kmalloc_break s \<le> kmalloc_heap_start s"
    and "unat (kmalloc_heap_end s) + unat len + 4 \<le> unat (kmalloc_break s)"
  shows "grow_kmalloc_break (len + HDR) s = (kmalloc_break s - (len + HDR), s\<lparr>kmalloc_break := kmalloc_break s - (len + HDR)\<rparr>)"
    "kmalloc_break s - (len + HDR) \<noteq> NULL"
proof -
  let ?b = "kmalloc_break s" and ?e = "kmalloc_heap_end s" and ?t = "kmalloc_heap_start s"
  have up: "unat ?b < 65536" "0 < unat ?e" "unat ?b \<le> unat ?t"
    using unsigned_less[of ?b] assms(1,2) by (simp_all add: word_less_nat_alt word_le_nat_alt)
  have n: "unat (len + HDR) = unat len + 4" using assms(3) up by (simp add: unat_plus_if')
  then have nb: "unat (?b - (len + HDR)) = unat ?b - (unat len + 4)" using assms(3) by (simp add: unat_sub_if')
  then show "grow_kmalloc_break (len + HDR) s = (?b - (len + HDR), s\<lparr>kmalloc_break := ?b - (len + HDR)\<rparr>)"
    using assms(3) up by (auto simp: grow_kmalloc_break_def Let_def check_stack_integrity_def word_less_nat_alt)
  have "unat (?b - (len + HDR)) \<noteq> 0" using nb assms(3) up by simp
  then show "?b - (len + HDR) \<noteq> NULL" by (metis unsigned_0)
qed

lemma kmalloc_grow:
  assumes "find_piece s len (freelist_head s) NULL NULL = Some (NULL, NULL, NULL)" "0 < kmalloc_heap_end s"
    and "kmalloc_break s \<le> kmalloc_heap_start s" "unat (kmalloc_heap_end s) + unat len + 4 \<le> unat (kmalloc_break s)"
  shows "kmalloc len s = Some (kmalloc_break s - len, write_seg_header (kmalloc_break s - (len + HDR)) len NULL
    (s\<lparr>kmalloc_break := kmalloc_break s - (len + HDR)\<rparr>))"
proof -
  note g = grow_break_fits[OF assms(2-4)]
  have r: "kmalloc_break s - len - HDR = kmalloc_break s - (len + HDR)" by simp
  have ret: "(if kmalloc_break s = kmalloc_heap_start s then kmalloc_heap_start s - len else kmalloc_break s - len) = kmalloc_break s - len"
    by simp
  show ?thesis unfolding kmalloc_def assms(1) bind.bind_lunit prod.case ret using g(2) by (simp add: Let_def g(1) r)
qed

lemma kmalloc_fresh:
  assumes f: "fresh_heap s" and l: "len_ok s len \<or> unat (kmalloc_heap_end s) + unat len + 4 \<le> unat (kmalloc_break s)"
  shows "kmalloc len s = (if unat (kmalloc_heap_end s) + unat len + 4 \<le> unat (kmalloc_break s)
    then Some (kmalloc_break s - len, write_seg_header (kmalloc_break s - (len + HDR)) len NULL
      (s\<lparr>kmalloc_break := kmalloc_break s - (len + HDR)\<rparr>))
    else Some (NULL, s))"
proof -
  let ?b = "kmalloc_break s" and ?e = "kmalloc_heap_end s" and ?t = "kmalloc_heap_start s"
  have f': "freelist_head s = NULL" "0 < unat ?e" "unat ?e \<le> unat ?b" "unat ?b \<le> unat ?t"
    using f by (auto simp: fresh_heap_def word_less_nat_alt word_le_nat_alt)
  have find: "find_piece s len (freelist_head s) NULL NULL = Some (NULL, NULL, NULL)"
    unfolding f'(1) by (subst find_piece.simps) simp
  show ?thesis
  proof (cases "unat ?e + unat len + 4 \<le> unat ?b")
    case True
    with f kmalloc_grow[OF find] show ?thesis by (simp add: fresh_heap_def)
  next
    case False
    with l have l': "unat len + 4 + (unat ?t - unat ?e) < 65536" by (simp add: len_ok_def)
    have up: "unat ?t < 65536" using unsigned_less[of ?t] by simp
    have n: "unat (len + HDR) = unat len + 4" using l' by (simp add: unat_plus_if')
    then have "unat (?b - (len + HDR)) = (if unat len + 4 \<le> unat ?b then unat ?b - (unat len + 4) else 65536 + unat ?b - (unat len + 4))"
      by (simp add: unat_sub_if')
    then have "?b - (len + HDR) < ?e \<or> ?t < ?b - (len + HDR)"
      unfolding word_less_nat_alt using l' f' up False by auto
    then have g: "grow_kmalloc_break (len + HDR) s = (NULL, s)" by (auto simp: grow_kmalloc_break_def Let_def)
    show ?thesis unfolding kmalloc_def find bind.bind_lunit prod.case if_not_P[OF False] by (simp add: Let_def g)
  qed
qed

lemma kmalloc_fresh_step:
  assumes f: "fresh_heap s" and l: "len_ok s len \<or> unat (kmalloc_heap_end s) + unat len + 4 \<le> unat (kmalloc_break s)"
    and k: "kmalloc len s = Some (p, t)"
  shows "fresh_heap t" and "kmalloc_heap_start t = kmalloc_heap_start s" and "kmalloc_heap_end t = kmalloc_heap_end s"
    and "p = NULL \<Longrightarrow> t = s" and "p = NULL \<Longrightarrow> unat (kmalloc_break s) < unat (kmalloc_heap_end s) + unat len + 4"
    and "p \<noteq> NULL \<Longrightarrow> unat p + unat len = unat (kmalloc_break s) \<and> unat (kmalloc_break t) + 4 = unat p \<and>
      seg_size t (p - HDR) = len \<and> (\<forall>q. unat p \<le> unat q \<and> unat q + 4 \<le> 65536 \<longrightarrow> seg_size t q = seg_size s q \<and> seg_next t q = seg_next s q)"
    and "p \<noteq> NULL \<Longrightarrow> seg_next t (p - HDR) = NULL"
proof -
  let ?b = "kmalloc_break s" and ?e = "kmalloc_heap_end s" and ?t = "kmalloc_heap_start s"
  have f': "0 < unat ?e" "unat ?e \<le> unat ?b" "unat ?b \<le> unat ?t"
    using f by (auto simp: fresh_heap_def word_less_nat_alt word_le_nat_alt)
  have "unat ?b < 65536" using unsigned_less[of ?b] by simp
  with l f' have n: "unat (len + HDR) = unat len + 4" by (auto simp: len_ok_def unat_plus_if')
  note K = kmalloc_fresh[OF f l]
  have null: "t = s \<and> unat ?b < unat ?e + unat len + 4" if "p = NULL"
  proof -
    note that
    moreover have "unat (?b - len) \<noteq> 0" if "unat ?e + unat len + 4 \<le> unat ?b"
      using that f' by (simp add: unat_sub_if')
    then have "?b - len \<noteq> NULL" if "unat ?e + unat len + 4 \<le> unat ?b" using that by (metis unsigned_0)
    ultimately show ?thesis using K k by (auto split: if_splits)
  qed
  then show "p = NULL \<Longrightarrow> t = s" "p = NULL \<Longrightarrow> unat ?b < unat ?e + unat len + 4" by blast+
  have eq: "unat ?e + unat len + 4 \<le> unat ?b" "p = ?b - len" "t = write_seg_header (?b - (len + HDR)) len NULL (s\<lparr>kmalloc_break := ?b - (len + HDR)\<rparr>)"
    if "p \<noteq> NULL" using K k that by (auto split: if_splits)
  have b: "unat (?b - (len + HDR)) + unat len + 4 = unat ?b" "unat (?b - len) + unat len = unat ?b" if "p \<noteq> NULL"
    using n eq(1)[OF that] by (simp_all add: unat_sub_if')
  have h: "?b - len - HDR = ?b - (len + HDR)" by simp
  show "p \<noteq> NULL \<Longrightarrow> unat p + unat len = unat (kmalloc_break s) \<and> unat (kmalloc_break t) + 4 = unat p \<and>
      seg_size t (p - HDR) = len \<and> (\<forall>q. unat p \<le> unat q \<and> unat q + 4 \<le> 65536 \<longrightarrow> seg_size t q = seg_size s q \<and> seg_next t q = seg_next s q)"
  proof -
    assume p: "p \<noteq> NULL"
    have "apart q (?b - (len + HDR))" if "unat p \<le> unat q" "unat q + 4 \<le> 65536" for q
      by (rule apart_sym, rule apartI) (use that b[OF p] eq(2)[OF p] in simp_all)
    then show ?thesis using b[OF p] unfolding eq(2,3)[OF p] h by (simp add: write_header_other)
  qed
  show "p \<noteq> NULL \<Longrightarrow> seg_next t (p - HDR) = NULL" using eq(2,3) by (metis h write_header(2))
  show "kmalloc_heap_start t = kmalloc_heap_start s" "kmalloc_heap_end t = kmalloc_heap_end s"
    using K k by (auto split: if_splits)
  show "fresh_heap t"
  proof (cases "p = NULL")
    case True
    with null f show ?thesis by simp
  next
    case False
    with b f' eq[OF False] f show ?thesis by (simp add: fresh_heap_def word_le_nat_alt)
  qed
qed

text \<open>The live blocks of a sequence of calls: those with a pointer.\<close>

abbreviation live :: "addr list \<Rightarrow> u16 list \<Rightarrow> (addr \<times> u16) list" where
  "live ps lens \<equiv> filter (\<lambda>(p, n). p \<noteq> NULL) (zip ps lens)"

lemma kmallocs_fresh:
  "fresh_heap s \<Longrightarrow> \<forall>len \<in> set lens. len_ok s len \<Longrightarrow> \<exists>ps t. kmallocs lens s = Some (ps, t) \<and> fresh_heap t \<and> length ps = length lens \<and>
     (unat (kmalloc_heap_end s) + sum_list (map (\<lambda>n. unat n + 4) lens) \<le> unat (kmalloc_break s) \<longrightarrow> NULL \<notin> set ps) \<and>
     (\<forall>q. unat (kmalloc_break s) \<le> unat q \<and> unat q + 4 \<le> 65536 \<longrightarrow> seg_size t q = seg_size s q) \<and>
     (\<forall>(p, n) \<in> set (live ps lens). unat (kmalloc_heap_end s) + 4 \<le> unat p \<and> unat p + unat n \<le> unat (kmalloc_break s) \<and>
        seg_size t (p - HDR) = n) \<and>
     sorted_wrt (\<lambda>(p, n) (q, m). unat q + unat m + 4 \<le> unat p) (live ps lens)"
proof (induction lens arbitrary: s)
  case (Cons len lens)
  note f = Cons.prems(1)
  have l: "len_ok s len" using Cons.prems(2) by simp
  obtain p s1 where k: "kmalloc len s = Some (p, s1)" using kmalloc_fresh[OF f disjI1[OF l]] by (auto split: if_splits)
  note S = kmalloc_fresh_step[OF f disjI1[OF l] k]
  have "\<forall>len \<in> set lens. len_ok s1 len" using Cons.prems(2) S(2,3) by (simp add: len_ok_def)
  from Cons.IH[OF S(1) this] obtain ps t where t: "kmallocs lens s1 = Some (ps, t)" "fresh_heap t" "length ps = length lens"
    "\<And>q. unat (kmalloc_break s1) \<le> unat q \<Longrightarrow> unat q + 4 \<le> 65536 \<Longrightarrow> seg_size t q = seg_size s1 q"
    "\<And>q m. (q, m) \<in> set (live ps lens) \<Longrightarrow> unat (kmalloc_heap_end s1) + 4 \<le> unat q \<and> unat q + unat m \<le> unat (kmalloc_break s1) \<and> seg_size t (q - HDR) = m"
    "sorted_wrt (\<lambda>(p, n) (q, m). unat q + unat m + 4 \<le> unat p) (live ps lens)"
    "unat (kmalloc_heap_end s1) + sum_list (map (\<lambda>n. unat n + 4) lens) \<le> unat (kmalloc_break s1) \<Longrightarrow> NULL \<notin> set ps" by fast
  have all: "kmallocs (len # lens) s = Some (p # ps, t)" using k t(1) by simp
  show ?case
  proof (cases "p = NULL")
    case True
    have s1: "s1 = s" by (rule S(4)[OF True])
    show ?thesis by (rule exI[of _ "p # ps"], rule exI[of _ t]) (use all t True S(5) in \<open>auto simp: s1\<close>)
  next
    case False
    note P = S(6)[OF False]
    have up: "unat p < 65536" using unsigned_less[of p] by simp
    have p4: "unat (kmalloc_break s1) + 4 = unat p" using P by blast
    then have low: "unat (p - HDR) = unat (kmalloc_break s1)" by (simp add: unat_sub_if')
    have e1: "unat (kmalloc_heap_end s1) \<le> unat (kmalloc_break s1)" using S(1) by (simp add: fresh_heap_def word_le_nat_alt)
    have hd: "seg_size t (p - HDR) = len" using t(4)[of "p - HDR"] low P up by simp
    have keep: "seg_size t q = seg_size s q" if "unat (kmalloc_break s) \<le> unat q" "unat q + 4 \<le> 65536" for q
      using t(4)[of q] P that by simp
    have mem: "unat (kmalloc_heap_end s) + 4 \<le> unat q \<and> unat q + unat m \<le> unat (kmalloc_break s) \<and> seg_size t (q - HDR) = m"
      if "(q, m) \<in> set (live (p # ps) (len # lens))" for q m
      using that False P hd t(5)[of q m] S(3) e1 by auto
    have srt: "sorted_wrt (\<lambda>(p, n) (q, m). unat q + unat m + 4 \<le> unat p) (live (p # ps) (len # lens))"
      using False t(6) t(5) P by fastforce
    have len: "length (p # ps) = length (len # lens)" using t(3) by simp
    have full: "unat (kmalloc_heap_end s) + sum_list (map (\<lambda>n. unat n + 4) (len # lens)) \<le> unat (kmalloc_break s) \<longrightarrow> NULL \<notin> set (p # ps)"
      using t(7) False P S(3) by simp
    have keep': "\<forall>q. unat (kmalloc_break s) \<le> unat q \<and> unat q + 4 \<le> 65536 \<longrightarrow> seg_size t q = seg_size s q"
      using keep by blast
    have mem': "\<forall>(q, m) \<in> set (live (p # ps) (len # lens)). unat (kmalloc_heap_end s) + 4 \<le> unat q \<and>
        unat q + unat m \<le> unat (kmalloc_break s) \<and> seg_size t (q - HDR) = m" using mem by fast
    show ?thesis by (rule exI[of _ "p # ps"], rule exI[of _ t]) (intro conjI all t(2) len full keep' mem' srt)
  qed
qed auto

text \<open>C37: Blocks that are allocated one after the other from an initialised heap lie inside the heap and
  apart from each other and from their headers, which stay intact; a request that does not fit
  returns a null pointer, and none does when the heap is large enough for all of them. This holds for
  requests that fit into 16 bits together with the heap.\<close>

theorem kmalloc_blocks_disjoint:
  assumes "init_kmalloc start end_addr s = (1, s0)" "0 < end_addr"
    and "\<forall>len \<in> set lens. unat len + 4 + (unat start - unat end_addr) < 65536"
  shows "\<exists>ps t. kmallocs lens s0 = Some (ps, t) \<and> length ps = length lens \<and>
    (sum_list (map (\<lambda>n. unat n + 4) lens) \<le> unat start - unat end_addr \<longrightarrow> NULL \<notin> set ps) \<and>
    (\<forall>(p, n) \<in> set (live ps lens). unat end_addr + 4 \<le> unat p \<and> unat p + unat n \<le> unat start \<and> seg_size t (p - HDR) = n) \<and>
    sorted_wrt (\<lambda>(p, n) (q, m). unat q + unat m + 4 \<le> unat p) (live ps lens)"
proof -
  have s0: "end_addr \<le> start" "s0 = s\<lparr>kmalloc_heap_start := start, kmalloc_heap_end := end_addr, kmalloc_break := start, freelist_head := NULL\<rparr>"
    using assms(1) by (auto simp: init_kmalloc_def split: if_splits)
  have "fresh_heap s0" "\<forall>len \<in> set lens. len_ok s0 len"
    using s0 assms(2,3) by (simp_all add: fresh_heap_def len_ok_def)
  then obtain ps t where t: "kmallocs lens s0 = Some (ps, t)" "length ps = length lens"
    "unat end_addr + sum_list (map (\<lambda>n. unat n + 4) lens) \<le> unat start \<longrightarrow> NULL \<notin> set ps"
    "\<forall>(p, n) \<in> set (live ps lens). unat end_addr + 4 \<le> unat p \<and> unat p + unat n \<le> unat start \<and> seg_size t (p - HDR) = n"
    "sorted_wrt (\<lambda>(p, n) (q, m). unat q + unat m + 4 \<le> unat p) (live ps lens)"
    using kmallocs_fresh[of s0 lens] s0(2) by auto
  moreover have "unat end_addr \<le> unat start" using s0(1) by (simp add: word_le_nat_alt)
  ultimately show ?thesis by (intro exI[of _ ps] exI[of _ t] conjI) auto
qed

theorem kmalloc_blocks_disjoint_witness:
  "\<exists>ps t. kmallocs [8, 3, 30] (snd (init_kmalloc 100 40 (ex_heap [] 0))) = Some (ps, t) \<and> NULL \<notin> set ps \<and> length ps = 3"
proof -
  let ?s = "ex_heap [] 0"
  have i: "init_kmalloc 100 40 ?s = (1, snd (init_kmalloc 100 40 ?s))" by (simp add: init_kmalloc_def)
  from kmalloc_blocks_disjoint[OF i, of "[8, 3, 30]"] show ?thesis by auto
qed

end
