(* ===== verification/Kmalloc_Free.thy ===== *)
theory Kmalloc_Free
  imports Kmalloc
begin

text \<open>
  What \<open>kfree\<close> of \<open>others/kmalloc.c\<close> does to the free list: the abstract list of the free pieces
  (address and size, sorted downwards), each of the four steps of \<open>kfree\<close> on it, the refinement of the
  whole, and the runs where the code departs from it.
\<close>

section \<open>The free list as a list of pieces\<close>

text \<open>A piece lies above another if the header of the lower one is below it.\<close>

abbreviation above :: "addr \<times> u16 \<Rightarrow> addr \<times> u16 \<Rightarrow> bool" where
  "above x y \<equiv> unat (fst y) + 4 \<le> unat (fst x)"

definition free_pieces :: "kheap \<Rightarrow> (addr \<times> u16) list \<Rightarrow> bool" where
  "free_pieces s xs \<longleftrightarrow> pieces s (freelist_head s) xs NULL \<and> sorted_wrt above xs \<and> (\<forall>x \<in> set xs. unat (fst x) + 4 \<le> 65536)"

text \<open>The address of the last piece of a list, or \<open>NULL\<close>.\<close>

definition last_addr :: "(addr \<times> u16) list \<Rightarrow> addr" where
  "last_addr xs = (if xs = [] then NULL else fst (last xs))"

definition hd_addr :: "(addr \<times> u16) list \<Rightarrow> addr" where
  "hd_addr xs = (case xs of [] \<Rightarrow> NULL | x # _ \<Rightarrow> fst x)"

lemma above_trans: "above x y \<Longrightarrow> above y z \<Longrightarrow> above x z"
  by simp

lemma above_apart:
  assumes "above x y" "unat (fst x) + 4 \<le> 65536"
  shows "apart (fst x) (fst y)" "apart (fst y) (fst x)"
  using apartI[of "fst y" "fst x"] assms by (auto simp: apart_sym)

lemma last_addr_simps [simp]:
  "last_addr [] = NULL" "last_addr (xs @ [x]) = fst x"
  by (simp_all add: last_addr_def)

lemma pieces_hd: "pieces s a xs NULL \<Longrightarrow> a = hd_addr xs"
  by (cases xs) (auto simp: hd_addr_def)

text \<open>Taking a list of pieces apart at a piece.\<close>

lemma pieces_mid:
  "pieces s a (xs @ (p, n) # ys) b \<longleftrightarrow> pieces s a xs p \<and> p \<noteq> NULL \<and> seg_size s p = n \<and> pieces s (seg_next s p) ys b"
  by (auto simp: pieces_append)

text \<open>Changing the last link of a list of pieces.\<close>

lemma pieces_relink:
  assumes "pieces s a xs b" "xs \<noteq> []"
    and "seg_next t (last_addr xs) = c" "seg_size t (last_addr xs) = seg_size s (last_addr xs)"
    and "\<forall>x \<in> set (butlast xs). seg_size t (fst x) = seg_size s (fst x) \<and> seg_next t (fst x) = seg_next s (fst x)"
  shows "pieces t a xs c"
proof -
  obtain ys p n where xs: "xs = ys @ [(p, n)]" using assms(2) by (metis append_butlast_last_id surj_pair)
  with assms(1) have p: "pieces s a ys p" "p \<noteq> NULL" "seg_size s p = n" by (auto simp: pieces_append)
  have "pieces t a ys p" by (rule pieces_frame[OF p(1)]) (use assms(5) xs in auto)
  with p assms(3,4) show ?thesis by (auto simp: xs pieces_append)
qed

section \<open>The steps of kfree on the list\<close>

lemma find_neighbours_split:
  "pieces s a (hi @ lo) NULL \<Longrightarrow> \<forall>x \<in> set hi. e < fst x \<Longrightarrow> lo \<noteq> [] \<longrightarrow> fst (hd lo) < e \<Longrightarrow>
   find_neighbours s e a lp l = Some (False,
     if hi = [] then lp else if butlast hi = [] then l else last_addr (butlast hi),
     if hi = [] then l else last_addr hi, hd_addr lo)"
proof (induction hi arbitrary: a lp l)
  case Nil
  then show ?case by (subst find_neighbours.simps) (cases lo; auto simp: hd_addr_def)
next
  case (Cons x hi)
  from Cons.prems(1) have a: "a = fst x" "a \<noteq> NULL" "pieces s (seg_next s a) (hi @ lo) NULL"
    by (cases x; auto)+
  have "find_neighbours s e a lp l = find_neighbours s e (seg_next s a) l a"
    using a Cons.prems(2) by (subst find_neighbours.simps) simp
  with Cons.IH[OF a(3)] Cons.prems(2,3) a(1) show ?case by (auto simp: last_addr_def)
qed

text \<open>The headers of a list of free pieces are apart.\<close>

lemma free_pieces_above:
  assumes "free_pieces s (hi @ lo)" "x \<in> set hi" "y \<in> set lo"
  shows "apart (fst x) (fst y)" "apart (fst y) (fst x)"
proof -
  have "above x y" "unat (fst x) + 4 \<le> 65536" using assms by (auto simp: free_pieces_def sorted_wrt_append)
  then show "apart (fst x) (fst y)" "apart (fst y) (fst x)" by (rule above_apart)+
qed

lemma free_pieces_mid:
  assumes "free_pieces s (hi @ (p, n) # lo)"
  shows "pieces s (freelist_head s) hi p" "p \<noteq> NULL" "seg_size s p = n" "pieces s (seg_next s p) lo NULL"
    "\<forall>x \<in> set (hi @ lo). apart (fst x) p \<and> apart p (fst x)"
proof -
  show "pieces s (freelist_head s) hi p" "p \<noteq> NULL" "seg_size s p = n" "pieces s (seg_next s p) lo NULL"
    using assms by (simp_all add: free_pieces_def pieces_mid)
  show "\<forall>x \<in> set (hi @ lo). apart (fst x) p \<and> apart p (fst x)"
    using free_pieces_above[OF assms, of _ "(p, n)"] free_pieces_above[of s "hi @ [(p, n)]" lo "(p, n)"] assms by auto
qed

lemma last_addr_in: "xs \<noteq> [] \<Longrightarrow> \<exists>x \<in> set xs. last_addr xs = fst x"
  by (auto simp: last_addr_def)

lemma pieces_nonnull: "pieces s a xs b \<Longrightarrow> x \<in> set xs \<Longrightarrow> fst x \<noteq> NULL"
  by (induction s a xs b rule: pieces.induct) auto

lemma last_addr_null: "pieces s a xs b \<Longrightarrow> last_addr xs = NULL \<longleftrightarrow> xs = []"
  by (metis last_addr_def last_in_set pieces_nonnull)

text \<open>In a sorted list the headers of the pieces before the last are apart from the last.\<close>

lemma butlast_apart:
  assumes "free_pieces s (hi @ lo)" "x \<in> set (butlast hi)"
  shows "apart (fst x) (last_addr hi)"
proof -
  from assms(2) obtain ys y where hi: "hi = ys @ [y]" by (cases hi rule: rev_cases) auto
  with assms show ?thesis using free_pieces_above[of s ys "y # lo" x y] by simp
qed

lemma pieces_keep:
  assumes "pieces s a xs b" "\<And>x. x \<in> set xs \<Longrightarrow> seg_size t (fst x) = seg_size s (fst x) \<and> seg_next t (fst x) = seg_next s (fst x)"
  shows "pieces t a xs b"
  by (rule pieces_frame[OF assms(1)]) (use assms(2) in force)

lemma pieces_regs [simp]:
  "pieces (s\<lparr>freelist_head := h\<rparr>) a xs b = pieces s a xs b" "pieces (s\<lparr>kmalloc_break := h\<rparr>) a xs b = pieces s a xs b"
  by (induction s a xs b rule: pieces.induct) auto

text \<open>Linking: the freed piece is put between the pieces above and below it.\<close>

lemma free_link_pieces:
  assumes f: "free_pieces s (hi @ lo)" and e: "e \<noteq> NULL" "unat e + 4 \<le> 65536" "seg_size s e = n"
    and o: "\<forall>x \<in> set hi. above x (e, n)" "\<forall>x \<in> set lo. above (e, n) x"
  shows "\<exists>t. free_link e (last_addr hi) s = (last_addr hi, t) \<and> free_pieces t (hi @ (e, n) # lo) \<and>
    kmalloc_break t = kmalloc_break s \<and> kmalloc_heap_start t = kmalloc_heap_start s \<and> kmalloc_heap_end t = kmalloc_heap_end s"
proof -
  have srt: "sorted_wrt above (hi @ (e, n) # lo)" "\<forall>x \<in> set (hi @ (e, n) # lo). unat (fst x) + 4 \<le> 65536"
    using f o e(2) by (auto simp: free_pieces_def sorted_wrt_append)
  have ap: "apart (fst x) e" "apart e (fst x)" if "x \<in> set (hi @ lo)" for x
    using that above_apart[of x "(e, n)"] above_apart[of "(e, n)" x] o srt(2) by auto
  from f obtain c where c: "pieces s (freelist_head s) hi c" "pieces s c lo NULL" by (auto simp: free_pieces_def pieces_append)
  show ?thesis
  proof (cases "hi = []")
    case True
    have "pieces (set_next e c s) c lo NULL"
      by (rule pieces_keep[OF c(2)]) (simp add: header_other ap)
    moreover have "c = freelist_head s" using c(1) True by simp
    ultimately show ?thesis using True e srt by (simp add: free_link_def free_pieces_def pieces_mid)
  next
    case False
    then obtain ys l m where hi: "hi = ys @ [(l, m)]" by (metis append_butlast_last_id surj_pair)
    let ?t = "set_next l e (set_next e (seg_next s l) s)"
    have l: "l \<noteq> NULL" "seg_size s l = m" "seg_next s l = c" "pieces s (freelist_head s) ys l" using c(1) by (auto simp: hi pieces_append)
    have al: "apart (fst x) l" if "x \<in> set ys \<or> x \<in> set lo" for x
      using that free_pieces_mid(5)[of s ys l m lo] f by (auto simp: hi)
    have "apart l e" "apart e l" using ap[of "(l, m)"] by (simp_all add: hi)
    moreover have "pieces ?t (freelist_head s) ys l"
      by (rule pieces_keep[OF l(4)]) (simp add: header_other ap al hi)
    moreover have "pieces ?t c lo NULL" by (rule pieces_keep[OF c(2)]) (simp add: header_other ap al)
    ultimately show ?thesis using l e srt by (simp add: free_link_def free_pieces_def pieces_mid hi header_other pieces_append)
  qed
qed

text \<open>
  Coalescing: the header \<open>h\<close> is absorbed by the piece \<open>l\<close> right below it and the piece before is
  linked to \<open>l\<close>. Both merging steps of \<open>kfree\<close> are this one, with different variables.
\<close>

definition absorb :: "addr \<Rightarrow> addr \<Rightarrow> addr \<Rightarrow> kheap \<Rightarrow> kheap" where
  "absorb h l prev s =
     (let s = set_size l (seg_size s l + (seg_size s h + HDR)) s;
          s = write_seg_header h 0 NULL s
      in if prev \<noteq> NULL then set_next prev l s else s\<lparr>freelist_head := l\<rparr>)"

lemma merge_left_absorb:
  "merge_left p left_prev left prev s =
     (if left \<noteq> NULL \<and> segment_end s p = left
      then (if left_prev \<noteq> NULL then left_prev else prev, absorb left p left_prev s) else (prev, s))"
  by (simp add: merge_left_def absorb_def Let_def)

lemma merge_right_absorb:
  "merge_right p right prev s =
     (if right \<noteq> NULL \<and> segment_end s right = p then (right, absorb p right prev s) else (p, s))"
  by (simp add: merge_right_def absorb_def Let_def)

lemma absorb_regs [simp]:
  "kmalloc_break (absorb h l prev s) = kmalloc_break s" "kmalloc_heap_start (absorb h l prev s) = kmalloc_heap_start s"
  "kmalloc_heap_end (absorb h l prev s) = kmalloc_heap_end s"
  by (simp_all add: absorb_def Let_def)

lemma absorb_pieces:
  assumes f: "free_pieces s (hi @ (h, m) # (l, n) # lo)"
  shows "free_pieces (absorb h l (last_addr hi) s) (hi @ (l, n + (m + HDR)) # lo)"
proof -
  have srt: "sorted_wrt above (hi @ (l, n + (m + HDR)) # lo)" "\<forall>x \<in> set (hi @ (l, n + (m + HDR)) # lo). unat (fst x) + 4 \<le> 65536"
    using f by (auto simp: free_pieces_def sorted_wrt_append)
  note H = free_pieces_mid[OF f]
  have f': "free_pieces s ((hi @ [(h, m)]) @ (l, n) # lo)" using f by simp
  note L = free_pieces_mid[OF f']
  have hl: "apart h l" "apart l h" using H(5) by auto
  have ah: "apart (fst x) h" if "x \<in> set (hi @ lo)" for x using H(5) that by auto
  have al: "apart (fst x) l" if "x \<in> set (hi @ lo)" for x using L(5) that by auto
  let ?s = "write_seg_header h 0 NULL (set_size l (n + (m + HDR)) s)"
  have lo: "pieces ?s (seg_next s l) lo NULL"
    by (rule pieces_keep[OF L(4)]) (simp add: header_other write_header_other ah al)
  show ?thesis
  proof (cases "hi = []")
    case True
    with H L lo hl srt show ?thesis by (simp add: absorb_def free_pieces_def write_header_other header_other)
  next
    case False
    then obtain ys q k where hi: "hi = ys @ [(q, k)]" by (metis append_butlast_last_id surj_pair)
    have q: "q \<noteq> NULL" "seg_size s q = k" "pieces s (freelist_head s) ys q" using H(1) by (auto simp: hi pieces_append)
    have aq: "apart (fst x) q" if "x \<in> set ys \<or> x \<in> set lo" for x
      using that free_pieces_mid(5)[of s ys q k "(h, m) # (l, n) # lo"] f by (auto simp: hi)
    have "apart q h" "apart q l" using ah[of "(q, k)"] al[of "(q, k)"] by (simp_all add: hi)
    moreover from this have "apart l q" by (simp add: apart_sym)
    moreover have "pieces (set_next q l ?s) (freelist_head s) ys q"
      by (rule pieces_keep[OF q(3)]) (simp add: header_other write_header_other ah al aq hi)
    moreover have "pieces (set_next q l ?s) (seg_next s l) lo NULL"
      by (rule pieces_keep[OF lo]) (simp add: header_other aq)
    ultimately show ?thesis using H L hl q srt
      by (simp add: absorb_def free_pieces_def pieces_mid hi pieces_append header_other write_header_other)
  qed
qed

text \<open>Reducing: the last piece is given back if it is at the break.\<close>

lemma reduce_pieces:
  assumes f: "free_pieces s (hi @ (e, n) # lo)"
  shows "if e = kmalloc_break s \<and> lo = []
    then free_pieces (reduce_break e (last_addr hi) s) hi \<and> kmalloc_break (reduce_break e (last_addr hi) s) = e + HDR + n
    else reduce_break e (last_addr hi) s = s"
proof -
  note E = free_pieces_mid[OF f]
  have nxt: "seg_next s e = NULL \<longleftrightarrow> lo = []" using E(4) by (cases lo) auto
  show ?thesis
  proof (cases "e = kmalloc_break s \<and> lo = []")
    case True
    have srt: "sorted_wrt above hi" "\<forall>x \<in> set hi. unat (fst x) + 4 \<le> 65536"
      using f by (auto simp: free_pieces_def sorted_wrt_append)
    let ?s = "write_seg_header e 0 NULL (s\<lparr>kmalloc_break := e + HDR + n\<rparr>)"
    have k: "pieces ?s (freelist_head s) hi e"
      by (rule pieces_keep[OF E(1)]) (use E(5) in \<open>auto simp: write_header_other\<close>)
    show ?thesis
    proof (cases "hi = []")
      case True
      with \<open>e = kmalloc_break s \<and> lo = []\<close> nxt E(3) show ?thesis
        by (simp add: reduce_break_def free_pieces_def segment_end_def)
    next
      case False
      then obtain ys q k where hi: "hi = ys @ [(q, k)]" by (metis append_butlast_last_id surj_pair)
      have q: "q \<noteq> NULL" "seg_size ?s q = k" "pieces ?s (freelist_head s) ys q" using k by (auto simp: hi pieces_append)
      have aq: "apart (fst x) q" if "x \<in> set ys" for x
        using that free_pieces_mid(5)[of s ys q k "(e, n) # lo"] f by (auto simp: hi)
      have "pieces (set_next q NULL ?s) (freelist_head s) ys q"
        by (rule pieces_keep[OF q(3)]) (simp add: header_other aq)
      with True nxt E(3) q srt show ?thesis
        by (simp add: reduce_break_def free_pieces_def segment_end_def hi pieces_append)
    qed
  next
    case False
    have "reduce_break e (last_addr hi) s = s"
      unfolding reduce_break_def by (rule if_not_P) (use False nxt in blast)
    then show ?thesis unfolding if_not_P[OF False] .
  qed
qed

section \<open>The specification of kfree\<close>

text \<open>
  On the abstract list: the freed piece goes between the pieces above and below it, is joined with
  the piece right above it and with the piece right below it, and is given back to the unallocated
  heap if it is the lowest piece and at the break. The result is the list and the break.
\<close>

definition join_left :: "addr \<Rightarrow> u16 \<Rightarrow> (addr \<times> u16) list \<Rightarrow> (addr \<times> u16) list \<times> u16" where
  "join_left e n hi =
     (if hi \<noteq> [] \<and> e + HDR + n = last_addr hi then (butlast hi, n + (snd (last hi) + HDR)) else (hi, n))"

definition join_right :: "addr \<Rightarrow> u16 \<Rightarrow> (addr \<times> u16) list \<Rightarrow> (addr \<times> u16) \<times> (addr \<times> u16) list" where
  "join_right e n lo = (case lo of [] \<Rightarrow> ((e, n), [])
     | (r, k) # lo' \<Rightarrow> if r + HDR + k = e then ((r, k + (n + HDR)), lo') else ((e, n), lo))"

definition free_spec :: "addr \<Rightarrow> addr \<times> u16 \<Rightarrow> (addr \<times> u16) list \<Rightarrow> (addr \<times> u16) list \<times> addr" where
  "free_spec bk x xs =
     (let (hi, n) = join_left (fst x) (snd x) (takeWhile (\<lambda>y. fst x < fst y) xs);
          ((e, n), lo) = join_right (fst x) n (dropWhile (\<lambda>y. fst x < fst y) xs)
      in if lo = [] \<and> e = bk then (hi, e + HDR + n) else (hi @ (e, n) # lo, bk))"

text \<open>The case that the code gets wrong: the piece is joined with the head of the list, so that it has no
  piece before it, and then joined with the piece below it or given back. The code still has the old head
  in \<open>p_entry_prev\<close>.\<close>

definition stale_prev :: "addr \<Rightarrow> addr \<times> u16 \<Rightarrow> (addr \<times> u16) list \<Rightarrow> bool" where
  "stale_prev bk x xs \<longleftrightarrow>
     (let (hi, n) = join_left (fst x) (snd x) (takeWhile (\<lambda>y. fst x < fst y) xs);
          ((e, n), lo) = join_right (fst x) n (dropWhile (\<lambda>y. fst x < fst y) xs)
      in takeWhile (\<lambda>y. fst x < fst y) xs \<noteq> [] \<and> hi = [] \<and> (e \<noteq> fst x \<or> lo = [] \<and> e = bk))"

lemma last_addr_single [simp]: "last_addr [x] = fst x"
  by (simp add: last_addr_def)

lemma merge_left_spec:
  assumes f: "free_pieces s (hi @ (e, n) # lo)" and j: "join_left e n hi = (hi', n')"
  shows "\<exists>t. merge_left e (last_addr (butlast hi)) (last_addr hi) (last_addr hi) s =
      (if hi' = [] then last_addr hi else last_addr hi', t) \<and> free_pieces t (hi' @ (e, n') # lo) \<and>
    kmalloc_break t = kmalloc_break s \<and> kmalloc_heap_start t = kmalloc_heap_start s \<and> kmalloc_heap_end t = kmalloc_heap_end s"
proof -
  note E = free_pieces_mid[OF f]
  have null: "last_addr hi = NULL \<longleftrightarrow> hi = []" by (rule last_addr_null[OF E(1)])
  show ?thesis
  proof (cases "hi \<noteq> [] \<and> e + HDR + n = last_addr hi")
    case True
    then obtain ys l m where hi: "hi = ys @ [(l, m)]" by (metis append_butlast_last_id surj_pair)
    from True j have j': "hi' = ys" "n' = n + (m + HDR)" by (auto simp: join_left_def hi)
    have f': "free_pieces s (ys @ (l, m) # (e, n) # lo)" using f by (simp add: hi)
    from last_addr_null[OF free_pieces_mid(1)[OF f']] absorb_pieces[OF f'] True null E(3) show ?thesis
      by (simp add: merge_left_absorb hi j' segment_end_def)
  next
    case False
    with j null E(3) f show ?thesis by (auto simp: merge_left_absorb join_left_def segment_end_def)
  qed
qed

lemma merge_right_spec:
  assumes f: "free_pieces s (hi @ (e, n) # lo)" and j: "join_right e n lo = ((e', n'), lo')" and p: "e' \<noteq> e \<longrightarrow> prev = last_addr hi"
  shows "\<exists>t. merge_right e (hd_addr lo) prev s = (e', t) \<and> free_pieces t (hi @ (e', n') # lo') \<and>
    kmalloc_break t = kmalloc_break s \<and> kmalloc_heap_start t = kmalloc_heap_start s \<and> kmalloc_heap_end t = kmalloc_heap_end s"
proof (cases lo)
  case Nil
  with f j show ?thesis by (simp add: merge_right_absorb join_right_def hd_addr_def)
next
  case (Cons x lo2)
  obtain r k where x: "x = (r, k)" by (cases x)
  have f': "free_pieces s (hi @ (e, n) # (r, k) # lo2)" using f by (simp add: Cons x)
  have "free_pieces s ((hi @ [(e, n)]) @ (r, k) # lo2)" using f' by simp
  note R = free_pieces_mid[OF this]
  have "r \<noteq> e" using R(5) by (auto simp: apart_def)
  with f f' j p R(2,3) absorb_pieces[OF f'] show ?thesis
    by (auto simp: merge_right_absorb join_right_def hd_addr_def Cons x segment_end_def split: if_splits)
qed

lemma split_at:
  assumes "sorted_wrt above xs" "\<forall>x \<in> set xs. above x (e, n) \<or> above (e, n) x"
  shows "\<forall>x \<in> set (takeWhile (\<lambda>y. e < fst y) xs). above x (e, n)" "\<forall>x \<in> set (dropWhile (\<lambda>y. e < fst y) xs). above (e, n) x"
proof -
  have side: "if e < fst x then above x (e, n) else above (e, n) x" if "x \<in> set xs" for x
    using bspec[OF assms(2) that] by (simp add: word_less_nat_alt) linarith
  show "\<forall>x \<in> set (takeWhile (\<lambda>y. e < fst y) xs). above x (e, n)"
  proof
    fix x assume "x \<in> set (takeWhile (\<lambda>y. e < fst y) xs)"
    from set_takeWhileD[OF this] side[of x] show "above x (e, n)" by simp
  qed
  show "\<forall>x \<in> set (dropWhile (\<lambda>y. e < fst y) xs). above (e, n) x"
  proof (cases "dropWhile (\<lambda>y. e < fst y) xs")
    case (Cons y ys)
    have "\<not> e < fst y" using hd_dropWhile[of "\<lambda>y. e < fst y" xs] unfolding Cons by simp
    moreover have "y \<in> set xs" by (rule set_dropWhileD[of y "\<lambda>y. e < fst y"]) (simp add: Cons)
    ultimately have y: "above (e, n) y" using side[of y] by simp
    have "sorted_wrt above (takeWhile (\<lambda>y. e < fst y) xs @ y # ys)"
      using assms(1) unfolding Cons[symmetric] by simp
    then have "\<forall>x \<in> set ys. above y x" by (simp add: sorted_wrt_append)
    with y show ?thesis unfolding Cons by auto
  next
    case Nil
    show ?thesis unfolding Nil by simp
  qed
qed

lemma find_neighbours_free:
  assumes "free_pieces s (hi @ lo)" "\<forall>x \<in> set hi. above x (e, n)" "\<forall>x \<in> set lo. above (e, n) x"
  shows "find_neighbours s e (freelist_head s) NULL NULL = Some (False, last_addr (butlast hi), last_addr hi, hd_addr lo)"
proof -
  have "\<forall>x \<in> set hi. e < fst x" using assms(2) by (force simp: word_less_nat_alt)
  moreover have "lo \<noteq> [] \<longrightarrow> fst (hd lo) < e" using assms(3) by (cases lo) (auto simp: word_less_nat_alt)
  ultimately show ?thesis
    using find_neighbours_split[of s "freelist_head s" hi lo e NULL NULL] assms(1)
    by (auto simp: free_pieces_def last_addr_def)
qed

lemma reduce_spec:
  assumes f: "free_pieces s (hi @ (e, n) # lo)" and p: "prev = last_addr hi \<or> \<not> (lo = [] \<and> e = kmalloc_break s)"
    and R: "R = (if lo = [] \<and> e = kmalloc_break s then (hi, e + HDR + n) else (hi @ (e, n) # lo, kmalloc_break s))"
  shows "free_pieces (reduce_break e prev s) (fst R) \<and> kmalloc_break (reduce_break e prev s) = snd R \<and>
    kmalloc_heap_start (reduce_break e prev s) = kmalloc_heap_start s \<and> kmalloc_heap_end (reduce_break e prev s) = kmalloc_heap_end s"
proof (cases "lo = [] \<and> e = kmalloc_break s")
  case True
  with reduce_pieces[OF f] p R show ?thesis by (auto simp: reduce_break_def Let_def)
next
  case False
  have "seg_next s e = NULL \<longleftrightarrow> lo = []" using free_pieces_mid(4)[OF f] by (cases lo) auto
  then have "reduce_break e prev s = s" using False unfolding reduce_break_def by (intro if_not_P) blast
  with False f R show ?thesis by auto
qed

section \<open>What kfree writes\<close>

text \<open>Only bytes of the headers at the given addresses are changed.\<close>

definition writes_only :: "addr set \<Rightarrow> kheap \<Rightarrow> kheap \<Rightarrow> bool" where
  "writes_only E s t \<longleftrightarrow> (\<forall>a. (\<forall>p \<in> E. HDR \<le> a - p) \<longrightarrow> mem t a = mem s a)"

lemma writes_only_refl: "writes_only E s s"
  by (simp add: writes_only_def)

lemma writes_only_trans: "writes_only E s t \<Longrightarrow> writes_only E t u \<Longrightarrow> writes_only E s u"
  by (simp add: writes_only_def)

lemma writes_only_mono: "writes_only E s t \<Longrightarrow> E \<subseteq> F \<Longrightarrow> writes_only F s t"
  by (auto simp: writes_only_def)

lemma writes_only_set:
  "writes_only E s t \<Longrightarrow> p \<in> E \<Longrightarrow> writes_only E s (set_size p v t)"
  "writes_only E s t \<Longrightarrow> p \<in> E \<Longrightarrow> writes_only E s (set_next p w t)"
  "writes_only E s t \<Longrightarrow> p \<in> E \<Longrightarrow> writes_only E s (write_seg_header p v w t)"
  "writes_only E s t \<Longrightarrow> writes_only E s (t\<lparr>freelist_head := h\<rparr>)"
  "writes_only E s t \<Longrightarrow> writes_only E s (t\<lparr>kmalloc_break := h\<rparr>)"
  by (auto simp: writes_only_def set_size_def set_next_def write_seg_header_def st16_def add.assoc) (drule (1) bspec, simp add: word_le_nat_alt)+

lemma writes_only_header:
  assumes "writes_only E s t" "\<And>p. p \<in> E \<Longrightarrow> apart q p"
  shows "seg_size t q = seg_size s q" "seg_next t q = seg_next s q"
proof -
  have in_header: "HDR \<le> (q + i) - p" if "i \<le> 3" "p \<in> E" for i p
  proof -
    have "HDR \<le> q - p" "HDR \<le> p - q" using assms(2)[OF that(2)] by (auto simp: apart_def)
    then have n: "4 \<le> unat (q - p)" "4 \<le> unat (p - q)" by (simp_all add: word_le_nat_alt)
    then have "unat (q - p) \<le> 65532" using unsigned_less[of q, where ?'a = nat] unsigned_less[of p, where ?'a = nat]
      by (simp add: unat_sub_if' split: if_splits)
    moreover have "unat i \<le> 3" using that(1) by (simp add: word_le_nat_alt)
    ultimately have "unat ((q - p) + i) = unat (q - p) + unat i" by (simp add: unat_plus_if')
    moreover have "(q + i) - p = (q - p) + i" by simp
    ultimately show ?thesis using n by (simp only: word_le_nat_alt) simp
  qed
  have "mem t (q + i) = mem s (q + i)" if "i \<le> 3" for i
    using assms(1) in_header[OF that] by (auto simp: writes_only_def)
  from this[of 0] this[of 1] this[of 2] this[of 3] show "seg_size t q = seg_size s q" "seg_next t q = seg_next s q"
    by (simp_all add: seg_size_def seg_next_def ld16_def add.assoc)
qed

lemma kfree_writes:
  assumes "find_neighbours s (p - HDR) (freelist_head s) NULL NULL = Some (df, lp, l, r)" "kfree p s = Some t"
  shows "writes_only ({p - HDR, lp, l, r} - {NULL} \<union> {p - HDR}) s t"
  using assms
  by (auto simp: kfree_def free_link_def merge_left_def merge_right_def reduce_break_def Let_def writes_only_refl
      intro!: writes_only_set split: if_splits)


section \<open>kfree refines its specification\<close>

lemma kfree_spec:
  assumes "pointer_is_valid s p" "HDR < p" "free_pieces s xs"
    and "\<forall>x \<in> set xs. above x (p - HDR, n) \<or> above (p - HDR, n) x"
    and "seg_size s (p - HDR) = n" "\<not> stale_prev (kmalloc_break s) (p - HDR, n) xs"
  shows "\<exists>t. kfree p s = Some t \<and> free_pieces t (fst (free_spec (kmalloc_break s) (p - HDR, n) xs)) \<and>
    kmalloc_break t = snd (free_spec (kmalloc_break s) (p - HDR, n) xs) \<and>
    kmalloc_heap_start t = kmalloc_heap_start s \<and> kmalloc_heap_end t = kmalloc_heap_end s \<and>
    writes_only (fst ` set ((p - HDR, n) # xs)) s t"
proof -
  define e where "e = p - HDR"
  define hi where "hi = takeWhile (\<lambda>y. e < fst y) xs"
  define lo where "lo = dropWhile (\<lambda>y. e < fst y) xs"
  have e: "e \<noteq> NULL" "unat e + 4 \<le> 65536"
    using assms(2) unsigned_less[of p, where ?'a = nat] by (auto simp: e_def word_less_nat_alt unat_sub_if')
  have xs: "xs = hi @ lo" by (simp add: hi_def lo_def)
  have hl: "\<forall>x \<in> set hi. above x (e, n)" "\<forall>x \<in> set lo. above (e, n) x"
    using split_at[OF _ assms(4)[folded e_def]] assms(3) unfolding hi_def lo_def by (simp_all add: free_pieces_def)
  obtain hi' n1 where J: "join_left e n hi = (hi', n1)" by fastforce
  obtain e' n' lo' where J': "join_right e n1 lo = ((e', n'), lo')" by (cases "join_right e n1 lo") auto
  have spec: "free_spec (kmalloc_break s) (e, n) xs =
      (if lo' = [] \<and> e' = kmalloc_break s then (hi', e' + HDR + n') else (hi' @ (e', n') # lo', kmalloc_break s))"
    by (simp add: free_spec_def hi_def[symmetric] lo_def[symmetric] J J')
  have ok: "hi = [] \<or> hi' \<noteq> [] \<or> e' = e \<and> \<not> (lo' = [] \<and> e' = kmalloc_break s)"
    using assms(6) unfolding e_def[symmetric] by (auto simp: stale_prev_def hi_def[symmetric] lo_def[symmetric] J J')
  have find: "find_neighbours s e (freelist_head s) NULL NULL = Some (False, last_addr (butlast hi), last_addr hi, hd_addr lo)"
    using find_neighbours_free[of s hi lo e n] hl assms(3) xs by simp
  from free_link_pieces[OF _ e assms(5)[folded e_def] hl] assms(3) xs obtain s1
    where s1: "free_link e (last_addr hi) s = (last_addr hi, s1)" "free_pieces s1 (hi @ (e, n) # lo)" "kmalloc_break s1 = kmalloc_break s"
      "kmalloc_heap_start s1 = kmalloc_heap_start s" "kmalloc_heap_end s1 = kmalloc_heap_end s" by auto
  define prev where "prev = (if hi' = [] then last_addr hi else last_addr hi')"
  from merge_left_spec[OF s1(2) J] obtain s2
    where s2: "merge_left e (last_addr (butlast hi)) (last_addr hi) (last_addr hi) s1 = (prev, s2)" "free_pieces s2 (hi' @ (e, n1) # lo)"
      "kmalloc_break s2 = kmalloc_break s" "kmalloc_heap_start s2 = kmalloc_heap_start s" "kmalloc_heap_end s2 = kmalloc_heap_end s"
    by (auto simp: prev_def s1)
  have prev: "prev = last_addr hi' \<or> e' = e \<and> \<not> (lo' = [] \<and> e' = kmalloc_break s)"
    using ok J by (auto simp: prev_def join_left_def)
  then obtain s3 where s3: "merge_right e (hd_addr lo) prev s2 = (e', s3)" "free_pieces s3 (hi' @ (e', n') # lo')"
      "kmalloc_break s3 = kmalloc_break s" "kmalloc_heap_start s3 = kmalloc_heap_start s" "kmalloc_heap_end s3 = kmalloc_heap_end s"
    using merge_right_spec[OF s2(2) J', of prev] s2 by auto
  have k: "kfree p s = Some (reduce_break e' prev s3)"
    using assms(1) by (simp add: kfree_def e_def[symmetric] find s1 s2 s3)
  have "prev = last_addr hi' \<or> \<not> (lo' = [] \<and> e' = kmalloc_break s3)" using prev s3(3) by auto
  note R = reduce_spec[OF s3(2) this refl, unfolded s3(3-5)]
  have "{e, last_addr (butlast hi), last_addr hi, hd_addr lo} - {NULL} \<union> {e} \<subseteq> fst ` set ((e, n) # xs)"
    using last_addr_in[of hi] last_addr_in[of "butlast hi"] unfolding xs
    by (auto simp: hd_addr_def last_addr_def dest: in_set_butlastD split: list.splits)
  from writes_only_mono[OF kfree_writes[OF find[unfolded e_def] k, folded e_def] this]
  show ?thesis unfolding e_def[symmetric] spec k using R by blast
qed

text \<open>C35: kfree refines the specification on the abstract free list: it returns, the freed block is
  inserted in order, joined with the pieces that touch it, and given back to the heap if it is at the
  break, except in the case \<^const>\<open>stale_prev\<close>. No byte outside of
  the headers of the block and of the free pieces is changed.\<close>

theorem kfree_refines_spec:
  assumes "pointer_is_valid s p" "HDR < p" "free_pieces s xs"
    and "\<forall>x \<in> set xs. above x (p - HDR, n) \<or> above (p - HDR, n) x"
    and "seg_size s (p - HDR) = n" "\<not> stale_prev (kmalloc_break s) (p - HDR, n) xs"
  shows "\<exists>t. kfree p s = Some t \<and> free_pieces t (fst (free_spec (kmalloc_break s) (p - HDR, n) xs)) \<and>
    kmalloc_break t = snd (free_spec (kmalloc_break s) (p - HDR, n) xs) \<and>
    kmalloc_heap_start t = kmalloc_heap_start s \<and> kmalloc_heap_end t = kmalloc_heap_end s \<and>
    writes_only (fst ` set ((p - HDR, n) # xs)) s t"
  using assms by (rule kfree_spec)

theorem kfree_refines_spec_witness:
  "\<exists>t. kfree 124 (ex_heap [(150, 8, 110), (110, 6, NULL), (120, 4, NULL)] 100) = Some t \<and>
    free_pieces t [(150, 8), (110, 14)] \<and> kmalloc_break t = 100"
proof -
  let ?s = "ex_heap [(150, 8, 110), (110, 6, NULL), (120, 4, NULL)] 100" and ?xs = "[(150, 8), (110, 6)]"
  have eq: "free_spec (kmalloc_break ?s) (124 - HDR, 4) ?xs = ([(150, 8), (110, 14)], 100)"
    by (simp add: free_spec_def join_left_def join_right_def last_addr_def ex_heap_def)
  have "pointer_is_valid ?s 124" by (simp add: pointer_is_valid_def MAX_HEAP_SIZE_def ex_heap_eval)
  moreover have "free_pieces ?s ?xs" by (simp add: free_pieces_def ex_heap_eval)
  moreover have "seg_size ?s (124 - HDR) = 4" by (simp add: ex_heap_eval)
  moreover have "\<not> stale_prev (kmalloc_break ?s) (124 - HDR, 4) ?xs"
    by (simp add: stale_prev_def join_left_def join_right_def last_addr_def ex_heap_def)
  ultimately show ?thesis using kfree_refines_spec[of ?s 124 ?xs 4, unfolded eq fst_conv snd_conv] by auto
qed

section \<open>Double frees\<close>

lemma find_neighbours_found:
  "pieces s a (hi @ (e, n) # lo) NULL \<Longrightarrow> \<forall>x \<in> set hi. e < fst x \<Longrightarrow>
   \<exists>lp l. find_neighbours s e a lp' l' = Some (True, lp, l, NULL)"
proof (induction hi arbitrary: a lp' l')
  case Nil
  then show ?case by (subst find_neighbours.simps) simp
next
  case (Cons x hi)
  from Cons.prems(1) have a: "a = fst x" "a \<noteq> NULL" "pieces s (seg_next s a) (hi @ (e, n) # lo) NULL"
    by (cases x; auto)+
  have "find_neighbours s e a lp' l' = find_neighbours s e (seg_next s a) l' a"
    using a Cons.prems(2) by (subst find_neighbours.simps) simp
  with Cons.IH[OF a(3)] Cons.prems(2) show ?case by auto
qed

text \<open>Freeing a block that is already on the free list changes nothing, and so does a pointer that is not
  valid: the block is either taken for an invalid one or found on the list.\<close>

lemma kfree_double_free:
  assumes "free_pieces s xs" "(p - HDR) \<in> fst ` set xs \<or> \<not> pointer_is_valid s p"
  shows "kfree p s = Some s"
proof (cases "pointer_is_valid s p")
  case True
  then obtain hi n lo where xs: "xs = hi @ (p - HDR, n) # lo" using assms(2) by (force dest: split_list)
  have "\<forall>x \<in> set hi. p - HDR < fst x" using assms(1) by (force simp: xs free_pieces_def sorted_wrt_append word_less_nat_alt)
  with assms(1) obtain lp l where "find_neighbours s (p - HDR) (freelist_head s) NULL NULL = Some (True, lp, l, NULL)"
    using find_neighbours_found by (metis free_pieces_def xs)
  with True show ?thesis by (simp add: kfree_def)
qed (simp add: kfree_def)

lemma kfree_double_free_example:
  "kfree 124 (ex_heap [(150, 8, 120), (120, 4, NULL)] 100) = Some (ex_heap [(150, 8, 120), (120, 4, NULL)] 100)"
proof -
  have "free_pieces (ex_heap [(150, 8, 120), (120, 4, NULL)] 100) [(150, 8), (120, 4)]"
    by (simp add: free_pieces_def ex_heap_eval)
  from kfree_double_free[OF this, of 124] show ?thesis by simp
qed

section \<open>Freeing in reverse order\<close>

primrec kfrees :: "addr list \<Rightarrow> kheap \<Rightarrow> kheap option" where
  "kfrees [] s = Some s"
| "kfrees (p # ps) s = do { s \<leftarrow> kfree p s; kfrees ps s }"

lemma kfrees_append: "kfrees (ps @ qs) s = kfrees ps s \<bind> kfrees qs"
  by (induction ps arbitrary: s) (auto split: bind_split)

text \<open>The lowest block is given back to the heap when nothing is on the free list.\<close>

lemma kfree_lowest:
  assumes "freelist_head s = NULL" "p - HDR = kmalloc_break s" "HDR < p" "pointer_is_valid s p"
  shows "\<exists>t. kfree p s = Some t \<and> freelist_head t = NULL \<and> kmalloc_break t = p + seg_size s (p - HDR) \<and>
    kmalloc_heap_start t = kmalloc_heap_start s \<and> kmalloc_heap_end t = kmalloc_heap_end s \<and> writes_only {p - HDR} s t"
proof -
  have "free_pieces s []" using assms(1) by (simp add: free_pieces_def)
  from kfree_spec[OF assms(4,3) this _ refl] show ?thesis
    by (simp add: assms(2)[symmetric] free_spec_def stale_prev_def join_left_def join_right_def free_pieces_def)
qed


lemma kmallocs_kfrees:
  "fresh_heap s \<Longrightarrow> \<forall>len \<in> set lens. len_ok s len \<Longrightarrow> kmallocs lens s = Some (ps, t) \<Longrightarrow> NULL \<notin> set ps \<Longrightarrow>
   \<exists>u. kfrees (rev ps) t = Some u \<and> save_kmalloc_param u = save_kmalloc_param s \<and>
     (\<forall>q. unat (kmalloc_break s) \<le> unat q \<and> unat q + 4 \<le> 65536 \<longrightarrow> seg_size u q = seg_size s q \<and> seg_next u q = seg_next s q)"
proof (induction lens arbitrary: s ps)
  case (Cons len lens)
  have l: "len_ok s len" using Cons.prems(2) by simp
  obtain p s1 ps' where k: "kmalloc len s = Some (p, s1)" "kmallocs lens s1 = Some (ps', t)" "ps = p # ps'"
    using Cons.prems(3) by (auto elim!: bind_SomeE)
  have p: "p \<noteq> NULL" "NULL \<notin> set ps'" using Cons.prems(4) k(3) by auto
  note S = kmalloc_fresh_step[OF Cons.prems(1) disjI1[OF l] k(1)]
  have P: "unat p + unat len = unat (kmalloc_break s)" "unat (kmalloc_break s1) + 4 = unat p" "seg_size s1 (p - HDR) = len"
    "\<And>q. unat p \<le> unat q \<Longrightarrow> unat q + 4 \<le> 65536 \<Longrightarrow> seg_size s1 q = seg_size s q \<and> seg_next s1 q = seg_next s q"
    using S(6)[OF p(1)] by blast+
  have "\<forall>len \<in> set lens. len_ok s1 len" using Cons.prems(2) S(2,3) by (simp add: len_ok_def)
  from Cons.IH[OF S(1) this k(2) p(2)] obtain u where u: "kfrees (rev ps') t = Some u" "save_kmalloc_param u = save_kmalloc_param s1"
    "\<And>q. unat (kmalloc_break s1) \<le> unat q \<Longrightarrow> unat q + 4 \<le> 65536 \<Longrightarrow> seg_size u q = seg_size s1 q \<and> seg_next u q = seg_next s1 q"
    by blast
  have up: "unat p < 65536" "unat (kmalloc_break s) < 65536" using unsigned_less[of p] unsigned_less[of "kmalloc_break s"] by simp_all
  have e: "unat (p - HDR) = unat (kmalloc_break s1)" "p - HDR = kmalloc_break s1"
    using P(2) by (auto simp: word_unat_eq_iff unat_sub_if')
  have bk: "p + len = kmalloc_break s" using P(1) up by (simp add: word_unat_eq_iff unat_plus_if')
  have hd: "seg_size u (p - HDR) = len" "seg_next u (p - HDR) = NULL"
    using u(3)[of "p - HDR"] e(1) up P(2,3) S(7)[OF p(1)] by auto
  have regs: "kmalloc_break u = p - HDR" "freelist_head u = NULL" "kmalloc_heap_start u = kmalloc_heap_start s" "kmalloc_heap_end u = kmalloc_heap_end s"
    using u(2) e(2) S(1,2,3) by (auto simp: save_kmalloc_param_def fresh_heap_def)
  have ord: "unat (kmalloc_break s) \<le> unat (kmalloc_heap_start s)" "unat (kmalloc_heap_end s) \<le> unat (kmalloc_break s1)" "0 < unat (kmalloc_heap_end s)"
    using Cons.prems(1) S(1,3) by (auto simp: fresh_heap_def word_le_nat_alt word_less_nat_alt)
  have v: "pointer_is_valid u p" using p(1) hd ord P e(1)
    by (auto simp: pointer_is_valid_def MAX_HEAP_SIZE_def regs word_le_nat_alt word_less_nat_alt unat_sub_if')
  have "HDR < p" using P(2) ord by (simp add: word_less_nat_alt)
  from kfree_lowest[OF regs(2) regs(1)[symmetric] this v] obtain w where w: "kfree p u = Some w" "freelist_head w = NULL" "kmalloc_break w = kmalloc_break s"
    "kmalloc_heap_start w = kmalloc_heap_start s" "kmalloc_heap_end w = kmalloc_heap_end s" "writes_only {p - HDR} u w"
    using hd bk regs by auto
  have "seg_size w q = seg_size s q \<and> seg_next w q = seg_next s q" if q: "unat (kmalloc_break s) \<le> unat q" "unat q + 4 \<le> 65536" for q
  proof -
    have "apart q (p - HDR)" by (rule apart_sym, rule apartI) (use q P e in simp_all)
    then show ?thesis using writes_only_header[OF w(6), of q] u(3)[of q] P(1,2) P(4)[of q] q by auto
  qed
  moreover have "save_kmalloc_param w = save_kmalloc_param s" using w Cons.prems(1) by (simp add: save_kmalloc_param_def fresh_heap_def)
  ultimately show ?case using w(1) u(1) k(3) by (auto simp: kfrees_append)
qed simp

text \<open>C38: Blocks that are allocated from an initialised heap and freed in reverse order leave the allocator as
  it was: the break, the free list and the bounds are those of the start.\<close>

theorem kmalloc_kfree_lifo:
  assumes "init_kmalloc start end_addr s = (1, s0)" "0 < end_addr"
    and "\<forall>len \<in> set lens. unat len + 4 + (unat start - unat end_addr) < 65536"
    and "kmallocs lens s0 = Some (ps, t)" "NULL \<notin> set ps"
  shows "\<exists>u. kfrees (rev ps) t = Some u \<and> save_kmalloc_param u = save_kmalloc_param s0"
proof -
  have "end_addr \<le> start" "s0 = s\<lparr>kmalloc_heap_start := start, kmalloc_heap_end := end_addr, kmalloc_break := start, freelist_head := NULL\<rparr>"
    using assms(1) by (auto simp: init_kmalloc_def split: if_splits)
  then have "fresh_heap s0" "\<forall>len \<in> set lens. len_ok s0 len"
    using assms(2,3) by (simp_all add: fresh_heap_def len_ok_def)
  from kmallocs_kfrees[OF this assms(4,5)] show ?thesis by blast
qed

theorem kmalloc_kfree_lifo_witness:
  "\<exists>s0 t u. init_kmalloc 100 40 (ex_heap [] 0) = (1, s0) \<and> kmallocs [8, 3] s0 = Some ([92, 85], t) \<and>
     kfrees [85, 92] t = Some u \<and> kmalloc_break u = 100"
proof -
  define s0 where "s0 = snd (init_kmalloc 100 40 (ex_heap [] 0))"
  have i: "init_kmalloc 100 40 (ex_heap [] 0) = (1, s0)" by (simp add: init_kmalloc_def s0_def)
  have f: "fresh_heap s0" "len_ok s0 8" by (simp_all add: s0_def init_kmalloc_def fresh_heap_def len_ok_def)
  from kmalloc_fresh[OF f(1) disjI1[OF f(2)]] obtain s1 where s1: "kmalloc 8 s0 = Some (92, s1)" "kmalloc_break s1 = 88"
    by (simp add: s0_def init_kmalloc_def)
  note S = kmalloc_fresh_step[OF f(1) disjI1[OF f(2)] s1(1)]
  have r: "kmalloc_heap_start s1 = 100" "kmalloc_heap_end s1 = 40" using S(2,3) by (simp_all add: s0_def init_kmalloc_def)
  then have "len_ok s1 3" by (simp add: len_ok_def)
  from kmalloc_fresh[OF S(1) disjI1[OF this]] obtain t where "kmallocs [8, 3] s0 = Some ([92, 85], t)" using s1 r by simp
  with kmalloc_kfree_lifo[OF i _ _ this] i show ?thesis by (auto simp: save_kmalloc_param_def s0_def init_kmalloc_def)
qed

section \<open>The stale previous entry\<close>

text \<open>Two adjacent blocks at the bottom of the heap: freeing the upper one puts it on the list.\<close>

lemma kfree_upper:
  assumes "freelist_head s = NULL" "pointer_is_valid s p" "HDR < p" "p - HDR \<noteq> kmalloc_break s" "seg_size s (p - HDR) = n"
  shows "\<exists>t. kfree p s = Some t \<and> free_pieces t [(p - HDR, n)] \<and> kmalloc_break t = kmalloc_break s \<and>
    kmalloc_heap_start t = kmalloc_heap_start s \<and> kmalloc_heap_end t = kmalloc_heap_end s \<and> writes_only {p - HDR} s t"
proof -
  have "free_pieces s []" using assms(1) by (simp add: free_pieces_def)
  from kfree_spec[OF assms(2,3) this _ assms(5)] show ?thesis
    using assms(4) by (simp add: free_spec_def stale_prev_def join_left_def join_right_def)
qed

text \<open>Freeing the lower one joins the two and gives them back, but leaves the list with the erased header.\<close>

lemma kfree_lower:
  assumes f: "free_pieces s [(a, n)]" and v: "pointer_is_valid s p" "HDR < p" "p - HDR = kmalloc_break s"
    and b: "seg_size s (p - HDR) = m" "p + m = a" "unat (p - HDR) + 4 \<le> unat a"
  shows "\<exists>t. kfree p s = Some t \<and> freelist_head t = p - HDR \<and> seg_size t (p - HDR) = 0 \<and> seg_next t (p - HDR) = NULL \<and>
    kmalloc_break t = a + HDR + n \<and> kmalloc_heap_start t = kmalloc_heap_start s \<and> kmalloc_heap_end t = kmalloc_heap_end s"
proof -
  let ?e = "p - HDR"
  have e: "?e \<noteq> NULL" "unat ?e + 4 \<le> 65536"
    using v(2) unsigned_less[of p, where ?'a = nat] by (auto simp: word_less_nat_alt unat_sub_if')
  have adj: "?e + HDR + m = a" using b(2) by simp
  have find: "find_neighbours s ?e (freelist_head s) NULL NULL = Some (False, NULL, a, NULL)"
    using find_neighbours_free[of s "[(a, n)]" "[]" ?e m] f b(3) by (simp add: hd_addr_def)
  from free_link_pieces[of s "[(a, n)]" "[]" ?e m] f e b obtain s1
    where s1: "free_link ?e a s = (a, s1)" "free_pieces s1 [(a, n), (?e, m)]" "kmalloc_break s1 = kmalloc_break s"
      "kmalloc_heap_start s1 = kmalloc_heap_start s" "kmalloc_heap_end s1 = kmalloc_heap_end s" by auto
  have J: "join_left ?e m [(a, n)] = ([], m + (n + HDR))" using adj by (simp add: join_left_def)
  from merge_left_spec[of s1 "[(a, n)]" ?e m "[]", OF _ J] s1 obtain s2
    where s2: "merge_left ?e NULL a a s1 = (a, s2)" "free_pieces s2 [(?e, m + (n + HDR))]" "kmalloc_break s2 = kmalloc_break s"
      "kmalloc_heap_start s2 = kmalloc_heap_start s" "kmalloc_heap_end s2 = kmalloc_heap_end s" by auto
  have h2: "freelist_head s2 = ?e" "seg_size s2 ?e = m + (n + HDR)" "seg_next s2 ?e = NULL" using s2(2) by (auto simp: free_pieces_def)
  have a: "a \<noteq> NULL" "apart ?e a" using f b(3) by (auto simp: free_pieces_def intro!: apartI)
  have "kfree p s = Some (reduce_break ?e a s2)" using v(1) find s1(1) s2(1) by (simp add: kfree_def merge_right_def)
  moreover have "?e + HDR + (m + (n + HDR)) = a + HDR + n" unfolding adj[symmetric] by simp
  ultimately show ?thesis using v(3) h2 s2 a
    by (simp add: reduce_break_def segment_end_def Let_def header_other del: diff_add_cancel)
qed

text \<open>Two blocks, of \<open>n\<close> and \<open>m\<close> bytes with the headers \<open>A\<close> and \<open>B\<close>, at the bottom of a heap.\<close>

definition two_blocks :: "kheap \<Rightarrow> addr \<Rightarrow> u16 \<Rightarrow> addr \<Rightarrow> u16 \<Rightarrow> bool" where
  "two_blocks s A n B m \<longleftrightarrow> kmalloc_break s = B \<and> seg_size s B = m \<and> seg_next s B = NULL \<and> seg_size s A = n \<and> seg_next s A = NULL \<and>
     freelist_head s = NULL \<and> B + HDR + m = A \<and> unat B + unat m + 4 = unat A \<and> A + HDR + n = kmalloc_heap_start s \<and>
     unat A + unat n + 4 = unat (kmalloc_heap_start s) \<and> 0 < unat (kmalloc_heap_end s) \<and> unat (kmalloc_heap_end s) \<le> unat B"

lemma kmalloc_two_blocks:
  assumes "init_kmalloc start end_addr s = (1, s0)" "0 < end_addr" "unat n + unat m + 8 \<le> unat start - unat end_addr"
  shows "\<exists>A B s1 s2. kmalloc n s0 = Some (A + HDR, s1) \<and> kmalloc m s1 = Some (B + HDR, s2) \<and> two_blocks s2 A n B m \<and>
    kmalloc_heap_start s2 = start \<and> kmalloc_heap_end s2 = end_addr"
proof -
  have i: "end_addr \<le> start" "s0 = s\<lparr>kmalloc_heap_start := start, kmalloc_heap_end := end_addr, kmalloc_break := start, freelist_head := NULL\<rparr>"
    using assms(1) by (auto simp: init_kmalloc_def split: if_splits)
  define A where "A = start - (n + HDR)"
  define B where "B = A - (m + HDR)"
  have up: "unat start < 65536" "0 < unat end_addr" "unat end_addr \<le> unat start"
    using unsigned_less[of start] assms(2) i(1) by (simp_all add: word_less_nat_alt word_le_nat_alt)
  have u4: "unat (n + HDR) = unat n + 4" "unat (m + HDR) = unat m + 4" using assms(3) up by (auto simp: unat_plus_if')
  then have A: "unat A + unat n + 4 = unat start" using assms(3) up by (simp add: A_def unat_sub_if')
  then have B: "unat B + unat m + 4 = unat A" using assms(3) up u4 by (simp add: B_def unat_sub_if')
  have low: "unat end_addr \<le> unat B" using A B assms(3) up by linarith
  have f0: "fresh_heap s0" using i assms(2) by (simp add: fresh_heap_def)
  have wA: "A + HDR + n = start" "B + HDR + m = A" by (simp_all add: A_def B_def)
  have nz: "B \<noteq> NULL" "unat (A + HDR) = unat A + 4" "unat (B + HDR) = unat B + 4"
    using A B low up by (auto simp: word_less_nat_alt unat_plus_if')
  obtain s1 where m1: "kmalloc n s0 = Some (A + HDR, s1)"
    using kmalloc_fresh[OF f0, of n] A low B i(2) wA(1) by (simp add: A_def)
  have fit: "unat (kmalloc_heap_end s0) + unat n + 4 \<le> unat (kmalloc_break s0)" using A B low i(2) by simp
  note S1 = kmalloc_fresh_step[OF f0 disjI2[OF fit] m1]
  have r1: "kmalloc_heap_start s1 = start" "kmalloc_heap_end s1 = end_addr" "kmalloc_break s1 = A" "seg_size s1 A = n" "seg_next s1 A = NULL"
    using S1 nz i(2) by (auto simp: word_unat_eq_iff)
  have fit1: "unat (kmalloc_heap_end s1) + unat m + 4 \<le> unat (kmalloc_break s1)" using B low r1 by simp
  obtain s2 where m2: "kmalloc m s1 = Some (B + HDR, s2)"
    using kmalloc_fresh[OF S1(1), of m] fit1 r1 wA(2)[symmetric] by simp
  note S2 = kmalloc_fresh_step[OF S1(1) disjI2[OF fit1] m2]
  have "unat (B + HDR) \<le> unat A" "unat A + 4 \<le> 65536" using A B nz up by auto
  then have r2: "kmalloc_heap_start s2 = start" "kmalloc_heap_end s2 = end_addr" "kmalloc_break s2 = B" "freelist_head s2 = NULL"
    "seg_size s2 B = m" "seg_next s2 B = NULL" "seg_size s2 A = n" "seg_next s2 A = NULL"
    using S2 nz r1 by (auto simp: word_unat_eq_iff fresh_heap_def)
  have "two_blocks s2 A n B m" unfolding two_blocks_def using r2 wA A B low up by (intro conjI) simp_all
  with m1 m2 r2 show ?thesis by blast
qed

lemma two_blocks_valid:
  assumes "two_blocks s A n B m"
  shows "pointer_is_valid s (A + HDR)" "HDR < A + HDR" "HDR < B + HDR" "A \<noteq> B"
proof -
  note T = assms[unfolded two_blocks_def]
  have up: "unat (kmalloc_heap_start s) < 65536" using unsigned_less[of "kmalloc_heap_start s"] by simp
  have nz: "unat (A + HDR) = unat A + 4" "unat (B + HDR) = unat B + 4" using T up by (auto simp: unat_plus_if')
  show "HDR < A + HDR" "HDR < B + HDR" "A \<noteq> B" using T nz by (auto simp: word_less_nat_alt)
  show "pointer_is_valid s (A + HDR)" using T up nz
    by (auto simp: pointer_is_valid_def MAX_HEAP_SIZE_def word_less_nat_alt word_le_nat_alt unat_sub_if')
qed

lemma kfree_two_blocks:
  assumes t: "two_blocks s A n B m"
  shows "\<exists>s1 s2. kfree (A + HDR) s = Some s1 \<and> kfree (B + HDR) s1 = Some s2 \<and> freelist_head s2 = B \<and> seg_size s2 B = 0 \<and>
    seg_next s2 B = NULL \<and> kmalloc_break s2 = kmalloc_heap_start s \<and> kmalloc_heap_start s2 = kmalloc_heap_start s \<and>
    kmalloc_heap_end s2 = kmalloc_heap_end s"
proof -
  note T = t[unfolded two_blocks_def]
  have up: "unat (kmalloc_heap_start s) < 65536" using unsigned_less[of "kmalloc_heap_start s"] by simp
  have nz: "unat (A + HDR) = unat A + 4" "unat (B + HDR) = unat B + 4" using T up by (auto simp: unat_plus_if')
  note V = two_blocks_valid[OF t]
  have ap: "apart B A" by (rule apartI) (use T up in linarith)+
  have "A + HDR - HDR \<noteq> kmalloc_break s" "seg_size s (A + HDR - HDR) = n" using T V(4) by auto
  from kfree_upper[OF _ V(1,2) this] T obtain s1 where s1: "kfree (A + HDR) s = Some s1" "free_pieces s1 [(A, n)]"
    "kmalloc_break s1 = kmalloc_break s" "kmalloc_heap_start s1 = kmalloc_heap_start s" "kmalloc_heap_end s1 = kmalloc_heap_end s"
    "writes_only {A} s s1" unfolding add_diff_cancel_right' by blast
  have h: "seg_size s1 B = m" "seg_next s1 B = NULL" using writes_only_header[OF s1(6), of B] ap T by simp_all
  have v1: "pointer_is_valid s1 (B + HDR)" using s1(3-5) h T up nz
    by (auto simp: pointer_is_valid_def MAX_HEAP_SIZE_def word_less_nat_alt word_le_nat_alt unat_sub_if')
  have e: "B + HDR - HDR = kmalloc_break s1" "seg_size s1 (B + HDR - HDR) = m" "B + HDR + m = A" "unat (B + HDR - HDR) + 4 \<le> unat A"
    using T s1(3) h by auto
  have st: "A + HDR + n = kmalloc_heap_start s" using T by blast
  from kfree_lower[OF s1(2) v1 V(3) e] s1(1,4,5) show ?thesis unfolding st add_diff_cancel_right' by auto
qed

text \<open>C36: A free list that is corrupted by correct calls: two blocks are allocated from an initialised heap and
  freed in the same order. The second \<^const>\<open>kfree\<close> gives both back to the heap, but the free list still
  holds the erased header of the second one, below the break. Then two requests for the size of both
  blocks get the same block.\<close>

theorem kfree_leaves_erased_piece:
  assumes "init_kmalloc start end_addr s = (1, s0)" "0 < end_addr" "unat n + unat m + 8 \<le> unat start - unat end_addr"
  shows "\<exists>a b s1 s2 s3 s4 s5 s6. kmalloc n s0 = Some (a, s1) \<and> kmalloc m s1 = Some (b, s2) \<and>
    kfree a s2 = Some s3 \<and> kfree b s3 = Some s4 \<and>
    kmalloc_break s4 = start \<and> freelist_head s4 = b - HDR \<and> freelist_head s4 < kmalloc_break s4 \<and>
    kmalloc (n + m + 4) s4 = Some (b, s5) \<and> kmalloc (n + m + 4) s5 = Some (b, s6)"
proof -
  from kmalloc_two_blocks[OF assms] obtain A B s1 s2 where m: "kmalloc n s0 = Some (A + HDR, s1)" "kmalloc m s1 = Some (B + HDR, s2)"
    "two_blocks s2 A n B m" "kmalloc_heap_start s2 = start" "kmalloc_heap_end s2 = end_addr" by blast
  note T = m(3)[unfolded two_blocks_def m(4,5)]
  from kfree_two_blocks[OF m(3)] obtain s3 s4 where f: "kfree (A + HDR) s2 = Some s3" "kfree (B + HDR) s3 = Some s4" "freelist_head s4 = B"
    "seg_size s4 B = 0" "seg_next s4 B = NULL" "kmalloc_break s4 = start" "kmalloc_heap_start s4 = start" "kmalloc_heap_end s4 = end_addr"
    unfolding m(4,5) by blast
  let ?L = "n + m + 4"
  have L: "unat ?L = unat n + unat m + 4" "?L \<noteq> 0"
  proof -
    have "unat start < 65536" using unsigned_less[of start] by simp
    with T show "unat ?L = unat n + unat m + 4" by (auto simp: unat_plus_if')
    then show "?L \<noteq> 0" by (metis add_is_0 unsigned_0 zero_neq_numeral)
  qed
  have B: "B \<noteq> NULL" "B < start" using T by (auto simp: word_less_nat_alt)
  have find: "find_piece s4 ?L (freelist_head s4) NULL NULL = Some (NULL, NULL, NULL)"
    using f(3-5) L(2) B(1) by (simp add: find_piece.simps)
  have fit: "unat (kmalloc_heap_end s4) + unat ?L + 4 \<le> unat (kmalloc_break s4)" unfolding f(6,8) L(1) using T by linarith
  have ret: "start - ?L = B + HDR" "start - (?L + HDR) = B" using T by (auto simp: algebra_simps)
  have "0 < kmalloc_heap_end s4" "kmalloc_break s4 \<le> kmalloc_heap_start s4" using f assms(2) by simp_all
  from kmalloc_grow[OF find this fit] obtain s5 where k: "kmalloc ?L s4 = Some (B + HDR, s5)" "s5 = write_seg_header B ?L NULL (s4\<lparr>kmalloc_break := B\<rparr>)"
    unfolding f(6) ret by blast
  then have "freelist_head s5 = B" "seg_size s5 B = ?L" using f(3) by simp_all
  then have "find_piece s5 ?L (freelist_head s5) NULL NULL = Some (B, NULL, NULL)" using B(1) by (simp add: find_piece.simps)
  then obtain s6 where "kmalloc ?L s5 = Some (B + HDR, s6)" using B(1) by (simp add: kmalloc_def Let_def)
  with m f k B show ?thesis by (intro exI[of _ "A + HDR"] exI[of _ "B + HDR"]) auto
qed

theorem kfree_leaves_erased_piece_witness:
  "\<exists>s0 a b s1 s2 s3 s4. init_kmalloc 100 40 (ex_heap [] 0) = (1, s0) \<and> kmalloc 8 s0 = Some (a, s1) \<and> kmalloc 3 s1 = Some (b, s2) \<and>
    kfree a s2 = Some s3 \<and> kfree b s3 = Some s4 \<and> freelist_head s4 < kmalloc_break s4"
proof -
  have i: "init_kmalloc 100 40 (ex_heap [] 0) = (1, snd (init_kmalloc 100 40 (ex_heap [] 0)))" by (simp add: init_kmalloc_def)
  from kfree_leaves_erased_piece[OF i, of 8 3] i show ?thesis by (simp del: One_nat_def) blast
qed

end
