(* ===== verification/Kmalloc_Realloc.thy ===== *)
theory Kmalloc_Realloc
  imports Kmalloc_Free
begin

text \<open>
  \<open>krealloc\<close> of \<open>others/kmalloc.c\<close>: what it does when a block has to move, grows at the break
  or shrinks, and the requests of \<open>kmalloc\<close> whose size does not fit into 16 bits with the header.
\<close>

section \<open>Bytes outside of the headers\<close>

lemma writes_only_mem: "writes_only {p} s t \<Longrightarrow> HDR \<le> a - p \<Longrightarrow> mem t a = mem s a"
  by (simp add: writes_only_def)

lemma below_header: "unat a < unat p \<Longrightarrow> unat p + 4 \<le> 65536 \<Longrightarrow> HDR \<le> a - p"
  by (simp add: word_le_nat_alt unat_sub_if')

lemma above_header: "unat p + 4 \<le> unat a \<Longrightarrow> HDR \<le> a - p"
  by (simp add: word_le_nat_alt unat_sub_if')

lemma mem_copy_regs [simp]:
  "kmalloc_break (mem_copy d r n s) = kmalloc_break s" "freelist_head (mem_copy d r n s) = freelist_head s"
  "kmalloc_heap_start (mem_copy d r n s) = kmalloc_heap_start s" "kmalloc_heap_end (mem_copy d r n s) = kmalloc_heap_end s"
  by (simp_all add: mem_copy_def)

lemma mem_copy_outside: "unat a < unat d \<Longrightarrow> unat d + unat n \<le> 65536 \<Longrightarrow> mem (mem_copy d r n s) a = mem s a"
  by (auto simp: mem_copy_def word_less_nat_alt unat_sub_if')

lemma mem_copy_inside: "i < n \<Longrightarrow> mem (mem_copy d r n s) (d + i) = mem s (r + i)"
  by (simp add: mem_copy_def)

text \<open>The headers below the target of a copy stay.\<close>

lemma mem_copy_header:
  assumes "unat p + 4 \<le> unat d" "unat d + unat n \<le> 65536"
  shows "seg_size (mem_copy d r n s) p = seg_size s p" "seg_next (mem_copy d r n s) p = seg_next s p"
proof -
  have "mem (mem_copy d r n s) (p + i) = mem s (p + i)" if "unat i \<le> 3" for i
    by (rule mem_copy_outside) (use that assms unsigned_less[of d] in \<open>simp_all add: unat_plus_if'\<close>)
  from this[of 0] this[of 1] this[of 2] this[of 3]
  show "seg_size (mem_copy d r n s) p = seg_size s p" "seg_next (mem_copy d r n s) p = seg_next s p"
    by (simp_all add: seg_size_def seg_next_def ld16_def add.assoc)
qed

section \<open>A block that has to move\<close>

text \<open>The part of \<^const>\<open>krealloc\<close> that moves a block which has grown.\<close>

lemma krealloc_moves:
  assumes "two_blocks s A n B m" "unat n < unat len" "unat len - unat n < 32768"
  shows "krealloc (A + HDR) len s = do {
     (q, s) \<leftarrow> kmalloc len s;
     if q = NULL then Some (NULL, s)
     else do { s \<leftarrow> kfree (A + HDR) (mem_copy (A + HDR) q (seg_size s A) s); Some (q, s) }
   }"
proof -
  note T = assms(1)[unfolded two_blocks_def]
  note V = two_blocks_valid[OF assms(1)]
  have u: "unat (len - n) = unat len - unat n" using assms(2) by (simp add: unat_sub_if')
  then have "in_int16 (uint (len - n))" using assms(3) by (simp add: in_int16_def uint_nat)
  from sint_word_of_int16[OF this] have "sint (len - n) = uint (len - n)" by simp
  with u assms(2) have d: "len - n \<noteq> 0" "\<not> sint (len - n) < 0" by auto
  have "find_right s A NULL = Some NULL" by (simp add: find_right.simps)
  moreover have "grow_in_place (A + HDR) len (len - n) A NULL s = (False, NULL, A, s)"
    using T V(4) by (simp add: grow_in_place_def)
  ultimately show ?thesis using T V(1) d by (simp add: krealloc_def Let_def)
qed

text \<open>The states of this move: a new block at the break, a copy into the old block, a free.\<close>

lemma krealloc_steps:
  assumes t: "two_blocks s A n B m" and len: "unat n < unat len" "unat len - unat n < 32768"
    and fit: "unat (kmalloc_heap_end s) + unat len + 4 \<le> unat B"
  shows "\<exists>s1 t. krealloc (A + HDR) len s = Some (B - len, t) \<and> writes_only {B - len - HDR} s s1 \<and>
    seg_size s1 (B - len - HDR) = len \<and> writes_only {A} (mem_copy (A + HDR) (B - len) n s1) t \<and> free_pieces t [(A, n)]"
proof -
  note T = t[unfolded two_blocks_def]
  note V = two_blocks_valid[OF t]
  have up: "unat (kmalloc_heap_start s) < 65536" using unsigned_less[of "kmalloc_heap_start s"] by simp
  define q where "q = B - len"
  have uq: "unat q + unat len = unat B" using fit by (simp add: q_def unat_sub_if')
  have up4: "unat q - 4 + 4 = unat q" "unat (q - HDR) = unat q - 4" using fit uq by (simp_all add: unat_sub_if')
  have qz: "q \<noteq> NULL" using fit uq by (auto simp: word_unat_eq_iff)
  have h: "B - (len + HDR) = q - HDR" by (simp add: q_def)
  define s1 where "s1 = write_seg_header (q - HDR) len NULL (s\<lparr>kmalloc_break := q - HDR\<rparr>)"
  have f: "fresh_heap s" using T by (auto simp: fresh_heap_def word_less_nat_alt word_le_nat_alt)
  have m1: "kmalloc len s = Some (q, s1)"
    using kmalloc_fresh[OF f, of len] fit T unfolding s1_def h[symmetric] by (simp add: q_def)
  have w1: "writes_only {q - HDR} s s1" unfolding s1_def by (intro writes_only_set writes_only_refl) simp
  have qA: "apart A (q - HDR)" by (rule apart_sym, rule apartI) (use T up uq up4 in linarith)+
  have A1: "seg_size s1 A = n" "seg_next s1 A = NULL" using T writes_only_header[OF w1, of A] qA by auto
  define s2 where "s2 = mem_copy (A + HDR) q n s1"
  have uA: "unat (A + HDR) = unat A + 4" using T up by (auto simp: unat_plus_if')
  have cp: "unat (A + HDR) + unat n \<le> 65536" using T up unfolding uA by linarith
  have A2: "seg_size s2 A = n" "seg_next s2 A = NULL" using mem_copy_header[OF _ cp, of A q s1] A1 uA by (auto simp: s2_def)
  have r2: "kmalloc_break s2 = q - HDR" "freelist_head s2 = NULL" "kmalloc_heap_start s2 = kmalloc_heap_start s"
    "kmalloc_heap_end s2 = kmalloc_heap_end s" using T by (simp_all add: s2_def s1_def)
  have v: "pointer_is_valid s2 (A + HDR)" using V(1) A2 T uq up4
    by (auto simp: pointer_is_valid_def MAX_HEAP_SIZE_def r2 word_less_nat_alt)
  have "A + HDR - HDR \<noteq> kmalloc_break s2" "seg_size s2 (A + HDR - HDR) = n" using A2 apart_ne[OF qA] r2(1) by auto
  from kfree_upper[OF r2(2) v V(2) this] obtain t where t: "kfree (A + HDR) s2 = Some t" "free_pieces t [(A, n)]" "writes_only {A} s2 t"
    unfolding add_diff_cancel_right' by blast
  have "krealloc (A + HDR) len s = Some (q, t)"
    unfolding krealloc_moves[OF assms(1-3)] m1 using t(1) qz A1 by (simp add: s2_def)
  then show ?thesis using w1 t(2,3) unfolding q_def s2_def by (intro exI[of _ s1] exI[of _ t]) (simp add: s1_def q_def)
qed

text \<open>C40: A block that has to move loses its contents: \<^const>\<open>krealloc\<close> passes the arguments of
  \<^term>\<open>memcpy\<close> in the wrong order. The new block keeps the bytes that were in the memory before, the
  contents of the old block are overwritten with them, and the old block is freed.\<close>

theorem krealloc_drops_contents:
  assumes t: "two_blocks s A n B m" and len: "unat n < unat len" "unat len - unat n < 32768"
    and fit: "unat (kmalloc_heap_end s) + unat len + 4 \<le> unat B"
  shows "\<exists>t. krealloc (A + HDR) len s = Some (B - len, t) \<and> seg_size t (B - len - HDR) = len \<and>
    (\<forall>i < len. mem t (B - len + i) = mem s (B - len + i)) \<and>
    (\<forall>i < n. mem t (A + HDR + i) = mem s (B - len + i)) \<and> free_pieces t [(A, n)]"
proof -
  note T = t[unfolded two_blocks_def]
  have up: "unat (kmalloc_heap_start s) < 65536" using unsigned_less[of "kmalloc_heap_start s"] by simp
  define q where "q = B - len"
  have uq: "unat q + unat len = unat B" using fit by (simp add: q_def unat_sub_if')
  have up4: "unat q - 4 + 4 = unat q" "unat (q - HDR) = unat q - 4" using fit uq by (simp_all add: unat_sub_if')
  have qA: "apart (q - HDR) A" by (rule apartI) (use T up uq up4 in linarith)+
  have uA: "unat (A + HDR) = unat A + 4" using T up by (auto simp: unat_plus_if')
  have cp: "unat (A + HDR) + unat n \<le> 65536" using T up unfolding uA by linarith
  obtain s1 t where K: "krealloc (A + HDR) len s = Some (q, t)" and w1: "writes_only {q - HDR} s s1"
    and h1: "seg_size s1 (q - HDR) = len" and wt: "writes_only {A} (mem_copy (A + HDR) q n s1) t" and ft: "free_pieces t [(A, n)]"
    using krealloc_steps[OF assms] unfolding q_def by blast
  have "seg_size t (q - HDR) = len"
  proof -
    have "seg_size t (q - HDR) = seg_size (mem_copy (A + HDR) q n s1) (q - HDR)"
      by (rule writes_only_header(1)[OF wt]) (use qA in simp)
    also have "\<dots> = seg_size s1 (q - HDR)"
      by (rule mem_copy_header(1)[OF _ cp]) (use T uq up4 uA in linarith)
    finally show ?thesis by (simp add: h1)
  qed
  moreover have "mem t (q + i) = mem s (q + i)" if "i < len" for i
  proof -
    have i: "unat (q + i) = unat q + unat i" "unat i < unat len" using that uq up T by (auto simp: word_less_nat_alt unat_plus_if')
    then have "mem t (q + i) = mem (mem_copy (A + HDR) q n s1) (q + i)" using uq T up by (intro writes_only_mem[OF wt] below_header) auto
    also have "\<dots> = mem s1 (q + i)" 
      by (rule mem_copy_outside) (use i uq T up in \<open>auto simp: unat_plus_if'\<close>)
    also have "\<dots> = mem s (q + i)" using i up4 by (intro writes_only_mem[OF w1] above_header) auto
    finally show ?thesis .
  qed
  moreover have "mem t (A + HDR + i) = mem s (q + i)" if "i < n" for i
  proof -
    have i: "unat (A + HDR + i) = unat A + 4 + unat i" "unat (q + i) = unat q + unat i"
      using that T up uq len by (auto simp: word_less_nat_alt unat_plus_if')
    have "mem t (A + HDR + i) = mem (mem_copy (A + HDR) q n s1) (A + HDR + i)" using i by (intro writes_only_mem[OF wt] above_header) auto
    also have "\<dots> = mem s1 (q + i)" by (rule mem_copy_inside[OF that])
    also have "\<dots> = mem s (q + i)" using i up4 by (intro writes_only_mem[OF w1] above_header) auto
    finally show ?thesis .
  qed
  ultimately show ?thesis using K ft unfolding q_def by blast
qed

theorem krealloc_drops_contents_witness:
  "\<exists>t. krealloc 84 6 (ex_heap [(70, 6, NULL), (80, 2, NULL)] 70\<lparr>freelist_head := NULL, kmalloc_heap_start := 86\<rparr>) = Some (64, t) \<and>
     seg_size t 60 = 6 \<and> free_pieces t [(80, 2)]"
proof -
  have "two_blocks (ex_heap [(70, 6, NULL), (80, 2, NULL)] 70\<lparr>freelist_head := NULL, kmalloc_heap_start := 86\<rparr>) 80 2 70 6"
    by (simp add: two_blocks_def ex_heap_eval)
  from krealloc_drops_contents[OF this, of 6] show ?thesis by (auto simp: ex_heap_eval)
qed

section \<open>Growing at the break\<close>

text \<open>The block at the break grows by the whole new size and a header, not by the difference, and the
  header is written at the new break, while the pointer that is returned lies above it by the old
  size and a header.\<close>

lemma krealloc_at_break:
  assumes t: "two_blocks s A n B m" and len: "unat m < unat len" "unat len - unat m < 32768"
    and fit: "unat (kmalloc_heap_end s) + unat len + 4 \<le> unat B"
  shows "\<exists>q t. krealloc (B + HDR) len s = Some (q, t) \<and> kmalloc_break t = B - (len + HDR) \<and>
    seg_size t (kmalloc_break t) = len \<and> q = kmalloc_break t + HDR + (m + HDR)"
proof -
  note T = t[unfolded two_blocks_def]
  have up: "unat (kmalloc_heap_start s) < 65536" using unsigned_less[of "kmalloc_heap_start s"] by simp
  let ?nb = "B - (len + HDR)"
  have "unat (len + HDR) = unat len + 4" using fit T up by (simp add: unat_plus_if')
  then have nb: "unat ?nb + unat len + 4 = unat B" using fit by (simp add: unat_sub_if')
  have "grow_kmalloc_break (len + HDR) s = (?nb, s\<lparr>kmalloc_break := ?nb\<rparr>) \<and> ?nb \<noteq> NULL"
    using grow_break_fits[of s len] fit T by (auto simp: word_less_nat_alt word_le_nat_alt)
  then have g: "grow_kmalloc_break (len + HDR) s = (?nb, s\<lparr>kmalloc_break := ?nb\<rparr>)" "?nb \<noteq> NULL" by blast+
  have u: "unat (len - m) = unat len - unat m" using len by (simp add: unat_sub_if')
  then have "in_int16 (uint (len - m))" using len(2) by (simp add: in_int16_def uint_nat)
  from sint_word_of_int16[OF this] have "sint (len - m) = uint (len - m)" by simp
  with u len(1) have d: "len - m \<noteq> 0" "\<not> sint (len - m) < 0" by auto
  have v: "pointer_is_valid s (B + HDR)" using T up two_blocks_valid(3)[OF t]
    by (auto simp: pointer_is_valid_def MAX_HEAP_SIZE_def word_less_nat_alt word_le_nat_alt unat_sub_if' unat_plus_if')
  have gi: "grow_in_place (B + HDR) len (len - m) B NULL s = (False, B + HDR - (len - m), ?nb, s\<lparr>kmalloc_break := ?nb\<rparr>)"
    using T g by (simp add: grow_in_place_def)
  have q: "B + HDR - (len - m) = ?nb + HDR + (m + HDR)" by simp
  have "unat (B + HDR) = unat B + 4" using T up by (simp add: unat_plus_if')
  then have "unat (len - m) < unat (B + HDR)" using u fit by linarith
  then have "B + HDR \<noteq> len - m" by auto
  then have qz: "B + HDR - (len - m) \<noteq> NULL" unfolding right_minus_eq .
  have ap: "apart ?nb B" by (rule apartI) (use nb T up in linarith)+
  have "find_right s B NULL = Some NULL" by (simp add: find_right.simps)
  then have "krealloc (B + HDR) len s = Some (B + HDR - (len - m),
      set_next B NULL (set_size B 0 (write_seg_header ?nb len NULL (s\<lparr>kmalloc_break := ?nb\<rparr>))))"
    using T v d qz unfolding krealloc_def Let_def add_diff_cancel_right' by (simp add: gi)
  then show ?thesis using q ap by (simp add: header_other del: diff_diff_add)
qed

section \<open>Sizes that wrap\<close>

text \<open>A request whose size and header do not fit into 16 bits: the break is not moved at all, the pointer
  is that of the block at the break, and the header of this block is overwritten.\<close>

lemma kmalloc_size_wraps:
  assumes "fresh_heap s"
  shows "kmalloc 65532 s = Some (kmalloc_break s + HDR, write_seg_header (kmalloc_break s) 65532 NULL s)"
proof -
  have f: "freelist_head s = NULL" "kmalloc_break s \<noteq> NULL" "\<not> kmalloc_break s < kmalloc_heap_end s"
    "\<not> kmalloc_break s > kmalloc_heap_start s"
    using assms by (auto simp: fresh_heap_def)
  have "find_piece s 65532 (freelist_head s) NULL NULL = Some (NULL, NULL, NULL)" using f(1) by (simp add: find_piece.simps)
  moreover have z: "(65532 :: u16) + HDR = 0" by simp
  moreover have "grow_kmalloc_break 0 s = (kmalloc_break s, s)"
    using f by (simp add: grow_kmalloc_break_def check_stack_integrity_def)
  moreover have w: "x - 65536 = x" for x :: u16
  proof -
    have "(65536 :: u16) = 0" by simp
    then show ?thesis by (simp only: diff_zero)
  qed
  moreover have "x - 65532 = x + HDR" for x :: u16
  proof -
    have "x - 65532 = x - 65532 + (65532 + HDR)" unfolding z by simp
    then show ?thesis by simp
  qed
  ultimately show ?thesis using f(2) unfolding kmalloc_def z by (simp add: Let_def w)
qed

section \<open>Shrinking\<close>

text \<open>A block that shrinks by more than a header keeps its upper end: the pointer that is returned is to the
  last bytes of the old block, the header in front of it overwrites contents, and nothing is
  moved.\<close>

lemma krealloc_shrinks_to_tail:
  assumes "pointer_is_valid s p" "seg_size s (p - HDR) = n" "unat len + 4 < unat n" "unat n - unat len < 32768"
  shows "krealloc p len s = do {
     s \<leftarrow> kfree p (set_size (p - HDR) (n - len - HDR) (write_seg_header (p + (n - len) - HDR) len NULL s));
     Some (p + (n - len), s)
   }"
proof -
  have u: "uint n = int (unat n)" "uint len = int (unat len)" by (rule uint_nat)+
  then have r: "in_int16 (uint len - uint n)" unfolding in_int16_def u using assms(3,4) by linarith
  have "sint (len - n) = uint len - uint n" using sint_word_of_int16[OF r] by simp
  then have d: "sint (len - n) < 0" unfolding u using assms(3) by linarith
  have "unat (n - len) = unat n - unat len" using assms(3) by (simp add: unat_sub_if')
  then have h: "\<not> n - len \<le> HDR" using assms(3) by (simp add: word_le_nat_alt)
  have "len - n \<noteq> 0" using assms(3) by auto
  with assms(1,2) d h show ?thesis by (simp add: krealloc_def Let_def)
qed

end
