(* ===== verification/Spec2Isabelle.thy ===== *)
theory Spec2Isabelle
  imports Progress Context Serial Kmalloc_Realloc
begin

text \<open>
  A verification development for ezRTOS, a small preemptive real-time kernel for 8-bit AVR
  processors (the sources are under \<open>src/p2/rtos\<close>).

  \<^bold>\<open>The program.\<close> Tasks call the functions of \<open>os.c\<close>. A call writes a request into the descriptor of
  the running task and enters the kernel (\<open>Enter_Kernel\<close> of \<open>kernel/hardware/cswitch.s\<close>), which saves the
  context on the stack of the task. The kernel (\<open>Kernel_Main_Loop\<close> of \<open>kernel/kernel.c\<close>) handles the
  request by a function of one of its modules (\<open>task\<close>, \<open>event\<close>, \<open>mutex\<close>, \<open>semaphore\<close>, \<open>mailbox\<close>),
  selects the next task when the request or the timer asks for it, and leaves through
  \<open>Exit_Kernel\<close>, which restores the context of the selected task. The timer interrupt counts ticks and
  makes the running task yield after 25 of them. The modules keep their objects on pointer lists
  (\<open>others/PtrList.c\<close>) and the tasks that wait for an object in a queue inside the object
  (\<open>others/Queue.c\<close>).

  \<^bold>\<open>The model.\<close> The target's \<open>int\<close>, \<open>unsigned\<close>, \<open>size_t\<close> and pointers have 16 bits and are 16-bit words. Memory is
  a typed heap for each kind of structure; a computation that may meet undefined behaviour has an
  \<open>option\<close> type, and \<open>None\<close> stands for it and for a loop that does not end. \<open>malloc\<close> of the C library is
  an allocator with a failure oracle. All global variables of the kernel are fields of \<open>kstate\<close>. The
  names of the definitions are those of the C functions; loops are definitions of their own.

  \<^bold>\<open>The theories and what they show.\<close>
  \<^item> \<open>Prelude\<close>: types, heaps, \<open>malloc\<close> and \<open>free\<close>, signed arithmetic. \<open>Chain\<close>: linked structures and the
    list loop.
  \<^item> \<open>PtrList\<close> (\<open>others/PtrList.c\<close>): adding, finding and removing refine the operations on a list and
    leave the other lists alone; the locale \<open>pointer_lists\<close> states this contract for the clients.
  \<^item> \<open>Queue\<close> (\<open>others/Queue.c\<close>): queues are FIFO and independent of each other; locale \<open>fifo_family\<close>,
    interpreted for pointer and for integer queues.
  \<^item> \<open>Kernel_State\<close> (\<open>kernel_shared.h\<close>, \<open>kernel_errors.h\<close>, the headers of the modules): the data model.
    \<open>Objects\<close>: a table of objects with identifiers and the locale \<open>kernel_objects\<close> of creation and lookup,
    interpreted in all six modules. \<open>Invariant\<close>: the well-formed states \<open>kwf\<close>, which every
    operation keeps. \<open>Examples\<close>: concrete states for the instances of the theorems.
  \<^item> \<open>Task\<close> (\<open>task/task.c\<close>, \<open>hardware/cpuarch.c\<close>): creation with the initial stack, suspend, resume, sleep,
    terminate.
  \<^item> \<open>Scheduler\<close>, \<open>Selection\<close>, \<open>Dispatch\<close> (\<open>kernel.c\<close>): ticks and timeouts, which task is selected
    (the loop equals a function without loop variables), what a dispatch does, round robin,
    starvation.
  \<^item> \<open>Semaphore\<close>, \<open>Mutex\<close>, \<open>Event\<close>, \<open>Event_Group\<close>, \<open>Mailbox\<close>: each operation on every branch; mutexes refine a
    recursive lock with a FIFO of waiting tasks, and of the tasks that have locked one over a sequence of calls all but one
    wait; mailboxes refine a bounded
    channel with waiting senders and receivers, event groups lose no wake-up.
  \<^item> \<open>Steady\<close>, \<open>Kernel\<close> (\<open>kernel.c\<close>): what the 27 requests other than termination leave alone; the request
    switch, the iteration of the main loop, reset and start.
  \<^item> \<open>OS_API\<close> (\<open>os.c\<close>): every system call as the request it makes and the part after its return.
  \<^item> \<open>System\<close>: the step relation of tasks, timer and kernel; its invariant, the types of the pointers in
    the queues, and that a task resumes with the stack pointer it had. \<open>Progress\<close>: for each request what it
    needs to be served (memory, objects and arguments), and that an iteration of the main loop then returns
    to a task without undefined behaviour and without waiting for a tick.
  \<^item> \<open>Context\<close> (\<open>hardware/cswitch.s\<close>): the assembly on registers and data memory; a context survives the
    switch out and in, and the initial stack of \<open>Task\<close> starts the function of the task.
  \<^item> \<open>Hardware\<close> (\<open>hardware/hw.c\<close>): the set-up of the timer. \<open>Serial\<close> (\<open>hardware/uart/uart.c\<close>, \<open>stdio_init\<close>, the
    printing functions of \<open>kernel.c\<close>): the characters that are sent, and that the printed process table
    can be read back from them.
  \<^item> \<open>Kmalloc\<close>, \<open>Kmalloc_Free\<close>, \<open>Kmalloc_Realloc\<close> (\<open>others/kmalloc.c\<close>): the allocator that is to replace
    \<open>malloc\<close>, on the bytes of its heap: allocation in sequence, \<open>kfree\<close> as a refinement of an ordered
    free list with coalescing, freeing in reverse order, and the runs in which it goes wrong.

  \<^bold>\<open>Bounds.\<close> No definition has fuel. \<open>idle_loop\<close>, the loop in which the kernel waits for a ready task, recurses
  on the list \<open>env\<close> of the numbers of timer interrupts that arrive in its iterations, since its length
  depends on the timer; \<open>None\<close> there means that the kernel still waits when the list ends. The waiting loops
  of the serial line recurse likewise on the list of values that the status register is going to show.
  Loops over linked structures are partial functions, and their lemmas show that they return on
  well-formed structures. \<open>sys_step\<close> assumes for a kernel step that the 16-bit counters of identifiers do not wrap
  (\<open>ids_left\<close>).

  \<^bold>\<open>What is not modelled.\<close> The messages that the kernel, the system calls and the allocator print, apart from
  the two functions and the initialisation in \<open>Serial\<close>; the test programs. In \<open>System\<close> a
  task is any program that stays in its own memory: stack overflow into another block is outside of the
  typed heaps. \<open>Context\<close> has one flat memory, and its theorems state as a hypothesis that the saved bytes were kept. \<open>memcpy\<close> in \<open>kmalloc.c\<close> copies as
  if its blocks do not overlap.
\<close>

end
